(* ===== verification/Prelude.thy ===== *)
theory Prelude
  imports Main "HOL-Library.Word" "HOL-Library.While_Combinator"
begin

text \<open>
  Shared vocabulary of the development: machine words and addresses, the faults a C
  function can end in, the combinators the models of the C functions are written with
  (assertion, dereference, call, loop), and the generic lemmas on singly linked chains in
  a heap that the freelist, the stack, the queue, the slist, the hash map and the trie share.

  A C function is modelled as a HOL function from its arguments and the memory to a
  \<open>res\<close>: \<open>Ok\<close> of the returned values and the new memory, or \<open>Fault\<close> with the way it
  goes wrong: a failed \<open>assert\<close>, a dereference of NULL or of memory that is not an object
  of that type, a \<open>free\<close> of something that is not allocated, a division by zero, a shift by
  the width of its operand or more, or a loop
  that never ends.
\<close>

unbundle bit_operations_syntax

section \<open>Words, addresses, faults\<close>

text \<open>\<open>atom_t\<close> is \<open>unsigned long long int\<close>; a pointer is cast to it in every CAS.\<close>

type_synonym u64 = "64 word"
type_synonym u32 = "32 word"
type_synonym u16 = "16 word"
type_synonym i32 = "32 word"
type_synonym u8 = "8 word"
type_synonym addr = "64 word"

abbreviation NULL :: addr where
  "NULL \<equiv> 0"

datatype fault = AssertFail | BadDeref | BadFree | Diverge | DivByZero | BadShift

datatype 'a res = Ok 'a | Fault fault

fun is_ok :: "'a res \<Rightarrow> bool" where
  "is_ok (Ok _) = True"
| "is_ok (Fault _) = False"

named_theorems c_defs \<open>the combinators the models of C functions are written with\<close>

text \<open>Sequencing: run \<open>k\<close> on the result of a call, stop at a fault.\<close>

definition call :: "'a res \<Rightarrow> ('a \<Rightarrow> 'b res) \<Rightarrow> 'b res" where
  [c_defs]: "call r k = (case r of Ok x \<Rightarrow> k x | Fault e \<Rightarrow> Fault e)"

text \<open>\<open>assert(P); k\<close>\<close>

definition c_assert :: "bool \<Rightarrow> 'b res \<Rightarrow> 'b res" where
  [c_defs]: "c_assert P k = (if P then k else Fault AssertFail)"

text \<open>Read the object a pointer points to, in the heap of that object's type.\<close>

definition deref :: "(addr \<Rightarrow> 'r option) \<Rightarrow> addr \<Rightarrow> ('r \<Rightarrow> 'b res) \<Rightarrow> 'b res" where
  [c_defs]: "deref h p k = (case h p of None \<Rightarrow> Fault BadDeref | Some x \<Rightarrow> k x)"

lemma call_simps [simp]:
  "call (Ok x) k = k x"
  "call (Fault e) k = Fault e"
  by (simp_all add: call_def)

lemma call_eq_Ok:
  "(call r k = Ok y) \<longleftrightarrow> (\<exists>x. r = Ok x \<and> k x = Ok y)"
  by (cases r) auto

lemma call_assoc: "call (call r k) l = call r (\<lambda>x. call (k x) l)"
  by (cases r) auto

lemma c_assert_simps [simp]:
  "c_assert True k = k"
  "c_assert False k = Fault AssertFail"
  by (simp_all add: c_assert_def)

lemma c_assert_eq_Ok: "(c_assert P k = Ok y) \<longleftrightarrow> P \<and> k = Ok y"
  by (cases P) auto

lemma deref_Some [simp]: "h p = Some x \<Longrightarrow> deref h p k = k x"
  by (simp add: deref_def)

lemma deref_None [simp]: "h p = None \<Longrightarrow> deref h p k = Fault BadDeref"
  by (simp add: deref_def)

lemma deref_eq_Ok: "(deref h p k = Ok y) \<longleftrightarrow> (\<exists>x. h p = Some x \<and> k x = Ok y)"
  by (cases "h p") auto

lemmas c_eq_Ok = call_eq_Ok c_assert_eq_Ok deref_eq_Ok

section \<open>Loops\<close>

text \<open>
  A C loop is a body that either goes round again with a new state or leaves with a
  result. \<open>cloop\<close> runs it; a loop that never leaves is the value \<open>Fault Diverge\<close>, so that
  "the loop ends" is a statement about the model and not a property of its definition.
\<close>

datatype ('s, 'r) ctl = Again 's | Done 'r

definition cloop :: "('s \<Rightarrow> ('s, 'r) ctl res) \<Rightarrow> 's \<Rightarrow> 'r res" where
  "cloop body s =
     (case while_option
        (\<lambda>x. case x of Ok (Again _) \<Rightarrow> True | Ok (Done _) \<Rightarrow> False | Fault _ \<Rightarrow> False)
        (\<lambda>x. case x of Ok (Again t) \<Rightarrow> body t | Ok (Done r) \<Rightarrow> Ok (Done r) | Fault e \<Rightarrow> Fault e)
        (Ok (Again s)) of
        Some (Ok (Done r)) \<Rightarrow> Ok r
      | Some (Ok (Again _)) \<Rightarrow> Fault Diverge
      | Some (Fault e) \<Rightarrow> Fault e
      | None \<Rightarrow> Fault Diverge)"

lemma cloop_unfold [code]:
  "cloop body s =
     (case body s of
        Ok (Again t) \<Rightarrow> cloop body t
      | Ok (Done r) \<Rightarrow> Ok r
      | Fault e \<Rightarrow> Fault e)"
proof (cases "body s")
  case (Ok c)
  then show ?thesis
  proof (cases c)
    case (Again t)
    with Ok show ?thesis
      by (subst cloop_def, subst while_option_unfold) (simp add: cloop_def)
  next
    case (Done r)
    with Ok show ?thesis
      by (subst cloop_def, subst while_option_unfold, subst while_option_unfold) simp
  qed
next
  case (Fault e)
  then show ?thesis
    by (subst cloop_def, subst while_option_unfold, subst while_option_unfold) simp
qed

lemma cloop_Done [simp]: "body s = Ok (Done r) \<Longrightarrow> cloop body s = Ok r"
  by (subst cloop_unfold) simp

lemma cloop_Again: "body s = Ok (Again t) \<Longrightarrow> cloop body s = cloop body t"
  by (subst cloop_unfold) simp

lemma cloop_Fault [simp]: "body s = Fault e \<Longrightarrow> cloop body s = Fault e"
  by (subst cloop_unfold) simp

text \<open>Total correctness: an invariant, and a measure that goes down.\<close>

lemma cloop_total:
  assumes inv: "I s"
    and again: "\<And>s. I s \<Longrightarrow>
      (\<exists>t. body s = Ok (Again t) \<and> I t \<and> (mu t :: nat) < mu s) \<or>
      (\<exists>r. body s = Ok (Done r) \<and> Q r)"
  shows "\<exists>r. cloop body s = Ok r \<and> Q r"
  using inv
proof (induction "mu s" arbitrary: s rule: less_induct)
  case less
  from again [OF less.prems] show ?case
  proof (elim disjE exE conjE)
    fix t assume "body s = Ok (Again t)" "I t" "mu t < mu s"
    then show ?thesis
      using less.hyps [of t] cloop_Again [of body s t] by simp
  next
    fix r assume "body s = Ok (Done r)" "Q r"
    then show ?thesis by simp
  qed
qed

text \<open>
  Partial correctness: \<open>ok_post Q r\<close> says that \<open>Q\<close> holds of the result if there is one. The
  rules take a function apart statement by statement.
\<close>

definition ok_post :: "('a \<Rightarrow> bool) \<Rightarrow> 'a res \<Rightarrow> bool" where
  "ok_post Q r \<longleftrightarrow> (\<forall>x. r = Ok x \<longrightarrow> Q x)"

named_theorems ok_rules \<open>rules for partial correctness\<close>

lemma ok_postD: "ok_post Q r \<Longrightarrow> r = Ok x \<Longrightarrow> Q x"
  by (simp add: ok_post_def)

lemma ok_post_mono: "ok_post Q r \<Longrightarrow> (\<And>x. Q x \<Longrightarrow> P x) \<Longrightarrow> ok_post P r"
  by (simp add: ok_post_def)

lemma ok_post_Ok [ok_rules]: "Q x \<Longrightarrow> ok_post Q (Ok x)"
  by (simp add: ok_post_def)

lemma ok_post_Fault [ok_rules]: "ok_post Q (Fault e)"
  by (simp add: ok_post_def)

lemma ok_post_call: "ok_post (\<lambda>x. ok_post Q (k x)) r \<Longrightarrow> ok_post Q (call r k)"
  by (cases r) (simp_all add: ok_post_def)

lemma ok_post_assert [ok_rules]: "(b \<Longrightarrow> ok_post Q k) \<Longrightarrow> ok_post Q (c_assert b k)"
  by (cases b) (simp_all add: ok_post_def)

lemma ok_post_deref [ok_rules]: "(\<And>x. h p = Some x \<Longrightarrow> ok_post Q (k x)) \<Longrightarrow> ok_post Q (deref h p k)"
  by (cases "h p") (simp_all add: ok_post_def)

lemma ok_post_if [ok_rules]: "(b \<Longrightarrow> ok_post Q r) \<Longrightarrow> (\<not> b \<Longrightarrow> ok_post Q s) \<Longrightarrow> ok_post Q (if b then r else s)"
  by simp

lemma ok_post_prod [ok_rules]: "(\<And>a b. p = (a, b) \<Longrightarrow> ok_post Q (f a b)) \<Longrightarrow> ok_post Q (case p of (a, b) \<Rightarrow> f a b)"
  by (cases p) simp

lemma ok_post_let [ok_rules]: "ok_post Q (f x) \<Longrightarrow> ok_post Q (let y = x in f y)"
  by simp

lemma ok_post_cloop:
  assumes inv: "I s" and body: "\<And>s. I s \<Longrightarrow> ok_post (\<lambda>c. case c of Again t \<Rightarrow> I t | Done r \<Rightarrow> Q r) (body s)"
  shows "ok_post Q (cloop body s)"
  unfolding ok_post_def
proof (intro allI impI)
  fix r assume run: "cloop body s = Ok r"
  let ?b = "\<lambda>x. case x of Ok (Again _) \<Rightarrow> True | Ok (Done _) \<Rightarrow> False | Fault _ \<Rightarrow> False"
  let ?c = "\<lambda>x. case x of Ok (Again t) \<Rightarrow> body t | Ok (Done r) \<Rightarrow> Ok (Done r) | Fault e \<Rightarrow> Fault e"
  let ?P = "\<lambda>x. case x of Ok (Again t) \<Rightarrow> I t | Ok (Done r) \<Rightarrow> Q r | Fault e \<Rightarrow> True"
  obtain x where x: "while_option ?b ?c (Ok (Again s)) = Some x" and r: "x = Ok (Done r)"
    using run by (auto simp: cloop_def split: option.splits res.splits ctl.splits)
  have step: "body t = Ok (Again u) \<Longrightarrow> I u" "body t = Ok (Done q) \<Longrightarrow> Q q" if "I t" for t u q
    using body [OF that] by (auto simp: ok_post_def)
  have "?P x"
    by (rule while_option_rule [where P = ?P, OF _ x]) (use inv in \<open>auto split: res.splits ctl.splits dest: step\<close>)
  then show "Q r" by (simp add: r)
qed

text \<open>A loop whose body always goes round again diverges.\<close>

lemma cloop_diverges:
  assumes inv: "I s" and again: "\<And>s. I s \<Longrightarrow> \<exists>t. body s = Ok (Again t) \<and> I t"
  shows "cloop body s = Fault Diverge"
proof -
  let ?b = "\<lambda>x. case x of Ok (Again _) \<Rightarrow> True | Ok (Done _) \<Rightarrow> False | Fault _ \<Rightarrow> False"
  let ?c = "\<lambda>x. case x of Ok (Again t) \<Rightarrow> body t | Ok (Done r) \<Rightarrow> Ok (Done r) | Fault e \<Rightarrow> Fault e"
  have "while_option ?b ?c (Ok (Again s)) = None"
  proof (rule ccontr)
    assume "while_option ?b ?c (Ok (Again s)) \<noteq> None"
    then obtain t where t: "while_option ?b ?c (Ok (Again s)) = Some t" by blast
    have "\<exists>u. t = Ok (Again u) \<and> I u"
      by (rule while_option_rule [where P = "\<lambda>x. \<exists>u. x = Ok (Again u) \<and> I u", OF _ t])
        (use again inv in auto)
    with while_option_stop [OF t] show False by auto
  qed
  then show ?thesis by (simp add: cloop_def)
qed

section \<open>Chains in a heap\<close>

text \<open>
  \<open>chain h p xs\<close>: following the links \<open>h\<close> from \<open>p\<close> visits exactly the nodes \<open>xs\<close> and
  ends in NULL. \<open>h q = None\<close> means that \<open>q\<close> is no node of this heap.
\<close>

fun chain :: "(addr \<Rightarrow> addr option) \<Rightarrow> addr \<Rightarrow> addr list \<Rightarrow> bool" where
  "chain h p [] \<longleftrightarrow> p = NULL"
| "chain h p (x # xs) \<longleftrightarrow> p = x \<and> x \<noteq> NULL \<and>
     (case h x of None \<Rightarrow> False | Some q \<Rightarrow> chain h q xs)"

lemma chain_Cons_iff:
  "chain h p (x # xs) \<longleftrightarrow> p = x \<and> x \<noteq> NULL \<and> (\<exists>q. h x = Some q \<and> chain h q xs)"
  by (auto split: option.splits)

lemma chain_NULL [simp]: "chain h NULL xs \<longleftrightarrow> xs = []"
  by (cases xs) auto

lemma chain_nonnull:
  "p \<noteq> NULL \<Longrightarrow> chain h p xs \<longleftrightarrow> (\<exists>q ys. xs = p # ys \<and> h p = Some q \<and> chain h q ys)"
  by (cases xs) (auto split: option.splits)

lemma chain_unique: "chain h p xs \<Longrightarrow> chain h p ys \<Longrightarrow> xs = ys"
proof (induction xs arbitrary: p ys)
  case Nil
  then show ?case by simp
next
  case (Cons x xs)
  then show ?case
    by (cases ys) (auto split: option.splits)
qed

lemma chain_cong: "(\<And>x. x \<in> set xs \<Longrightarrow> h x = h' x) \<Longrightarrow> chain h p xs = chain h' p xs"
  by (induction xs arbitrary: p) (auto split: option.splits)

lemma chain_frame: "chain h p xs \<Longrightarrow> (\<And>x. x \<in> set xs \<Longrightarrow> h' x = h x) \<Longrightarrow> chain h' p xs"
  using chain_cong [of xs h h' p] by auto

lemma chain_upd [simp]: "u \<notin> set xs \<Longrightarrow> chain (h(u := v)) p xs = chain h p xs"
  by (rule chain_cong) auto

lemma chain_not_NULL: "chain h p xs \<Longrightarrow> NULL \<notin> set xs"
  by (induction xs arbitrary: p) (auto split: option.splits)

lemma chain_dom: "chain h p xs \<Longrightarrow> x \<in> set xs \<Longrightarrow> h x \<noteq> None"
  by (induction xs arbitrary: p) (auto split: option.splits)

text \<open>\<open>seg h p xs q\<close>: the nodes \<open>xs\<close> lead from \<open>p\<close> to \<open>q\<close>.\<close>

fun seg :: "(addr \<Rightarrow> addr option) \<Rightarrow> addr \<Rightarrow> addr list \<Rightarrow> addr \<Rightarrow> bool" where
  "seg h p [] q \<longleftrightarrow> p = q"
| "seg h p (x # xs) q \<longleftrightarrow> p = x \<and> x \<noteq> NULL \<and>
     (case h x of None \<Rightarrow> False | Some r \<Rightarrow> seg h r xs q)"

lemma chain_append: "chain h p (xs @ ys) \<longleftrightarrow> (\<exists>q. seg h p xs q \<and> chain h q ys)"
  by (induction xs arbitrary: p) (auto split: option.splits)

lemma seg_append: "seg h p (xs @ ys) q \<longleftrightarrow> (\<exists>r. seg h p xs r \<and> seg h r ys q)"
  by (induction xs arbitrary: p) (auto split: option.splits)

lemma seg_cong: "(\<And>x. x \<in> set xs \<Longrightarrow> h x = h' x) \<Longrightarrow> seg h p xs q = seg h' p xs q"
  by (induction xs arbitrary: p) (auto split: option.splits)

lemma seg_frame: "seg h p xs q \<Longrightarrow> (\<And>x. x \<in> set xs \<Longrightarrow> h' x = h x) \<Longrightarrow> seg h' p xs q"
  using seg_cong [of xs h h' p q] by auto

lemma seg_upd [simp]: "u \<notin> set xs \<Longrightarrow> seg (h(u := v)) p xs q = seg h p xs q"
  by (rule seg_cong) auto

lemma chain_hd_notin: "chain h p xs \<Longrightarrow> h a = Some p \<Longrightarrow> a \<notin> set xs"
proof
  assume c: "chain h p xs" and a: "h a = Some p" and "a \<in> set xs"
  then obtain us vs where xs: "xs = us @ a # vs"
    by (auto simp: in_set_conv_decomp)
  with c a have "chain h p vs"
    by (auto simp: chain_append)
  with c have "xs = vs" by (rule chain_unique)
  with xs show False by simp
qed

lemma chain_distinct: "chain h p xs \<Longrightarrow> distinct xs"
proof (induction xs arbitrary: p)
  case Nil
  then show ?case by simp
next
  case (Cons x xs)
  then show ?case
    by (auto split: option.splits dest: chain_hd_notin)
qed

section \<open>Lists linked by pairs of pointer and counter\<close>

text \<open>The list from a head pair: pointers are elements, the last link is \<open>(NULL, 0)\<close>.\<close>

fun pchain :: "(addr \<Rightarrow> addr \<times> u64) \<Rightarrow> addr \<times> u64 \<Rightarrow> (addr \<times> u64) list \<Rightarrow> bool" where
  "pchain nx p [] \<longleftrightarrow> p = (NULL, 0)"
| "pchain nx p (q # qs) \<longleftrightarrow> p = q \<and> fst q \<noteq> NULL \<and> pchain nx (nx (fst q)) qs"

lemma pchain_upd: "x \<notin> fst ` set L \<Longrightarrow> pchain (nx(x := n)) p L = pchain nx p L"
  by (induction L arbitrary: p) auto

lemma pchain_unique: "pchain nx p L \<Longrightarrow> pchain nx p L' \<Longrightarrow> L = L'"
proof (induction L arbitrary: p L')
  case Nil
  then show ?case by (cases L') auto
next
  case (Cons q L)
  then show ?case by (cases L') auto
qed

text \<open>Elements pushed one after the other, each with the count of the pushes so far.\<close>

fun stamped :: "addr list \<Rightarrow> (addr \<times> u64) list" where
  "stamped [] = []"
| "stamped (x # xs) = (x, of_nat (Suc (length xs))) # stamped xs"

lemma stamped_fst [simp]: "map fst (stamped xs) = xs"
  by (induction xs) auto

lemma stamped_fst_set [simp]: "fst ` set (stamped xs) = set xs"
  by (metis list.set_map stamped_fst)

lemma stamped_snd:
  assumes "length xs < 2 ^ 64" and "c \<in> snd ` set (stamped xs)"
  shows "0 < unat c" "unat c \<le> length xs"
  using assms
  by (induction xs) (fastforce simp: unat_of_nat take_bit_nat_eq_self simp del: of_nat_Suc)+

lemma stamped_distinct: "length xs < 2 ^ 64 \<Longrightarrow> distinct (map snd (stamped xs))"
proof (induction xs)
  case (Cons x xs)
  have "unat (of_nat (Suc (length xs)) :: u64) = Suc (length xs)"
    using Cons.prems by (simp add: unat_of_nat take_bit_nat_eq_self del: of_nat_Suc)
  then have "of_nat (Suc (length xs)) \<notin> snd ` set (stamped xs)"
    using stamped_snd(2) [of xs] Cons.prems by fastforce
  then show ?case using Cons by simp
qed simp

section \<open>Counting down from numerals\<close>

text \<open>Concrete runs are evaluated by the simplifier, with numerals for the numbers of rounds.\<close>

named_theorems run_eval

lemma replicate_num [run_eval]: "replicate (numeral k) x = x # replicate (pred_numeral k) x"
  by (simp only: numeral_eq_Suc replicate.simps)

end
