(* ===== verification/CMem.thy ===== *)
theory CMem
  imports Prelude
begin

text \<open>
  The base layer, basic/lf_basic.c: the allocator wrappers (\<open>abstraction_malloc\<close>,
  \<open>aligned_malloc\<close> and their \<open>free\<close>s) over the C library's \<open>malloc\<close>/\<open>free\<close>, and the atomic
  primitives (\<open>abstraction_cas\<close>, \<open>abstraction_dcas\<close>, \<open>abstraction_increment\<close>,
  \<open>abstraction_sub\<close>).

  The state of the C allocator is the record \<open>c_mem\<close>, which the components extend with
  the heaps of their own structs. What \<open>malloc\<close> will answer is not determined by the
  program: \<open>m_script\<close> lists the addresses it will propose. A proposal that the C standard
  rules out (an address that is still allocated, or one that is not aligned for every
  type) and an exhausted script count as a failed allocation, so every script is a legal
  behaviour of \<open>malloc\<close>, an address may be handed out again once it has been freed, and a
  theorem for all scripts covers all of them. Likewise the contents of fresh memory are
  indeterminate in C: they are read from \<open>m_junk\<close>, an arbitrary function of the address.
\<close>

record c_mem =
  m_script :: "addr list"
  m_live :: "addr list"
  m_hdr :: "addr \<Rightarrow> addr option"
  m_junk :: "addr \<Rightarrow> u64"

section \<open>The C library's allocator\<close>

definition good_block :: "addr \<Rightarrow> bool" where
  "good_block p \<longleftrightarrow> p \<noteq> NULL \<and> 16 dvd unat p \<and> unat p + 16 < 2 ^ 64"

definition malloc :: "u64 \<Rightarrow> 'a c_mem_scheme \<Rightarrow> addr \<times> 'a c_mem_scheme" where
  "malloc sz m =
     (case m_script m of
        [] \<Rightarrow> (NULL, m)
      | p # ps \<Rightarrow>
          if good_block p \<and> p \<notin> set (m_live m)
          then (p, m\<lparr>m_script := ps, m_live := p # m_live m\<rparr>)
          else (NULL, m\<lparr>m_script := ps\<rparr>))"

definition free :: "addr \<Rightarrow> 'a c_mem_scheme \<Rightarrow> 'a c_mem_scheme res" where
  "free p m =
     (if p = NULL then Ok m
      else if p \<in> set (m_live m) then Ok (m\<lparr>m_live := remove1 p (m_live m)\<rparr>)
      else Fault BadFree)"

section \<open>lf_basic.c: allocation\<close>

definition abstraction_malloc :: "u64 \<Rightarrow> 'a c_mem_scheme \<Rightarrow> addr \<times> 'a c_mem_scheme" where
  "abstraction_malloc sz m = malloc sz m"

definition abstraction_free :: "addr \<Rightarrow> 'a c_mem_scheme \<Rightarrow> 'a c_mem_scheme res" where
  "abstraction_free memory m = free memory m"

text \<open>\<open>sizeof(void*)\<close> and the alignments of lf_basic.h.\<close>

definition sizeof_ptr :: u64 where
  "sizeof_ptr = 8"

definition LF_ALIGN_SINGLE_POINTER :: u64 where
  "LF_ALIGN_SINGLE_POINTER = 8"

definition LF_ALIGN_DOUBLE_POINTER :: u64 where
  "LF_ALIGN_DOUBLE_POINTER = 16"

text \<open>
  The address arithmetic of \<open>aligned_malloc\<close>: skip a word for the header, then move up to
  the next multiple of the alignment (a whole alignment step when already aligned).
\<close>

definition aligned_addr :: "addr \<Rightarrow> u64 \<Rightarrow> addr" where
  "aligned_addr original align_in_bytes =
     (let memory = original + sizeof_ptr;
          offset = align_in_bytes - memory mod align_in_bytes
      in memory + offset)"

definition aligned_malloc :: "u64 \<Rightarrow> u64 \<Rightarrow> 'a c_mem_scheme \<Rightarrow> addr \<times> 'a c_mem_scheme" where
  "aligned_malloc sz align_in_bytes m =
     (case abstraction_malloc (sz + sizeof_ptr + align_in_bytes) m of
        (original_memory, m') \<Rightarrow>
          if original_memory \<noteq> NULL then
            let memory = aligned_addr original_memory align_in_bytes
            in (memory, m'\<lparr>m_hdr := (m_hdr m')(memory - sizeof_ptr \<mapsto> original_memory)\<rparr>)
          else (NULL, m'))"

definition aligned_free :: "addr \<Rightarrow> 'a c_mem_scheme \<Rightarrow> 'a c_mem_scheme res" where
  "aligned_free memory m =
     c_assert (memory \<noteq> NULL)
       (deref (m_hdr m) (memory - sizeof_ptr) (\<lambda>original.
          call (abstraction_free original m) (\<lambda>m'.
            Ok (m'\<lparr>m_hdr := (m_hdr m')(memory - sizeof_ptr := None)\<rparr>))))"

section \<open>lf_basic.c: atomic primitives\<close>

text \<open>
  Each primitive is one indivisible step on the destination word (or pair of words). The
  models take the value stored there and return the value to store, beside the result;
  \<open>abstraction_dcas\<close> also returns the new contents of \<open>compare\<close>, which \<open>cmpxchg16b\<close>
  overwrites with the destination when the comparison fails.
\<close>

definition abstraction_cas :: "u64 \<Rightarrow> u64 \<Rightarrow> u64 \<Rightarrow> u64 \<times> u64" where
  "abstraction_cas destination exchange compare =
     (destination, if destination = compare then exchange else destination)"

definition abstraction_dcas ::
  "u64 \<times> u64 \<Rightarrow> u64 \<times> u64 \<Rightarrow> u64 \<times> u64 \<Rightarrow> u8 \<times> (u64 \<times> u64) \<times> (u64 \<times> u64)" where
  "abstraction_dcas destination exchange compare =
     (if destination = compare then (1, exchange, compare)
      else (0, destination, destination))"

definition abstraction_increment :: "u64 \<Rightarrow> u64" where
  "abstraction_increment value = value + 1"

definition abstraction_sub :: "u64 \<Rightarrow> u64" where
  "abstraction_sub value = value - 1"

section \<open>Properties of the allocator wrapper\<close>

text \<open>
  The aligned block fits the raw one: it starts on a multiple of the alignment, leaves at
  least the header word below it, and ends inside the \<open>size + sizeof(void*) + align\<close>
  bytes that were asked for.
\<close>

lemma aligned_addr_fits:
  assumes al: "al \<noteq> 0" and fit: "unat p + 8 + unat al < 2 ^ 64"
  shows "unat (aligned_addr p al) = unat p + 8 + (unat al - (unat p + 8) mod unat al)"
    and "unat al dvd unat (aligned_addr p al)"
    and "unat p + 8 < unat (aligned_addr p al)"
    and "unat (aligned_addr p al) \<le> unat p + 8 + unat al"
proof -
  have al0: "0 < unat al" using al by (simp add: unat_gt_0)
  have p8: "unat (p + 8) = unat p + 8"
    using fit by (simp add: unat_word_ariths)
  have md: "unat ((p + 8) mod al) = (unat p + 8) mod unat al"
    using p8 by (simp add: unat_mod)
  have lt: "(unat p + 8) mod unat al < unat al" using al0 by simp
  have le: "(p + 8) mod al \<le> al"
    using lt md by (simp add: word_le_nat_alt)
  have off: "unat (al - (p + 8) mod al) = unat al - (unat p + 8) mod unat al"
    using le md by (simp add: unat_sub)
  show eq: "unat (aligned_addr p al) = unat p + 8 + (unat al - (unat p + 8) mod unat al)"
    unfolding aligned_addr_def Let_def sizeof_ptr_def
    using fit p8 off by (simp add: unat_word_ariths)
  have "unat p + 8 + (unat al - (unat p + 8) mod unat al)
      = (unat p + 8 - (unat p + 8) mod unat al) + unat al"
    using lt mod_less_eq_dividend [of "unat p + 8" "unat al"] by linarith
  then show "unat al dvd unat (aligned_addr p al)"
    unfolding eq by (metis dvd_add dvd_minus_mod dvd_refl)
  show "unat p + 8 < unat (aligned_addr p al)" using eq lt by simp
  show "unat (aligned_addr p al) \<le> unat p + 8 + unat al" using eq by simp
qed

text \<open>
  The alignments in use divide \<open>malloc\<close>'s own: then the aligned block starts 16 bytes above
  the raw one, and its header word is the one at 8.
\<close>

lemma aligned_addr_16:
  assumes "16 dvd unat p" and "unat p + 16 < 2 ^ 64"
  shows "aligned_addr p LF_ALIGN_DOUBLE_POINTER = p + 16"
    and "aligned_addr p LF_ALIGN_SINGLE_POINTER = p + 16"
proof -
  have u: "unat (p + 16) = unat p + 16"
    using assms by (simp add: unat_word_ariths)
  have b: "unat p + 32 \<le> 2 ^ 64"
  proof -
    obtain k where "unat p = 16 * k" using assms(1) by blast
    with assms(2) show ?thesis by simp
  qed
  have m16: "(unat p + 8) mod 16 = 8" and m8: "(unat p + 8) mod 8 = 0"
    using assms(1) by (auto elim!: dvdE)
  have "unat (aligned_addr p 16) = unat p + 16"
    using aligned_addr_fits(1) [of 16 p] b m16 by simp
  then show "aligned_addr p LF_ALIGN_DOUBLE_POINTER = p + 16"
    using u by (simp add: LF_ALIGN_DOUBLE_POINTER_def word_unat_eq_iff)
  have "unat (aligned_addr p 8) = unat p + 16"
    using aligned_addr_fits(1) [of 8 p] b m8 by simp
  then show "aligned_addr p LF_ALIGN_SINGLE_POINTER = p + 16"
    using u by (simp add: LF_ALIGN_SINGLE_POINTER_def word_unat_eq_iff)
qed

lemma good_block_nonnull: "good_block p \<Longrightarrow> p + 16 \<noteq> NULL"
  by (auto simp: good_block_def word_unat_eq_iff unat_word_ariths)

section \<open>The blocks the wrapper has handed out\<close>

text \<open>
  \<open>allocated m q\<close>: \<open>q\<close> is a block that \<open>aligned_malloc\<close> has returned and nobody has freed.
  The lemmas below are what the components use of the allocator: a new block was not
  allocated before, is not NULL, and no other block is touched; freeing an allocated
  block succeeds and removes exactly this one.
\<close>

definition allocated :: "'a c_mem_scheme \<Rightarrow> addr \<Rightarrow> bool" where
  "allocated m q \<longleftrightarrow> good_block (q - 16) \<and> m_hdr m (q - 8) = Some (q - 16) \<and>
     q - 16 \<in> set (m_live m)"

definition heap_ok :: "'a c_mem_scheme \<Rightarrow> bool" where
  "heap_ok m \<longleftrightarrow> distinct (m_live m)"

lemma allocated_nonnull: "allocated m q \<Longrightarrow> q \<noteq> NULL"
  using good_block_nonnull [of "q - 16"] by (auto simp: allocated_def)

lemma allocated_more [simp]:
  "allocated (m\<lparr>m_script := ps\<rparr>) q = allocated m q"
  "heap_ok (m\<lparr>m_script := ps\<rparr>) = heap_ok m"
  by (simp_all add: allocated_def heap_ok_def)

abbreviation lf_alignment :: "u64 \<Rightarrow> bool" where
  "lf_alignment al \<equiv> al = LF_ALIGN_DOUBLE_POINTER \<or> al = LF_ALIGN_SINGLE_POINTER"

definition fresh_block :: "addr \<Rightarrow> 'a c_mem_scheme \<Rightarrow> 'a c_mem_scheme \<Rightarrow> bool" where
  "fresh_block q m m' \<longleftrightarrow>
     q \<noteq> NULL \<and> \<not> allocated m q \<and> allocated m' q \<and>
     (\<forall>r. r \<noteq> q \<longrightarrow> allocated m' r = allocated m r) \<and>
     m_junk m' = m_junk m \<and> c_mem.more m' = c_mem.more m"

lemma aligned_malloc_good:
  assumes "m_script m = p # ps" and "good_block p" and "p \<notin> set (m_live m)"
    and "lf_alignment al"
  shows "aligned_malloc sz al m =
    (p + 16, m\<lparr>m_script := ps, m_live := p # m_live m, m_hdr := (m_hdr m)(p + 8 \<mapsto> p)\<rparr>)"
proof -
  have "p \<noteq> NULL" and "aligned_addr p al = p + 16"
    using assms by (auto simp: good_block_def aligned_addr_16)
  moreover have "p + 16 - 8 = p + 8" by (simp add: algebra_simps)
  ultimately show ?thesis
    using assms
    by (simp add: aligned_malloc_def abstraction_malloc_def malloc_def Let_def sizeof_ptr_def
        add.commute)
qed

lemma aligned_malloc_fails:
  assumes "m_script m = [] \<or> \<not> good_block (hd (m_script m)) \<or> hd (m_script m) \<in> set (m_live m)"
  shows "aligned_malloc sz al m = (NULL, m\<lparr>m_script := tl (m_script m)\<rparr>)"
  using assms
  by (cases "m_script m")
    (auto simp: aligned_malloc_def abstraction_malloc_def malloc_def)

lemma aligned_malloc_cases:
  assumes "heap_ok m" and "lf_alignment al"
  obtains (null) "aligned_malloc sz al m = (NULL, m\<lparr>m_script := tl (m_script m)\<rparr>)"
  | (block) q m' where "aligned_malloc sz al m = (q, m')" "fresh_block q m m'" "heap_ok m'"
proof (cases "m_script m = [] \<or> \<not> good_block (hd (m_script m)) \<or> hd (m_script m) \<in> set (m_live m)")
  case True
  then show ?thesis by (rule null [OF aligned_malloc_fails])
next
  case False
  then obtain p ps where sc: "m_script m = p # ps" and p: "good_block p" "p \<notin> set (m_live m)"
    by (cases "m_script m") auto
  let ?m' = "m\<lparr>m_script := ps, m_live := p # m_live m, m_hdr := (m_hdr m)(p + 8 \<mapsto> p)\<rparr>"
  have arith: "r - 8 = p + 8 \<longleftrightarrow> r = p + 16" for r :: addr
    by (metis (no_types, opaque_lifting) add.assoc add_diff_cancel_right' diff_add_cancel numeral_Bit0)
  have "r - 16 = p \<longleftrightarrow> r = p + 16" for r :: addr
    by (auto simp: algebra_simps)
  then have "fresh_block (p + 16) m ?m'"
    using p good_block_nonnull [OF p(1)] arith unfolding fresh_block_def allocated_def
    by auto
  moreover have "heap_ok ?m'" using assms p by (simp add: heap_ok_def)
  ultimately show ?thesis
    using block aligned_malloc_good [OF sc p assms(2)] by blast
qed

lemma aligned_free_allocated:
  assumes "heap_ok m" and "allocated m q"
  shows "\<exists>m'. aligned_free q m = Ok m' \<and> heap_ok m' \<and>
    (\<forall>r. allocated m' r \<longleftrightarrow> allocated m r \<and> r \<noteq> q) \<and>
    m_junk m' = m_junk m \<and> c_mem.more m' = c_mem.more m"
proof -
  let ?m' = "m\<lparr>m_live := remove1 (q - 16) (m_live m), m_hdr := (m_hdr m)(q - 8 := None)\<rparr>"
  have "aligned_free q m = Ok ?m'"
    using assms allocated_nonnull [OF assms(2)]
    by (auto simp: aligned_free_def abstraction_free_def free_def sizeof_ptr_def allocated_def
        good_block_def)
  moreover have "heap_ok ?m'" using assms(1) by (simp add: heap_ok_def)
  moreover have "allocated ?m' r \<longleftrightarrow> allocated m r \<and> r \<noteq> q" for r
    using assms(1) by (auto simp: allocated_def heap_ok_def)
  ultimately show ?thesis by (intro exI [of _ ?m']) simp
qed

text \<open>\<open>enough k ps live\<close>: the next \<open>k\<close> proposals of \<open>malloc\<close> are all usable.\<close>

fun enough :: "nat \<Rightarrow> addr list \<Rightarrow> addr list \<Rightarrow> bool" where
  "enough 0 ps live = True"
| "enough (Suc k) [] live = False"
| "enough (Suc k) (p # ps) live = (good_block p \<and> p \<notin> set live \<and> enough k ps (p # live))"

abbreviation enough_mem :: "nat \<Rightarrow> 'a c_mem_scheme \<Rightarrow> bool" where
  "enough_mem k m \<equiv> enough k (m_script m) (m_live m)"

lemma aligned_malloc_enough:
  assumes "heap_ok m" and "lf_alignment al" and "enough_mem (Suc k) m"
  obtains q m' where "aligned_malloc sz al m = (q, m')" "fresh_block q m m'" "heap_ok m'"
    "enough_mem k m'"
proof -
  from assms(3) obtain p ps where sc: "m_script m = p # ps" and p: "good_block p" "p \<notin> set (m_live m)"
    and k: "enough k ps (p # m_live m)"
    by (cases "m_script m") auto
  note eq = aligned_malloc_good [OF sc p assms(2), of sz]
  show ?thesis
  proof (rule aligned_malloc_cases [OF assms(1,2), of sz])
    assume "aligned_malloc sz al m = (NULL, m\<lparr>m_script := tl (m_script m)\<rparr>)"
    with eq good_block_nonnull [OF p(1)] show ?thesis by simp
  next
    fix q m' assume block: "aligned_malloc sz al m = (q, m')" "fresh_block q m m'" "heap_ok m'"
    with eq k have "enough_mem k m'" by auto
    with block show ?thesis by (rule that)
  qed
qed

lemma enough_Suc: "enough (Suc k) ps live \<Longrightarrow> enough k ps live"
  by (induction k ps live rule: enough.induct) auto

lemma enough_numeral [simp]:
  "enough (numeral k) [] live = False"
  "enough (numeral k) (p # ps) live =
     (good_block p \<and> p \<notin> set live \<and> enough (pred_numeral k) ps (p # live))"
  by (simp_all only: numeral_eq_Suc enough.simps)

declare aligned_malloc_def [run_eval] abstraction_malloc_def [run_eval] malloc_def [run_eval]
  good_block_def [run_eval] aligned_addr_def [run_eval] LF_ALIGN_DOUBLE_POINTER_def [run_eval]
  LF_ALIGN_SINGLE_POINTER_def [run_eval] sizeof_ptr_def [run_eval]
  abstraction_increment_def [run_eval] abstraction_cas_def [run_eval] abstraction_dcas_def [run_eval]
  aligned_free_def [run_eval] abstraction_free_def [run_eval] free_def [run_eval]

section \<open>Properties\<close>

text \<open>
  C22. The block that \<open>aligned_malloc\<close> cuts out of the raw one fits: it starts on a multiple of
  the alignment, leaves at least a word for the header in front of it, and its last byte is
  inside the \<open>size + sizeof(void*) + align_in_bytes\<close> bytes asked for, as long as those do not
  wrap around the address space. Any alignment other than 0 will do, a power of two or not.
\<close>

theorem aligned_malloc_fits:
  assumes "al \<noteq> 0" and "unat p + unat sz + 8 + unat al < 2 ^ 64"
  shows "unat al dvd unat (aligned_addr p al) \<and> unat p + 8 \<le> unat (aligned_addr p al) \<and>
    unat (aligned_addr p al) + unat sz \<le> unat p + unat (sz + sizeof_ptr + al)"
proof -
  have fit: "unat p + 8 + unat al < 2 ^ 64" using assms(2) by simp
  have "unat (sz + sizeof_ptr + al) = unat sz + 8 + unat al"
    using assms(2) by (simp add: unat_word_ariths sizeof_ptr_def)
  then show ?thesis using aligned_addr_fits(2-4) [OF assms(1) fit] by simp
qed

theorem aligned_malloc_fits_witness:
  "unat (24 :: u64) dvd unat (aligned_addr 100 24) \<and> unat (aligned_addr 100 24) + 40 \<le> 100 + unat (40 + sizeof_ptr + 24)"
  using aligned_malloc_fits [of 24 100 40] by simp

end
