(* ===== verification/Validate.thy ===== *)
theory Validate
  imports CMem
begin

text \<open>
  Validation of linked structures (the \<open>*_internal_validate\<close> functions of basic/): the
  verdict type and the bounds record of lf_basic.h, the two-pointer loop that looks for a
  cycle, the loop that counts the elements, and the proof that the first one ends on
  every list, cyclic or not, and finds exactly the cycles.
\<close>

datatype data_structure_validity =
    VALIDITY_VALID
  | VALIDITY_INVALID_LOOP
  | VALIDITY_INVALID_MISSING_ELEMENTS
  | VALIDITY_INVALID_ADDITIONAL_ELEMENTS
  | VALIDITY_INVALID_TEST_DATA

record validation_info =
  min_element :: u64
  max_element :: u64

section \<open>The loops\<close>

text \<open>\<open>if (fast != NULL) fast = fast->next;\<close>\<close>

definition advance :: "(addr \<Rightarrow> addr option) \<Rightarrow> addr \<Rightarrow> (addr \<Rightarrow> 'b res) \<Rightarrow> 'b res" where
  "advance h p k = (if p \<noteq> NULL then deref h p k else k p)"

definition find_cycle_body ::
  "(addr \<Rightarrow> addr option) \<Rightarrow> addr \<times> addr \<Rightarrow> (addr \<times> addr, addr \<times> addr) ctl res" where
  "find_cycle_body h = (\<lambda>(slow, fast).
     deref h slow (\<lambda>slow'.
     advance h fast (\<lambda>fast1.
     advance h fast1 (\<lambda>fast2.
       if slow' \<noteq> NULL \<and> fast2 \<noteq> slow' then Ok (Again (slow', fast2))
       else Ok (Done (slow', fast2))))))"

definition find_cycle :: "(addr \<Rightarrow> addr option) \<Rightarrow> addr \<Rightarrow> (addr \<times> addr) res" where
  "find_cycle h p = (if p \<noteq> NULL then cloop (find_cycle_body h) (p, p) else Ok (p, p))"

definition count_body :: "(addr \<Rightarrow> addr option) \<Rightarrow> u64 \<times> addr \<Rightarrow> (u64 \<times> addr, u64) ctl res" where
  "count_body h = (\<lambda>(element_count, e).
     if e \<noteq> NULL then deref h e (\<lambda>e'. Ok (Again (element_count + 1, e')))
     else Ok (Done element_count))"

definition count_elements :: "(addr \<Rightarrow> addr option) \<Rightarrow> addr \<Rightarrow> u64 res" where
  "count_elements h p = cloop (count_body h) (0, p)"

text \<open>\<open>if (fast != NULL AND slow != NULL AND fast == slow)\<close>\<close>

definition cycle_verdict :: "addr \<times> addr \<Rightarrow> data_structure_validity" where
  "cycle_verdict sf =
     (if snd sf \<noteq> NULL \<and> fst sf \<noteq> NULL \<and> snd sf = fst sf
      then VALIDITY_INVALID_LOOP else VALIDITY_VALID)"

text \<open>The two comparisons with the caller's bounds; the second one overrides the first.\<close>

definition bounds_verdict ::
  "validation_info \<Rightarrow> u64 \<Rightarrow> data_structure_validity \<Rightarrow> data_structure_validity" where
  "bounds_verdict vi element_count v =
     (let v1 = (if element_count < min_element vi
                then VALIDITY_INVALID_MISSING_ELEMENTS else v)
      in if element_count > max_element vi
         then VALIDITY_INVALID_ADDITIONAL_ELEMENTS else v1)"

section \<open>Correctness of the cycle search\<close>

text \<open>The node reached from \<open>p\<close> after \<open>n\<close> links.\<close>

fun walk :: "(addr \<Rightarrow> addr option) \<Rightarrow> addr \<Rightarrow> nat \<Rightarrow> addr" where
  "walk h p 0 = p"
| "walk h p (Suc n) = (case h (walk h p n) of None \<Rightarrow> NULL | Some q \<Rightarrow> q)"

text \<open>
  A list heap: finitely many nodes, NULL is not one of them, and every link leads to a
  node or to NULL.
\<close>

definition list_heap :: "(addr \<Rightarrow> addr option) \<Rightarrow> bool" where
  "list_heap h \<longleftrightarrow> finite (dom h) \<and> NULL \<notin> dom h \<and> (\<forall>p q. h p = Some q \<longrightarrow> q = NULL \<or> q \<in> dom h)"

lemma list_heapD:
  "list_heap h \<Longrightarrow> h p = Some q \<Longrightarrow> q = NULL \<or> q \<in> dom h"
  "list_heap h \<Longrightarrow> NULL \<notin> dom h"
  "list_heap h \<Longrightarrow> finite (dom h)"
  by (auto simp: list_heap_def)

lemma walk_closed:
  "list_heap h \<Longrightarrow> p = NULL \<or> p \<in> dom h \<Longrightarrow> walk h p n = NULL \<or> walk h p n \<in> dom h"
  by (induction n) (auto split: option.splits dest: list_heapD(1))

lemma walk_NULL_mono:
  assumes "list_heap h" and "walk h p n = NULL"
  shows "walk h p (n + k) = NULL"
  using assms list_heapD(2) [OF assms(1)]
  by (induction k) (auto split: option.splits)

lemma walk_Suc_hd: "h p = Some q \<Longrightarrow> walk h p (Suc n) = walk h q n"
  by (induction n) (auto split: option.splits)

lemma chain_walk:
  "list_heap h \<Longrightarrow> chain h p xs \<Longrightarrow>
     walk h p n = (if n < length xs then xs ! n else NULL)"
proof (induction xs arbitrary: p n)
  case Nil
  then show ?case using walk_NULL_mono [of h p 0 n] by simp
next
  case (Cons x xs)
  then obtain q where "p = x" "h x = Some q" "chain h q xs" by (auto split: option.splits)
  with Cons.IH [OF Cons.prems(1), of q] show ?case
    by (cases n) (auto simp: walk_Suc_hd simp del: walk.simps(2))
qed

text \<open>A walk that reaches NULL is a chain; one that never does is a cyclic list.\<close>

lemma walk_ends_chain:
  "list_heap h \<Longrightarrow> p = NULL \<or> p \<in> dom h \<Longrightarrow> walk h p n = NULL \<Longrightarrow> \<exists>xs. chain h p xs"
proof (induction n arbitrary: p)
  case 0
  then show ?case by (metis chain_NULL walk.simps(1))
next
  case (Suc n)
  show ?case
  proof (cases "p = NULL")
    case True
    then show ?thesis by (metis chain_NULL)
  next
    case False
    with Suc.prems obtain q where q: "h p = Some q" by auto
    with Suc.prems have "walk h q n = NULL" by (simp add: walk_Suc_hd del: walk.simps(2))
    with Suc.IH [of q] Suc.prems(1) q obtain xs where "chain h q xs"
      using list_heapD(1) by blast
    with q False have "chain h p (p # xs)" by simp
    then show ?thesis ..
  qed
qed

lemma walk_periodic:
  assumes "walk h p i = walk h p (i + d)"
  shows "walk h p (i + k) = walk h p (i + d + k)"
  using assms by (induction k) simp_all

lemma walk_periodic_mult:
  assumes "walk h p i = walk h p (i + d)" and "i \<le> n"
  shows "walk h p n = walk h p (n + k * d)"
proof (induction k)
  case 0
  then show ?case by simp
next
  case (Suc k)
  have "walk h p (n + k * d) = walk h p (i + (n - i + k * d))"
    using assms(2) by simp
  also have "\<dots> = walk h p (i + d + (n - i + k * d))"
    by (rule walk_periodic [OF assms(1)])
  also have "\<dots> = walk h p (n + Suc k * d)"
    using assms(2) by (simp add: algebra_simps)
  finally show ?case using Suc by simp
qed

text \<open>On a cyclic list there is a round in which the fast pointer meets the slow one.\<close>

lemma cyclic_meeting:
  assumes lh: "list_heap h" and nz: "\<And>n. walk h p n \<noteq> NULL" and p: "p \<in> dom h"
  obtains m where "0 < m" "walk h p m = walk h p (2 * m)"
proof -
  have "range (walk h p) \<subseteq> dom h"
    using walk_closed [OF lh, of p] p nz by blast
  then have "finite (range (walk h p))"
    using list_heapD(3) [OF lh] finite_subset by blast
  then have "\<not> inj (walk h p)"
    using infinite_UNIV_nat finite_imageD by blast
  then obtain a b where "a \<noteq> b" "walk h p a = walk h p b"
    by (auto simp: inj_def)
  then obtain i j where "i < j" "walk h p i = walk h p j"
    by (metis linorder_neqE_nat)
  then obtain d where d: "0 < d" "walk h p i = walk h p (i + d)"
    by (metis less_imp_add_positive)
  let ?m = "Suc i * d"
  have "Suc i * 1 \<le> Suc i * d" using d(1) by (intro mult_le_mono) auto
  then have "i \<le> ?m" by simp
  then have "walk h p ?m = walk h p (?m + Suc i * d)"
    by (rule walk_periodic_mult [OF d(2)])
  moreover have "?m + Suc i * d = 2 * ?m" by simp
  ultimately show ?thesis using that [of ?m] d(1) by (metis nat_0_less_mult_iff zero_less_Suc)
qed

lemma find_cycle_body_walk:
  assumes lh: "list_heap h" and p: "p \<in> dom h" and nz: "walk h p i \<noteq> NULL"
  shows "find_cycle_body h (walk h p i, walk h p (2 * i)) =
    (if walk h p (Suc i) \<noteq> NULL \<and> walk h p (2 * Suc i) \<noteq> walk h p (Suc i)
     then Ok (Again (walk h p (Suc i), walk h p (2 * Suc i)))
     else Ok (Done (walk h p (Suc i), walk h p (2 * Suc i))))"
proof -
  have adv: "advance h (walk h p n) k = k (walk h p (Suc n))" for n and k :: "addr \<Rightarrow> 'z res"
    using walk_closed [OF lh, of p n] list_heapD(2) [OF lh] p
    by (cases "h (walk h p n)") (auto simp: advance_def)
  have der: "deref h (walk h p i) k = k (walk h p (Suc i))" for k :: "addr \<Rightarrow> 'z res"
    using adv [of i k] nz by (simp add: advance_def)
  show ?thesis
    by (simp add: find_cycle_body_def adv der del: walk.simps(2))
qed

lemma find_cycle_cyclic:
  assumes lh: "list_heap h" and p: "p \<in> dom h" and nz: "\<And>n. walk h p n \<noteq> NULL"
  shows "\<exists>q. find_cycle h p = Ok (q, q) \<and> q \<noteq> NULL"
proof -
  obtain m where m: "0 < m" "walk h p m = walk h p (2 * m)"
    using cyclic_meeting [OF lh nz p] .
  have "i < m \<Longrightarrow> \<exists>q. cloop (find_cycle_body h) (walk h p i, walk h p (2 * i)) = Ok (q, q) \<and> q \<noteq> NULL"
    for i
  proof (induction "m - i" arbitrary: i)
    case 0
    then show ?case by simp
  next
    case (Suc k)
    show ?case
    proof (cases "walk h p (2 * Suc i) = walk h p (Suc i)")
      case True
      then show ?thesis
        using nz [of "Suc i"]
        by (subst cloop_unfold, subst find_cycle_body_walk [OF lh p nz]) simp
    next
      case False
      with m(2) have "Suc i \<noteq> m" by metis
      with Suc.prems have "Suc i < m" by simp
      with Suc.hyps(1) [of "Suc i"] Suc.hyps(2) False nz [of "Suc i"] show ?thesis
        by (subst cloop_unfold, subst find_cycle_body_walk [OF lh p nz])
          (simp del: walk.simps mult_Suc_right)
    qed
  qed
  from this [of 0] m(1) p show ?thesis
    using list_heapD(2) [OF lh] by (auto simp: find_cycle_def)
qed

lemma find_cycle_chain:
  assumes lh: "list_heap h" and ch: "chain h p xs"
  shows "find_cycle h p = Ok (NULL, NULL)"
proof (cases "p = NULL")
  case True
  then show ?thesis by (simp add: find_cycle_def)
next
  case False
  with ch have p: "p \<in> dom h" by (auto simp: chain_nonnull)
  let ?n = "length xs"
  have w: "walk h p n = (if n < ?n then xs ! n else NULL)" for n
    by (rule chain_walk [OF lh ch])
  have nz: "walk h p i \<noteq> NULL" if "i < ?n" for i
    using w that chain_not_NULL [OF ch] by (metis nth_mem)
  have ne: "walk h p (2 * Suc i) \<noteq> walk h p (Suc i)" if "Suc i < ?n" for i
    using that w [of "2 * Suc i"] w [of "Suc i"] nz [of "Suc i"] chain_distinct [OF ch]
    by (auto simp: nth_eq_iff_index_eq simp del: walk.simps)
  have "i < ?n \<Longrightarrow> cloop (find_cycle_body h) (walk h p i, walk h p (2 * i)) = Ok (NULL, NULL)" for i
  proof (induction "?n - i" arbitrary: i)
    case 0
    then show ?case by simp
  next
    case (Suc k)
    show ?case
    proof (cases "Suc i < ?n")
      case True
      with Suc.hyps(1) [of "Suc i"] Suc.hyps(2) ne [OF True] nz [OF True] show ?thesis
        by (subst cloop_unfold, subst find_cycle_body_walk [OF lh p nz [OF Suc.prems]])
          (simp del: walk.simps mult_Suc_right)
    next
      case False
      then have "walk h p (Suc i) = NULL" "walk h p (2 * Suc i) = NULL"
        using w [of "Suc i"] w [of "2 * Suc i"] by (simp_all del: walk.simps)
      then show ?thesis
        by (subst cloop_unfold, subst find_cycle_body_walk [OF lh p nz [OF Suc.prems]])
          (simp del: walk.simps mult_Suc_right)
    qed
  qed
  from this [of 0] False ch show ?thesis
    by (auto simp: find_cycle_def chain_nonnull)
qed

text \<open>
  The search always ends, and it reports a loop exactly when following the links never
  reaches NULL.
\<close>

lemma find_cycle_correct:
  assumes lh: "list_heap h" and p: "p = NULL \<or> p \<in> dom h"
  shows "\<exists>sf. find_cycle h p = Ok sf \<and>
    cycle_verdict sf = (if \<exists>xs. chain h p xs then VALIDITY_VALID else VALIDITY_INVALID_LOOP)"
proof (cases "\<exists>xs. chain h p xs")
  case True
  then show ?thesis
    using find_cycle_chain [OF lh] by (auto simp: cycle_verdict_def)
next
  case False
  with p have p': "p \<in> dom h" by (metis chain_NULL)
  have "walk h p n \<noteq> NULL" for n
    using False walk_ends_chain [OF lh p] by blast
  from find_cycle_cyclic [OF lh p' this] False show ?thesis
    by (auto simp: cycle_verdict_def)
qed

lemma count_elements_chain:
  "chain h p xs \<Longrightarrow> count_elements h p = Ok (of_nat (length xs))"
proof -
  have "chain h p xs \<Longrightarrow> cloop (count_body h) (c, p) = Ok (c + of_nat (length xs))" for c
  proof (induction xs arbitrary: p c)
    case Nil
    then show ?case by (simp add: count_body_def)
  next
    case (Cons x xs)
    then obtain q where q: "p = x" "x \<noteq> NULL" "h x = Some q" "chain h q xs"
      by (auto split: option.splits)
    then have "count_body h (c, p) = Ok (Again (c + 1, q))" by (simp add: count_body_def)
    then have "cloop (count_body h) (c, p) = cloop (count_body h) (c + 1, q)" by (rule cloop_Again)
    with Cons.IH [OF q(4)] show ?case by (simp add: algebra_simps)
  qed
  then show "chain h p xs \<Longrightarrow> count_elements h p = Ok (of_nat (length xs))"
    by (simp add: count_elements_def)
qed

end
