(* ===== verification/Pool.thy ===== *)
theory Pool
  imports Prelude
begin

text \<open>
  The contract of a last-in-first-out pool of nodes, as its users rely on it. The freelist
  provides it with a double-word CAS, the node list of the trie with a single-word CAS; both
  interpret the locale with their own push and pop. What is proved here holds for both: any
  sequence of pushes and pops behaves as the same sequence on a list. (The two pools of the
  hash map keep a sentinel that is never handed out, and have their own predicate there.)
\<close>

datatype pool_op = PPush addr | PPop

fun pool_run ::
  "(addr \<Rightarrow> 'm \<Rightarrow> 'm res) \<Rightarrow> ('m \<Rightarrow> (addr \<times> 'm) res) \<Rightarrow> pool_op list \<Rightarrow> 'm \<Rightarrow> (addr list \<times> 'm) res" where
  "pool_run push pop [] m = Ok ([], m)"
| "pool_run push pop (PPush x # ops) m = call (push x m) (pool_run push pop ops)"
| "pool_run push pop (PPop # ops) m =
     call (pop m) (\<lambda>(x, m1). call (pool_run push pop ops m1) (\<lambda>(rs, m2). Ok (x # rs, m2)))"

text \<open>The same operations on a list; \<open>pool_legal\<close>: nothing is pushed that is in the pool.\<close>

fun pool_spec :: "pool_op list \<Rightarrow> addr list \<Rightarrow> addr list \<times> addr list" where
  "pool_spec [] xs = ([], xs)"
| "pool_spec (PPush x # ops) xs = pool_spec ops (x # xs)"
| "pool_spec (PPop # ops) [] = (case pool_spec ops [] of (rs, ys) \<Rightarrow> (NULL # rs, ys))"
| "pool_spec (PPop # ops) (x # xs) = (case pool_spec ops xs of (rs, ys) \<Rightarrow> (x # rs, ys))"

fun pool_legal :: "(addr \<Rightarrow> bool) \<Rightarrow> pool_op list \<Rightarrow> addr list \<Rightarrow> bool" where
  "pool_legal node [] xs = True"
| "pool_legal node (PPush x # ops) xs = (node x \<and> x \<notin> set xs \<and> pool_legal node ops (x # xs))"
| "pool_legal node (PPop # ops) xs = pool_legal node ops (tl xs)"

locale lifo_pool =
  fixes rep :: "'m \<Rightarrow> addr list \<Rightarrow> bool"
    and node :: "'m \<Rightarrow> addr \<Rightarrow> bool"
    and push :: "addr \<Rightarrow> 'm \<Rightarrow> 'm res"
    and pop :: "'m \<Rightarrow> (addr \<times> 'm) res"
  assumes push_law: "rep m xs \<Longrightarrow> node m x \<Longrightarrow> x \<notin> set xs \<Longrightarrow>
      \<exists>m'. push x m = Ok m' \<and> rep m' (x # xs) \<and> node m' = node m"
    and pop_law: "rep m (x # xs) \<Longrightarrow> \<exists>m'. pop m = Ok (x, m') \<and> rep m' xs \<and> node m' = node m"
    and pop_empty_law: "rep m [] \<Longrightarrow> pop m = Ok (NULL, m)"
begin

lemma pool_run_refines:
  assumes "rep m xs" and "pool_legal (node m) ops xs"
  shows "\<exists>m'. pool_run push pop ops m = Ok (fst (pool_spec ops xs), m') \<and>
    rep m' (snd (pool_spec ops xs)) \<and> node m' = node m"
  using assms
proof (induction "node m" ops xs arbitrary: m rule: pool_legal.induct)
  case (1 xs)
  then show ?case by simp
next
  case (2 x ops xs)
  then obtain m1 where m1: "push x m = Ok m1" "rep m1 (x # xs)" "node m1 = node m"
    using push_law [of m xs x] by auto
  from 2(1) [OF m1(3) [symmetric] m1(2)] 2(3) m1 show ?case by simp
next
  case (3 ops xs)
  obtain m1 where m1: "pop m = Ok (case xs of [] \<Rightarrow> NULL | x # _ \<Rightarrow> x, m1)" "rep m1 (tl xs)"
      "node m1 = node m"
    using 3(2) pop_empty_law pop_law by (cases xs) fastforce+
  have "pool_legal (node m1) ops (tl xs)" using 3(3) m1(3) by simp
  from 3(1) [OF m1(3) [symmetric] m1(2) this] m1 show ?case
    by (cases xs) (auto split: prod.splits)
qed

end

end
