(* ===== verification/Freelist.thy ===== *)
theory Freelist
  imports Validate Pool
begin

text \<open>
  basic/lf_freelist.c and lf_freelist.h: a list of reusable elements with a pointer-and-counter
  head that is swapped by a double-word CAS. This theory models every function of the file
  as it runs when no other thread interferes; \<open>Freelist_Conc\<close> models the interleavings of
  \<open>freelist_push\<close> and \<open>freelist_pop\<close>.

  A pair \<open>struct freelist_element *x[2]\<close> of pointer and counter is a HOL pair (index
  \<open>LF_FREELIST_POINTER\<close> is \<open>fst\<close>, \<open>LF_FREELIST_COUNTER\<close> is \<open>snd\<close>). A function pointer is
  the address of the function; calling through it is the argument \<open>icall\<close> (initialisers)
  or \<open>dcall\<close> (destructors), which maps function addresses to their behaviour.
\<close>

section \<open>Data\<close>

record freelist_state =
  fs_top :: "addr \<times> u64"
  fs_init_func :: addr
  fs_state :: addr
  fs_aba_counter :: u64
  fs_element_count :: u64

record freelist_element =
  fe_next :: "addr \<times> u64"
  fe_data :: addr

record fl_mem = c_mem +
  fl_states :: "addr \<Rightarrow> freelist_state option"
  fl_elems :: "addr \<Rightarrow> freelist_element option"

datatype freelist_query_type = FREELIST_QUERY_ELEMENT_COUNT | FREELIST_QUERY_VALIDATE

datatype query_output = Count u64 | Validity data_structure_validity

text \<open>
  \<open>icall f state m\<close>: the call \<open>f(&data, state)\<close>, giving the return value, the word stored
  in \<open>data\<close> and the new memory. \<open>dcall f data state m\<close>: the call \<open>f(data, state)\<close>.
\<close>

type_synonym 'm init_calls = "addr \<Rightarrow> addr \<Rightarrow> 'm \<Rightarrow> (u64 \<times> addr \<times> 'm) res"
type_synonym 'm delete_calls = "addr \<Rightarrow> addr \<Rightarrow> addr \<Rightarrow> 'm \<Rightarrow> 'm res"

definition set_fs :: "addr \<Rightarrow> freelist_state \<Rightarrow> 'a fl_mem_scheme \<Rightarrow> 'a fl_mem_scheme" where
  "set_fs fs st m = m\<lparr>fl_states := (fl_states m)(fs \<mapsto> st)\<rparr>"

definition set_fe :: "addr \<Rightarrow> freelist_element \<Rightarrow> 'a fl_mem_scheme \<Rightarrow> 'a fl_mem_scheme" where
  "set_fe fe e m = m\<lparr>fl_elems := (fl_elems m)(fe \<mapsto> e)\<rparr>"

text \<open>Memory for a new element: its fields hold whatever the memory held.\<close>

definition alloc_fe :: "'a fl_mem_scheme \<Rightarrow> addr \<times> 'a fl_mem_scheme" where
  "alloc_fe m =
     (case aligned_malloc 24 LF_ALIGN_DOUBLE_POINTER m of (q, m') \<Rightarrow>
        if q = NULL then (NULL, m')
        else (q, set_fe q \<lparr>fe_next = (m_junk m q, m_junk m (q + 8)), fe_data = m_junk m (q + 16)\<rparr> m'))"

definition free_fe :: "addr \<Rightarrow> 'a fl_mem_scheme \<Rightarrow> 'a fl_mem_scheme res" where
  "free_fe fe m =
     call (aligned_free fe m) (\<lambda>m'. Ok (m'\<lparr>fl_elems := (fl_elems m')(fe := None)\<rparr>))"

definition free_fs :: "addr \<Rightarrow> 'a fl_mem_scheme \<Rightarrow> 'a fl_mem_scheme res" where
  "free_fs fs m =
     call (aligned_free fs m) (\<lambda>m'. Ok (m'\<lparr>fl_states := (fl_states m')(fs := None)\<rparr>))"

section \<open>Operations\<close>

text \<open>
  \<open>freelist_internal_new_element\<close>: returns \<open>(rv, *fe, m)\<close>. The source tests \<open>fe\<close>, the
  address of the caller's variable, where it means \<open>*fe\<close>: the test is always true, so a
  failed allocation goes on to write through NULL. With an \<open>init_func\<close> it forms
  \<open>&(*fe)->data\<close> first: \<open>->\<close> on a null pointer is undefined in C, whether or not the field is
  read, and the model stops there.
\<close>

definition freelist_internal_new_element ::
  "'a fl_mem_scheme init_calls \<Rightarrow> addr \<Rightarrow> 'a fl_mem_scheme \<Rightarrow> (u64 \<times> addr \<times> 'a fl_mem_scheme) res" where
  "freelist_internal_new_element icall fs m =
     c_assert (fs \<noteq> NULL)
       (case alloc_fe m of (fe, m1) \<Rightarrow>
        deref (fl_states m1) fs (\<lambda>st.
        call
          (if fs_init_func st = NULL then
             deref (fl_elems m1) fe (\<lambda>e. Ok (1, fe, set_fe fe (e\<lparr>fe_data := NULL\<rparr>) m1))
           else
             deref (fl_elems m1) fe (\<lambda>_.
             call (icall (fs_init_func st) (fs_state st) m1) (\<lambda>(rv, data, m2).
             deref (fl_elems m2) fe (\<lambda>e.
               let m3 = set_fe fe (e\<lparr>fe_data := data\<rparr>) m2 in
               if rv = 0 then call (free_fe fe m3) (\<lambda>m4. Ok (rv, NULL, m4))
               else Ok (rv, fe, m3)))))
          (\<lambda>(rv, fe', m5).
             if rv = 1 then
               deref (fl_states m5) fs (\<lambda>st'.
                 Ok (rv, fe', set_fs fs (st'\<lparr>fs_element_count :=
                       abstraction_increment (fs_element_count st')\<rparr>) m5))
             else Ok (rv, fe', m5))))"

definition freelist_push_body ::
  "addr \<Rightarrow> addr \<times> u64 \<Rightarrow> (addr \<times> u64) \<times> 'a fl_mem_scheme \<Rightarrow>
     ((addr \<times> u64) \<times> 'a fl_mem_scheme, 'a fl_mem_scheme) ctl res" where
  "freelist_push_body fs fe_local = (\<lambda>(original_fe_next, m).
     deref (fl_elems m) (fst fe_local) (\<lambda>e.
     let m1 = set_fe (fst fe_local) (e\<lparr>fe_next := original_fe_next\<rparr>) m in
     deref (fl_states m1) fs (\<lambda>st.
       case abstraction_dcas (fs_top st) fe_local original_fe_next of (r, top', cmp') \<Rightarrow>
         let m2 = set_fs fs (st\<lparr>fs_top := top'\<rparr>) m1 in
         if r = 0 then Ok (Again (cmp', m2)) else Ok (Done m2))))"

definition freelist_push :: "addr \<Rightarrow> addr \<Rightarrow> 'a fl_mem_scheme \<Rightarrow> 'a fl_mem_scheme res" where
  "freelist_push fs fe m =
     c_assert (fs \<noteq> NULL) (c_assert (fe \<noteq> NULL)
       (deref (fl_states m) fs (\<lambda>st.
          let counter = abstraction_increment (fs_aba_counter st);
              m1 = set_fs fs (st\<lparr>fs_aba_counter := counter\<rparr>) m
          in cloop (freelist_push_body fs (fe, counter)) (fs_top st, m1))))"

definition freelist_pop_body ::
  "addr \<Rightarrow> (addr \<times> u64) \<times> 'a fl_mem_scheme \<Rightarrow>
     ((addr \<times> u64) \<times> 'a fl_mem_scheme, addr \<times> 'a fl_mem_scheme) ctl res" where
  "freelist_pop_body fs = (\<lambda>(fe_local, m).
     if fst fe_local = NULL then Ok (Done (NULL, m))
     else
       deref (fl_elems m) (fst fe_local) (\<lambda>e.
       deref (fl_states m) fs (\<lambda>st.
         case abstraction_dcas (fs_top st) (fe_next e) fe_local of (r, top', cmp') \<Rightarrow>
           let m1 = set_fs fs (st\<lparr>fs_top := top'\<rparr>) m in
           if r = 0 then Ok (Again (cmp', m1)) else Ok (Done (fst fe_local, m1)))))"

definition freelist_pop :: "addr \<Rightarrow> 'a fl_mem_scheme \<Rightarrow> (addr \<times> 'a fl_mem_scheme) res" where
  "freelist_pop fs m =
     c_assert (fs \<noteq> NULL)
       (deref (fl_states m) fs (\<lambda>st. cloop (freelist_pop_body fs) (fs_top st, m)))"

text \<open>\<open>for (loop = 0; loop < number_elements; loop++)\<close>, with the rounds left to go.\<close>

fun freelist_new_elements_loop ::
  "'a fl_mem_scheme init_calls \<Rightarrow> addr \<Rightarrow> nat \<Rightarrow> u64 \<Rightarrow> 'a fl_mem_scheme \<Rightarrow>
     (u64 \<times> 'a fl_mem_scheme) res" where
  "freelist_new_elements_loop icall fs 0 count m = Ok (count, m)"
| "freelist_new_elements_loop icall fs (Suc n) count m =
     call (freelist_internal_new_element icall fs m) (\<lambda>(rv, fe, m1).
       if rv \<noteq> 0 then
         call (freelist_push fs fe m1) (\<lambda>m2.
           freelist_new_elements_loop icall fs n (count + 1) m2)
       else freelist_new_elements_loop icall fs n count m1)"

definition freelist_new_elements ::
  "'a fl_mem_scheme init_calls \<Rightarrow> addr \<Rightarrow> u64 \<Rightarrow> 'a fl_mem_scheme \<Rightarrow>
     (u64 \<times> 'a fl_mem_scheme) res" where
  "freelist_new_elements icall fs number_elements m =
     c_assert (fs \<noteq> NULL) (freelist_new_elements_loop icall fs (unat number_elements) 0 m)"

definition freelist_use :: "addr \<Rightarrow> 'a fl_mem_scheme \<Rightarrow> 'a fl_mem_scheme res" where
  "freelist_use fs m = c_assert (fs \<noteq> NULL) (Ok m)"

text \<open>\<open>freelist_new\<close>: returns \<open>(rv, *fs, m)\<close>.\<close>

definition freelist_new ::
  "'a fl_mem_scheme init_calls \<Rightarrow> u64 \<Rightarrow> addr \<Rightarrow> addr \<Rightarrow> 'a fl_mem_scheme \<Rightarrow>
     (u64 \<times> addr \<times> 'a fl_mem_scheme) res" where
  "freelist_new icall number_elements init_func state m =
     (case aligned_malloc 48 LF_ALIGN_DOUBLE_POINTER m of (fs, m1) \<Rightarrow>
        if fs \<noteq> NULL then
          let m2 = set_fs fs \<lparr>fs_top = (NULL, 0), fs_init_func = init_func, fs_state = state,
                              fs_aba_counter = 0, fs_element_count = 0\<rparr> m1
          in call (freelist_new_elements icall fs number_elements m2) (\<lambda>(element_count, m3).
               if element_count = number_elements then Ok (1, fs, m3)
               else call (free_fs fs m3) (\<lambda>m4. Ok (0, NULL, m4)))
        else Ok (0, NULL, m1))"

definition freelist_get_data :: "addr \<Rightarrow> 'a fl_mem_scheme \<Rightarrow> addr res" where
  "freelist_get_data fe m = c_assert (fe \<noteq> NULL) (deref (fl_elems m) fe (\<lambda>e. Ok (fe_data e)))"

definition freelist_set_data :: "addr \<Rightarrow> addr \<Rightarrow> 'a fl_mem_scheme \<Rightarrow> 'a fl_mem_scheme res" where
  "freelist_set_data fe data m =
     c_assert (fe \<noteq> NULL)
       (deref (fl_elems m) fe (\<lambda>e. Ok (set_fe fe (e\<lparr>fe_data := data\<rparr>) m)))"

definition freelist_delete_body ::
  "'a fl_mem_scheme delete_calls \<Rightarrow> addr \<Rightarrow> addr \<Rightarrow> addr \<Rightarrow> 'a fl_mem_scheme \<Rightarrow>
     ('a fl_mem_scheme, 'a fl_mem_scheme) ctl res" where
  "freelist_delete_body dcall fs delete_func state = (\<lambda>m.
     call (freelist_pop fs m) (\<lambda>(fe, m1).
       if fe = NULL then Ok (Done m1)
       else
         call
           (if delete_func \<noteq> NULL then
              call (freelist_get_data fe m1) (\<lambda>data. dcall delete_func data state m1)
            else Ok m1)
           (\<lambda>m2. call (free_fe fe m2) (\<lambda>m3. Ok (Again m3)))))"

definition freelist_delete ::
  "'a fl_mem_scheme delete_calls \<Rightarrow> addr \<Rightarrow> addr \<Rightarrow> addr \<Rightarrow> 'a fl_mem_scheme \<Rightarrow>
     'a fl_mem_scheme res" where
  "freelist_delete dcall fs delete_func state m =
     c_assert (fs \<noteq> NULL)
       (call (cloop (freelist_delete_body dcall fs delete_func state) m) (\<lambda>m1. free_fs fs m1))"

text \<open>\<open>freelist_guaranteed_pop\<close>: always a new element, never one of the list.\<close>

definition freelist_guaranteed_pop ::
  "'a fl_mem_scheme init_calls \<Rightarrow> addr \<Rightarrow> 'a fl_mem_scheme \<Rightarrow> (addr \<times> 'a fl_mem_scheme) res" where
  "freelist_guaranteed_pop icall fs m =
     c_assert (fs \<noteq> NULL)
       (call (freelist_internal_new_element icall fs m) (\<lambda>(rv, fe, m1). Ok (fe, m1)))"

text \<open>The pointer part of \<open>next\<close>, which the validation loops follow.\<close>

definition fe_link :: "'a fl_mem_scheme \<Rightarrow> addr \<Rightarrow> addr option" where
  "fe_link m p = map_option (\<lambda>e. fst (fe_next e)) (fl_elems m p)"

text \<open>The whole of \<open>next\<close>, pointer and counter, of the elements there are.\<close>

definition fe_pair :: "'a fl_mem_scheme \<Rightarrow> addr \<Rightarrow> addr \<times> u64" where
  "fe_pair m p = (case fl_elems m p of Some e \<Rightarrow> fe_next e | None \<Rightarrow> (NULL, 0))"

definition freelist_internal_validate ::
  "addr \<Rightarrow> validation_info option \<Rightarrow> 'a fl_mem_scheme \<Rightarrow> data_structure_validity res" where
  "freelist_internal_validate fs vi m =
     c_assert (fs \<noteq> NULL)
       (deref (fl_states m) fs (\<lambda>st.
        call (find_cycle (fe_link m) (fst (fs_top st))) (\<lambda>sf.
          let fv = cycle_verdict sf in
          case vi of
            None \<Rightarrow> Ok fv
          | Some v \<Rightarrow>
              if fv = VALIDITY_VALID then
                call (count_elements (fe_link m) (fst (fs_top st)))
                  (\<lambda>element_count. Ok (bounds_verdict v element_count fv))
              else Ok fv)))"

definition freelist_query ::
  "addr \<Rightarrow> freelist_query_type \<Rightarrow> validation_info option \<Rightarrow> 'a fl_mem_scheme \<Rightarrow>
     query_output res" where
  "freelist_query fs query_type input m =
     c_assert (fs \<noteq> NULL)
       (case query_type of
          FREELIST_QUERY_ELEMENT_COUNT \<Rightarrow>
            c_assert (input = None)
              (deref (fl_states m) fs (\<lambda>st. Ok (Count (fs_element_count st))))
        | FREELIST_QUERY_VALIDATE \<Rightarrow>
            call (freelist_internal_validate fs input m) (\<lambda>fv. Ok (Validity fv)))"

text \<open>Reading the output of a query at the type that was asked for.\<close>

definition query_count :: "query_output \<Rightarrow> u64 res" where
  "query_count q = (case q of Count n \<Rightarrow> Ok n | Validity v \<Rightarrow> Fault BadDeref)"

definition query_validity :: "query_output \<Rightarrow> data_structure_validity res" where
  "query_validity q = (case q of Count n \<Rightarrow> Fault BadDeref | Validity v \<Rightarrow> Ok v)"

section \<open>Functional behaviour\<close>

text \<open>\<open>fl_rep m fs xs\<close>: the freelist at \<open>fs\<close> holds the elements \<open>xs\<close>, top first.\<close>

definition fl_rep :: "'a fl_mem_scheme \<Rightarrow> addr \<Rightarrow> addr list \<Rightarrow> bool" where
  "fl_rep m fs xs \<longleftrightarrow> fs \<noteq> NULL \<and>
     (case fl_states m fs of None \<Rightarrow> False | Some st \<Rightarrow> chain (fe_link m) (fst (fs_top st)) xs)"

lemma fl_repE:
  assumes "fl_rep m fs xs"
  obtains st where "fs \<noteq> NULL" "fl_states m fs = Some st" "chain (fe_link m) (fst (fs_top st)) xs"
  using assms by (auto simp: fl_rep_def split: option.splits)

lemma fl_repI:
  "fs \<noteq> NULL \<Longrightarrow> fl_states m fs = Some st \<Longrightarrow> chain (fe_link m) (fst (fs_top st)) xs \<Longrightarrow> fl_rep m fs xs"
  by (simp add: fl_rep_def)

lemma fl_rep_distinct: "fl_rep m fs xs \<Longrightarrow> distinct xs"
  by (auto elim!: fl_repE intro: chain_distinct)

lemma fl_rep_elems:
  assumes "fl_rep m fs xs" and "x \<in> set xs"
  shows "x \<noteq> NULL" and "\<exists>e. fl_elems m x = Some e"
proof -
  from assms(1) obtain st where "fs \<noteq> NULL" "fl_states m fs = Some st"
      and c: "chain (fe_link m) (fst (fs_top st)) xs" by (rule fl_repE)
  show "x \<noteq> NULL" using chain_not_NULL [OF c] assms(2) by metis
  show "\<exists>e. fl_elems m x = Some e"
    using chain_dom [OF c assms(2)] by (auto simp: fe_link_def)
qed

lemma fl_rep_cong:
  assumes "fl_states m fs = fl_states m' fs" and "\<And>x. x \<in> set xs \<Longrightarrow> fe_link m x = fe_link m' x"
  shows "fl_rep m fs xs = fl_rep m' fs xs"
  using assms chain_cong [of xs "fe_link m" "fe_link m'"]
  by (auto simp: fl_rep_def split: option.splits)

lemma fe_link_set [simp]:
  "fe_link (set_fs fs st m) = fe_link m"
  "fe_link (set_fe p e m) = (fe_link m)(p \<mapsto> fst (fe_next e))"
  by (auto simp: fe_link_def set_fs_def set_fe_def fun_eq_iff)

lemma set_fs_sel [simp]:
  "fl_states (set_fs fs st m) = (fl_states m)(fs \<mapsto> st)"
  "fl_elems (set_fs fs st m) = fl_elems m"
  "fl_states (set_fe p e m) = fl_states m"
  "fl_elems (set_fe p e m) = (fl_elems m)(p \<mapsto> e)"
  by (simp_all add: set_fs_def set_fe_def)

lemma set_fs_mem [simp]:
  "m_script (set_fs fs st m) = m_script m" "m_live (set_fs fs st m) = m_live m"
  "m_hdr (set_fs fs st m) = m_hdr m" "m_junk (set_fs fs st m) = m_junk m"
  "m_script (set_fe p e m) = m_script m" "m_live (set_fe p e m) = m_live m"
  "m_hdr (set_fe p e m) = m_hdr m" "m_junk (set_fe p e m) = m_junk m"
  "fl_mem.more (set_fs fs st m) = fl_mem.more m"
  "fl_mem.more (set_fe p e m) = fl_mem.more m"
  "allocated (set_fs fs st m) = allocated m" "allocated (set_fe p e m) = allocated m"
  "heap_ok (set_fs fs st m) = heap_ok m" "heap_ok (set_fe p e m) = heap_ok m"
  by (auto simp: set_fs_def set_fe_def allocated_def heap_ok_def fun_eq_iff)

lemma allocated_fl [simp]:
  "allocated (m\<lparr>fl_elems := es\<rparr>) = allocated m" "heap_ok (m\<lparr>fl_elems := es\<rparr>) = heap_ok m"
  "allocated (m\<lparr>fl_states := ss\<rparr>) = allocated m" "heap_ok (m\<lparr>fl_states := ss\<rparr>) = heap_ok m"
  by (auto simp: allocated_def heap_ok_def fun_eq_iff)

lemma set_fs_twice [simp]: "set_fs fs st (set_fs fs st' m) = set_fs fs st m"
  by (simp add: set_fs_def)

lemma set_fs_fe_swap: "set_fe p e (set_fs fs st m) = set_fs fs st (set_fe p e m)"
  by (simp add: set_fs_def set_fe_def)

text \<open>What push and pop do to the memory, exactly: one round of each loop.\<close>

lemma freelist_push_eq:
  assumes "fs \<noteq> NULL" "fe \<noteq> NULL" "fl_states m fs = Some st" "fl_elems m fe = Some e"
  shows "freelist_push fs fe m =
    Ok (set_fs fs (st\<lparr>fs_aba_counter := fs_aba_counter st + 1, fs_top := (fe, fs_aba_counter st + 1)\<rparr>)
         (set_fe fe (e\<lparr>fe_next := fs_top st\<rparr>) m))"
  using assms
  by (simp add: freelist_push_def freelist_push_body_def abstraction_dcas_def
      abstraction_increment_def Let_def set_fs_fe_swap)

lemma freelist_pop_empty:
  assumes "fs \<noteq> NULL" "fl_states m fs = Some st" "fst (fs_top st) = NULL"
  shows "freelist_pop fs m = Ok (NULL, m)"
  using assms by (simp add: freelist_pop_def freelist_pop_body_def)

lemma freelist_pop_eq:
  assumes "fs \<noteq> NULL" "fl_states m fs = Some st" "fst (fs_top st) = p" "p \<noteq> NULL"
    and "fl_elems m p = Some e"
  shows "freelist_pop fs m = Ok (p, set_fs fs (st\<lparr>fs_top := fe_next e\<rparr>) m)"
  using assms by (simp add: freelist_pop_def freelist_pop_body_def abstraction_dcas_def)

lemma freelist_push_rep:
  assumes rep: "fl_rep m fs xs" and fe: "fl_elems m fe = Some e" "fe \<noteq> NULL" "fe \<notin> set xs"
  shows "\<exists>m'. freelist_push fs fe m = Ok m' \<and> fl_rep m' fs (fe # xs)"
proof -
  from rep obtain st where st: "fs \<noteq> NULL" "fl_states m fs = Some st"
      "chain (fe_link m) (fst (fs_top st)) xs" by (rule fl_repE)
  with fe show ?thesis
    by (auto simp: freelist_push_eq intro!: fl_repI)
qed

lemma freelist_pop_rep:
  assumes rep: "fl_rep m fs (x # xs)"
  shows "\<exists>m'. freelist_pop fs m = Ok (x, m') \<and> fl_rep m' fs xs \<and> fl_elems m' = fl_elems m"
proof -
  from rep obtain st where st: "fs \<noteq> NULL" "fl_states m fs = Some st"
      "chain (fe_link m) (fst (fs_top st)) (x # xs)" by (rule fl_repE)
  then obtain e where "fl_elems m x = Some e" "x \<noteq> NULL" "fst (fs_top st) = x"
      "chain (fe_link m) (fst (fe_next e)) xs"
    by (auto simp: fe_link_def split: option.splits)
  with st show ?thesis
    by (auto simp: freelist_pop_eq intro!: fl_repI)
qed

lemma freelist_pop_rep_Nil:
  assumes rep: "fl_rep m fs []"
  shows "freelist_pop fs m = Ok (NULL, m)"
  using rep by (auto elim!: fl_repE intro: freelist_pop_empty)

lemma fl_more_eq:
  assumes "c_mem.more m' = c_mem.more m"
  shows "fl_states m' = fl_states m" "fl_elems m' = fl_elems m" "fe_link m' = fe_link m"
    "fl_mem.more m' = fl_mem.more m"
  using assms by (cases m, cases m', simp add: fe_link_def fun_eq_iff)+

section \<open>Building a freelist\<close>

text \<open>
  The induction over the creation loop: \<open>I n m\<close> is what holds with \<open>n\<close> rounds to go. The
  stack and the queue instantiate it with their own initialisers.
\<close>

lemma freelist_new_elements_loop_rule:
  assumes "I n m"
    and "\<And>n m. I (Suc n) m \<Longrightarrow> \<exists>fe m1 m2. freelist_internal_new_element icall fs m = Ok (1, fe, m1) \<and>
      freelist_push fs fe m1 = Ok m2 \<and> I n m2"
  shows "\<exists>m'. freelist_new_elements_loop icall fs n c m = Ok (c + of_nat n, m') \<and> I 0 m'"
  using assms(1)
proof (induction n arbitrary: m c)
  case 0
  then show ?case by simp
next
  case (Suc n)
  from assms(2) [OF Suc.prems] obtain fe m1 m2 where
    "freelist_internal_new_element icall fs m = Ok (1, fe, m1)"
    "freelist_push fs fe m1 = Ok m2" "I n m2" by blast
  with Suc.IH [of m2 "c + 1"] show ?case by (auto simp: algebra_simps)
qed

lemma alloc_fe_enough:
  assumes "heap_ok m" and "enough_mem (Suc k) m"
  obtains q e m' where "alloc_fe m = (q, set_fe q e m')" "fresh_block q m m'" "heap_ok m'"
    "enough_mem k m'"
proof -
  from aligned_malloc_enough [OF assms(1) _ assms(2), where al = LF_ALIGN_DOUBLE_POINTER and sz = 24]
  obtain q m' where *: "aligned_malloc 24 LF_ALIGN_DOUBLE_POINTER m = (q, m')" "fresh_block q m m'"
    "heap_ok m'" "enough_mem k m'" by blast
  then show ?thesis
    using that [of q _ m'] by (simp add: alloc_fe_def fresh_block_def)
qed

lemma fresh_block_fl:
  assumes "fresh_block q m m'"
  shows "fl_states m' = fl_states m" "fl_elems m' = fl_elems m" "fe_link m' = fe_link m"
    "fl_mem.more m' = fl_mem.more m" "m_junk m' = m_junk m"
  using assms fl_more_eq [of m' m] by (simp_all add: fresh_block_def)

text \<open>A plain element (no initialiser): a fresh block with NULL data, counted.\<close>

lemma new_element_plain:
  assumes "heap_ok m" "enough_mem (Suc k) m" "fs \<noteq> NULL" "fl_states m fs = Some st"
    and "fs_init_func st = NULL"
  obtains q e m1 where
    "freelist_internal_new_element icall fs m =
       Ok (1, q, set_fs fs (st\<lparr>fs_element_count := fs_element_count st + 1\<rparr>) (set_fe q e m1))"
    "fe_data e = NULL" "fresh_block q m m1" "heap_ok m1" "enough_mem k m1"
proof -
  obtain q e m1 where *: "alloc_fe m = (q, set_fe q e m1)" "fresh_block q m m1" "heap_ok m1"
    "enough_mem k m1" using alloc_fe_enough [OF assms(1,2)] .
  have "set_fe q e' (set_fe q e m1) = set_fe q e' m1" for e'
    by (simp add: set_fe_def)
  then have "freelist_internal_new_element icall fs m =
      Ok (1, q, set_fs fs (st\<lparr>fs_element_count := fs_element_count st + 1\<rparr>)
                 (set_fe q (e\<lparr>fe_data := NULL\<rparr>) m1))"
    using assms * fresh_block_fl [OF *(2)]
    by (simp add: freelist_internal_new_element_def abstraction_increment_def)
  with * show ?thesis using that by simp
qed

definition fl_built :: "'a fl_mem_scheme \<Rightarrow> 'a fl_mem_scheme \<Rightarrow> addr \<Rightarrow> addr list \<Rightarrow> bool" where
  "fl_built m0 m fs xs \<longleftrightarrow>
     heap_ok m \<and> fl_rep m fs xs \<and> distinct (fs # xs) \<and>
     (\<forall>q \<in> set (fs # xs). allocated m q \<and> \<not> allocated m0 q) \<and>
     (\<forall>q. q \<notin> set (fs # xs) \<longrightarrow> allocated m q = allocated m0 q) \<and>
     (\<forall>x \<in> set xs. \<exists>e. fl_elems m x = Some e \<and> fe_data e = NULL) \<and>
     (\<exists>st. fl_states m fs = Some st \<and> fs_init_func st = NULL \<and>
        fs_element_count st = of_nat (length xs) \<and> fs_aba_counter st = of_nat (length xs) \<and>
        pchain (fe_pair m) (fs_top st) (stamped xs))"

lemma fl_built_step:
  assumes built: "fl_built m0 m fs xs" and en: "enough_mem (Suc k) m"
  shows "\<exists>fe m1 m2. freelist_internal_new_element icall fs m = Ok (1, fe, m1) \<and>
    freelist_push fs fe m1 = Ok m2 \<and> fl_built m0 m2 fs (fe # xs) \<and> enough_mem k m2"
proof -
  from built obtain st where st: "fl_states m fs = Some st" "fs_init_func st = NULL"
      "fs_element_count st = of_nat (length xs)" "fs_aba_counter st = of_nat (length xs)"
      "pchain (fe_pair m) (fs_top st) (stamped xs)"
    and ok: "heap_ok m" and fs: "fs \<noteq> NULL" and rep: "chain (fe_link m) (fst (fs_top st)) xs"
    by (auto simp: fl_built_def elim: fl_repE)
  obtain q e m1 where new: "freelist_internal_new_element icall fs m =
       Ok (1, q, set_fs fs (st\<lparr>fs_element_count := fs_element_count st + 1\<rparr>) (set_fe q e m1))"
    and e: "fe_data e = NULL" and fr: "fresh_block q m m1" and m1: "heap_ok m1" "enough_mem k m1"
    using new_element_plain [OF ok en fs st(1,2)] .
  let ?m1 = "set_fs fs (st\<lparr>fs_element_count := fs_element_count st + 1\<rparr>) (set_fe q e m1)"
  have q: "q \<notin> set (fs # xs)" "q \<noteq> NULL" "\<not> allocated m0 q"
    using fr built by (auto simp: fresh_block_def fl_built_def)
  obtain m2 where push: "freelist_push fs q ?m1 = Ok m2"
    and m2: "m2 = set_fs fs (st\<lparr>fs_element_count := fs_element_count st + 1,
        fs_aba_counter := fs_aba_counter st + 1, fs_top := (q, fs_aba_counter st + 1)\<rparr>)
        (set_fe q (e\<lparr>fe_next := fs_top st\<rparr>) m1)"
    using fs q(2) fresh_block_fl [OF fr]
    by (simp add: freelist_push_eq [where st = "st\<lparr>fs_element_count := fs_element_count st + 1\<rparr>" and e = e])
  have "fl_rep m2 fs (q # xs)"
    using rep q fs fresh_block_fl [OF fr] by (auto simp: m2 intro!: fl_repI)
  moreover have "fe_pair m2 = (fe_pair m)(q := fs_top st)"
    using fresh_block_fl [OF fr] by (auto simp: m2 fe_pair_def fun_eq_iff)
  ultimately have "fl_built m0 m2 fs (q # xs)"
    using built fr q m1 e st fresh_block_fl [OF fr]
    unfolding fl_built_def by (auto simp: m2 fresh_block_def pchain_upd)
  with new push m1 show ?thesis by (auto simp: m2)
qed

lemma freelist_new_plain:
  assumes ok: "heap_ok m" and en: "enough_mem (Suc (unat n)) m"
  shows "\<exists>fs xs m'. freelist_new icall n NULL state m = Ok (1, fs, m') \<and>
    fl_built m m' fs xs \<and> length xs = unat n"
proof -
  from aligned_malloc_enough [OF ok _ en, where al = LF_ALIGN_DOUBLE_POINTER and sz = 48]
  obtain fs m1 where al: "aligned_malloc 48 LF_ALIGN_DOUBLE_POINTER m = (fs, m1)"
    and fr: "fresh_block fs m m1" and m1: "heap_ok m1" "enough_mem (unat n) m1" by blast
  let ?m2 = "set_fs fs \<lparr>fs_top = (NULL, 0), fs_init_func = NULL, fs_state = state,
                              fs_aba_counter = 0, fs_element_count = 0\<rparr> m1"
  have fs: "fs \<noteq> NULL" using fr by (simp add: fresh_block_def)
  let ?I = "\<lambda>k m'. \<exists>xs. fl_built m m' fs xs \<and> length xs + k = unat n \<and> enough_mem k m'"
  have I: "?I (unat n) ?m2"
    using fr fs m1 by (intro exI [of _ "[]"]) (auto simp: fl_built_def fresh_block_def fl_rep_def)
  have "\<exists>m'. freelist_new_elements_loop icall fs (unat n) 0 ?m2 = Ok (0 + of_nat (unat n), m') \<and> ?I 0 m'"
  proof (rule freelist_new_elements_loop_rule [where I = ?I, OF I])
    fix k m' assume "?I (Suc k) m'"
    then obtain xs where xs: "fl_built m m' fs xs" "length xs + Suc k = unat n" "enough_mem (Suc k) m'"
      by blast
    from fl_built_step [OF xs(1,3)] obtain fe ma mb where
      "freelist_internal_new_element icall fs m' = Ok (1, fe, ma)" "freelist_push fs fe ma = Ok mb"
      "fl_built m mb fs (fe # xs)" "enough_mem k mb" by blast
    note * = this
    show "\<exists>fe m1 m2. freelist_internal_new_element icall fs m' = Ok (1, fe, m1) \<and>
        freelist_push fs fe m1 = Ok m2 \<and> ?I k m2"
      by (rule exI [of _ fe], rule exI [of _ ma], rule exI [of _ mb]) (use * xs(2) in auto)
  qed
  then obtain m' where m': "freelist_new_elements_loop icall fs (unat n) 0 ?m2 = Ok (n, m')" "?I 0 m'"
    by auto
  from m'(1) al fs have "freelist_new icall n NULL state m = Ok (1, fs, m')"
    by (simp add: freelist_new_def freelist_new_elements_def)
  with m'(2) show ?thesis by auto
qed

section \<open>Tearing a freelist down\<close>

text \<open>The induction over the loop of \<open>freelist_delete\<close>: \<open>I xs m\<close> holds with \<open>xs\<close> left.\<close>

lemma freelist_delete_loop_rule:
  assumes "I xs m"
    and nil: "\<And>m. I [] m \<Longrightarrow> freelist_pop fs m = Ok (NULL, m)"
    and step: "\<And>x xs m. I (x # xs) m \<Longrightarrow> \<exists>m1 m2 m3.
      freelist_pop fs m = Ok (x, m1) \<and> x \<noteq> NULL \<and>
      (if delete_func \<noteq> NULL then
              call (freelist_get_data x m1) (\<lambda>data. dcall delete_func data state m1)
            else Ok m1) = Ok m2 \<and> free_fe x m2 = Ok m3 \<and> I xs m3"
  shows "\<exists>m'. cloop (freelist_delete_body dcall fs delete_func state) m = Ok m' \<and> I [] m'"
  using assms(1)
proof (induction xs arbitrary: m)
  case Nil
  then have "freelist_delete_body dcall fs delete_func state m = Ok (Done m)"
    by (simp add: freelist_delete_body_def nil)
  with Nil show ?case by simp
next
  case (Cons x xs)
  from step [OF Cons.prems] obtain m1 m2 m3 where
    "freelist_pop fs m = Ok (x, m1)" "x \<noteq> NULL"
    "(if delete_func \<noteq> NULL then
              call (freelist_get_data x m1) (\<lambda>data. dcall delete_func data state m1)
            else Ok m1) = Ok m2" "free_fe x m2 = Ok m3" "I xs m3" by blast
  then have "freelist_delete_body dcall fs delete_func state m = Ok (Again m3)"
    by (simp add: freelist_delete_body_def)
  then show ?case
    using Cons.IH [OF \<open>I xs m3\<close>] by (simp add: cloop_Again)
qed

lemma free_fe_allocated:
  assumes "heap_ok m" and "allocated m x"
  shows "\<exists>m'. free_fe x m = Ok m' \<and> heap_ok m' \<and>
    (\<forall>r. allocated m' r \<longleftrightarrow> allocated m r \<and> r \<noteq> x) \<and>
    fl_states m' = fl_states m \<and> fl_elems m' = (fl_elems m)(x := None) \<and> fl_mem.more m' = fl_mem.more m"
proof -
  from aligned_free_allocated [OF assms] obtain m1 where m1: "aligned_free x m = Ok m1" "heap_ok m1"
    "\<forall>r. allocated m1 r \<longleftrightarrow> allocated m r \<and> r \<noteq> x"
    and "c_mem.more m1 = c_mem.more m" by blast
  note fr = fl_more_eq [OF this(4)]
  show ?thesis
    using m1 fr
    by (intro exI [of _ "m1\<lparr>fl_elems := (fl_elems m1)(x := None)\<rparr>"]) (simp add: free_fe_def)
qed

lemma free_fs_allocated:
  assumes "heap_ok m" and "allocated m x"
  shows "\<exists>m'. free_fs x m = Ok m' \<and> heap_ok m' \<and>
    (\<forall>r. allocated m' r \<longleftrightarrow> allocated m r \<and> r \<noteq> x) \<and>
    fl_elems m' = fl_elems m \<and> fl_states m' = (fl_states m)(x := None) \<and> fl_mem.more m' = fl_mem.more m"
proof -
  from aligned_free_allocated [OF assms] obtain m1 where m1: "aligned_free x m = Ok m1" "heap_ok m1"
    "\<forall>r. allocated m1 r \<longleftrightarrow> allocated m r \<and> r \<noteq> x"
    and "c_mem.more m1 = c_mem.more m" by blast
  note fr = fl_more_eq [OF this(4)]
  show ?thesis
    using m1 fr
    by (intro exI [of _ "m1\<lparr>fl_states := (fl_states m1)(x := None)\<rparr>"]) (simp add: free_fs_def)
qed

text \<open>\<open>fl_owned m fs xs\<close>: a freelist all of whose parts are live, distinct blocks.\<close>

definition fl_owned :: "'a fl_mem_scheme \<Rightarrow> addr \<Rightarrow> addr list \<Rightarrow> bool" where
  "fl_owned m fs xs \<longleftrightarrow>
     heap_ok m \<and> fl_rep m fs xs \<and> fs \<notin> set xs \<and> (\<forall>q \<in> set (fs # xs). allocated m q)"

lemma fl_owned_pop_free:
  assumes "fl_owned m fs (x # xs)"
  shows "\<exists>m1 m3. freelist_pop fs m = Ok (x, m1) \<and> x \<noteq> NULL \<and> free_fe x m1 = Ok m3 \<and>
    fl_owned m3 fs xs \<and> (\<forall>r. allocated m3 r \<longleftrightarrow> allocated m r \<and> r \<noteq> x)"
proof -
  from assms have rep: "fl_rep m fs (x # xs)" and al: "\<forall>q \<in> set (fs # x # xs). allocated m q"
    and ok: "heap_ok m" and fs: "fs \<notin> set (x # xs)" by (simp_all add: fl_owned_def)
  from rep obtain st where st: "fs \<noteq> NULL" "fl_states m fs = Some st"
      "chain (fe_link m) (fst (fs_top st)) (x # xs)" by (rule fl_repE)
  then obtain e where e: "fl_elems m x = Some e" "x \<noteq> NULL" "fst (fs_top st) = x"
      "chain (fe_link m) (fst (fe_next e)) xs"
    by (auto simp: fe_link_def split: option.splits)
  let ?m1 = "set_fs fs (st\<lparr>fs_top := fe_next e\<rparr>) m"
  have pop: "freelist_pop fs m = Ok (x, ?m1)"
    using st e by (simp add: freelist_pop_eq)
  have "heap_ok ?m1" "allocated ?m1 x" using ok al by simp_all
  from free_fe_allocated [OF this] obtain m3 where m3: "free_fe x ?m1 = Ok m3" "heap_ok m3"
    "\<forall>r. allocated m3 r \<longleftrightarrow> allocated m r \<and> r \<noteq> x"
    "fl_states m3 = fl_states ?m1" "fl_elems m3 = (fl_elems m)(x := None)"
    by auto
  have x: "x \<notin> set xs" using fl_rep_distinct [OF rep] by simp
  have "chain (fe_link m3) (fst (fe_next e)) xs"
    using e(4) x by (subst chain_cong [where h' = "fe_link m"]) (auto simp: fe_link_def m3(5))
  then have "fl_rep m3 fs xs"
    using st(1) m3(4) by (intro fl_repI [where st = "st\<lparr>fs_top := fe_next e\<rparr>"]) simp_all
  then have "fl_owned m3 fs xs"
    unfolding fl_owned_def using al m3(2,3) fs x by auto
  with pop e m3 show ?thesis by auto
qed

lemma freelist_delete_owned:
  fixes m :: "'a fl_mem_scheme" and dcall :: "'a fl_mem_scheme delete_calls"
  assumes own: "fl_owned m fs xs"
  shows "\<exists>m'. freelist_delete dcall fs NULL state m = Ok m' \<and> heap_ok m' \<and>
    fl_states m' fs = None \<and>
    (\<forall>r. allocated m' r \<longleftrightarrow> allocated m r \<and> r \<notin> set (fs # xs))"
proof -
  let ?I = "\<lambda>ys m'. fl_owned m' fs ys \<and> set ys \<subseteq> set xs \<and>
     (\<forall>r. allocated m' r \<longleftrightarrow> allocated m r \<and> (r \<notin> set xs \<or> r \<in> set ys))"
  have I: "?I xs m" using own by auto
  have "\<exists>m'. cloop (freelist_delete_body dcall fs NULL state) m = Ok m' \<and> ?I [] m'"
  proof (rule freelist_delete_loop_rule [where I = ?I, OF I])
    fix m' assume "?I [] m'"
    then show "freelist_pop fs m' = Ok (NULL, m')"
      by (simp add: fl_owned_def freelist_pop_rep_Nil)
  next
    fix y ys and m' :: "'a fl_mem_scheme" assume I: "?I (y # ys) m'"
    then have y: "y \<notin> set ys" by (auto simp: fl_owned_def dest: fl_rep_distinct)
    from I have "fl_owned m' fs (y # ys)" by simp
    from fl_owned_pop_free [OF this] obtain m1 m3 :: "'a fl_mem_scheme" where
      "freelist_pop fs m' = Ok (y, m1)" "y \<noteq> NULL" "free_fe y m1 = Ok m3" "fl_owned m3 fs ys"
      "\<forall>r. allocated m3 r \<longleftrightarrow> allocated m' r \<and> r \<noteq> y" by blast
    note * = this
    show "\<exists>m1 m2 m3 :: 'a fl_mem_scheme. freelist_pop fs m' = Ok (y, m1) \<and> y \<noteq> NULL \<and>
        (if NULL \<noteq> NULL then call (freelist_get_data y m1) (\<lambda>data. dcall NULL data state m1)
         else Ok m1) = Ok m2 \<and> free_fe y m2 = Ok m3 \<and> ?I ys m3"
      by (rule exI [of _ m1], rule exI [of _ m1], rule exI [of _ m3]) (use * I y in auto)
  qed
  then obtain m1 where m1: "cloop (freelist_delete_body dcall fs NULL state) m = Ok m1" "?I [] m1"
    by blast
  from m1(2) own have "heap_ok m1" "allocated m1 fs" by (auto simp: fl_owned_def)
  from free_fs_allocated [OF this] obtain m' where m': "free_fs fs m1 = Ok m'" "heap_ok m'"
    "\<forall>r. allocated m' r \<longleftrightarrow> allocated m1 r \<and> r \<noteq> fs" "fl_states m' = (fl_states m1)(fs := None)"
    by blast
  moreover have "fs \<noteq> NULL" using own by (simp add: fl_owned_def fl_rep_def)
  ultimately have "freelist_delete dcall fs NULL state m = Ok m'"
    using m1(1) m'(1) by (simp add: freelist_delete_def)
  moreover have "allocated m' r \<longleftrightarrow> allocated m r \<and> r \<notin> set (fs # xs)" for r
    using m1(2) m'(3) by auto
  ultimately show ?thesis using m'(2,4) by auto
qed

section \<open>Validation\<close>

lemma freelist_validate_chain:
  assumes lh: "list_heap (fe_link m)" and rep: "fl_rep m fs xs"
  shows "freelist_internal_validate fs vi m =
    Ok (case vi of None \<Rightarrow> VALIDITY_VALID
        | Some v \<Rightarrow> bounds_verdict v (of_nat (length xs)) VALIDITY_VALID)"
proof -
  from rep obtain st where st: "fs \<noteq> NULL" "fl_states m fs = Some st"
      "chain (fe_link m) (fst (fs_top st)) xs" by (rule fl_repE)
  then show ?thesis
    using find_cycle_chain [OF lh st(3)] count_elements_chain [OF st(3)]
    by (simp add: freelist_internal_validate_def cycle_verdict_def split: option.split)
qed

lemma freelist_validate_cyclic:
  assumes lh: "list_heap (fe_link m)" and st: "fs \<noteq> NULL" "fl_states m fs = Some st"
    and top: "fst (fs_top st) = NULL \<or> fst (fs_top st) \<in> dom (fe_link m)"
    and cyc: "\<nexists>xs. fl_rep m fs xs"
  shows "freelist_internal_validate fs vi m = Ok VALIDITY_INVALID_LOOP"
proof -
  have "\<nexists>xs. chain (fe_link m) (fst (fs_top st)) xs"
    using cyc st by (simp add: fl_rep_def)
  with find_cycle_correct [OF lh top] st show ?thesis
    by (auto simp: freelist_internal_validate_def split: option.split)
qed

section \<open>A concrete freelist\<close>

text \<open>A heap for small runs, and the freelist of two elements that \<open>freelist_new\<close> builds in it.\<close>

definition fl_demo :: fl_mem where
  "fl_demo = \<lparr>m_script = [16, 112, 208, 304], m_live = [], m_hdr = (\<lambda>p. None),
     m_junk = (\<lambda>p. 255), fl_states = (\<lambda>p. None), fl_elems = (\<lambda>p. None)\<rparr>"

definition fl_demo_built :: fl_mem where
  "fl_demo_built = \<lparr>m_script = [304], m_live = [208, 112, 16],
     m_hdr = [24 \<mapsto> 16, 120 \<mapsto> 112, 216 \<mapsto> 208], m_junk = (\<lambda>p. 255),
     fl_states = [32 \<mapsto> \<lparr>fs_top = (224, 2), fs_init_func = NULL, fs_state = NULL,
                         fs_aba_counter = 2, fs_element_count = 2\<rparr>],
     fl_elems = [128 \<mapsto> \<lparr>fe_next = (NULL, 0), fe_data = NULL\<rparr>,
                 224 \<mapsto> \<lparr>fe_next = (128, 1), fe_data = NULL\<rparr>]\<rparr>"

lemma freelist_new_elements_loop_num [run_eval]:
  "freelist_new_elements_loop icall fs (numeral n) count m =
     call (freelist_internal_new_element icall fs m) (\<lambda>(rv, fe, m1).
       if rv \<noteq> 0 then
         call (freelist_push fs fe m1) (\<lambda>m2.
           freelist_new_elements_loop icall fs (pred_numeral n) (count + 1) m2)
       else freelist_new_elements_loop icall fs (pred_numeral n) count m1)"
  by (simp only: numeral_eq_Suc freelist_new_elements_loop.simps)

declare freelist_new_def [run_eval] freelist_new_elements_def [run_eval]
  freelist_internal_new_element_def [run_eval] alloc_fe_def [run_eval] freelist_push_eq [run_eval]
  freelist_pop_eq [run_eval] freelist_pop_empty [run_eval] set_fs_def [run_eval] set_fe_def [run_eval]
  free_fe_def [run_eval] free_fs_def [run_eval]

lemma fl_demo_heap: "heap_ok fl_demo" "enough_mem 3 fl_demo" "enough_mem 4 fl_demo"
  by (simp_all add: heap_ok_def fl_demo_def good_block_def)

lemma fl_demo_new:
  "freelist_new (\<lambda>f st m. Fault BadDeref) 2 NULL NULL fl_demo = Ok (1, 32, fl_demo_built)"
  by (simp add: fl_demo_def fl_demo_built_def run_eval)

section \<open>The freelist as a pool\<close>

definition fl_node :: "'a fl_mem_scheme \<Rightarrow> addr \<Rightarrow> bool" where
  "fl_node m x \<longleftrightarrow> x \<noteq> NULL \<and> fl_elems m x \<noteq> None"

interpretation fl_pool: lifo_pool "\<lambda>m. fl_rep m fs" fl_node "freelist_push fs" "freelist_pop fs" for fs
proof
  fix m :: "'a fl_mem_scheme" and xs x
  assume rep: "fl_rep m fs xs" and "fl_node m x" and x: "x \<notin> set xs"
  then obtain e where e: "fl_elems m x = Some e" "x \<noteq> NULL" by (auto simp: fl_node_def)
  obtain st where "fs \<noteq> NULL" "fl_states m fs = Some st" using rep by (rule fl_repE)
  then have "freelist_push fs x m = Ok m' \<Longrightarrow> fl_node m' = fl_node m" for m'
    using e by (auto simp: freelist_push_eq fl_node_def fun_eq_iff split: if_splits)
  then show "\<exists>m'. freelist_push fs x m = Ok m' \<and> fl_rep m' fs (x # xs) \<and> fl_node m' = fl_node m"
    using freelist_push_rep [OF rep e x] by blast
next
  fix m :: "'a fl_mem_scheme" and x xs
  assume "fl_rep m fs (x # xs)"
  from freelist_pop_rep [OF this]
  show "\<exists>m'. freelist_pop fs m = Ok (x, m') \<and> fl_rep m' fs xs \<and> fl_node m' = fl_node m"
    by (auto simp: fl_node_def fun_eq_iff)
qed (rule freelist_pop_rep_Nil)

section \<open>Properties\<close>

text \<open>
  C3. The freelist is a stack of elements: on a freelist holding \<open>xs\<close>, every sequence of
  \<open>freelist_push\<close> and \<open>freelist_pop\<close> that pushes only elements which are not in the list
  returns what the same sequence returns on the list \<open>xs\<close>, and ends with that list.
\<close>

theorem freelist_sequences:
  assumes "fl_rep m fs xs" and "pool_legal (fl_node m) ops xs"
  shows "\<exists>m'. pool_run (freelist_push fs) (freelist_pop fs) ops m = Ok (fst (pool_spec ops xs), m') \<and>
    fl_rep m' fs (snd (pool_spec ops xs))"
  using fl_pool.pool_run_refines [OF assms] by blast

theorem freelist_sequences_witness:
  "\<exists>m'. pool_run (freelist_push 32) (freelist_pop 32) [PPop, PPop, PPop, PPush 224, PPush 128, PPop]
       fl_demo_built = Ok ([224, 128, NULL, 128], m') \<and> fl_rep m' 32 [224]"
  using freelist_sequences [of fl_demo_built 32 "[224, 128]" "[PPop, PPop, PPop, PPush 224, PPush 128, PPop]"]
  by (simp add: fl_demo_built_def fl_rep_def fl_node_def fe_link_def)

text \<open>
  C4. Life cycle. If the allocations succeed, \<open>freelist_new\<close> returns 1 and a freelist of
  exactly the requested number of distinct, freshly allocated elements; \<open>freelist_query\<close>
  counts them; and \<open>freelist_delete\<close> (with no destructor) gives back every block that was
  allocated and no other.
\<close>

theorem freelist_life_cycle:
  assumes "heap_ok m" and "enough_mem (Suc (unat n)) m"
  shows "\<exists>fs xs m1 m2. freelist_new icall n NULL state m = Ok (1, fs, m1) \<and>
    fl_rep m1 fs xs \<and> length xs = unat n \<and> distinct xs \<and>
    (\<forall>x \<in> set xs. allocated m1 x \<and> \<not> allocated m x) \<and>
    freelist_query fs FREELIST_QUERY_ELEMENT_COUNT None m1 = Ok (Count n) \<and>
    freelist_delete dcall fs NULL state m1 = Ok m2 \<and> (\<forall>q. allocated m2 q = allocated m q)"
proof -
  obtain fs xs m1 where new: "freelist_new icall n NULL state m = Ok (1, fs, m1)"
    and b: "fl_built m m1 fs xs" and len: "length xs = unat n"
    using freelist_new_plain [OF assms] by blast
  have "fl_owned m1 fs xs" using b by (auto simp: fl_built_def fl_owned_def)
  from freelist_delete_owned [OF this, of dcall state] obtain m2 where
    del: "freelist_delete dcall fs NULL state m1 = Ok m2"
      "\<forall>r. allocated m2 r \<longleftrightarrow> allocated m1 r \<and> r \<notin> set (fs # xs)" by blast
  have "allocated m2 q = allocated m q" for q
    using del(2) b unfolding fl_built_def by (cases "q \<in> set (fs # xs)") auto
  moreover have "freelist_query fs FREELIST_QUERY_ELEMENT_COUNT None m1 = Ok (Count n)"
    using b len by (auto simp: fl_built_def freelist_query_def fl_rep_def)
  ultimately show ?thesis
    using new b len del(1) unfolding fl_built_def
    by (intro exI [of _ fs] exI [of _ xs] exI [of _ m1] exI [of _ m2]) auto
qed

theorem freelist_life_cycle_witness:
  "\<exists>fs xs m1 m2. freelist_new (\<lambda>f st m. Fault BadDeref) 2 NULL NULL fl_demo = Ok (1, fs, m1) \<and>
    fl_rep m1 fs xs \<and> length xs = 2 \<and> distinct xs \<and>
    (\<forall>x \<in> set xs. allocated m1 x \<and> \<not> allocated fl_demo x) \<and>
    freelist_query fs FREELIST_QUERY_ELEMENT_COUNT None m1 = Ok (Count 2) \<and>
    freelist_delete (\<lambda>f d st m. Fault BadDeref) fs NULL NULL m1 = Ok m2 \<and>
    (\<forall>q. allocated m2 q = allocated fl_demo q)"
  using freelist_life_cycle [of fl_demo 2 "\<lambda>f st m. Fault BadDeref" NULL "\<lambda>f d st m. Fault BadDeref"]
    fl_demo_heap by simp

text \<open>
  C5. Validation is exact. On a heap whose links stay among the elements (which includes the
  corrupted, cyclic ones), \<open>freelist_internal_validate\<close> terminates; it reports a loop if and
  only if following \<open>next\<close> from the top never reaches NULL, and otherwise compares the number
  of elements with the caller's bounds.
\<close>

theorem freelist_validate_exact:
  assumes "list_heap (fe_link m)" and "fs \<noteq> NULL" "fl_states m fs = Some st"
    and "fst (fs_top st) = NULL \<or> fst (fs_top st) \<in> dom (fe_link m)"
  shows "(freelist_query fs FREELIST_QUERY_VALIDATE vi m = Ok (Validity VALIDITY_INVALID_LOOP) \<longleftrightarrow>
      (\<nexists>xs. fl_rep m fs xs)) \<and>
    (\<forall>xs. fl_rep m fs xs \<longrightarrow> freelist_query fs FREELIST_QUERY_VALIDATE vi m =
      Ok (Validity (case vi of None \<Rightarrow> VALIDITY_VALID
        | Some v \<Rightarrow> if of_nat (length xs) > max_element v then VALIDITY_INVALID_ADDITIONAL_ELEMENTS
                    else if of_nat (length xs) < min_element v then VALIDITY_INVALID_MISSING_ELEMENTS
                    else VALIDITY_VALID)))"
proof (cases "\<exists>xs. fl_rep m fs xs")
  case True
  have "freelist_query fs FREELIST_QUERY_VALIDATE vi m = Ok (Validity (case vi of None \<Rightarrow> VALIDITY_VALID
        | Some v \<Rightarrow> if of_nat (length xs) > max_element v then VALIDITY_INVALID_ADDITIONAL_ELEMENTS
                    else if of_nat (length xs) < min_element v then VALIDITY_INVALID_MISSING_ELEMENTS
                    else VALIDITY_VALID))" if "fl_rep m fs xs" for xs
    using freelist_validate_chain [OF assms(1) that] assms(2)
    by (simp add: freelist_query_def bounds_verdict_def split: option.split)
  with True show ?thesis by (fastforce split: option.splits if_splits)
next
  case False
  then show ?thesis
    using freelist_validate_cyclic [OF assms] assms(2) by (simp add: freelist_query_def)
qed

text \<open>A freelist whose only element points to itself.\<close>

definition fl_demo_loop :: fl_mem where
  "fl_demo_loop = \<lparr>m_script = [], m_live = [], m_hdr = (\<lambda>p. None), m_junk = (\<lambda>p. 255),
     fl_states = [32 \<mapsto> \<lparr>fs_top = (128, 2), fs_init_func = NULL, fs_state = NULL,
                         fs_aba_counter = 2, fs_element_count = 1\<rparr>],
     fl_elems = [128 \<mapsto> \<lparr>fe_next = (128, 1), fe_data = NULL\<rparr>]\<rparr>"

lemma fl_demo_links:
  "fe_link fl_demo_loop = [128 \<mapsto> 128]" "fe_link fl_demo_built = [128 \<mapsto> NULL, 224 \<mapsto> 128]"
  by (auto simp: fe_link_def fl_demo_loop_def fl_demo_built_def fun_eq_iff)

lemma fl_demo_loop_endless: "\<not> fl_rep fl_demo_loop 32 xs"
proof -
  have "\<not> chain [128 \<mapsto> 128] p xs" if "p = 128" for p :: addr
    using that by (induction xs arbitrary: p) auto
  moreover have "fl_states fl_demo_loop 32 = Some \<lparr>fs_top = (128, 2), fs_init_func = NULL,
      fs_state = NULL, fs_aba_counter = 2, fs_element_count = 1\<rparr>"
    by (simp add: fl_demo_loop_def)
  ultimately show ?thesis by (simp add: fl_rep_def fl_demo_links)
qed

theorem freelist_validate_exact_witness:
  "freelist_query 32 FREELIST_QUERY_VALIDATE None fl_demo_loop = Ok (Validity VALIDITY_INVALID_LOOP) \<and>
   freelist_query 32 FREELIST_QUERY_VALIDATE (Some \<lparr>min_element = 3, max_element = 5\<rparr>) fl_demo_built =
     Ok (Validity VALIDITY_INVALID_MISSING_ELEMENTS)"
proof
  have "list_heap (fe_link fl_demo_loop)" by (simp add: fl_demo_links list_heap_def)
  moreover have "fl_states fl_demo_loop 32 = Some \<lparr>fs_top = (128, 2), fs_init_func = NULL,
      fs_state = NULL, fs_aba_counter = 2, fs_element_count = 1\<rparr>"
    by (simp add: fl_demo_loop_def)
  ultimately show "freelist_query 32 FREELIST_QUERY_VALIDATE None fl_demo_loop =
      Ok (Validity VALIDITY_INVALID_LOOP)"
    using freelist_validate_exact [of fl_demo_loop 32 _ None] fl_demo_loop_endless
    by (auto simp: fl_demo_links)
next
  have "list_heap (fe_link fl_demo_built)" by (auto simp: fl_demo_links list_heap_def)
  moreover have "fl_states fl_demo_built 32 = Some \<lparr>fs_top = (224, 2), fs_init_func = NULL,
      fs_state = NULL, fs_aba_counter = 2, fs_element_count = 2\<rparr>"
    by (simp add: fl_demo_built_def)
  moreover have "fl_rep fl_demo_built 32 [224, 128]"
    using calculation(2) by (simp add: fl_rep_def fl_demo_links)
  ultimately show "freelist_query 32 FREELIST_QUERY_VALIDATE
      (Some \<lparr>min_element = 3, max_element = 5\<rparr>) fl_demo_built = Ok (Validity VALIDITY_INVALID_MISSING_ELEMENTS)"
    using freelist_validate_exact [of fl_demo_built 32 _ "Some \<lparr>min_element = 3, max_element = 5\<rparr>"]
    by (auto simp: fl_demo_links)
qed

text \<open>
  C6. A failed allocation is not noticed: \<open>freelist_internal_new_element\<close> compares the address
  of the caller's variable with NULL, not the pointer that \<open>aligned_malloc\<close> returned, and then
  writes through it. So whenever \<open>malloc\<close> fails, \<open>freelist_guaranteed_pop\<close> and every
  \<open>freelist_new\<close> of at least one element write through a NULL pointer, instead of returning NULL
  and 0.
\<close>

theorem freelist_out_of_memory:
  assumes "fs \<noteq> NULL" "fl_states m fs = Some st" "fl_elems m NULL = None"
    and "m_script m = []" and "n \<noteq> 0"
  shows "freelist_guaranteed_pop icall fs m = Fault BadDeref \<and>
    freelist_new_elements icall fs n m = Fault BadDeref"
proof -
  have fail: "freelist_internal_new_element icall fs m = Fault BadDeref"
    using assms by (simp add: freelist_internal_new_element_def alloc_fe_def aligned_malloc_fails)
  obtain k where "unat n = Suc k" using assms(5) by (metis unat_eq_0 not0_implies_Suc)
  with fail show ?thesis
    using assms(1) by (simp add: freelist_guaranteed_pop_def freelist_new_elements_def)
qed

theorem freelist_out_of_memory_witness:
  "freelist_guaranteed_pop (\<lambda>f st m. Fault BadDeref) 32 fl_demo_loop = Fault BadDeref \<and>
   freelist_new_elements (\<lambda>f st m. Fault BadDeref) 32 1 fl_demo_loop = Fault BadDeref"
  using freelist_out_of_memory [of 32 fl_demo_loop _ 1] by (simp add: fl_demo_loop_def)

end
