(* ===== verification/Trace.thy ===== *)
theory Trace
  imports Prelude
begin

text \<open>
  Labelled transition systems for the concurrent models: runs and their traces, and
  forward simulation. A step is labelled with the visible action (an operation is invoked
  or returns) or with \<open>None\<close> for a step inside an operation. If every step of the program
  is matched by steps of an atomic specification, every trace of invocations and returns
  of the program is a trace of the specification: linearizability, in the form used here.
\<close>

inductive run :: "('s \<Rightarrow> 'a option \<Rightarrow> 's \<Rightarrow> bool) \<Rightarrow> 's \<Rightarrow> 'a list \<Rightarrow> 's \<Rightarrow> bool"
  for step :: "'s \<Rightarrow> 'a option \<Rightarrow> 's \<Rightarrow> bool" and s0 :: 's where
  run_start: "run step s0 [] s0"
| run_inner: "run step s0 tr s \<Longrightarrow> step s None s' \<Longrightarrow> run step s0 tr s'"
| run_visible: "run step s0 tr s \<Longrightarrow> step s (Some a) s' \<Longrightarrow> run step s0 (tr @ [a]) s'"

lemma run_step:
  "run step s0 tr s \<Longrightarrow> step s a s' \<Longrightarrow>
     run step s0 (case a of None \<Rightarrow> tr | Some x \<Rightarrow> tr @ [x]) s'"
  by (cases a) (auto intro: run.intros)

text \<open>
  \<open>good\<close> bounds the runs that are looked at (for the tagged pointers: the counter has not
  wrapped around); a run that ends in a good state has been in good states all along.
\<close>

locale forward_simulation =
  fixes cstep :: "'s \<Rightarrow> 'a option \<Rightarrow> 's \<Rightarrow> bool"
    and astep :: "'t \<Rightarrow> 'a option \<Rightarrow> 't \<Rightarrow> bool"
    and good :: "'s \<Rightarrow> bool"
    and R :: "'s \<Rightarrow> 't \<Rightarrow> bool"
  assumes good_back: "cstep s a s' \<Longrightarrow> good s' \<Longrightarrow> good s"
    and sim: "R s t \<Longrightarrow> cstep s a s' \<Longrightarrow> good s' \<Longrightarrow>
      (\<exists>t'. astep t a t' \<and> R s' t') \<or> (a = None \<and> R s' t)"
begin

lemma run_simulates:
  assumes "run cstep s0 tr s" and "R s0 t0" and "good s"
  shows "\<exists>t. run astep t0 tr t \<and> R s t"
  using assms(1,3)
proof (induction rule: run.induct)
  case run_start
  show ?case using assms(2) run.run_start [of astep t0] by (intro exI [of _ t0]) simp
next
  case (run_inner tr s s')
  have "good s" using run_inner.hyps(2) run_inner.prems by (rule good_back)
  from run_inner.IH [OF this] obtain t where t: "run astep t0 tr t" "R s t" by auto
  from sim [OF t(2) run_inner.hyps(2) run_inner.prems] show ?case
    using t(1) run.run_inner [of astep t0 tr t] by auto
next
  case (run_visible tr s a s')
  have "good s" using run_visible.hyps(2) run_visible.prems by (rule good_back)
  from run_visible.IH [OF this] obtain t where t: "run astep t0 tr t" "R s t" by auto
  from sim [OF t(2) run_visible.hyps(2) run_visible.prems] show ?case
    using t(1) run.run_visible [of astep t0 tr t a] by auto
qed

end

section \<open>The atomic last-in-first-out object\<close>

text \<open>
  The specification of the freelist and of the stack's core: a list of elements, and per
  thread whether it is outside, inside a pop or push that has not taken effect, or done
  and about to return. The operation takes effect in one step between its invocation and
  its return. \<open>l_own\<close> is the clients' side of the contract: a thread pushes only an
  element that it has popped (or been given) and not pushed since.
\<close>

datatype lifo_act = InvPop nat | RetPop nat addr | InvPush nat addr | RetPush nat

datatype lifo_status = AIdle | APop | APopped addr | APush addr | APushed

record lifo =
  l_list :: "addr list"
  l_status :: "nat \<Rightarrow> lifo_status"
  l_own :: "nat \<Rightarrow> addr set"

inductive lifo_step :: "lifo \<Rightarrow> lifo_act option \<Rightarrow> lifo \<Rightarrow> bool" where
  inv_pop: "l_status s t = AIdle \<Longrightarrow>
    lifo_step s (Some (InvPop t)) (s\<lparr>l_status := (l_status s)(t := APop)\<rparr>)"
| eff_pop: "l_status s t = APop \<Longrightarrow> l_list s = x # xs \<Longrightarrow>
    lifo_step s None (s\<lparr>l_status := (l_status s)(t := APopped x), l_list := xs\<rparr>)"
| eff_pop_empty: "l_status s t = APop \<Longrightarrow> l_list s = [] \<Longrightarrow>
    lifo_step s None (s\<lparr>l_status := (l_status s)(t := APopped NULL)\<rparr>)"
| ret_pop: "l_status s t = APopped x \<Longrightarrow>
    lifo_step s (Some (RetPop t x)) (s\<lparr>l_status := (l_status s)(t := AIdle),
      l_own := (l_own s)(t := (if x = NULL then l_own s t else insert x (l_own s t)))\<rparr>)"
| inv_push: "l_status s t = AIdle \<Longrightarrow> x \<in> l_own s t \<Longrightarrow>
    lifo_step s (Some (InvPush t x)) (s\<lparr>l_status := (l_status s)(t := APush x),
      l_own := (l_own s)(t := l_own s t - {x})\<rparr>)"
| eff_push: "l_status s t = APush x \<Longrightarrow>
    lifo_step s None (s\<lparr>l_status := (l_status s)(t := APushed), l_list := x # l_list s\<rparr>)"
| ret_push: "l_status s t = APushed \<Longrightarrow>
    lifo_step s (Some (RetPush t)) (s\<lparr>l_status := (l_status s)(t := AIdle)\<rparr>)"

text \<open>The elements a thread has: its own, and the one its operation has in hand.\<close>

fun lifo_held :: "lifo_status \<Rightarrow> addr set" where
  "lifo_held (APopped x) = (if x = NULL then {} else {x})"
| "lifo_held (APush x) = {x}"
| "lifo_held _ = {}"

definition lifo_hands :: "lifo \<Rightarrow> nat \<Rightarrow> addr set" where
  "lifo_hands a t = l_own a t \<union> lifo_held (l_status a t)"

text \<open>Nothing is lost, nothing is in two places.\<close>

definition lifo_part :: "addr set \<Rightarrow> lifo \<Rightarrow> bool" where
  "lifo_part E a \<longleftrightarrow> NULL \<notin> E \<and> distinct (l_list a) \<and>
     set (l_list a) \<union> (\<Union>t. lifo_hands a t) = E \<and>
     (\<forall>t. set (l_list a) \<inter> lifo_hands a t = {} \<and> l_own a t \<inter> lifo_held (l_status a t) = {}) \<and>
     (\<forall>t u. t \<noteq> u \<longrightarrow> lifo_hands a t \<inter> lifo_hands a u = {})"

text \<open>A step changes the hands of one thread, and the list.\<close>

lemma lifo_partI:
  assumes part: "lifo_part E a" and others: "\<And>u. u \<noteq> t \<Longrightarrow> lifo_hands a' u = lifo_hands a u"
      "\<And>u. u \<noteq> t \<Longrightarrow> l_own a' u = l_own a u" "\<And>u. u \<noteq> t \<Longrightarrow> l_status a' u = l_status a u"
    and own: "distinct (l_list a')" "set (l_list a') \<union> lifo_hands a' t = set (l_list a) \<union> lifo_hands a t"
      "set (l_list a') \<inter> lifo_hands a' t = {}" "l_own a' t \<inter> lifo_held (l_status a' t) = {}"
  shows "lifo_part E a'"
proof -
  let ?O = "\<Union>u \<in> - {t}. lifo_hands a u"
  have all: "(\<Union>u. lifo_hands b u) = lifo_hands b t \<union> (\<Union>u \<in> - {t}. lifo_hands b u)" for b by auto
  have O: "(\<Union>u \<in> - {t}. lifo_hands a' u) = ?O" using others(1) by auto
  have dis: "(set (l_list a) \<union> lifo_hands a t) \<inter> lifo_hands a u = {}" if "u \<noteq> t" for u
    using part that unfolding lifo_part_def by blast
  have dis': "set (l_list a') \<inter> lifo_hands a u = {}" "lifo_hands a' t \<inter> lifo_hands a u = {}" if "u \<noteq> t" for u
    using dis [OF that] own(2) by blast+
  have "set (l_list a') \<union> (\<Union>u. lifo_hands a' u) = set (l_list a) \<union> (\<Union>u. lifo_hands a u)"
    unfolding all [of a'] all [of a] O using own(2) by blast
  moreover have "set (l_list a') \<inter> lifo_hands a' u = {} \<and> l_own a' u \<inter> lifo_held (l_status a' u) = {}" for u
    using own(3,4) others dis'(1) part by (cases "u = t") (simp_all add: lifo_part_def)
  moreover have "lifo_hands a' v \<inter> lifo_hands a' u = {}" if "v \<noteq> u" for u v
    using that others(1) dis'(2) part unfolding lifo_part_def by (metis inf_commute)
  ultimately show ?thesis using part own(1) unfolding lifo_part_def by simp
qed

lemma lifo_partD:
  assumes "lifo_part E a"
  shows "NULL \<notin> set (l_list a) \<and> distinct (l_list a) \<and> set (l_list a) \<inter> l_own a t = {} \<and>
    set (l_list a) \<inter> lifo_held (l_status a t) = {} \<and> l_own a t \<inter> lifo_held (l_status a t) = {}"
  using assms unfolding lifo_part_def lifo_hands_def by blast

lemma lifo_step_part:
  assumes "lifo_step a l a'" and part: "lifo_part E a"
  shows "lifo_part E a'"
  using assms(1)
proof (cases rule: lifo_step.cases)
  case (inv_pop t)
  then show ?thesis using lifo_partD [OF part, of t]
    by (intro lifo_partI [OF part, of t]) (auto simp: lifo_hands_def)
next
  case (eff_pop t x xs)
  then show ?thesis using lifo_partD [OF part, of t]
    by (intro lifo_partI [OF part, of t]) (auto simp: lifo_hands_def)
next
  case (eff_pop_empty t)
  then show ?thesis using lifo_partD [OF part, of t]
    by (intro lifo_partI [OF part, of t]) (auto simp: lifo_hands_def)
next
  case (ret_pop t x)
  then show ?thesis using lifo_partD [OF part, of t]
    by (intro lifo_partI [OF part, of t]) (auto simp: lifo_hands_def)
next
  case (inv_push t x)
  then show ?thesis using lifo_partD [OF part, of t]
    by (intro lifo_partI [OF part, of t]) (auto simp: lifo_hands_def)
next
  case (eff_push t x)
  then show ?thesis using lifo_partD [OF part, of t]
    by (intro lifo_partI [OF part, of t]) (auto simp: lifo_hands_def)
next
  case (ret_push t)
  then show ?thesis using lifo_partD [OF part, of t]
    by (intro lifo_partI [OF part, of t]) (auto simp: lifo_hands_def)
qed

lemma lifo_run_part:
  assumes "run lifo_step a0 tr a" and "lifo_part E a0"
  shows "lifo_part E a"
  using assms by (induction rule: run.induct) (auto intro: lifo_step_part)

end
