(* ===== verification/Tagged_List.thy ===== *)
theory Tagged_List
  imports CMem Trace
begin

text \<open>
  The concurrent core shared by the freelist and the stack: a linked list whose head is a
  pair of pointer and counter, swapped by a double-word CAS. Each thread runs push and pop
  one memory access at a time, any number of threads interleave in any order, and memory
  is sequentially consistent (on the x86-64 that lf_basic.h requires, every access that
  publishes or removes an element is a locked instruction).

  The two halves of a pair are read and written by separate accesses, as in the source, so
  a thread can see a pointer and a counter that never were in memory together. The two
  users differ in which half of the head pop reads first and in whether push clears the
  element's link before it looks at the head: both are the flag \<open>st\<close> (\<open>False\<close> for
  lf_freelist.c, \<open>True\<close> for lf_stack.c).
\<close>

section \<open>The machine\<close>

datatype tl_pc =
    Idle
  | PopRd1
  | PopRd2 u64
  | PopTest "addr \<times> u64"
  | PopNext1 "addr \<times> u64"
  | PopNext2 "addr \<times> u64" addr
  | PopCas "addr \<times> u64" "addr \<times> u64"
  | PopRet addr
  | PushCtr addr
  | PushInit1 addr u64
  | PushInit2 addr u64
  | PushRd1 addr u64
  | PushRd2 addr u64 addr
  | PushWr1 addr u64 "addr \<times> u64"
  | PushWr2 addr u64 "addr \<times> u64"
  | PushCas addr u64 "addr \<times> u64"
  | PushRet

text \<open>
  \<open>tl_pushes\<close> and \<open>tl_own\<close> are auxiliary: the number of counters drawn so far, and the
  elements each thread may push.
\<close>

record tl_state =
  tl_top :: "addr \<times> u64"
  tl_next :: "addr \<Rightarrow> addr \<times> u64"
  tl_ctr :: u64
  tl_pc :: "nat \<Rightarrow> tl_pc"
  tl_pushes :: nat
  tl_own :: "nat \<Rightarrow> addr set"

definition set_pc :: "nat \<Rightarrow> tl_pc \<Rightarrow> tl_state \<Rightarrow> tl_state" where
  "set_pc t pc s = s\<lparr>tl_pc := (tl_pc s)(t := pc)\<rparr>"

definition set_next :: "addr \<Rightarrow> addr \<times> u64 \<Rightarrow> tl_state \<Rightarrow> tl_state" where
  "set_next x n s = s\<lparr>tl_next := (tl_next s)(x := n)\<rparr>"

text \<open>The next access of thread \<open>t\<close>, which stands at \<open>pc\<close>.\<close>

fun tl_go :: "bool \<Rightarrow> nat \<Rightarrow> tl_state \<Rightarrow> tl_pc \<Rightarrow> (lifo_act option \<times> tl_state) option" where
  "tl_go st t s Idle = None"
| "tl_go st t s PopRd1 =
     Some (None, set_pc t (PopRd2 (if st then fst (tl_top s) else snd (tl_top s))) s)"
| "tl_go st t s (PopRd2 v) =
     Some (None, set_pc t (PopTest (if st then (v, snd (tl_top s)) else (fst (tl_top s), v))) s)"
| "tl_go st t s (PopTest l) =
     Some (None, set_pc t (if fst l = NULL then PopRet NULL else PopNext1 l) s)"
| "tl_go st t s (PopNext1 l) = Some (None, set_pc t (PopNext2 l (fst (tl_next s (fst l)))) s)"
| "tl_go st t s (PopNext2 l n0) =
     Some (None, set_pc t (PopCas l (n0, snd (tl_next s (fst l)))) s)"
| "tl_go st t s (PopCas l n) =
     (case abstraction_dcas (tl_top s) n l of (r, top', cmp') \<Rightarrow>
        Some (None, set_pc t (if r = 0 then PopTest cmp' else PopRet (fst l)) (s\<lparr>tl_top := top'\<rparr>)))"
| "tl_go st t s (PopRet p) =
     Some (Some (RetPop t p), set_pc t Idle
       (s\<lparr>tl_own := (tl_own s)(t := (if p = NULL then tl_own s t else insert p (tl_own s t)))\<rparr>))"
| "tl_go st t s (PushCtr x) =
     (let c = abstraction_increment (tl_ctr s) in
      Some (None, set_pc t (if st then PushInit1 x c else PushRd1 x c)
        (s\<lparr>tl_ctr := c, tl_pushes := Suc (tl_pushes s)\<rparr>)))"
| "tl_go st t s (PushInit1 x c) =
     Some (None, set_pc t (PushInit2 x c) (set_next x (NULL, snd (tl_next s x)) s))"
| "tl_go st t s (PushInit2 x c) =
     Some (None, set_pc t (PushRd1 x c) (set_next x (fst (tl_next s x), 0) s))"
| "tl_go st t s (PushRd1 x c) = Some (None, set_pc t (PushRd2 x c (fst (tl_top s))) s)"
| "tl_go st t s (PushRd2 x c p) = Some (None, set_pc t (PushWr1 x c (p, snd (tl_top s))) s)"
| "tl_go st t s (PushWr1 x c old) =
     Some (None, set_pc t (PushWr2 x c old) (set_next x (fst old, snd (tl_next s x)) s))"
| "tl_go st t s (PushWr2 x c old) =
     Some (None, set_pc t (PushCas x c old) (set_next x (fst (tl_next s x), snd old) s))"
| "tl_go st t s (PushCas x c old) =
     (case abstraction_dcas (tl_top s) (x, c) old of (r, top', cmp') \<Rightarrow>
        Some (None, set_pc t (if r = 0 then PushWr1 x c cmp' else PushRet) (s\<lparr>tl_top := top'\<rparr>)))"
| "tl_go st t s PushRet = Some (Some (RetPush t), set_pc t Idle s)"

text \<open>What the scheduler may choose: let a thread go on, or let an idle one call.\<close>

datatype tl_cmd = Go nat | CallPop nat | CallPush nat addr

fun tl_step :: "bool \<Rightarrow> tl_cmd \<Rightarrow> tl_state \<Rightarrow> (lifo_act option \<times> tl_state) option" where
  "tl_step st (Go t) s = tl_go st t s (tl_pc s t)"
| "tl_step st (CallPop t) s =
     (if tl_pc s t = Idle then Some (Some (InvPop t), set_pc t PopRd1 s) else None)"
| "tl_step st (CallPush t x) s =
     (if tl_pc s t = Idle \<and> x \<in> tl_own s t
      then Some (Some (InvPush t x), set_pc t (PushCtr x) (s\<lparr>tl_own := (tl_own s)(t := tl_own s t - {x})\<rparr>))
      else None)"

definition tl_trans :: "bool \<Rightarrow> tl_state \<Rightarrow> lifo_act option \<Rightarrow> tl_state \<Rightarrow> bool" where
  "tl_trans st s a s' \<longleftrightarrow> (\<exists>cmd. tl_step st cmd s = Some (a, s'))"

text \<open>Running a schedule, for concrete executions.\<close>

fun tl_exec :: "bool \<Rightarrow> tl_cmd list \<Rightarrow> tl_state \<Rightarrow> (lifo_act list \<times> tl_state) option" where
  "tl_exec st [] s = Some ([], s)"
| "tl_exec st (c # cs) s =
     (case tl_step st c s of None \<Rightarrow> None
      | Some (a, s') \<Rightarrow>
          (case tl_exec st cs s' of None \<Rightarrow> None
           | Some (tr, s'') \<Rightarrow> Some ((case a of None \<Rightarrow> tr | Some x \<Rightarrow> x # tr), s'')))"

section \<open>The invariant\<close>

text \<open>The counter a thread has drawn for an element that is not yet in the list.\<close>

fun pending :: "tl_pc \<Rightarrow> u64 set" where
  "pending (PushInit1 x c) = {c}"
| "pending (PushInit2 x c) = {c}"
| "pending (PushRd1 x c) = {c}"
| "pending (PushRd2 x c p) = {c}"
| "pending (PushWr1 x c q) = {c}"
| "pending (PushWr2 x c q) = {c}"
| "pending (PushCas x c q) = {c}"
| "pending _ = {}"

text \<open>The element a running operation holds.\<close>

fun holding :: "tl_pc \<Rightarrow> addr set" where
  "holding (PushCtr x) = {x}"
| "holding (PushInit1 x c) = {x}"
| "holding (PushInit2 x c) = {x}"
| "holding (PushRd1 x c) = {x}"
| "holding (PushRd2 x c p) = {x}"
| "holding (PushWr1 x c q) = {x}"
| "holding (PushWr2 x c q) = {x}"
| "holding (PushCas x c q) = {x}"
| "holding (PopRet p) = (if p = NULL then {} else {p})"
| "holding _ = {}"

definition priv :: "tl_state \<Rightarrow> nat \<Rightarrow> addr set" where
  "priv s t = tl_own s t \<union> holding (tl_pc s t)"

text \<open>\<open>past s c\<close>: the counter \<open>c\<close> has been drawn and is not waiting to be published.\<close>

definition past :: "tl_state \<Rightarrow> u64 \<Rightarrow> bool" where
  "past s c \<longleftrightarrow> unat c \<le> tl_pushes s \<and> (\<forall>t. c \<notin> pending (tl_pc s t))"

text \<open>What a thread's local variables say about the shared state.\<close>

definition locals_ok :: "bool \<Rightarrow> tl_state \<Rightarrow> (addr \<times> u64) list \<Rightarrow> tl_pc \<Rightarrow> bool" where
  "locals_ok st s L pc =
     (case pc of
        PopRd2 v \<Rightarrow> st \<or> past s v
      | PopTest l \<Rightarrow> past s (snd l)
      | PopNext1 l \<Rightarrow> past s (snd l) \<and> fst l \<noteq> NULL
      | PopNext2 l n0 \<Rightarrow> past s (snd l) \<and> fst l \<noteq> NULL \<and>
          (l \<in> set L \<longrightarrow> fst (tl_next s (fst l)) = n0)
      | PopCas l n \<Rightarrow> past s (snd l) \<and> fst l \<noteq> NULL \<and>
          (l \<in> set L \<longrightarrow> tl_next s (fst l) = n)
      | PushWr2 x c old \<Rightarrow> fst (tl_next s x) = fst old
      | PushCas x c old \<Rightarrow> tl_next s x = old
      | _ \<Rightarrow> True)"

definition tl_inv :: "bool \<Rightarrow> tl_state \<Rightarrow> (addr \<times> u64) list \<Rightarrow> bool" where
  "tl_inv st s L \<longleftrightarrow>
     pchain (tl_next s) (tl_top s) L \<and> distinct (map fst L) \<and> distinct (map snd L) \<and>
     (\<forall>c \<in> snd ` set L. past s c) \<and>
     tl_ctr s = of_nat (tl_pushes s) \<and>
     (\<forall>t. \<forall>c \<in> pending (tl_pc s t). 0 < unat c \<and> unat c \<le> tl_pushes s) \<and>
     (\<forall>t u. t \<noteq> u \<longrightarrow> pending (tl_pc s t) \<inter> pending (tl_pc s u) = {}) \<and>
     (\<forall>t. NULL \<notin> priv s t \<and> priv s t \<inter> fst ` set L = {} \<and>
          tl_own s t \<inter> holding (tl_pc s t) = {}) \<and>
     (\<forall>t u. t \<noteq> u \<longrightarrow> priv s t \<inter> priv s u = {}) \<and>
     (\<forall>t. locals_ok st s L (tl_pc s t))"

lemma tl_invD:
  assumes "tl_inv st s L"
  shows "pchain (tl_next s) (tl_top s) L" "distinct (map fst L)" "distinct (map snd L)"
    "\<And>c. c \<in> snd ` set L \<Longrightarrow> past s c" "tl_ctr s = of_nat (tl_pushes s)"
    "\<And>t c. c \<in> pending (tl_pc s t) \<Longrightarrow> 0 < unat c \<and> unat c \<le> tl_pushes s"
    "\<And>t u. t \<noteq> u \<Longrightarrow> pending (tl_pc s t) \<inter> pending (tl_pc s u) = {}"
    "\<And>t. NULL \<notin> priv s t" "\<And>t. priv s t \<inter> fst ` set L = {}"
    "\<And>t. tl_own s t \<inter> holding (tl_pc s t) = {}"
    "\<And>t u. t \<noteq> u \<Longrightarrow> priv s t \<inter> priv s u = {}"
    "\<And>t. locals_ok st s L (tl_pc s t)"
  using assms unfolding tl_inv_def by auto

lemma set_pc_sel [simp]:
  "tl_top (set_pc t pc s) = tl_top s" "tl_next (set_pc t pc s) = tl_next s"
  "tl_ctr (set_pc t pc s) = tl_ctr s" "tl_pc (set_pc t pc s) = (tl_pc s)(t := pc)"
  "tl_pushes (set_pc t pc s) = tl_pushes s" "tl_own (set_pc t pc s) = tl_own s"
  by (simp_all add: set_pc_def)

lemma set_next_sel [simp]:
  "tl_top (set_next x n s) = tl_top s" "tl_next (set_next x n s) = (tl_next s)(x := n)"
  "tl_ctr (set_next x n s) = tl_ctr s" "tl_pc (set_next x n s) = tl_pc s"
  "tl_pushes (set_next x n s) = tl_pushes s" "tl_own (set_next x n s) = tl_own s"
  by (simp_all add: set_next_def)

lemma locals_ok_cong:
  assumes "\<And>c. past s c \<Longrightarrow> past s' c"
    and "\<And>l. l \<in> set L' \<Longrightarrow> past s (snd l) \<Longrightarrow> l \<in> set L \<and> tl_next s' (fst l) = tl_next s (fst l)"
    and "\<And>x. x \<in> holding pc \<Longrightarrow> tl_next s' x = tl_next s x"
    and "locals_ok st s L pc"
  shows "locals_ok st s' L' pc"
  using assms by (cases pc) (auto simp: locals_ok_def)

text \<open>A step that changes only the thread's own position, keeping what it holds.\<close>

lemma tl_inv_local:
  assumes inv: "tl_inv st s L"
    and "pending pc = pending (tl_pc s t)" "holding pc = holding (tl_pc s t)"
    and loc: "locals_ok st s L pc"
  shows "tl_inv st (set_pc t pc s) L"
proof -
  let ?s = "set_pc t pc s"
  have pend: "pending (tl_pc ?s u) = pending (tl_pc s u)" and hold: "holding (tl_pc ?s u) = holding (tl_pc s u)" for u
    using assms(2,3) by simp_all
  have past: "past ?s c = past s c" for c
    unfolding past_def pend by simp
  have priv: "priv ?s u = priv s u" for u
    unfolding priv_def hold by simp
  have "locals_ok st ?s L (tl_pc ?s u)" for u
  proof (rule locals_ok_cong [where s = s and L = L])
    show "locals_ok st s L (tl_pc ?s u)" using loc tl_invD(12) [OF inv] by simp
  qed (simp_all add: past)
  then show ?thesis
    using inv unfolding tl_inv_def pend hold past priv by simp
qed

text \<open>A write to the link of an element that the thread holds.\<close>

lemma tl_inv_write:
  assumes inv: "tl_inv st s L"
    and "pending pc = pending (tl_pc s t)" "holding pc = holding (tl_pc s t)"
    and x: "x \<in> holding (tl_pc s t)"
    and loc: "locals_ok st (set_next x n s) L pc"
  shows "tl_inv st (set_pc t pc (set_next x n s)) L"
proof -
  let ?s = "set_next x n s"
  have past: "past ?s c = past s c" for c by (simp add: past_def)
  have priv: "priv ?s u = priv s u" for u by (simp add: priv_def)
  have xL: "x \<notin> fst ` set L"
    using tl_invD(9) [OF inv, of t] x by (auto simp: priv_def)
  have other: "u \<noteq> t \<Longrightarrow> x \<notin> holding (tl_pc s u)" for u
    using tl_invD(11) [OF inv, of t u] x by (auto simp: priv_def)
  have "locals_ok st ?s L (tl_pc s u)" if "u \<noteq> t" for u
  proof (rule locals_ok_cong [where s = s and L = L])
    show "locals_ok st s L (tl_pc s u)" using tl_invD(12) [OF inv] by simp
  qed (use past xL other [OF that] in \<open>auto\<close>)
  moreover define s2 where "s2 = set_pc t pc ?s"
  moreover have pend: "pending (tl_pc s2 u) = pending (tl_pc s u)" and
    hold: "holding (tl_pc s2 u) = holding (tl_pc s u)" for u
    using assms(2,3) by (simp_all add: s2_def)
  moreover have past2: "past s2 c = past s c" for c
    unfolding past_def pend by (simp add: s2_def)
  moreover have "locals_ok st s2 L pc'" if "locals_ok st ?s L pc'" for pc'
    by (rule locals_ok_cong [OF _ _ _ that]) (auto simp: past2 past, simp_all add: s2_def)
  ultimately have locs: "locals_ok st s2 L (tl_pc s2 u)" for u
    using loc by (cases "u = t") (simp_all add: s2_def)
  have priv2: "priv s2 u = priv s u" for u
    unfolding priv_def hold by (simp add: s2_def)
  have "tl_inv st s2 L"
    using inv locs xL unfolding tl_inv_def pend hold past2 priv2
    by (simp add: s2_def pchain_upd)
  then show ?thesis by (simp add: s2_def)
qed

text \<open>Drawing a counter. It is new as long as the 64-bit counter has not wrapped around.\<close>

lemma tl_inv_draw:
  assumes inv: "tl_inv st s L" and pc: "tl_pc s t = PushCtr x" and lim: "Suc (tl_pushes s) < 2 ^ 64"
    and pc': "pc' = PushInit1 x (tl_ctr s + 1) \<or> pc' = PushRd1 x (tl_ctr s + 1)"
  shows "tl_inv st (set_pc t pc' (s\<lparr>tl_ctr := tl_ctr s + 1, tl_pushes := Suc (tl_pushes s)\<rparr>)) L"
proof -
  define c where "c = tl_ctr s + 1"
  define s' where "s' = set_pc t pc' (s\<lparr>tl_ctr := c, tl_pushes := Suc (tl_pushes s)\<rparr>)"
  have c: "c = of_nat (Suc (tl_pushes s))" using tl_invD(5) [OF inv] by (simp add: c_def)
  then have uc: "unat c = Suc (tl_pushes s)" using lim by (simp add: unat_of_nat take_bit_nat_eq_self del: of_nat_Suc)
  have pend: "pending (tl_pc s' u) = (if u = t then {c} else pending (tl_pc s u))" for u
    using pc' by (auto simp: s'_def c_def)
  have hold: "holding (tl_pc s' u) = holding (tl_pc s u)" for u
    using pc pc' by (auto simp: s'_def)
  have priv: "priv s' u = priv s u" for u
    unfolding priv_def hold by (simp add: s'_def)
  have past: "past s' d" if "past s d" for d
  proof -
    have "d \<noteq> c" using that uc by (auto simp: past_def)
    then show ?thesis using that unfolding past_def pend by (auto simp: s'_def)
  qed
  have pend_c: "c \<notin> pending (tl_pc s u)" for u
    using tl_invD(6) [OF inv, of c u] uc by auto
  have locs: "locals_ok st s' L (tl_pc s' u)" for u
  proof (rule locals_ok_cong [where s = s and L = L])
    show "locals_ok st s L (tl_pc s' u)"
      using tl_invD(12) [OF inv, of u] pc' by (auto simp: s'_def locals_ok_def)
  qed (simp_all add: past, simp_all add: s'_def)
  have "tl_inv st s' L"
    unfolding tl_inv_def
  proof (intro conjI)
    show "\<forall>c \<in> snd ` set L. past s' c" using tl_invD(4) [OF inv] past by blast
    show "\<forall>t. \<forall>c \<in> pending (tl_pc s' t). 0 < unat c \<and> unat c \<le> tl_pushes s'"
    proof (intro allI ballI)
      fix u d assume "d \<in> pending (tl_pc s' u)"
      then have "d = c \<or> d \<in> pending (tl_pc s u)" unfolding pend by (simp split: if_splits)
      then show "0 < unat d \<and> unat d \<le> tl_pushes s'"
        using tl_invD(6) [OF inv, of d u] uc by (auto simp: s'_def)
    qed
    show "\<forall>t u. t \<noteq> u \<longrightarrow> pending (tl_pc s' t) \<inter> pending (tl_pc s' u) = {}"
      unfolding pend using tl_invD(7) [OF inv] pend_c by auto
    show "\<forall>t. NULL \<notin> priv s' t \<and> priv s' t \<inter> fst ` set L = {} \<and>
          tl_own s' t \<inter> holding (tl_pc s' t) = {}"
      unfolding priv hold using tl_invD(8-10) [OF inv] by (simp add: s'_def)
    show "\<forall>t u. t \<noteq> u \<longrightarrow> priv s' t \<inter> priv s' u = {}"
      unfolding priv using tl_invD(11) [OF inv] by blast
    show "\<forall>t. locals_ok st s' L (tl_pc s' t)" using locs by blast
    show "tl_ctr s' = of_nat (tl_pushes s')" using c by (simp add: s'_def)
  qed (use tl_invD(1-3) [OF inv] in \<open>simp_all add: s'_def\<close>)
  then show ?thesis by (simp add: s'_def c_def)
qed

text \<open>The CAS of a push that succeeds: the element is published under its new counter.\<close>

lemma tl_inv_publish:
  assumes inv: "tl_inv st s L" and pc: "tl_pc s t = PushCas x c (tl_top s)"
  shows "tl_inv st (set_pc t PushRet (s\<lparr>tl_top := (x, c)\<rparr>)) ((x, c) # L)"
proof -
  define s' where "s' = set_pc t PushRet (s\<lparr>tl_top := (x, c)\<rparr>)"
  have x: "x \<in> priv s t" using pc by (simp add: priv_def)
  have nx: "tl_next s x = tl_top s" using tl_invD(12) [OF inv, of t] pc by (simp add: locals_ok_def)
  have cp: "c \<in> pending (tl_pc s t)" using pc by simp
  have pend: "pending (tl_pc s' u) = (if u = t then {} else pending (tl_pc s u))" for u
    by (simp add: s'_def)
  have past: "past s' d \<longleftrightarrow> past s d \<or> d = c" for d
  proof -
    have "c \<notin> pending (tl_pc s u)" if "u \<noteq> t" for u
      using that tl_invD(7) [OF inv, of t u] cp by blast
    moreover have "pending (tl_pc s t) = {c}" using pc by simp
    moreover have "unat c \<le> tl_pushes s" using tl_invD(6) [OF inv cp] by simp
    moreover have "tl_pushes s' = tl_pushes s" by (simp add: s'_def)
    ultimately show ?thesis unfolding past_def pend by (metis empty_iff singletonD)
  qed
  have nc: "\<not> past s c" using cp by (auto simp: past_def)
  have xL: "x \<notin> fst ` set L" using tl_invD(9) [OF inv, of t] x by blast
  have xu: "x \<notin> priv s u" if "u \<noteq> t" for u
    using that tl_invD(11) [OF inv, of t u] x by blast
  have priv: "priv s' u = (if u = t then priv s t - {x} else priv s u)" for u
    using pc tl_invD(10) [OF inv, of t] by (auto simp: priv_def s'_def)
  have locs: "locals_ok st s' ((x, c) # L) (tl_pc s' u)" for u
  proof (cases "u = t")
    case False
    show ?thesis
    proof (rule locals_ok_cong [where s = s and L = L])
      show "locals_ok st s L (tl_pc s' u)" using False tl_invD(12) [OF inv] by (simp add: s'_def)
    qed (use nc in \<open>auto simp: past\<close>, simp_all add: s'_def)
  qed (simp add: s'_def locals_ok_def)
  have "tl_inv st s' ((x, c) # L)"
    unfolding tl_inv_def
  proof (intro conjI)
    show "pchain (tl_next s') (tl_top s') ((x, c) # L)"
      using tl_invD(1,8) [OF inv] nx x by (auto simp: s'_def)
    show "distinct (map fst ((x, c) # L))" using tl_invD(2) [OF inv] xL by simp
    show "distinct (map snd ((x, c) # L))" using tl_invD(3,4) [OF inv] nc by auto
    show "\<forall>c \<in> snd ` set ((x, c) # L). past s' c" using tl_invD(4) [OF inv] past by auto
    show "\<forall>t. \<forall>c \<in> pending (tl_pc s' t). 0 < unat c \<and> unat c \<le> tl_pushes s'"
      unfolding pend using tl_invD(6) [OF inv] by (simp add: s'_def)
    show "\<forall>t u. t \<noteq> u \<longrightarrow> pending (tl_pc s' t) \<inter> pending (tl_pc s' u) = {}"
      unfolding pend using tl_invD(7) [OF inv] by auto
    show "\<forall>u. NULL \<notin> priv s' u \<and> priv s' u \<inter> fst ` set ((x, c) # L) = {} \<and>
          tl_own s' u \<inter> holding (tl_pc s' u) = {}"
      unfolding priv using tl_invD(8-10) [OF inv] xu by (auto simp: s'_def)
    show "\<forall>t u. t \<noteq> u \<longrightarrow> priv s' t \<inter> priv s' u = {}"
      unfolding priv using tl_invD(11) [OF inv] by auto
    show "\<forall>t. locals_ok st s' ((x, c) # L) (tl_pc s' t)" using locs by blast
    show "tl_ctr s' = of_nat (tl_pushes s')" using tl_invD(5) [OF inv] by (simp add: s'_def)
  qed
  then show ?thesis by (simp add: s'_def)
qed

text \<open>
  The CAS of a pop that succeeds. The counter makes the links that were read before the CAS
  the right ones: the pair on top has been there since, or the comparison fails.
\<close>

lemma tl_inv_remove:
  assumes inv: "tl_inv st s L" and pc: "tl_pc s t = PopCas (tl_top s) n"
  obtains L' where "L = tl_top s # L'"
    "tl_inv st (set_pc t (PopRet (fst (tl_top s))) (s\<lparr>tl_top := n\<rparr>)) L'"
proof -
  obtain p c where top: "tl_top s = (p, c)" by fastforce
  define s' where "s' = set_pc t (PopRet p) (s\<lparr>tl_top := n\<rparr>)"
  have loc: "p \<noteq> NULL" "(p, c) \<in> set L \<longrightarrow> tl_next s p = n"
    using tl_invD(12) [OF inv, of t] pc top by (auto simp: locals_ok_def)
  then obtain L' where L: "L = (p, c) # L'" "pchain (tl_next s) (tl_next s p) L'"
    using tl_invD(1) [OF inv] top by (cases L) auto
  then have n: "tl_next s p = n" using loc by simp
  have pend: "pending (tl_pc s' u) = pending (tl_pc s u)" for u
    using pc by (simp add: s'_def)
  have past: "past s' d = past s d" for d
    unfolding past_def pend by (simp add: s'_def)
  have priv: "priv s' u = (if u = t then insert p (priv s t) else priv s u)" for u
    using pc loc(1) by (auto simp: priv_def s'_def)
  have pL: "p \<notin> priv s u" "p \<notin> fst ` set L'" for u
    using tl_invD(9) [OF inv, of u] tl_invD(2) [OF inv] L by auto
  have locs: "locals_ok st s' L' (tl_pc s' u)" for u
  proof (cases "u = t")
    case False
    show ?thesis
    proof (rule locals_ok_cong [where s = s and L = L])
      show "locals_ok st s L (tl_pc s' u)" using False tl_invD(12) [OF inv] by (simp add: s'_def)
    qed (use L in \<open>auto simp: past\<close>, simp_all add: s'_def)
  qed (simp add: s'_def locals_ok_def)
  have "tl_inv st s' L'"
    unfolding tl_inv_def
  proof (intro conjI)
    show "pchain (tl_next s') (tl_top s') L'" using L n by (simp add: s'_def)
    show "distinct (map fst L')" "distinct (map snd L')" using tl_invD(2,3) [OF inv] L by simp_all
    show "\<forall>c \<in> snd ` set L'. past s' c" using tl_invD(4) [OF inv] past L by auto
    show "\<forall>t. \<forall>c \<in> pending (tl_pc s' t). 0 < unat c \<and> unat c \<le> tl_pushes s'"
      unfolding pend using tl_invD(6) [OF inv] by (simp add: s'_def)
    show "\<forall>t u. t \<noteq> u \<longrightarrow> pending (tl_pc s' t) \<inter> pending (tl_pc s' u) = {}"
      unfolding pend using tl_invD(7) [OF inv] by auto
    show "\<forall>u. NULL \<notin> priv s' u \<and> priv s' u \<inter> fst ` set L' = {} \<and>
          tl_own s' u \<inter> holding (tl_pc s' u) = {}"
    proof
      fix u
      have "p \<notin> tl_own s u" using pL(1) [of u] by (simp add: priv_def)
      then show "NULL \<notin> priv s' u \<and> priv s' u \<inter> fst ` set L' = {} \<and>
          tl_own s' u \<inter> holding (tl_pc s' u) = {}"
        unfolding priv using tl_invD(8-10) [OF inv, of u] pL(2) loc(1) L by (auto simp: s'_def)
    qed
    show "\<forall>t u. t \<noteq> u \<longrightarrow> priv s' t \<inter> priv s' u = {}"
      unfolding priv using tl_invD(11) [OF inv] pL by auto
    show "\<forall>t. locals_ok st s' L' (tl_pc s' t)" using locs by blast
    show "tl_ctr s' = of_nat (tl_pushes s')" using tl_invD(5) [OF inv] by (simp add: s'_def)
  qed
  then show ?thesis using that L top by (simp add: s'_def)
qed

text \<open>Elements that change between a thread's own and what its operation holds.\<close>

lemma tl_inv_transfer:
  assumes inv: "tl_inv st s L"
    and pc: "pending pc = {}" "pending (tl_pc s t) = {}" "locals_ok st s L pc"
    and same: "own \<union> holding pc = priv s t" "own \<inter> holding pc = {}"
  shows "tl_inv st (set_pc t pc (s\<lparr>tl_own := (tl_own s)(t := own)\<rparr>)) L"
proof -
  define s' where "s' = set_pc t pc (s\<lparr>tl_own := (tl_own s)(t := own)\<rparr>)"
  have pend: "pending (tl_pc s' u) = pending (tl_pc s u)" for u
    using pc by (simp add: s'_def)
  have past: "past s' d = past s d" for d
    unfolding past_def pend by (simp add: s'_def)
  have priv: "priv s' u = priv s u" for u
    using same(1) by (simp add: priv_def s'_def)
  have locs: "locals_ok st s' L (tl_pc s' u)" for u
  proof (rule locals_ok_cong [where s = s and L = L])
    show "locals_ok st s L (tl_pc s' u)" using pc tl_invD(12) [OF inv] by (simp add: s'_def)
  qed (simp_all add: past, simp_all add: s'_def)
  have own: "tl_own s' u \<inter> holding (tl_pc s' u) = {}" for u
    using same(2) tl_invD(10) [OF inv, of u] by (simp add: s'_def)
  have "tl_inv st s' L"
    using inv locs own unfolding tl_inv_def pend past priv by (simp add: s'_def)
  then show ?thesis by (simp add: s'_def)
qed

section \<open>Simulation of the atomic object\<close>

text \<open>
  Where the operations take effect: a push and a successful pop at their CAS, a pop that
  finds the list empty where it reads the pointer of the head.
\<close>

definition status :: "bool \<Rightarrow> tl_pc \<Rightarrow> lifo_status" where
  "status st pc =
     (case pc of
        Idle \<Rightarrow> AIdle
      | PopRd2 v \<Rightarrow> (if st \<and> v = NULL then APopped NULL else APop)
      | PopTest l \<Rightarrow> (if fst l = NULL then APopped NULL else APop)
      | PopRet p \<Rightarrow> APopped p
      | PushCtr x \<Rightarrow> APush x
      | PushInit1 x c \<Rightarrow> APush x
      | PushInit2 x c \<Rightarrow> APush x
      | PushRd1 x c \<Rightarrow> APush x
      | PushRd2 x c p \<Rightarrow> APush x
      | PushWr1 x c old \<Rightarrow> APush x
      | PushWr2 x c old \<Rightarrow> APush x
      | PushCas x c old \<Rightarrow> APush x
      | PushRet \<Rightarrow> APushed
      | _ \<Rightarrow> APop)"

definition tl_abs :: "bool \<Rightarrow> tl_state \<Rightarrow> (addr \<times> u64) list \<Rightarrow> lifo" where
  "tl_abs st s L = \<lparr>l_list = map fst L, l_status = (\<lambda>t. status st (tl_pc s t)), l_own = tl_own s\<rparr>"

lemma tl_abs_sel [simp]:
  "l_list (tl_abs st s L) = map fst L" "l_status (tl_abs st s L) t = status st (tl_pc s t)"
  "l_own (tl_abs st s L) = tl_own s"
  by (simp_all add: tl_abs_def)

lemma tl_abs_eqI:
  assumes "map fst L' = l_list a" "\<And>t. status st (tl_pc s t) = l_status a t" "tl_own s = l_own a"
  shows "tl_abs st s L' = a"
  using assms by (cases a) (auto simp: tl_abs_def)

definition tl_matched :: "bool \<Rightarrow> tl_state \<Rightarrow> (addr \<times> u64) list \<Rightarrow> lifo_act option \<Rightarrow> tl_state \<Rightarrow> bool" where
  "tl_matched st s L a s' \<longleftrightarrow> (\<exists>L'. tl_inv st s' L' \<and>
     (lifo_step (tl_abs st s L) a (tl_abs st s' L') \<or> a = None \<and> tl_abs st s' L' = tl_abs st s L))"

lemma matched_step:
  assumes "tl_inv st s' L'" and "lifo_step (tl_abs st s L) a b" and "tl_abs st s' L' = b"
  shows "tl_matched st s L a s'"
  using assms unfolding tl_matched_def by blast

lemma matched_inner:
  assumes "tl_inv st s' L" and "tl_own s' = tl_own s"
    and "\<And>u. status st (tl_pc s' u) = status st (tl_pc s u)"
  shows "tl_matched st s L None s'"
  using assms unfolding tl_matched_def by (auto simp: tl_abs_def)

lemma matched_local:
  assumes "tl_inv st s L" "pending pc = pending (tl_pc s t)" "holding pc = holding (tl_pc s t)"
    "locals_ok st s L pc" "status st pc = status st (tl_pc s t)"
  shows "tl_matched st s L None (set_pc t pc s)"
  using tl_inv_local [OF assms(1-4)] by (rule matched_inner) (use assms(5) in auto)

lemma matched_write:
  assumes "tl_inv st s L" "pending pc = pending (tl_pc s t)" "holding pc = holding (tl_pc s t)"
    "x \<in> holding (tl_pc s t)" "locals_ok st (set_next x n s) L pc"
    "status st pc = status st (tl_pc s t)"
  shows "tl_matched st s L None (set_pc t pc (set_next x n s))"
  using tl_inv_write [OF assms(1-5)] by (rule matched_inner) (use assms(6) in auto)

lemma tl_inv_empty:
  assumes "tl_inv st s L" and "fst (tl_top s) = NULL"
  shows "L = []"
  using tl_invD(1) [OF assms(1)] assms(2) by (cases L) auto

lemma matched_empty:
  assumes inv: "tl_inv st s L" and pc: "pending pc = pending (tl_pc s t)"
      "holding pc = holding (tl_pc s t)" "locals_ok st s L pc"
    and top: "fst (tl_top s) = NULL"
    and st: "status st (tl_pc s t) = APop" "status st pc = APopped NULL"
  shows "tl_matched st s L None (set_pc t pc s)"
proof (rule matched_step)
  show "tl_inv st (set_pc t pc s) L" by (rule tl_inv_local [OF inv pc])
  show "lifo_step (tl_abs st s L) None ((tl_abs st s L)\<lparr>l_status := (l_status (tl_abs st s L))(t := APopped NULL)\<rparr>)"
    by (rule eff_pop_empty) (use st tl_inv_empty [OF inv top] in simp_all)
qed (rule tl_abs_eqI, use st in auto)

lemma past_zero: "tl_inv st s L \<Longrightarrow> past s 0"
  using tl_invD(6) unfolding past_def by fastforce

lemma past_top:
  assumes "tl_inv st s L"
  shows "past s (snd (tl_top s))"
  using tl_invD(1,4) [OF assms] past_zero [OF assms] by (cases L) auto

lemma matched_remove:
  assumes inv: "tl_inv st s L" and pc: "tl_pc s t = PopCas (tl_top s) n"
  shows "tl_matched st s L None (set_pc t (PopRet (fst (tl_top s))) (s\<lparr>tl_top := n\<rparr>))"
proof (rule tl_inv_remove [OF assms])
  fix L'
  assume L: "L = tl_top s # L'"
    and inv': "tl_inv st (set_pc t (PopRet (fst (tl_top s))) (s\<lparr>tl_top := n\<rparr>)) L'"
  show ?thesis
  proof (rule matched_step [OF inv'])
    show "lifo_step (tl_abs st s L) None ((tl_abs st s L)
        \<lparr>l_status := (l_status (tl_abs st s L))(t := APopped (fst (tl_top s))), l_list := map fst L'\<rparr>)"
      by (rule eff_pop) (use pc L in \<open>simp_all add: status_def\<close>)
  qed (rule tl_abs_eqI, auto simp: status_def)
qed

lemma matched_publish:
  assumes inv: "tl_inv st s L" and pc: "tl_pc s t = PushCas x c (tl_top s)"
  shows "tl_matched st s L None (set_pc t PushRet (s\<lparr>tl_top := (x, c)\<rparr>))"
proof (rule matched_step [OF tl_inv_publish [OF assms]])
  show "lifo_step (tl_abs st s L) None ((tl_abs st s L)
      \<lparr>l_status := (l_status (tl_abs st s L))(t := APushed), l_list := x # l_list (tl_abs st s L)\<rparr>)"
    by (rule eff_push) (use pc in \<open>simp add: status_def\<close>)
qed (rule tl_abs_eqI, auto simp: status_def)

lemma matched_pop_return:
  assumes inv: "tl_inv st s L" and pc: "tl_pc s t = PopRet p"
  shows "tl_matched st s L (Some (RetPop t p)) (set_pc t Idle
     (s\<lparr>tl_own := (tl_own s)(t := (if p = NULL then tl_own s t else insert p (tl_own s t)))\<rparr>))"
proof (rule matched_step [OF tl_inv_transfer [OF inv]])
  show "lifo_step (tl_abs st s L) (Some (RetPop t p)) ((tl_abs st s L)
      \<lparr>l_status := (l_status (tl_abs st s L))(t := AIdle),
       l_own := (l_own (tl_abs st s L))(t := (if p = NULL then l_own (tl_abs st s L) t
         else insert p (l_own (tl_abs st s L) t)))\<rparr>)"
    by (rule ret_pop) (use pc in \<open>simp add: status_def\<close>)
qed (use pc in \<open>auto simp: locals_ok_def priv_def status_def intro!: tl_abs_eqI\<close>)

lemma matched_push_call:
  assumes inv: "tl_inv st s L" and pc: "tl_pc s t = Idle" and x: "x \<in> tl_own s t"
  shows "tl_matched st s L (Some (InvPush t x)) (set_pc t (PushCtr x)
     (s\<lparr>tl_own := (tl_own s)(t := tl_own s t - {x})\<rparr>))"
proof (rule matched_step [OF tl_inv_transfer [OF inv]])
  show "lifo_step (tl_abs st s L) (Some (InvPush t x)) ((tl_abs st s L)
      \<lparr>l_status := (l_status (tl_abs st s L))(t := APush x),
       l_own := (l_own (tl_abs st s L))(t := l_own (tl_abs st s L) t - {x})\<rparr>)"
    by (rule inv_push) (use pc x in \<open>simp_all add: status_def\<close>)
qed (use pc x in \<open>auto simp: locals_ok_def priv_def status_def intro!: tl_abs_eqI\<close>)

lemma matched_pop_call:
  assumes inv: "tl_inv st s L" and pc: "tl_pc s t = Idle"
  shows "tl_matched st s L (Some (InvPop t)) (set_pc t PopRd1 s)"
proof (rule matched_step [OF tl_inv_local [OF inv]])
  show "lifo_step (tl_abs st s L) (Some (InvPop t)) ((tl_abs st s L)
      \<lparr>l_status := (l_status (tl_abs st s L))(t := APop)\<rparr>)"
    by (rule inv_pop) (use pc in \<open>simp add: status_def\<close>)
qed (use pc in \<open>auto simp: locals_ok_def status_def intro!: tl_abs_eqI\<close>)

lemma matched_push_return:
  assumes inv: "tl_inv st s L" and pc: "tl_pc s t = PushRet"
  shows "tl_matched st s L (Some (RetPush t)) (set_pc t Idle s)"
proof (rule matched_step [OF tl_inv_local [OF inv]])
  show "lifo_step (tl_abs st s L) (Some (RetPush t)) ((tl_abs st s L)
      \<lparr>l_status := (l_status (tl_abs st s L))(t := AIdle)\<rparr>)"
    by (rule ret_push) (use pc in \<open>simp add: status_def\<close>)
qed (use pc in \<open>auto simp: locals_ok_def status_def intro!: tl_abs_eqI\<close>)

lemma matched_pop_rd1:
  assumes inv: "tl_inv st s L" and pc: "tl_pc s t = PopRd1"
  shows "tl_matched st s L None (set_pc t (PopRd2 (if st then fst (tl_top s) else snd (tl_top s))) s)"
proof (cases "st \<and> fst (tl_top s) = NULL")
  case True
  then show ?thesis
    by (intro matched_empty [OF inv]) (simp_all add: pc locals_ok_def status_def)
next
  case False
  then show ?thesis
    by (intro matched_local [OF inv]) (auto simp: pc locals_ok_def status_def past_top [OF inv])
qed

lemma matched_pop_rd2:
  assumes inv: "tl_inv st s L" and pc: "tl_pc s t = PopRd2 v"
    and l: "l = (if st then (v, snd (tl_top s)) else (fst (tl_top s), v))"
  shows "tl_matched st s L None (set_pc t (PopTest l) s)"
proof -
  have loc: "locals_ok st s L (PopTest l)"
    using tl_invD(12) [OF inv, of t] past_top [OF inv] pc by (auto simp: locals_ok_def l)
  show ?thesis
  proof (cases "\<not> st \<and> fst (tl_top s) = NULL")
    case True
    then show ?thesis
      by (intro matched_empty [OF inv]) (use loc in \<open>simp_all add: pc\<close>, simp_all add: status_def l)
  next
    case False
    then show ?thesis
      by (intro matched_local [OF inv]) (use loc in \<open>simp_all add: pc\<close>, auto simp: status_def l)
  qed
qed

lemma matched_pop_cas:
  assumes inv: "tl_inv st s L" and pc: "tl_pc s t = PopCas l n"
    and cas: "abstraction_dcas (tl_top s) n l = (r, top', cmp')"
  shows "tl_matched st s L None
    (set_pc t (if r = 0 then PopTest cmp' else PopRet (fst l)) (s\<lparr>tl_top := top'\<rparr>))"
proof (cases "tl_top s = l")
  case True
  then show ?thesis
    using matched_remove [OF inv, of t n] pc cas by (auto simp: abstraction_dcas_def)
next
  case False
  then have eq: "r = 0" "top' = tl_top s" "cmp' = tl_top s"
    using cas by (auto simp: abstraction_dcas_def)
  have loc: "locals_ok st s L (PopTest (tl_top s))"
    using past_top [OF inv] by (simp add: locals_ok_def)
  have "tl_matched st s L None (set_pc t (PopTest (tl_top s)) s)"
  proof (cases "fst (tl_top s) = NULL")
    case True
    then show ?thesis
      by (intro matched_empty [OF inv]) (simp_all add: pc loc, simp_all add: status_def)
  next
    case False
    then show ?thesis
      by (intro matched_local [OF inv]) (simp_all add: pc loc, simp_all add: status_def)
  qed
  then show ?thesis by (simp add: eq)
qed

lemma matched_push_ctr:
  assumes inv: "tl_inv st s L" and pc: "tl_pc s t = PushCtr x" and lim: "Suc (tl_pushes s) < 2 ^ 64"
    and c: "c = abstraction_increment (tl_ctr s)"
  shows "tl_matched st s L None (set_pc t (if st then PushInit1 x c else PushRd1 x c)
    (s\<lparr>tl_ctr := c, tl_pushes := Suc (tl_pushes s)\<rparr>))"
  unfolding c abstraction_increment_def
  by (rule matched_inner, rule tl_inv_draw [OF inv pc lim]) (use pc in \<open>auto simp: status_def\<close>)

lemma matched_push_cas:
  assumes inv: "tl_inv st s L" and pc: "tl_pc s t = PushCas x c old"
    and cas: "abstraction_dcas (tl_top s) (x, c) old = (r, top', cmp')"
  shows "tl_matched st s L None
    (set_pc t (if r = 0 then PushWr1 x c cmp' else PushRet) (s\<lparr>tl_top := top'\<rparr>))"
proof (cases "tl_top s = old")
  case True
  then show ?thesis
    using matched_publish [OF inv, of t x c] pc cas by (auto simp: abstraction_dcas_def)
next
  case False
  have "tl_matched st s L None (set_pc t (PushWr1 x c (tl_top s)) s)"
    by (rule matched_local [OF inv]) (simp_all add: pc locals_ok_def status_def)
  then show ?thesis using False cas by (auto simp: abstraction_dcas_def)
qed

lemma matched_go:
  assumes inv: "tl_inv st s L" and go: "tl_go st t s (tl_pc s t) = Some (a, s')"
    and lim: "tl_pushes s' < 2 ^ 64"
  shows "tl_matched st s L a s'"
proof -
  note locs = tl_invD(12) [OF inv, of t] and defs = locals_ok_def status_def
  note loc = matched_local [OF inv] and wr = matched_write [OF inv]
  show ?thesis
  proof (cases "tl_pc s t")
    case PopRd1
    then show ?thesis using go matched_pop_rd1 [OF inv] by auto
  next
    case (PopRd2 v)
    then show ?thesis using go matched_pop_rd2 [OF inv PopRd2 refl] by auto
  next
    case (PopTest l)
    then show ?thesis using go locs
      by (cases "fst l = NULL") (auto simp: defs intro!: loc)
  next
    case (PopNext1 l)
    then show ?thesis using go locs by (auto simp: defs intro!: loc)
  next
    case (PopNext2 l n0)
    then show ?thesis using go locs by (auto simp: defs prod_eq_iff intro!: loc)
  next
    case (PopCas l n)
    then show ?thesis using go matched_pop_cas [OF inv PopCas] by (auto split: prod.splits)
  next
    case (PopRet p)
    then show ?thesis using go matched_pop_return [OF inv PopRet] by auto
  next
    case (PushCtr x)
    then show ?thesis using go lim matched_push_ctr [OF inv PushCtr _ refl] by (auto simp: Let_def)
  next
    case (PushWr2 x c old)
    then show ?thesis using go locs by (auto simp: defs intro!: wr)
  next
    case (PushCas x c old)
    then show ?thesis using go matched_push_cas [OF inv PushCas] by (auto split: prod.splits)
  next
    case PushRet
    then show ?thesis using go matched_push_return [OF inv PushRet] by auto
  qed (use go in \<open>auto simp: defs intro!: loc wr\<close>)
qed

lemma matched_trans:
  assumes inv: "tl_inv st s L" and step: "tl_trans st s a s'" and lim: "tl_pushes s' < 2 ^ 64"
  shows "tl_matched st s L a s'"
proof -
  obtain cmd where cmd: "tl_step st cmd s = Some (a, s')" using step by (auto simp: tl_trans_def)
  show ?thesis
  proof (cases cmd)
    case (Go t)
    then show ?thesis using matched_go [OF inv, of t a s'] cmd lim by simp
  next
    case (CallPop t)
    then show ?thesis using matched_pop_call [OF inv, of t] cmd by (auto split: if_splits)
  next
    case (CallPush t x)
    then show ?thesis using matched_push_call [OF inv, of t x] cmd by (auto split: if_splits)
  qed
qed

text \<open>The state a thread pool starts in: nobody inside an operation, the list well formed.\<close>

definition tl_quiet :: "tl_state \<Rightarrow> bool" where
  "tl_quiet s \<longleftrightarrow> (\<forall>t. tl_pc s t = Idle)"

definition tl_unwrapped :: "tl_state \<Rightarrow> bool" where
  "tl_unwrapped s \<longleftrightarrow> tl_pushes s < 2 ^ 64"

definition tl_rel :: "bool \<Rightarrow> tl_state \<Rightarrow> lifo \<Rightarrow> bool" where
  "tl_rel st s t \<longleftrightarrow> (\<exists>L. tl_inv st s L \<and> t = tl_abs st s L)"

lemma tl_go_pushes: "tl_go st t s pc = Some (a, s') \<Longrightarrow> tl_pushes s \<le> tl_pushes s'"
  by (cases pc) (auto simp: abstraction_dcas_def Let_def split: if_splits)

lemma tl_step_pushes: "tl_step st cmd s = Some (a, s') \<Longrightarrow> tl_pushes s \<le> tl_pushes s'"
  by (cases cmd) (auto dest: tl_go_pushes split: if_splits)

interpretation tagged: forward_simulation "tl_trans st" lifo_step tl_unwrapped "tl_rel st" for st
proof
  fix s a s' assume "tl_trans st s a s'" "tl_unwrapped s'"
  then show "tl_unwrapped s"
    using tl_step_pushes by (fastforce simp: tl_trans_def tl_unwrapped_def)
next
  fix s t a s' assume rel: "tl_rel st s t" and step: "tl_trans st s a s'" and "tl_unwrapped s'"
  then obtain L where L: "tl_inv st s L" "t = tl_abs st s L" "tl_pushes s' < 2 ^ 64"
    by (auto simp: tl_rel_def tl_unwrapped_def)
  show "(\<exists>t'. lifo_step t a t' \<and> tl_rel st s' t') \<or> a = None \<and> tl_rel st s' t"
    using matched_trans [OF L(1) step L(3)] unfolding tl_matched_def tl_rel_def L(2) by metis
qed

lemma tl_exec_run:
  assumes "tl_exec st cs s1 = Some (tr, s2)" and "run (tl_trans st) s0 tr0 s1"
  shows "run (tl_trans st) s0 (tr0 @ tr) s2"
  using assms
proof (induction cs arbitrary: s1 tr tr0)
  case Nil
  then show ?case by simp
next
  case (Cons c cs)
  from Cons.prems(1) obtain a s' tr' where step: "tl_step st c s1 = Some (a, s')"
    and rest: "tl_exec st cs s' = Some (tr', s2)"
    and tr: "tr = (case a of None \<Rightarrow> tr' | Some x \<Rightarrow> x # tr')"
    by (auto split: option.splits prod.splits)
  have "tl_trans st s1 a s'" using step by (auto simp: tl_trans_def)
  then have "run (tl_trans st) s0 (case a of None \<Rightarrow> tr0 | Some x \<Rightarrow> tr0 @ [x]) s'"
    using Cons.prems(2) by (rule run_step [rotated])
  from Cons.IH [OF rest this] show ?case by (simp add: tr split: option.splits)
qed

text \<open>
  The statement of linearizability for a list that starts with the elements of \<open>L\<close>: every
  trace is one of the atomic object, which ends with the same elements, in the same hands.
\<close>

lemma tl_linearizable:
  assumes init: "tl_inv st s0 L" "tl_quiet s0"
    and run: "run (tl_trans st) s0 tr s" and lim: "tl_pushes s < 2 ^ 64"
  shows "\<exists>a L'. run lifo_step \<lparr>l_list = map fst L, l_status = (\<lambda>t. AIdle), l_own = tl_own s0\<rparr> tr a \<and>
    tl_inv st s L' \<and> a = tl_abs st s L'"
proof -
  let ?a0 = "\<lparr>l_list = map fst L, l_status = (\<lambda>t. AIdle), l_own = tl_own s0\<rparr>"
  have "tl_rel st s0 ?a0"
    using init unfolding tl_rel_def tl_abs_def tl_quiet_def by (auto simp: status_def)
  from tagged.run_simulates [OF run this] lim show ?thesis
    by (auto simp: tl_unwrapped_def tl_rel_def)
qed

section \<open>Progress\<close>

text \<open>
  The accesses a thread still makes if the head does not change under it. A thread whose
  copy of the head is stale loses one round.
\<close>

definition tl_left :: "addr \<times> u64 \<Rightarrow> tl_pc \<Rightarrow> nat" where
  "tl_left hd0 pc =
     (case pc of
        Idle \<Rightarrow> 0
      | PopRd1 \<Rightarrow> 11
      | PopRd2 v \<Rightarrow> 10
      | PopTest l \<Rightarrow> (if l = hd0 then 5 else 9)
      | PopNext1 l \<Rightarrow> (if l = hd0 then 4 else 8)
      | PopNext2 l n \<Rightarrow> (if l = hd0 then 3 else 7)
      | PopCas l n \<Rightarrow> (if l = hd0 then 2 else 6)
      | PopRet p \<Rightarrow> 1
      | PushCtr x \<Rightarrow> 12
      | PushInit1 x c \<Rightarrow> 11
      | PushInit2 x c \<Rightarrow> 10
      | PushRd1 x c \<Rightarrow> 9
      | PushRd2 x c p \<Rightarrow> 8
      | PushWr1 x c old \<Rightarrow> (if old = hd0 then 4 else 7)
      | PushWr2 x c old \<Rightarrow> (if old = hd0 then 3 else 6)
      | PushCas x c old \<Rightarrow> (if old = hd0 then 2 else 5)
      | PushRet \<Rightarrow> 1)"

lemma tl_left_bound: "tl_left hd0 pc \<le> 12"
  by (simp add: tl_left_def split: tl_pc.splits)

lemma tl_go_left:
  assumes "tl_go st t s (tl_pc s t) = Some (a, s')" and "tl_top s' = tl_top s"
  shows "tl_left (tl_top s) (tl_pc s' t) < tl_left (tl_top s) (tl_pc s t)"
    and "u \<noteq> t \<Longrightarrow> tl_pc s' u = tl_pc s u"
proof -
  show "tl_left (tl_top s) (tl_pc s' t) < tl_left (tl_top s) (tl_pc s t)"
    using assms by (cases "tl_pc s t"; auto simp: tl_left_def abstraction_dcas_def Let_def split: if_splits)
  show "tl_pc s' u = tl_pc s u" if "u \<noteq> t"
    using assms(1) that by (cases "tl_pc s t"; auto simp: abstraction_dcas_def Let_def split: if_splits)
qed

text \<open>The schedule \<open>ts\<close>, as long as no step of it changes the head.\<close>

fun tl_steady :: "bool \<Rightarrow> nat list \<Rightarrow> tl_state \<Rightarrow> bool" where
  "tl_steady st [] s = True"
| "tl_steady st (t # ts) s =
     (case tl_step st (Go t) s of None \<Rightarrow> False
      | Some (a, s') \<Rightarrow> tl_top s' = tl_top s \<and> tl_steady st ts s')"

lemma tl_steady_bound:
  assumes "tl_steady st ts s" and "set ts \<subseteq> {..<N}"
  shows "length ts \<le> (\<Sum>t<N. tl_left (tl_top s) (tl_pc s t))"
  using assms
proof (induction ts arbitrary: s)
  case Nil
  then show ?case by simp
next
  case (Cons t ts)
  then obtain a s' where go: "tl_go st t s (tl_pc s t) = Some (a, s')" "tl_top s' = tl_top s"
    and rest: "tl_steady st ts s'" by (auto split: option.splits)
  have "(\<Sum>u<N. tl_left (tl_top s) (tl_pc s' u)) < (\<Sum>u<N. tl_left (tl_top s) (tl_pc s u))"
  proof (rule sum_strict_mono_ex1)
    show "\<forall>u \<in> {..<N}. tl_left (tl_top s) (tl_pc s' u) \<le> tl_left (tl_top s) (tl_pc s u)"
      using tl_go_left [OF go] by (metis eq_refl less_imp_le)
    show "\<exists>u \<in> {..<N}. tl_left (tl_top s) (tl_pc s' u) < tl_left (tl_top s) (tl_pc s u)"
      using tl_go_left(1) [OF go] Cons.prems(2) by auto
  qed simp
  then show ?case using Cons.IH [OF rest] Cons.prems(2) go(2) by simp
qed

end
