(* ===== verification/Freelist_Conc.thy ===== *)
theory Freelist_Conc
  imports Freelist Tagged_List
begin

text \<open>
  \<open>freelist_push\<close> and \<open>freelist_pop\<close> of basic/lf_freelist.c under concurrency: the machine
  of \<open>Tagged_List\<close> started on the memory that \<open>freelist_new\<close> leaves. The first part ties the
  machine to the sequential model of \<open>Freelist\<close>: a thread that runs alone does what the
  function does. The second part instantiates linearizability and progress.
\<close>

definition fl_threads :: "(nat \<Rightarrow> addr set) \<Rightarrow> 'a fl_mem_scheme \<Rightarrow> addr \<Rightarrow> tl_state" where
  "fl_threads own m fs =
     (case fl_states m fs of
        None \<Rightarrow> \<lparr>tl_top = (NULL, 0), tl_next = fe_pair m, tl_ctr = 0, tl_pc = (\<lambda>t. Idle),
                 tl_pushes = 0, tl_own = own\<rparr>
      | Some st \<Rightarrow> \<lparr>tl_top = fs_top st, tl_next = fe_pair m, tl_ctr = fs_aba_counter st,
                    tl_pc = (\<lambda>t. Idle), tl_pushes = unat (fs_aba_counter st), tl_own = own\<rparr>)"

lemma tl_pc_same [simp]: "s\<lparr>tl_pc := (\<lambda>t. Idle)(u := Idle)\<rparr> = s\<lparr>tl_pc := \<lambda>t. Idle\<rparr>"
  by (simp add: fun_upd_idem)

lemma fl_built_inv:
  assumes built: "fl_built m0 m fs xs" and len: "length xs < 2 ^ 64"
  shows "tl_inv False (fl_threads (\<lambda>t. {}) m fs) (stamped xs)" "tl_quiet (fl_threads (\<lambda>t. {}) m fs)"
    "NULL \<notin> set xs" "tl_pushes (fl_threads (\<lambda>t. {}) m fs) = length xs"
proof -
  let ?s = "fl_threads (\<lambda>t. {}) m fs"
  from built obtain st where st: "fl_states m fs = Some st" "fs_aba_counter st = of_nat (length xs)"
      "pchain (fe_pair m) (fs_top st) (stamped xs)" and rep: "fl_rep m fs xs" and xs: "distinct xs"
    by (auto simp: fl_built_def)
  have s: "?s = \<lparr>tl_top = fs_top st, tl_next = fe_pair m, tl_ctr = fs_aba_counter st,
      tl_pc = (\<lambda>t. Idle), tl_pushes = length xs, tl_own = (\<lambda>t. {})\<rparr>"
    using st len by (simp add: fl_threads_def unat_of_nat take_bit_nat_eq_self)
  then show "tl_quiet ?s" "tl_pushes ?s = length xs" by (simp_all add: tl_quiet_def)
  show "NULL \<notin> set xs" using fl_rep_elems(1) [OF rep] by auto
  show "tl_inv False ?s (stamped xs)"
    using st(2,3) xs stamped_snd [OF len] stamped_distinct [OF len] unfolding s
    by (auto simp: tl_inv_def past_def priv_def locals_ok_def)
qed

lemma freelist_new_built:
  assumes "heap_ok m" "enough_mem (Suc (unat n)) m"
    and "freelist_new icall n NULL state m = Ok (rv, fs, m')"
  shows "\<exists>xs. rv = 1 \<and> fl_built m m' fs xs \<and> length xs = unat n \<and> unat n < 2 ^ 64"
  using freelist_new_plain [OF assms(1,2), of icall state] assms(3) unsigned_less [of n] by auto

text \<open>
  A schedule with the classical ABA hazard: thread 0 has read the head and its link when
  thread 1 pops both elements and pushes the first back. The counter makes the CAS of
  thread 0 fail.
\<close>

definition fl_demo_schedule :: "tl_cmd list" where
  "fl_demo_schedule =
     CallPop 0 # replicate 5 (Go 0) @ CallPop 1 # replicate 7 (Go 1) @
     CallPop 1 # replicate 7 (Go 1) @ CallPush 1 224 # replicate 7 (Go 1) @ replicate 6 (Go 0)"

definition fl_demo_trace :: "lifo_act list" where
  "fl_demo_trace = [InvPop 0, InvPop 1, RetPop 1 224, InvPop 1, RetPop 1 128,
     InvPush 1 224, RetPush 1, RetPop 0 224]"

lemma fl_demo_run:
  "\<exists>s. tl_exec False fl_demo_schedule (fl_threads (\<lambda>t. {}) fl_demo_built 32) =
     Some (fl_demo_trace, s) \<and> tl_pushes s < 2 ^ 64"
  by (simp add: fl_demo_schedule_def fl_demo_trace_def run_eval fl_demo_built_def fl_threads_def
      set_pc_def set_next_def fe_pair_def Let_def)

section \<open>Properties\<close>

text \<open>
  C1. Linearizability of the freelist. Take any heap that can satisfy the allocations, let
  \<open>freelist_new\<close> build a freelist of \<open>n\<close> elements, and let any number of threads call
  \<open>freelist_pop\<close> and \<open>freelist_push\<close> on it, interleaving their single memory accesses in any
  order. As long as fewer than 2^64 counters have been drawn, the trace of calls and returns is
  a trace of the atomic last-in-first-out list of \<open>n\<close> distinct elements, and at the end of it
  every element is in exactly one place: in the list, or with one thread.
\<close>

theorem freelist_linearizable:
  assumes "heap_ok m" "enough_mem (Suc (unat n)) m"
    and "freelist_new icall n NULL state m = Ok (rv, fs, m')"
    and "run (tl_trans False) (fl_threads (\<lambda>t. {}) m' fs) tr s" and "tl_pushes s < 2 ^ 64"
  shows "\<exists>xs a. length xs = unat n \<and> distinct xs \<and> NULL \<notin> set xs \<and>
    run lifo_step \<lparr>l_list = xs, l_status = (\<lambda>t. AIdle), l_own = (\<lambda>t. {})\<rparr> tr a \<and>
    lifo_part (set xs) a \<and> tl_own s = l_own a \<and> (\<exists>L. pchain (tl_next s) (tl_top s) L \<and> map fst L = l_list a)"
proof -
  obtain xs where xs: "fl_built m m' fs xs" "length xs = unat n" "unat n < 2 ^ 64"
    using freelist_new_built [OF assms(1-3)] by blast
  have len: "length xs < 2 ^ 64" using xs by simp
  note init = fl_built_inv [OF xs(1) len]
  let ?a0 = "\<lparr>l_list = xs, l_status = (\<lambda>t. AIdle), l_own = (\<lambda>t. {})\<rparr>"
  have own: "tl_own (fl_threads (\<lambda>t. {}) m' fs) = (\<lambda>t. {})"
    by (simp add: fl_threads_def split: option.splits)
  from tl_linearizable [OF init(1,2) assms(4,5)] obtain a L' where
    a: "run lifo_step ?a0 tr a" "tl_inv False s L'" "a = tl_abs False s L'"
    by (auto simp: own)
  have dist: "distinct xs" using xs(1) by (simp add: fl_built_def)
  then have "lifo_part (set xs) ?a0"
    using init(3) by (simp add: lifo_part_def lifo_hands_def)
  from lifo_run_part [OF a(1) this] show ?thesis
    using a xs(2) dist init(3) tl_invD(1) [OF a(2)]
    by (intro exI [of _ xs] exI [of _ a]) auto
qed

theorem freelist_linearizable_witness:
  "\<exists>s. tl_exec False fl_demo_schedule (fl_threads (\<lambda>t. {}) fl_demo_built 32) = Some (fl_demo_trace, s) \<and>
   (\<exists>xs a. length xs = 2 \<and> distinct xs \<and> NULL \<notin> set xs \<and>
    run lifo_step \<lparr>l_list = xs, l_status = (\<lambda>t. AIdle), l_own = (\<lambda>t. {})\<rparr> fl_demo_trace a \<and>
    lifo_part (set xs) a \<and> tl_own s = l_own a \<and>
    (\<exists>L. pchain (tl_next s) (tl_top s) L \<and> map fst L = l_list a))"
proof -
  let ?s0 = "fl_threads (\<lambda>t. {}) fl_demo_built 32"
  from fl_demo_run obtain s where s: "tl_exec False fl_demo_schedule ?s0 = Some (fl_demo_trace, s)"
    "tl_pushes s < 2 ^ 64" by blast
  have "run (tl_trans False) ?s0 fl_demo_trace s"
    using tl_exec_run [OF s(1) run_start] by simp
  from freelist_linearizable [OF fl_demo_heap(1) _ fl_demo_new this s(2)] fl_demo_heap(2) s(1)
  show ?thesis by simp
qed

text \<open>
  C2. Lock-freedom of the freelist and of the stack's list (\<open>st\<close> selects which): while \<open>N\<close>
  threads are inside push and pop and none of their steps changes the head of the list, they
  can make at most \<open>12 * N\<close> steps in all. So in any longer stretch some operation takes effect.
\<close>

theorem tagged_list_lock_free:
  assumes "tl_steady st ts s" and "set ts \<subseteq> {..<N}"
  shows "length ts \<le> 12 * N"
proof -
  have "(\<Sum>t<N. tl_left (tl_top s) (tl_pc s t)) \<le> (\<Sum>t<N. 12)"
    by (rule sum_mono) (rule tl_left_bound)
  then show ?thesis using tl_steady_bound [OF assms] by simp
qed

theorem tagged_list_lock_free_witness:
  "tl_steady False [0, 1, 0, 1, 0] ((fl_threads (\<lambda>t. {}) fl_demo_built 32)
     \<lparr>tl_pc := (\<lambda>t. Idle)(0 := PopRd1, 1 := PopRd1)\<rparr>) \<and> length [0, 1, 0, 1, 0 :: nat] \<le> 12 * 2"
proof -
  have *: "tl_steady False [0, 1, 0, 1, 0] ((fl_threads (\<lambda>t. {}) fl_demo_built 32)
     \<lparr>tl_pc := (\<lambda>t. Idle)(0 := PopRd1, 1 := PopRd1)\<rparr>)"
    by (simp add: fl_demo_built_def fl_threads_def set_pc_def)
  show ?thesis using * tagged_list_lock_free [OF *, of 2] by auto
qed

text \<open>
  The concurrent machine and the sequential model of the same source agree: a thread that
  calls \<open>freelist_pop\<close> and is not interrupted returns what the sequential function returns, and
  leaves the memory it leaves.
\<close>

theorem freelist_pop_solo:
  assumes fs: "fs \<noteq> NULL" "fl_states m fs = Some st"
    and elem: "fst (fs_top st) \<noteq> NULL \<Longrightarrow> \<exists>e. fl_elems m (fst (fs_top st)) = Some e"
  shows "\<exists>k p m'. freelist_pop fs m = Ok (p, m') \<and>
    tl_exec False (CallPop t # replicate k (Go t)) (fl_threads own m fs) =
      Some ([InvPop t, RetPop t p],
        fl_threads (own(t := (if p = NULL then own t else insert p (own t)))) m' fs)"
proof (cases "fst (fs_top st) = NULL")
  case True
  have "tl_exec False (CallPop t # replicate 4 (Go t)) (fl_threads own m fs) =
      Some ([InvPop t, RetPop t NULL], fl_threads own m fs)"
    using True fs by (simp add: fl_threads_def numeral_nat set_pc_def)
  then show ?thesis using freelist_pop_empty [OF fs True] by fastforce
next
  case False
  then obtain e where e: "fl_elems m (fst (fs_top st)) = Some e" using elem by blast
  let ?p = "fst (fs_top st)" and ?m = "set_fs fs (st\<lparr>fs_top := fe_next e\<rparr>) m"
  have pop: "freelist_pop fs m = Ok (?p, ?m)"
    using freelist_pop_eq [OF fs refl False e] .
  have pair: "fe_pair ?m = fe_pair m" by (simp add: fe_pair_def fun_eq_iff)
  have "tl_exec False (CallPop t # replicate 7 (Go t)) (fl_threads own m fs) =
      Some ([InvPop t, RetPop t ?p], fl_threads (own(t := insert ?p (own t))) ?m fs)"
    using False fs e unfolding fl_threads_def pair
    by (simp add: numeral_nat set_pc_def abstraction_dcas_def) (simp add: fe_pair_def)
  then show ?thesis using pop False by fastforce
qed

theorem freelist_pop_solo_witness:
  "\<exists>k p m'. freelist_pop 32 fl_demo_built = Ok (p, m') \<and>
    tl_exec False (CallPop 0 # replicate k (Go 0)) (fl_threads (\<lambda>t. {}) fl_demo_built 32) =
      Some ([InvPop 0, RetPop 0 p], fl_threads ((\<lambda>t. {})(0 := (if p = NULL then {} else insert p {}))) m' 32)"
  by (rule freelist_pop_solo) (auto simp: fl_demo_built_def)

text \<open>
  Likewise for \<open>freelist_push\<close> of an element the thread has.
\<close>

theorem freelist_push_solo:
  assumes fs: "fs \<noteq> NULL" "fl_states m fs = Some st" and fe: "fe \<noteq> NULL" "fl_elems m fe = Some e"
    and own: "fe \<in> own t" and lim: "unat (fs_aba_counter st) + 1 < 2 ^ 64"
  shows "\<exists>k m'. freelist_push fs fe m = Ok m' \<and>
    tl_exec False (CallPush t fe # replicate k (Go t)) (fl_threads own m fs) =
      Some ([InvPush t fe, RetPush t], fl_threads (own(t := own t - {fe})) m' fs)"
proof -
  let ?c = "fs_aba_counter st + 1"
  let ?m = "set_fs fs (st\<lparr>fs_aba_counter := ?c, fs_top := (fe, ?c)\<rparr>)
              (set_fe fe (e\<lparr>fe_next := fs_top st\<rparr>) m)"
  have push: "freelist_push fs fe m = Ok ?m"
    using freelist_push_eq [OF fs(1) fe(1) fs(2) fe(2)] .
  have uc: "unat ?c = Suc (unat (fs_aba_counter st))"
    using lim by (simp add: unat_word_ariths)
  have pair: "fe_pair ?m = (fe_pair m)(fe := fs_top st)" by (simp add: fe_pair_def fun_eq_iff)
  have "tl_exec False (CallPush t fe # replicate 7 (Go t)) (fl_threads own m fs) =
      Some ([InvPush t fe, RetPush t], fl_threads (own(t := own t - {fe})) ?m fs)"
    using fs fe own uc unfolding fl_threads_def pair
    by (simp add: numeral_nat set_pc_def set_next_def abstraction_dcas_def
        abstraction_increment_def Let_def)
  then show ?thesis using push by blast
qed

theorem freelist_push_solo_witness:
  "\<exists>k m'. freelist_push 32 128 fl_demo_built = Ok m' \<and>
    tl_exec False (CallPush 0 128 # replicate k (Go 0)) (fl_threads (\<lambda>t. {128}) fl_demo_built 32) =
      Some ([InvPush 0 128, RetPush 0], fl_threads ((\<lambda>t. {128})(0 := {128} - {128})) m' 32)"
  by (rule freelist_push_solo) (auto simp: fl_demo_built_def)

end
