(* ===== verification/Backed.thy ===== *)
theory Backed
  imports Freelist
begin

text \<open>
  A freelist whose elements own a data block: the stack and the queue give the freelist an
  initialiser that allocates their own element and a destructor that frees it. The locale
  states what they rely on (the initialiser allocates one block and makes it an item, the
  destructor undoes that, neither touches the freelist) and has the life cycle of such a
  freelist. \<open>item\<close> is the heap of the client's elements, \<open>frame\<close> the rest of its memory.
\<close>

definition fe_item :: "'a fl_mem_scheme \<Rightarrow> addr \<Rightarrow> addr" where
  "fe_item m fe = (case fl_elems m fe of Some e \<Rightarrow> fe_data e | None \<Rightarrow> NULL)"

lemma fe_item_cong: "fl_elems m' = fl_elems m \<Longrightarrow> fe_item m' = fe_item m"
  by (simp add: fe_item_def fun_eq_iff)

text \<open>The blocks of a backed freelist: its state, its elements, their items.\<close>

definition fl_blocks :: "'a fl_mem_scheme \<Rightarrow> addr \<Rightarrow> addr list \<Rightarrow> addr list" where
  "fl_blocks m fs fr = fs # fr @ map (fe_item m) fr"

locale backed_freelist =
  fixes icall :: "'a fl_mem_scheme init_calls" and dcall :: "'a fl_mem_scheme delete_calls"
    and init_f free_f :: addr
    and item :: "'a fl_mem_scheme \<Rightarrow> addr \<Rightarrow> 'e option" and frame :: "'a fl_mem_scheme \<Rightarrow> 'b"
  assumes funs: "init_f \<noteq> NULL" "free_f \<noteq> NULL"
    and more_law: "fl_mem.more m' = fl_mem.more m \<Longrightarrow> item m' = item m \<and> frame m' = frame m"
    and init_law: "heap_ok m \<Longrightarrow> enough_mem (Suc k) m \<Longrightarrow>
      \<exists>x v m'. icall init_f NULL m = Ok (1, x, m') \<and> x \<noteq> NULL \<and> \<not> allocated m x \<and>
        (\<forall>r. allocated m' r \<longleftrightarrow> allocated m r \<or> r = x) \<and> heap_ok m' \<and> enough_mem k m' \<and>
        fl_states m' = fl_states m \<and> fl_elems m' = fl_elems m \<and>
        item m' = (item m)(x \<mapsto> v) \<and> frame m' = frame m"
    and free_law: "heap_ok m \<Longrightarrow> allocated m x \<Longrightarrow>
      \<exists>m'. dcall free_f x NULL m = Ok m' \<and> heap_ok m' \<and>
        (\<forall>r. allocated m' r \<longleftrightarrow> allocated m r \<and> r \<noteq> x) \<and>
        fl_states m' = fl_states m \<and> fl_elems m' = fl_elems m \<and>
        item m' = (item m)(x := None) \<and> frame m' = frame m"
begin

text \<open>A new element: two fresh blocks, the element and its item.\<close>

lemma new_element_backed:
  assumes "heap_ok m" "enough_mem (Suc (Suc k)) m" "fs \<noteq> NULL" "fl_states m fs = Some st"
    and "fs_init_func st = init_f" "fs_state st = NULL"
  shows "\<exists>q x v e m'. freelist_internal_new_element icall fs m = Ok (1, q, m') \<and>
    q \<noteq> NULL \<and> x \<noteq> NULL \<and> q \<noteq> x \<and> \<not> allocated m q \<and> \<not> allocated m x \<and>
    (\<forall>r. allocated m' r \<longleftrightarrow> allocated m r \<or> r = q \<or> r = x) \<and> heap_ok m' \<and> enough_mem k m' \<and>
    fl_states m' = (fl_states m)(fs \<mapsto> st\<lparr>fs_element_count := fs_element_count st + 1\<rparr>) \<and>
    fl_elems m' = (fl_elems m)(q \<mapsto> e) \<and> fe_data e = x \<and>
    item m' = (item m)(x \<mapsto> v) \<and> frame m' = frame m"
proof -
  obtain q e m1 where q: "alloc_fe m = (q, set_fe q e m1)" "fresh_block q m m1" "heap_ok m1"
    "enough_mem (Suc k) m1" using alloc_fe_enough [OF assms(1,2)] .
  note fr = fresh_block_fl [OF q(2)]
  have "heap_ok (set_fe q e m1)" "enough_mem (Suc k) (set_fe q e m1)" using q by simp_all
  from init_law [OF this] obtain x v m2 where x: "icall init_f NULL (set_fe q e m1) = Ok (1, x, m2)"
    "x \<noteq> NULL" "\<not> allocated (set_fe q e m1) x"
    "\<forall>r. allocated m2 r \<longleftrightarrow> allocated (set_fe q e m1) r \<or> r = x" "heap_ok m2" "enough_mem k m2"
    "fl_states m2 = fl_states (set_fe q e m1)" "fl_elems m2 = fl_elems (set_fe q e m1)"
    "item m2 = (item (set_fe q e m1))(x \<mapsto> v)" "frame m2 = frame (set_fe q e m1)"
    by (elim exE conjE)
  let ?m3 = "set_fs fs (st\<lparr>fs_element_count := fs_element_count st + 1\<rparr>) (set_fe q (e\<lparr>fe_data := x\<rparr>) m2)"
  have "q \<noteq> NULL" using q(2) by (simp add: fresh_block_def)
  then have "freelist_internal_new_element icall fs m = Ok (1, q, ?m3)"
    using assms q x fr funs
    by (simp add: freelist_internal_new_element_def abstraction_increment_def)
  moreover have "item ?m3 = item m2" "frame ?m3 = frame m2"
    using more_law [of ?m3 m2] by simp_all
  moreover have "item (set_fe q e m1) = item m" "frame (set_fe q e m1) = frame m"
    using more_law [of "set_fe q e m1" m] fr by simp_all
  ultimately show ?thesis
    using q(2) x fr \<open>q \<noteq> NULL\<close>
    by (intro exI [of _ q] exI [of _ x] exI [of _ v] exI [of _ "e\<lparr>fe_data := x\<rparr>"] exI [of _ ?m3])
      (auto simp: fresh_block_def)
qed

definition backed :: "'a fl_mem_scheme \<Rightarrow> 'a fl_mem_scheme \<Rightarrow> addr \<Rightarrow> addr list \<Rightarrow> bool" where
  "backed m0 m fs fr \<longleftrightarrow>
     heap_ok m \<and> fl_rep m fs fr \<and> distinct (fl_blocks m fs fr) \<and> NULL \<notin> set (fl_blocks m fs fr) \<and>
     (\<forall>f \<in> set fr. item m (fe_item m f) \<noteq> None) \<and>
     (\<forall>q. allocated m q \<longleftrightarrow> allocated m0 q \<or> q \<in> set (fl_blocks m fs fr)) \<and>
     (\<forall>q \<in> set (fl_blocks m fs fr). \<not> allocated m0 q) \<and> frame m = frame m0 \<and>
     (\<exists>st. fl_states m fs = Some st \<and> fs_init_func st = init_f \<and> fs_state st = NULL \<and>
        fs_element_count st = of_nat (length fr))"

lemma backed_step:
  assumes built: "backed m0 m fs fr" and en: "enough_mem (Suc (Suc k)) m"
  shows "\<exists>q m1 m2. freelist_internal_new_element icall fs m = Ok (1, q, m1) \<and>
    freelist_push fs q m1 = Ok m2 \<and> backed m0 m2 fs (q # fr) \<and> enough_mem k m2"
proof -
  obtain st where st: "fl_states m fs = Some st" "fs_init_func st = init_f" "fs_state st = NULL"
      "fs_element_count st = of_nat (length fr)"
    and ok: "heap_ok m" and rep: "fl_rep m fs fr" and fs: "fs \<noteq> NULL"
    using built by (auto simp: backed_def fl_rep_def)
  from new_element_backed [OF ok en fs st(1-3)] obtain q x v e m1 where
    new: "freelist_internal_new_element icall fs m = Ok (1, q, m1)"
    and q: "q \<noteq> NULL" "x \<noteq> NULL" "q \<noteq> x" "\<not> allocated m q" "\<not> allocated m x"
    and m1: "\<forall>r. allocated m1 r \<longleftrightarrow> allocated m r \<or> r = q \<or> r = x" "heap_ok m1" "enough_mem k m1"
      "fl_states m1 = (fl_states m)(fs \<mapsto> st\<lparr>fs_element_count := fs_element_count st + 1\<rparr>)"
      "fl_elems m1 = (fl_elems m)(q \<mapsto> e)" "fe_data e = x"
      "item m1 = (item m)(x \<mapsto> v)" "frame m1 = frame m"
    by (elim exE conjE)
  have qx: "q \<notin> set (fl_blocks m fs fr)" "x \<notin> set (fl_blocks m fs fr)"
    using q built by (auto simp: backed_def)
  let ?st = "st\<lparr>fs_element_count := fs_element_count st + 1\<rparr>"
  let ?c = "fs_aba_counter st + 1"
  let ?m2 = "set_fs fs (?st\<lparr>fs_aba_counter := ?c, fs_top := (q, ?c)\<rparr>) (set_fe q (e\<lparr>fe_next := fs_top st\<rparr>) m1)"
  have push: "freelist_push fs q m1 = Ok ?m2"
    using freelist_push_eq [OF fs q(1), of m1 ?st e] m1(4,5) by simp
  have item: "item ?m2 = item m1" "frame ?m2 = frame m1"
    using more_law [of ?m2 m1] by simp_all
  have fi: "fe_item ?m2 = (fe_item m)(q := x)"
    using m1(5,6) by (auto simp: fe_item_def fun_eq_iff)
  have bl: "fl_blocks ?m2 fs (q # fr) = fs # (q # fr) @ x # map (fe_item m) fr"
    using qx(1) unfolding fl_blocks_def fi by (auto simp: fl_blocks_def)
  have "chain (fe_link m) (fst (fs_top st)) fr" using rep st(1) by (simp add: fl_rep_def)
  moreover have "fe_link ?m2 = (fe_link m)(q \<mapsto> fst (fs_top st))"
    using m1(5) by (auto simp: fe_link_def fun_eq_iff)
  ultimately have "fl_rep ?m2 fs (q # fr)"
    using fs q(1) qx(1) by (simp add: fl_rep_def fl_blocks_def)
  moreover have "\<forall>f \<in> set (q # fr). item ?m2 (fe_item ?m2 f) \<noteq> None"
    using built m1(7) unfolding item fi by (simp add: backed_def)
  ultimately have "backed m0 ?m2 fs (q # fr)"
    unfolding backed_def bl
    using built m1 q qx st unfolding backed_def item by (auto simp: fl_blocks_def)
  then show ?thesis using new push m1(3)
    by (intro exI [of _ q] exI [of _ m1] exI [of _ ?m2]) simp
qed

lemma freelist_new_backed:
  assumes ok: "heap_ok m" and en: "enough_mem (Suc (2 * unat n + k)) m"
  shows "\<exists>fs fr m'. freelist_new icall n init_f NULL m = Ok (1, fs, m') \<and>
    backed m m' fs fr \<and> length fr = unat n \<and> enough_mem k m'"
proof -
  from aligned_malloc_enough [OF ok _ en, where al = LF_ALIGN_DOUBLE_POINTER and sz = 48]
  obtain fs m1 where al: "aligned_malloc 48 LF_ALIGN_DOUBLE_POINTER m = (fs, m1)"
    and fr: "fresh_block fs m m1" and m1: "heap_ok m1" "enough_mem (2 * unat n + k) m1" by blast
  let ?m2 = "set_fs fs \<lparr>fs_top = (NULL, 0), fs_init_func = init_f, fs_state = NULL,
                              fs_aba_counter = 0, fs_element_count = 0\<rparr> m1"
  have fs: "fs \<noteq> NULL" using fr by (simp add: fresh_block_def)
  let ?I = "\<lambda>j m'. \<exists>xs. backed m m' fs xs \<and> length xs + j = unat n \<and> enough_mem (2 * j + k) m'"
  have "frame ?m2 = frame m"
    using more_law [of ?m2 m] fresh_block_fl [OF fr] by simp
  then have I: "?I (unat n) ?m2"
    using fr fs m1
    by (intro exI [of _ "[]"]) (auto simp: backed_def fresh_block_def fl_rep_def fl_blocks_def)
  have "\<exists>m'. freelist_new_elements_loop icall fs (unat n) 0 ?m2 = Ok (0 + of_nat (unat n), m') \<and> ?I 0 m'"
  proof (rule freelist_new_elements_loop_rule [where I = ?I, OF I])
    fix j m' assume "?I (Suc j) m'"
    then obtain xs where xs: "backed m m' fs xs" "length xs + Suc j = unat n"
      "enough_mem (Suc (Suc (2 * j + k))) m'" by auto
    from backed_step [OF xs(1,3)] obtain fe ma mb where
      "freelist_internal_new_element icall fs m' = Ok (1, fe, ma)" "freelist_push fs fe ma = Ok mb"
      "backed m mb fs (fe # xs)" "enough_mem (2 * j + k) mb" by (elim exE conjE)
    note * = this
    show "\<exists>fe m1 m2. freelist_internal_new_element icall fs m' = Ok (1, fe, m1) \<and>
        freelist_push fs fe m1 = Ok m2 \<and> ?I j m2"
      by (rule exI [of _ fe], rule exI [of _ ma], rule exI [of _ mb]) (use * xs(2) in auto)
  qed
  then obtain m' where m': "freelist_new_elements_loop icall fs (unat n) 0 ?m2 = Ok (n, m')" "?I 0 m'"
    by auto
  from m'(1) al fs have "freelist_new icall n init_f NULL m = Ok (1, fs, m')"
    by (simp add: freelist_new_def freelist_new_elements_def)
  with m'(2) show ?thesis by auto
qed

text \<open>The part of a backed freelist that its destruction needs.\<close>

definition disposable :: "'a fl_mem_scheme \<Rightarrow> addr \<Rightarrow> addr list \<Rightarrow> bool" where
  "disposable m fs fr \<longleftrightarrow> heap_ok m \<and> fl_rep m fs fr \<and> distinct (fl_blocks m fs fr) \<and>
     (\<forall>q \<in> set (fl_blocks m fs fr). allocated m q)"

lemma disposable_step:
  assumes "disposable m fs (y # ys)"
  obtains m1 m2 m3 where "freelist_pop fs m = Ok (y, m1)" "y \<noteq> NULL"
    "call (freelist_get_data y m1) (\<lambda>data. dcall free_f data NULL m1) = Ok m2"
    "free_fe y m2 = Ok m3" "disposable m3 fs ys" "frame m3 = frame m"
    "\<forall>g \<in> set ys. fe_item m3 g = fe_item m g"
    "\<forall>r. allocated m3 r \<longleftrightarrow> allocated m r \<and> r \<noteq> y \<and> r \<noteq> fe_item m y"
proof -
  let ?d = "fe_item m y"
  from assms obtain st where st: "fs \<noteq> NULL" "fl_states m fs = Some st"
      "chain (fe_link m) (fst (fs_top st)) (y # ys)"
    and ok: "heap_ok m" and al: "\<forall>q \<in> set (fl_blocks m fs (y # ys)). allocated m q"
    and dist: "distinct (fl_blocks m fs (y # ys))"
    by (auto simp: disposable_def elim: fl_repE)
  then obtain e where e: "fl_elems m y = Some e" "y \<noteq> NULL" "fst (fs_top st) = y"
      "chain (fe_link m) (fst (fe_next e)) ys"
    by (auto simp: fe_link_def split: option.splits)
  let ?m1 = "set_fs fs (st\<lparr>fs_top := fe_next e\<rparr>) m"
  have pop: "freelist_pop fs m = Ok (y, ?m1)" using st e by (simp add: freelist_pop_eq)
  have "heap_ok ?m1" "allocated ?m1 ?d" using ok al by (simp_all add: fl_blocks_def)
  from free_law [OF this] obtain m2 where m2: "dcall free_f ?d NULL ?m1 = Ok m2" "heap_ok m2"
    "\<forall>r. allocated m2 r \<longleftrightarrow> allocated ?m1 r \<and> r \<noteq> ?d" "fl_states m2 = fl_states ?m1"
    "fl_elems m2 = fl_elems ?m1" "frame m2 = frame ?m1" by (elim exE conjE)
  have "allocated m2 y" using m2(3) al dist by (auto simp: fl_blocks_def)
  from free_fe_allocated [OF m2(2) this] obtain m3 where m3: "free_fe y m2 = Ok m3" "heap_ok m3"
    "\<forall>r. allocated m3 r \<longleftrightarrow> allocated m2 r \<and> r \<noteq> y" "fl_states m3 = fl_states m2"
    "fl_elems m3 = (fl_elems m2)(y := None)" "fl_mem.more m3 = fl_mem.more m2" by (elim exE conjE)
  have elems: "fl_elems m3 = (fl_elems m)(y := None)" using m3(5) m2(5) by simp
  have ynew: "y \<notin> set ys" using dist by (simp add: fl_blocks_def)
  have "chain (fe_link m3) (fst (fe_next e)) ys"
    using e(4) ynew by (subst chain_cong [where h' = "fe_link m"]) (auto simp: fe_link_def elems)
  then have rep: "fl_rep m3 fs ys"
    using st(1) m3(4) m2(4) by (intro fl_repI [where st = "st\<lparr>fs_top := fe_next e\<rparr>"]) simp_all
  have items: "fe_item m3 g = fe_item m g" if "g \<in> set ys" for g
    using that ynew by (auto simp: fe_item_def elems)
  then have bl: "fl_blocks m3 fs ys = fs # ys @ map (fe_item m) ys"
    by (simp add: fl_blocks_def)
  have alloc: "allocated m3 r \<longleftrightarrow> allocated m r \<and> r \<noteq> y \<and> r \<noteq> ?d" for r
    using m3(3) m2(3) by auto
  have "fe_item m g \<noteq> ?d" if "g \<in> set ys" for g
  proof -
    have "?d \<notin> set (map (fe_item m) ys)" using dist by (simp add: fl_blocks_def)
    moreover have "fe_item m g \<in> set (map (fe_item m) ys)" using that by simp
    ultimately show ?thesis by metis
  qed
  then have "disposable m3 fs ys"
    unfolding disposable_def bl using rep m3(2) dist al alloc by (auto simp: fl_blocks_def)
  moreover have "frame m3 = frame m"
    using more_law [OF m3(6)] more_law [of ?m1 m] m2(6) by simp
  moreover have "call (freelist_get_data y ?m1) (\<lambda>data. dcall free_f data NULL ?m1) = Ok m2"
    using m2(1) e by (simp add: freelist_get_data_def fe_item_def)
  ultimately show ?thesis using that [OF pop e(2) _ m3(1)] items alloc by simp
qed

lemma freelist_delete_backed:
  assumes own: "disposable m fs fr"
  shows "\<exists>m'. freelist_delete dcall fs free_f NULL m = Ok m' \<and> heap_ok m' \<and> frame m' = frame m \<and>
    (\<forall>r. allocated m' r \<longleftrightarrow> allocated m r \<and> r \<notin> set (fl_blocks m fs fr))"
proof -
  define J where "J ys m' \<longleftrightarrow> disposable m' fs ys \<and> (\<exists>zs. fr = zs @ ys) \<and> frame m' = frame m \<and>
     (\<forall>g \<in> set ys. fe_item m' g = fe_item m g) \<and>
     (\<forall>r. allocated m' r \<longleftrightarrow> allocated m r \<and>
        (r \<notin> set (fl_blocks m fs fr) \<or> r \<in> set (fl_blocks m fs ys)))" for ys m'
  have J: "J fr m" using own by (simp add: J_def)
  have dist: "distinct (fl_blocks m fs fr)" using own by (simp add: disposable_def)
  have "\<exists>m'. cloop (freelist_delete_body dcall fs free_f NULL) m = Ok m' \<and> J [] m'"
  proof (rule freelist_delete_loop_rule [where I = J, OF J])
    fix m' assume "J [] m'"
    then show "freelist_pop fs m' = Ok (NULL, m')"
      by (simp add: J_def disposable_def freelist_pop_rep_Nil)
  next
    fix y ys m' assume J: "J (y # ys) m'"
    then have d: "disposable m' fs (y # ys)" by (simp add: J_def)
    obtain m1 m2 m3 where s: "freelist_pop fs m' = Ok (y, m1)" "y \<noteq> NULL"
        "call (freelist_get_data y m1) (\<lambda>data. dcall free_f data NULL m1) = Ok m2" "free_fe y m2 = Ok m3"
      and m3: "disposable m3 fs ys" "frame m3 = frame m'"
      and items: "\<forall>g \<in> set ys. fe_item m3 g = fe_item m' g"
      and alloc': "\<forall>r. allocated m3 r \<longleftrightarrow> allocated m' r \<and> r \<noteq> y \<and> r \<noteq> fe_item m' y"
      using disposable_step [OF d] .
    note alloc = alloc' [rule_format]
    obtain zs where zs: "fr = zs @ y # ys" using J by (auto simp: J_def)
    have dy: "fe_item m' y = fe_item m y" using J by (simp add: J_def)
    have new: "y \<notin> set (fl_blocks m fs ys)" "fe_item m y \<notin> set (fl_blocks m fs ys)"
      using dist by (auto simp: zs fl_blocks_def)
    have "J ys m3"
      unfolding J_def
    proof (intro conjI allI)
      show "\<exists>zs. fr = zs @ ys" using zs by (intro exI [of _ "zs @ [y]"]) simp
      show "allocated m3 r \<longleftrightarrow> allocated m r \<and>
          (r \<notin> set (fl_blocks m fs fr) \<or> r \<in> set (fl_blocks m fs ys))" for r
      proof -
        have "allocated m' r \<longleftrightarrow> allocated m r \<and>
            (r \<notin> set (fl_blocks m fs fr) \<or> r \<in> set (fl_blocks m fs (y # ys)))"
          using J by (simp add: J_def)
        moreover have "set (fl_blocks m fs (y # ys)) = {y, fe_item m y} \<union> set (fl_blocks m fs ys)"
          "{y, fe_item m y} \<subseteq> set (fl_blocks m fs fr)" by (auto simp: zs fl_blocks_def)
        ultimately show ?thesis using new unfolding alloc dy by auto
      qed
    qed (use J m3 items in \<open>simp_all add: J_def\<close>)
    show "\<exists>m1 m2 m3. freelist_pop fs m' = Ok (y, m1) \<and> y \<noteq> NULL \<and>
        (if free_f \<noteq> NULL then call (freelist_get_data y m1) (\<lambda>data. dcall free_f data NULL m1)
         else Ok m1) = Ok m2 \<and> free_fe y m2 = Ok m3 \<and> J ys m3"
      by (rule exI [of _ m1], rule exI [of _ m2], rule exI [of _ m3])
        (use s funs(2) \<open>J ys m3\<close> in simp)
  qed
  then obtain m1 where m1: "cloop (freelist_delete_body dcall fs free_f NULL) m = Ok m1" "J [] m1"
    by auto
  have "heap_ok m1" "allocated m1 fs" "fs \<noteq> NULL"
    using m1(2) by (auto simp: J_def disposable_def fl_blocks_def fl_rep_def)
  from free_fs_allocated [OF this(1,2)] obtain m' where m': "free_fs fs m1 = Ok m'" "heap_ok m'"
    "\<forall>r. allocated m' r \<longleftrightarrow> allocated m1 r \<and> r \<noteq> fs" "fl_mem.more m' = fl_mem.more m1"
    by auto
  have "freelist_delete dcall fs free_f NULL m = Ok m'"
    using m1(1) m'(1) \<open>fs \<noteq> NULL\<close> by (simp add: freelist_delete_def)
  moreover have "frame m' = frame m" using more_law [OF m'(4)] m1(2) by (simp add: J_def)
  moreover have "allocated m' r \<longleftrightarrow> allocated m r \<and> r \<notin> set (fl_blocks m fs fr)" for r
    using m1(2) m'(3) by (auto simp: J_def fl_blocks_def)
  ultimately show ?thesis using m'(2) by auto
qed

end

end
