(* ===== verification/Container.thy ===== *)
theory Container
  imports Prelude
begin

text \<open>
  The contract of a bounded container of data words, which the stack and the queue both
  provide: \<open>put\<close> stores a word unless all elements are in use, \<open>get\<close> takes the first word of
  the contents. They differ in where \<open>put\<close> places the word (\<open>ins\<close>) and in what \<open>get\<close>
  writes when there is nothing to take (\<open>nil\<close>).
\<close>

datatype container_op = Put addr | Get

text \<open>A result is what the caller sees: the return value, and the word that was written, if any.\<close>

fun container_run ::
  "(addr \<Rightarrow> 'm \<Rightarrow> (u64 \<times> 'm) res) \<Rightarrow> ('m \<Rightarrow> (u64 \<times> addr option \<times> 'm) res) \<Rightarrow>
     container_op list \<Rightarrow> 'm \<Rightarrow> ((u64 \<times> addr option) list \<times> 'm) res" where
  "container_run put get [] m = Ok ([], m)"
| "container_run put get (Put d # ops) m =
     call (put d m) (\<lambda>(rv, m1). call (container_run put get ops m1) (\<lambda>(rs, m2). Ok ((rv, None) # rs, m2)))"
| "container_run put get (Get # ops) m =
     call (get m) (\<lambda>(rv, d, m1). call (container_run put get ops m1) (\<lambda>(rs, m2). Ok ((rv, d) # rs, m2)))"

text \<open>The same operations on a list of words and the number of free elements.\<close>

fun container_spec ::
  "(addr \<Rightarrow> addr list \<Rightarrow> addr list) \<Rightarrow> addr option \<Rightarrow> container_op list \<Rightarrow> addr list \<Rightarrow> nat \<Rightarrow>
     (u64 \<times> addr option) list \<times> addr list \<times> nat" where
  "container_spec ins nil [] xs k = ([], xs, k)"
| "container_spec ins nil (Put d # ops) xs 0 =
     (case container_spec ins nil ops xs 0 of (rs, q) \<Rightarrow> ((0, None) # rs, q))"
| "container_spec ins nil (Put d # ops) xs (Suc k) =
     (case container_spec ins nil ops (ins d xs) k of (rs, q) \<Rightarrow> ((1, None) # rs, q))"
| "container_spec ins nil (Get # ops) [] k =
     (case container_spec ins nil ops [] k of (rs, q) \<Rightarrow> ((0, nil) # rs, q))"
| "container_spec ins nil (Get # ops) (x # xs) k =
     (case container_spec ins nil ops xs (Suc k) of (rs, q) \<Rightarrow> ((1, Some x) # rs, q))"

locale bounded_container =
  fixes rep :: "'m \<Rightarrow> addr list \<Rightarrow> nat \<Rightarrow> bool"
    and ins :: "addr \<Rightarrow> addr list \<Rightarrow> addr list"
    and nil :: "addr option"
    and put :: "addr \<Rightarrow> 'm \<Rightarrow> (u64 \<times> 'm) res"
    and get :: "'m \<Rightarrow> (u64 \<times> addr option \<times> 'm) res"
  assumes put_law: "rep m xs (Suc k) \<Longrightarrow> \<exists>m'. put d m = Ok (1, m') \<and> rep m' (ins d xs) k"
    and put_full_law: "rep m xs 0 \<Longrightarrow> \<exists>m'. put d m = Ok (0, m') \<and> rep m' xs 0"
    and get_law: "rep m (x # xs) k \<Longrightarrow> \<exists>m'. get m = Ok (1, Some x, m') \<and> rep m' xs (Suc k)"
    and get_empty_law: "rep m [] k \<Longrightarrow> \<exists>m'. get m = Ok (0, nil, m') \<and> rep m' [] k"
begin

lemma container_run_refines:
  assumes "rep m xs k"
  shows "\<exists>rs ys j m'. container_spec ins nil ops xs k = (rs, ys, j) \<and>
    container_run put get ops m = Ok (rs, m') \<and> rep m' ys j"
  using assms
proof (induction ops arbitrary: m xs k)
  case Nil
  then show ?case by simp
next
  case (Cons oper ops)
  show ?case
  proof (cases oper)
    case (Put d)
    show ?thesis
    proof (cases k)
      case 0
      with put_full_law Cons.prems obtain m1 where "put d m = Ok (0, m1)" "rep m1 xs 0" by blast
      then show ?thesis using Cons.IH [of m1 xs 0] Put 0 by fastforce
    next
      case (Suc j)
      with put_law Cons.prems obtain m1 where "put d m = Ok (1, m1)" "rep m1 (ins d xs) j" by blast
      then show ?thesis using Cons.IH [of m1 "ins d xs" j] Put Suc by fastforce
    qed
  next
    case Get
    note IH = Cons.IH and prems = Cons.prems
    show ?thesis
    proof (cases xs)
      case Nil
      with get_empty_law prems obtain m1 where "get m = Ok (0, nil, m1)" "rep m1 [] k" by blast
      then show ?thesis using IH [of m1 "[]" k] Get Nil by fastforce
    next
      case (Cons y ys)
      with get_law prems obtain m1 where "get m = Ok (1, Some y, m1)" "rep m1 ys (Suc k)" by blast
      then show ?thesis using IH [of m1 ys "Suc k"] Get Cons by fastforce
    qed
  qed
qed

end

end
