(* ===== verification/Stack.thy ===== *)
theory Stack
  imports Backed Container "HOL-Library.Multiset"
begin

text \<open>
  basic/lf_stack.c and lf_stack.h: a stack of data words whose elements come from a
  freelist. Every function of the file as it runs without interference; \<open>Stack_Conc\<close> has the
  interleavings of the push and pop of its list.

  The stack hands its own functions to the freelist; \<open>STACK_INIT\<close> and \<open>STACK_FREE\<close> are their
  addresses and \<open>stack_icall\<close>, \<open>stack_dcall\<close> the calls through them.
\<close>

section \<open>Data\<close>

record stack_state =
  ss_top :: "addr \<times> u64"
  ss_aba_counter :: u64
  ss_fs :: addr

record stack_element =
  se_next :: "addr \<times> u64"
  se_fe :: addr
  se_data :: addr

record stk_mem = fl_mem +
  sk_states :: "addr \<Rightarrow> stack_state option"
  sk_elems :: "addr \<Rightarrow> stack_element option"

datatype stack_query_type = STACK_QUERY_ELEMENT_COUNT | STACK_QUERY_VALIDATE

text \<open>
  What \<open>stack_query\<close> writes: the count, or the two entries of the validity array, of which
  the second may stay unwritten.
\<close>

datatype stack_query_output =
  SCount u64 | SValidity data_structure_validity "data_structure_validity option"

definition set_ss :: "addr \<Rightarrow> stack_state \<Rightarrow> 'a stk_mem_scheme \<Rightarrow> 'a stk_mem_scheme" where
  "set_ss ss st m = m\<lparr>sk_states := (sk_states m)(ss \<mapsto> st)\<rparr>"

definition set_se :: "addr \<Rightarrow> stack_element \<Rightarrow> 'a stk_mem_scheme \<Rightarrow> 'a stk_mem_scheme" where
  "set_se se e m = m\<lparr>sk_elems := (sk_elems m)(se \<mapsto> e)\<rparr>"

definition free_se :: "addr \<Rightarrow> 'a stk_mem_scheme \<Rightarrow> 'a stk_mem_scheme res" where
  "free_se p m = call (aligned_free p m) (\<lambda>m'. Ok (m'\<lparr>sk_elems := (sk_elems m')(p := None)\<rparr>))"

definition free_ss :: "addr \<Rightarrow> 'a stk_mem_scheme \<Rightarrow> 'a stk_mem_scheme res" where
  "free_ss p m = call (aligned_free p m) (\<lambda>m'. Ok (m'\<lparr>sk_states := (sk_states m')(p := None)\<rparr>))"

section \<open>The functions given to the freelist\<close>

definition STACK_INIT :: addr where
  "STACK_INIT = 4096"

definition STACK_FREE :: addr where
  "STACK_FREE = 4112"

definition stack_internal_freelist_init_function ::
  "addr \<Rightarrow> 'a stk_mem_scheme \<Rightarrow> (u64 \<times> addr \<times> 'a stk_mem_scheme) res" where
  "stack_internal_freelist_init_function state m =
     c_assert (state = NULL)
       (case aligned_malloc 32 LF_ALIGN_DOUBLE_POINTER m of (q, m') \<Rightarrow>
          if q \<noteq> NULL then
            Ok (1, q, set_se q \<lparr>se_next = (m_junk m q, m_junk m (q + 8)),
                               se_fe = m_junk m (q + 16), se_data = m_junk m (q + 24)\<rparr> m')
          else Ok (0, NULL, m'))"

definition stack_internal_freelist_delete_function ::
  "addr \<Rightarrow> addr \<Rightarrow> 'a stk_mem_scheme \<Rightarrow> 'a stk_mem_scheme res" where
  "stack_internal_freelist_delete_function data state m =
     c_assert (data \<noteq> NULL) (c_assert (state = NULL) (free_se data m))"

definition stack_icall :: "'a stk_mem_scheme init_calls" where
  "stack_icall f state m =
     (if f = STACK_INIT then stack_internal_freelist_init_function state m else Fault BadDeref)"

definition stack_dcall :: "'a stk_mem_scheme delete_calls" where
  "stack_dcall f data state m =
     (if f = STACK_FREE then stack_internal_freelist_delete_function data state m
      else Fault BadDeref)"

section \<open>Operations\<close>

definition stack_use :: "addr \<Rightarrow> 'a stk_mem_scheme \<Rightarrow> 'a stk_mem_scheme res" where
  "stack_use ss m = c_assert (ss \<noteq> NULL) (Ok m)"

text \<open>
  \<open>stack_new\<close>: returns \<open>(rv, *ss, m)\<close>. The source tests \<open>ss\<close> where it means \<open>*ss\<close>, so that
  \<open>freelist_new\<close> is given an address inside a NULL state when the allocation failed; and it
  reads \<open>(*ss)->fs\<close> again after it has set \<open>*ss\<close> to NULL.
\<close>

definition stack_new ::
  "u64 \<Rightarrow> 'a stk_mem_scheme \<Rightarrow> (u64 \<times> addr \<times> 'a stk_mem_scheme) res" where
  "stack_new number_elements m =
     (case aligned_malloc 32 LF_ALIGN_DOUBLE_POINTER m of (ss, m1) \<Rightarrow>
        let m2 = (if ss = NULL then m1
                  else set_ss ss \<lparr>ss_top = (m_junk m ss, m_junk m (ss + 8)),
                                 ss_aba_counter = m_junk m (ss + 16), ss_fs = m_junk m (ss + 24)\<rparr> m1)
        in deref (sk_states m2) ss (\<lambda>_.
           call (freelist_new stack_icall number_elements STACK_INIT NULL m2) (\<lambda>(rv, fs, m3).
           deref (sk_states m3) ss (\<lambda>st.
             let m4 = set_ss ss (st\<lparr>ss_fs := fs\<rparr>) m3 in
             call (if fs = NULL then call (free_ss ss m4) (\<lambda>m5. Ok (NULL, m5)) else Ok (ss, m4))
               (\<lambda>(ss', m5).
                  deref (sk_states m5) ss' (\<lambda>st'.
                    if ss_fs st' \<noteq> NULL then
                      Ok (1, ss', set_ss ss' (st'\<lparr>ss_top := (NULL, 0), ss_aba_counter := 0\<rparr>) m5)
                    else Ok (0, ss', m5)))))))"

text \<open>\<open>stack_internal_init_element\<close>: returns the pair \<open>se\<close>.\<close>

definition stack_internal_init_element ::
  "addr \<Rightarrow> addr \<Rightarrow> addr \<Rightarrow> 'a stk_mem_scheme \<Rightarrow> ((addr \<times> u64) \<times> 'a stk_mem_scheme) res" where
  "stack_internal_init_element ss fe data m =
     c_assert (ss \<noteq> NULL) (c_assert (fe \<noteq> NULL)
       (call (freelist_get_data fe m) (\<lambda>se.
        deref (sk_states m) ss (\<lambda>st.
          let counter = abstraction_increment (ss_aba_counter st);
              m1 = set_ss ss (st\<lparr>ss_aba_counter := counter\<rparr>) m
          in deref (sk_elems m1) se (\<lambda>e.
               Ok ((se, counter), set_se se \<lparr>se_next = (NULL, 0), se_fe = fe, se_data = data\<rparr> m1))))))"

text \<open>
  The two sources of an element; the pair is \<open>None\<close> where the source sets only its pointer,
  to NULL.
\<close>

definition stack_internal_new_element_from_freelist ::
  "addr \<Rightarrow> addr \<Rightarrow> 'a stk_mem_scheme \<Rightarrow> ((addr \<times> u64) option \<times> 'a stk_mem_scheme) res" where
  "stack_internal_new_element_from_freelist ss data m =
     c_assert (ss \<noteq> NULL)
       (deref (sk_states m) ss (\<lambda>st.
        call (freelist_pop (ss_fs st) m) (\<lambda>(fe, m1).
          if fe = NULL then Ok (None, m1)
          else call (stack_internal_init_element ss fe data m1) (\<lambda>(se, m2). Ok (Some se, m2)))))"

definition stack_internal_new_element ::
  "addr \<Rightarrow> addr \<Rightarrow> 'a stk_mem_scheme \<Rightarrow> ((addr \<times> u64) option \<times> 'a stk_mem_scheme) res" where
  "stack_internal_new_element ss data m =
     c_assert (ss \<noteq> NULL)
       (deref (sk_states m) ss (\<lambda>st.
        call (freelist_guaranteed_pop stack_icall (ss_fs st) m) (\<lambda>(fe, m1).
          if fe = NULL then Ok (None, m1)
          else call (stack_internal_init_element ss fe data m1) (\<lambda>(se, m2). Ok (Some se, m2)))))"

definition stack_push_body ::
  "addr \<Rightarrow> addr \<times> u64 \<Rightarrow> (addr \<times> u64) \<times> 'a stk_mem_scheme \<Rightarrow>
     ((addr \<times> u64) \<times> 'a stk_mem_scheme, 'a stk_mem_scheme) ctl res" where
  "stack_push_body ss se = (\<lambda>(org_top, m).
     deref (sk_elems m) (fst se) (\<lambda>e.
     let m1 = set_se (fst se) (e\<lparr>se_next := org_top\<rparr>) m in
     deref (sk_states m1) ss (\<lambda>st.
       case abstraction_dcas (ss_top st) se org_top of (r, top', cmp') \<Rightarrow>
         let m2 = set_ss ss (st\<lparr>ss_top := top'\<rparr>) m1 in
         if r = 0 then Ok (Again (cmp', m2)) else Ok (Done m2))))"

definition stack_internal_push ::
  "addr \<Rightarrow> addr \<times> u64 \<Rightarrow> 'a stk_mem_scheme \<Rightarrow> 'a stk_mem_scheme res" where
  "stack_internal_push ss se m =
     c_assert (ss \<noteq> NULL)
       (deref (sk_states m) ss (\<lambda>st. cloop (stack_push_body ss se) (ss_top st, m)))"

definition stack_push :: "addr \<Rightarrow> addr \<Rightarrow> 'a stk_mem_scheme \<Rightarrow> (u64 \<times> 'a stk_mem_scheme) res" where
  "stack_push ss data m =
     c_assert (ss \<noteq> NULL)
       (call (stack_internal_new_element_from_freelist ss data m) (\<lambda>(se, m1).
          case se of None \<Rightarrow> Ok (0, m1)
          | Some se' \<Rightarrow> call (stack_internal_push ss se' m1) (\<lambda>m2. Ok (1, m2))))"

definition stack_guaranteed_push ::
  "addr \<Rightarrow> addr \<Rightarrow> 'a stk_mem_scheme \<Rightarrow> (u64 \<times> 'a stk_mem_scheme) res" where
  "stack_guaranteed_push ss data m =
     c_assert (ss \<noteq> NULL)
       (call (stack_internal_new_element ss data m) (\<lambda>(se, m1).
          case se of None \<Rightarrow> Ok (0, m1)
          | Some se' \<Rightarrow> call (stack_internal_push ss se' m1) (\<lambda>m2. Ok (1, m2))))"

definition stack_pop_body ::
  "addr \<Rightarrow> (addr \<times> u64) \<times> 'a stk_mem_scheme \<Rightarrow>
     ((addr \<times> u64) \<times> 'a stk_mem_scheme, addr option \<times> 'a stk_mem_scheme) ctl res" where
  "stack_pop_body ss = (\<lambda>(se, m).
     if fst se = NULL then Ok (Done (None, m))
     else
       deref (sk_elems m) (fst se) (\<lambda>e.
       deref (sk_states m) ss (\<lambda>st.
         case abstraction_dcas (ss_top st) (se_next e) se of (r, top', cmp') \<Rightarrow>
           let m1 = set_ss ss (st\<lparr>ss_top := top'\<rparr>) m in
           if r = 0 then Ok (Again (cmp', m1)) else Ok (Done (Some (fst se), m1)))))"

text \<open>\<open>stack_pop\<close>: returns \<open>(rv, *data, m)\<close>, \<open>None\<close> where \<open>*data\<close> is not written.\<close>

definition stack_pop ::
  "addr \<Rightarrow> 'a stk_mem_scheme \<Rightarrow> (u64 \<times> addr option \<times> 'a stk_mem_scheme) res" where
  "stack_pop ss m =
     c_assert (ss \<noteq> NULL)
       (deref (sk_states m) ss (\<lambda>st.
        call (cloop (stack_pop_body ss) (ss_top st, m)) (\<lambda>(r, m1).
          case r of
            None \<Rightarrow> Ok (0, None, m1)
          | Some se \<Rightarrow>
              deref (sk_elems m1) se (\<lambda>e.
              deref (sk_states m1) ss (\<lambda>st1.
              call (freelist_push (ss_fs st1) (se_fe e) m1) (\<lambda>m2. Ok (1, Some (se_data e), m2)))))))"

text \<open>\<open>while (stack_pop(ss, &data)) if (f != NULL) f(data, state);\<close>\<close>

definition stack_drain_body ::
  "'a stk_mem_scheme delete_calls \<Rightarrow> addr \<Rightarrow> addr \<Rightarrow> addr \<Rightarrow> 'a stk_mem_scheme \<Rightarrow>
     ('a stk_mem_scheme, 'a stk_mem_scheme) ctl res" where
  "stack_drain_body dcall ss f state m =
     call (stack_pop ss m) (\<lambda>(rv, data, m1).
       case data of
         None \<Rightarrow> Ok (Done m1)
       | Some d \<Rightarrow>
           call (if f \<noteq> NULL then dcall f d state m1 else Ok m1) (\<lambda>m2. Ok (Again m2)))"

definition stack_clear ::
  "'a stk_mem_scheme delete_calls \<Rightarrow> addr \<Rightarrow> addr \<Rightarrow> addr \<Rightarrow> 'a stk_mem_scheme \<Rightarrow> 'a stk_mem_scheme res" where
  "stack_clear dcall ss clear_func state m =
     c_assert (ss \<noteq> NULL) (cloop (stack_drain_body dcall ss clear_func state) m)"

definition stack_delete ::
  "'a stk_mem_scheme delete_calls \<Rightarrow> addr \<Rightarrow> addr \<Rightarrow> addr \<Rightarrow> 'a stk_mem_scheme \<Rightarrow> 'a stk_mem_scheme res" where
  "stack_delete dcall ss delete_func state m =
     c_assert (ss \<noteq> NULL)
       (call (cloop (stack_drain_body dcall ss delete_func state) m) (\<lambda>m1.
        deref (sk_states m1) ss (\<lambda>st.
        call (freelist_delete stack_dcall (ss_fs st) STACK_FREE NULL m1) (\<lambda>m2. free_ss ss m2))))"

definition se_link :: "'a stk_mem_scheme \<Rightarrow> addr \<Rightarrow> addr option" where
  "se_link m p = map_option (\<lambda>e. fst (se_next e)) (sk_elems m p)"

text \<open>
  \<open>stack_internal_validate\<close>: returns \<open>(*sv, *fv)\<close>, the second \<open>None\<close> where it is not
  written. With bounds the freelist is validated twice, the second time without bounds and
  into the same variable; the source's last test reads \<open>vi != NULL\<close> like the one before it.
\<close>

definition stack_internal_validate ::
  "addr \<Rightarrow> validation_info option \<Rightarrow> 'a stk_mem_scheme \<Rightarrow>
     (data_structure_validity \<times> data_structure_validity option) res" where
  "stack_internal_validate ss vi m =
     c_assert (ss \<noteq> NULL)
       (deref (sk_states m) ss (\<lambda>st.
        call (find_cycle (se_link m) (fst (ss_top st))) (\<lambda>sf.
          let sv = cycle_verdict sf in
          case vi of
            None \<Rightarrow> Ok (sv, None)
          | Some v \<Rightarrow>
              call (if sv = VALIDITY_VALID then
                      call (count_elements (se_link m) (fst (ss_top st)))
                        (\<lambda>element_count. Ok (bounds_verdict v element_count sv))
                    else Ok sv) (\<lambda>sv'.
              call (freelist_query (ss_fs st) FREELIST_QUERY_ELEMENT_COUNT None m) (\<lambda>q.
              call (query_count q) (\<lambda>total_elements.
                let fvi = \<lparr>min_element = total_elements - max_element v,
                           max_element = total_elements - min_element v\<rparr> in
                call (freelist_query (ss_fs st) FREELIST_QUERY_VALIDATE (Some fvi) m) (\<lambda>q1.
                call (query_validity q1) (\<lambda>fv.
                call (freelist_query (ss_fs st) FREELIST_QUERY_VALIDATE None m) (\<lambda>q2.
                call (query_validity q2) (\<lambda>fv'. Ok (sv', Some fv')))))))))))"

definition stack_query ::
  "addr \<Rightarrow> stack_query_type \<Rightarrow> validation_info option \<Rightarrow> 'a stk_mem_scheme \<Rightarrow> stack_query_output res" where
  "stack_query ss query_type input m =
     c_assert (ss \<noteq> NULL)
       (case query_type of
          STACK_QUERY_ELEMENT_COUNT \<Rightarrow>
            c_assert (input \<noteq> None)
              (deref (sk_states m) ss (\<lambda>st.
               call (freelist_query (ss_fs st) FREELIST_QUERY_ELEMENT_COUNT None m) (\<lambda>q.
               call (query_count q) (\<lambda>n. Ok (SCount n)))))
        | STACK_QUERY_VALIDATE \<Rightarrow>
            deref (sk_states m) ss (\<lambda>st.
            call (freelist_query (ss_fs st) FREELIST_QUERY_VALIDATE None m) (\<lambda>q.
            call (query_validity q) (\<lambda>v.
              if v = VALIDITY_VALID then
                call (stack_internal_validate ss input m) (\<lambda>(sv, fv). Ok (SValidity sv fv))
              else Ok (SValidity v None)))))"

section \<open>Memory\<close>

lemma set_ss_sel [simp]:
  "sk_states (set_ss ss st m) = (sk_states m)(ss \<mapsto> st)" "sk_elems (set_ss ss st m) = sk_elems m"
  "sk_states (set_se se e m) = sk_states m" "sk_elems (set_se se e m) = (sk_elems m)(se \<mapsto> e)"
  "fl_states (set_ss ss st m) = fl_states m" "fl_elems (set_ss ss st m) = fl_elems m"
  "fl_states (set_se se e m) = fl_states m" "fl_elems (set_se se e m) = fl_elems m"
  "sk_states (set_fs fs x m) = sk_states m" "sk_elems (set_fs fs x m) = sk_elems m"
  "sk_states (set_fe fe y m) = sk_states m" "sk_elems (set_fe fe y m) = sk_elems m"
  by (simp_all add: set_ss_def set_se_def set_fs_def set_fe_def)

lemma set_ss_mem [simp]:
  "m_script (set_ss ss st m) = m_script m" "m_live (set_ss ss st m) = m_live m"
  "m_junk (set_ss ss st m) = m_junk m" "m_junk (set_se se e m) = m_junk m"
  "m_script (set_se se e m) = m_script m" "m_live (set_se se e m) = m_live m"
  "allocated (set_ss ss st m) = allocated m" "allocated (set_se se e m) = allocated m"
  "heap_ok (set_ss ss st m) = heap_ok m" "heap_ok (set_se se e m) = heap_ok m"
  "stk_mem.more (set_ss ss st m) = stk_mem.more m" "stk_mem.more (set_se se e m) = stk_mem.more m"
  "stk_mem.more (set_fs fs x m) = stk_mem.more m" "stk_mem.more (set_fe fe y m) = stk_mem.more m"
  by (auto simp: set_ss_def set_se_def set_fs_def set_fe_def allocated_def heap_ok_def fun_eq_iff)

lemma se_link_set [simp]:
  "se_link (set_ss ss st m) = se_link m"
  "se_link (set_se se e m) = (se_link m)(se \<mapsto> fst (se_next e))"
  "se_link (set_fs fs x m) = se_link m" "se_link (set_fe fe y m) = se_link m"
  "fe_link (set_ss ss st m) = fe_link m" "fe_link (set_se se e m) = fe_link m"
  by (auto simp: se_link_def fe_link_def fun_eq_iff)

lemma fl_rep_stk [simp]:
  "fl_rep (set_ss ss st m) fs xs = fl_rep m fs xs" "fl_rep (set_se se e m) fs xs = fl_rep m fs xs"
  by (simp_all add: fl_rep_def split: option.split)

section \<open>One round of the loops\<close>

lemma stack_internal_push_eq:
  assumes "ss \<noteq> NULL" "sk_states m ss = Some st" "se \<noteq> NULL" "sk_elems m se = Some e"
  shows "stack_internal_push ss (se, c) m =
    Ok (set_ss ss (st\<lparr>ss_top := (se, c)\<rparr>) (set_se se (e\<lparr>se_next := ss_top st\<rparr>) m))"
  using assms
  by (simp add: stack_internal_push_def stack_push_body_def abstraction_dcas_def Let_def)

lemma stack_pop_loop_eq:
  assumes "ss \<noteq> NULL" "sk_states m ss = Some st" "fst (ss_top st) = p" "p \<noteq> NULL" "sk_elems m p = Some e"
  shows "cloop (stack_pop_body ss) (ss_top st, m) = Ok (Some p, set_ss ss (st\<lparr>ss_top := se_next e\<rparr>) m)"
  using assms by (simp add: stack_pop_body_def abstraction_dcas_def)

lemma stack_pop_empty:
  assumes "ss \<noteq> NULL" "sk_states m ss = Some st" "fst (ss_top st) = NULL"
  shows "stack_pop ss m = Ok (0, None, m)"
  using assms by (simp add: stack_pop_def stack_pop_body_def)

section \<open>The representation\<close>

definition se_item :: "'a stk_mem_scheme \<Rightarrow> addr \<Rightarrow> addr" where
  "se_item m se = (case sk_elems m se of Some e \<Rightarrow> se_data e | None \<Rightarrow> NULL)"

definition se_home :: "'a stk_mem_scheme \<Rightarrow> addr \<Rightarrow> addr" where
  "se_home m se = (case sk_elems m se of Some e \<Rightarrow> se_fe e | None \<Rightarrow> NULL)"

text \<open>The freelist has the stack's initialiser.\<close>

definition sk_ready :: "'a stk_mem_scheme \<Rightarrow> addr \<Rightarrow> bool" where
  "sk_ready m fs \<longleftrightarrow> (\<exists>st. fl_states m fs = Some st \<and> fs_init_func st = STACK_INIT \<and> fs_state st = NULL)"

definition stk_inv :: "'a stk_mem_scheme \<Rightarrow> addr \<Rightarrow> addr list \<Rightarrow> addr list \<Rightarrow> bool" where
  "stk_inv m ss us fr \<longleftrightarrow> ss \<noteq> NULL \<and>
     (\<exists>st. sk_states m ss = Some st \<and> chain (se_link m) (fst (ss_top st)) us \<and>
        fl_rep m (ss_fs st) fr \<and> sk_ready m (ss_fs st)) \<and>
     distinct (us @ map (fe_item m) fr) \<and>
     (\<forall>x \<in> set us. se_home m x \<noteq> NULL \<and> (\<exists>f. fl_elems m (se_home m x) = Some f \<and> fe_data f = x)) \<and>
     (\<forall>f \<in> set fr. fe_item m f \<noteq> NULL \<and> sk_elems m (fe_item m f) \<noteq> None)"

definition sk_fs :: "'a stk_mem_scheme \<Rightarrow> addr \<Rightarrow> addr" where
  "sk_fs m ss = (case sk_states m ss of Some st \<Rightarrow> ss_fs st | None \<Rightarrow> NULL)"

text \<open>What the operations leave alone: the allocator, the freelist's identity, the client's memory.\<close>

definition stk_same :: "addr \<Rightarrow> 'a stk_mem_scheme \<Rightarrow> 'a stk_mem_scheme \<Rightarrow> bool" where
  "stk_same ss m m' \<longleftrightarrow> allocated m' = allocated m \<and> heap_ok m' = heap_ok m \<and> sk_fs m' ss = sk_fs m ss \<and>
     fe_item m' = fe_item m \<and> m_script m' = m_script m \<and> m_live m' = m_live m \<and>
     stk_mem.more m' = stk_mem.more m"

lemma stack_push_inv:
  assumes inv: "stk_inv m ss us (f # fr)"
  shows "\<exists>m'. stack_push ss d m = Ok (1, m') \<and> stk_inv m' ss (fe_item m f # us) fr \<and>
    map (se_item m') (fe_item m f # us) = d # map (se_item m) us \<and>
    se_home m' = (se_home m)(fe_item m f := f) \<and> stk_same ss m m'"
proof -
  let ?x = "fe_item m f"
  obtain st where st: "ss \<noteq> NULL" "sk_states m ss = Some st"
      "chain (se_link m) (fst (ss_top st)) us" and fl: "fl_rep m (ss_fs st) (f # fr)"
    and ready: "sk_ready m (ss_fs st)"
    and dist: "distinct (us @ map (fe_item m) (f # fr))"
    and us: "\<And>x. x \<in> set us \<Longrightarrow> se_home m x \<noteq> NULL \<and> (\<exists>f. fl_elems m (se_home m x) = Some f \<and> fe_data f = x)"
    and fr: "\<And>g. g \<in> set (f # fr) \<Longrightarrow> fe_item m g \<noteq> NULL \<and> sk_elems m (fe_item m g) \<noteq> None"
    using inv unfolding stk_inv_def by blast
  from fl obtain fs where fs: "ss_fs st \<noteq> NULL" "fl_states m (ss_fs st) = Some fs"
    "chain (fe_link m) (fst (fs_top fs)) (f # fr)" by (rule fl_repE)
  then obtain fe where fe: "fl_elems m f = Some fe" "f \<noteq> NULL" "fst (fs_top fs) = f"
      "chain (fe_link m) (fst (fe_next fe)) fr"
    by (auto simp: fe_link_def split: option.splits)
  have x: "?x = fe_data fe" "?x \<noteq> NULL" "?x \<notin> set us" "?x \<notin> fe_item m ` set fr"
    using fe(1) fr [of f] dist by (auto simp: fe_item_def)
  obtain e where e: "sk_elems m ?x = Some e" using fr [of f] by auto
  let ?m1 = "set_fs (ss_fs st) (fs\<lparr>fs_top := fe_next fe\<rparr>) m"
  let ?c = "ss_aba_counter st + 1"
  let ?m2 = "set_se ?x \<lparr>se_next = (NULL, 0), se_fe = f, se_data = d\<rparr> (set_ss ss (st\<lparr>ss_aba_counter := ?c\<rparr>) ?m1)"
  let ?m3 = "set_ss ss (st\<lparr>ss_aba_counter := ?c, ss_top := (?x, ?c)\<rparr>)
               (set_se ?x \<lparr>se_next = ss_top st, se_fe = f, se_data = d\<rparr> ?m2)"
  have "stack_internal_new_element_from_freelist ss d m = Ok (Some (?x, ?c), ?m2)"
    using st fe fs e x(2)
    by (simp add: stack_internal_new_element_from_freelist_def freelist_pop_eq
        stack_internal_init_element_def freelist_get_data_def abstraction_increment_def x(1) Let_def)
  moreover have "stack_internal_push ss (?x, ?c) ?m2 = Ok ?m3"
    using st x(2)
    by (simp add: stack_internal_push_eq [where st = "st\<lparr>ss_aba_counter := ?c\<rparr>"
          and e = "\<lparr>se_next = (NULL, 0), se_fe = f, se_data = d\<rparr>"])
  ultimately have push: "stack_push ss d m = Ok (1, ?m3)"
    using st(1) by (simp add: stack_push_def)
  have items: "fe_item ?m3 = fe_item m" by (simp add: fe_item_def fun_eq_iff)
  have home: "se_home ?m3 = (se_home m)(?x := f)" and item: "se_item ?m3 = (se_item m)(?x := d)"
    by (simp_all add: se_home_def se_item_def fun_eq_iff)
  have "fl_rep ?m3 (ss_fs st) fr"
    using fs(1) fe(4) by (simp add: fl_rep_def)
  moreover have "sk_ready ?m3 (ss_fs st)" using ready fs(2) by (auto simp: sk_ready_def)
  ultimately have "stk_inv ?m3 ss (?x # us) fr"
    unfolding stk_inv_def items home
    using st x dist us fr fe by auto
  moreover have "map (se_item ?m3) (?x # us) = d # map (se_item m) us"
    unfolding item using x(3) by simp
  moreover have "stk_same ss m ?m3"
    unfolding stk_same_def items using st(2) by (simp add: sk_fs_def)
  ultimately show ?thesis using push home by (intro exI [of _ ?m3] conjI)
qed

lemma stack_push_full:
  assumes inv: "stk_inv m ss us []"
  shows "stack_push ss d m = Ok (0, m)"
proof -
  obtain st where st: "ss \<noteq> NULL" "sk_states m ss = Some st" "fl_rep m (ss_fs st) []"
    using inv unfolding stk_inv_def by blast
  then show ?thesis
    using freelist_pop_rep_Nil [OF st(3)]
    by (simp add: stack_push_def stack_internal_new_element_from_freelist_def)
qed

lemma stack_pop_inv:
  assumes inv: "stk_inv m ss (x # us) fr"
  shows "\<exists>m'. stack_pop ss m = Ok (1, Some (se_item m x), m') \<and> stk_inv m' ss us (se_home m x # fr) \<and>
    se_item m' = se_item m \<and> se_home m' = se_home m \<and> fe_item m (se_home m x) = x \<and> stk_same ss m m'"
proof -
  let ?f = "se_home m x"
  obtain st where st: "ss \<noteq> NULL" "sk_states m ss = Some st"
      "chain (se_link m) (fst (ss_top st)) (x # us)" and fl: "fl_rep m (ss_fs st) fr"
    and ready: "sk_ready m (ss_fs st)"
    and dist: "distinct ((x # us) @ map (fe_item m) fr)"
    and us: "\<And>y. y \<in> set (x # us) \<Longrightarrow> se_home m y \<noteq> NULL \<and> (\<exists>f. fl_elems m (se_home m y) = Some f \<and> fe_data f = y)"
    and fr: "\<And>g. g \<in> set fr \<Longrightarrow> fe_item m g \<noteq> NULL \<and> sk_elems m (fe_item m g) \<noteq> None"
    using inv unfolding stk_inv_def by blast
  from st obtain e where e: "sk_elems m x = Some e" "x \<noteq> NULL" "fst (ss_top st) = x"
      "chain (se_link m) (fst (se_next e)) us"
    by (auto simp: se_link_def split: option.splits)
  obtain g where g: "?f \<noteq> NULL" "fl_elems m ?f = Some g" "fe_data g = x" using us [of x] by auto
  have fh: "se_fe e = ?f" using e(1) by (simp add: se_home_def)
  have fnew: "?f \<notin> set fr" using dist g by (force simp: fe_item_def)
  obtain fs where fs: "ss_fs st \<noteq> NULL" "fl_states m (ss_fs st) = Some fs"
    "chain (fe_link m) (fst (fs_top fs)) fr" using fl by (rule fl_repE)
  let ?m1 = "set_ss ss (st\<lparr>ss_top := se_next e\<rparr>) m"
  let ?c = "fs_aba_counter fs + 1"
  let ?m2 = "set_fs (ss_fs st) (fs\<lparr>fs_aba_counter := ?c, fs_top := (?f, ?c)\<rparr>)
               (set_fe ?f (g\<lparr>fe_next := fs_top fs\<rparr>) ?m1)"
  have "freelist_push (ss_fs st) ?f ?m1 = Ok ?m2"
    using fs g by (simp add: freelist_push_eq)
  then have pop: "stack_pop ss m = Ok (1, Some (se_item m x), ?m2)"
    using st e stack_pop_loop_eq [OF st(1,2) e(3,2,1)]
    by (simp add: stack_pop_def fh se_item_def)
  have items: "fe_item ?m2 = fe_item m" using g by (auto simp: fe_item_def fun_eq_iff)
  have home: "se_home ?m2 = se_home m" and item: "se_item ?m2 = se_item m"
    by (simp_all add: se_home_def se_item_def fun_eq_iff)
  have "fl_rep ?m2 (ss_fs st) (?f # fr)"
    using fs fnew g(1) by (simp add: fl_rep_def)
  moreover have "sk_ready ?m2 (ss_fs st)" using ready fs(2) by (auto simp: sk_ready_def)
  moreover have fx: "fe_item m ?f = x" using g by (simp add: fe_item_def)
  moreover have "\<exists>h. fl_elems ?m2 (se_home m y) = Some h \<and> fe_data h = y" if "y \<in> set us" for y
    using us [of y] that g by auto
  ultimately have "stk_inv ?m2 ss us (?f # fr)"
    unfolding stk_inv_def items home
    using st(1,2) e dist us fr by auto
  moreover have "stk_same ss m ?m2"
    unfolding stk_same_def items using st(2) by (simp add: sk_fs_def)
  ultimately show ?thesis using pop home item fx by (intro exI [of _ ?m2] conjI)
qed

lemma stack_pop_none:
  assumes inv: "stk_inv m ss [] fr"
  shows "stack_pop ss m = Ok (0, None, m)"
  using inv by (auto simp: stk_inv_def intro: stack_pop_empty)

section \<open>The stack's elements as backing of its freelist\<close>

lemma stk_more_eq:
  assumes "fl_mem.more m' = fl_mem.more m"
  shows "sk_states m' = sk_states m" "sk_elems m' = sk_elems m"
  using assms by (cases m, cases m', simp)+

lemma stk_c_more_eq:
  assumes "c_mem.more m' = c_mem.more m"
  shows "sk_states m' = sk_states m" "sk_elems m' = sk_elems m"
    "fl_states m' = fl_states m" "fl_elems m' = fl_elems m"
  using assms by (cases m, cases m', simp)+

lemma allocated_stk [simp]:
  "allocated (m\<lparr>sk_elems := es\<rparr>) = allocated m" "heap_ok (m\<lparr>sk_elems := es\<rparr>) = heap_ok m"
  "allocated (m\<lparr>sk_states := ss\<rparr>) = allocated m" "heap_ok (m\<lparr>sk_states := ss\<rparr>) = heap_ok m"
  by (auto simp: allocated_def heap_ok_def fun_eq_iff)

lemma stack_init_law:
  fixes m :: "'a stk_mem_scheme"
  assumes "heap_ok m" "enough_mem (Suc k) m"
  shows "\<exists>x v m'. stack_icall STACK_INIT NULL m = Ok (1, x, m') \<and> x \<noteq> NULL \<and> \<not> allocated m x \<and>
    (\<forall>r. allocated m' r \<longleftrightarrow> allocated m r \<or> r = x) \<and> heap_ok m' \<and> enough_mem k m' \<and>
    fl_states m' = fl_states m \<and> fl_elems m' = fl_elems m \<and>
    sk_elems m' = (sk_elems m)(x \<mapsto> v) \<and> sk_states m' = sk_states m"
proof -
  obtain x m1 where x: "aligned_malloc 32 LF_ALIGN_DOUBLE_POINTER m = (x, m1)" "fresh_block x m m1"
    "heap_ok m1" "enough_mem k m1"
    using aligned_malloc_enough [OF assms(1) _ assms(2), where al = LF_ALIGN_DOUBLE_POINTER and sz = 32] by auto
  define e where "e = \<lparr>se_next = (m_junk m x, m_junk m (x + 8)), se_fe = m_junk m (x + 16),
      se_data = m_junk m (x + 24)\<rparr>"
  have fresh: "x \<noteq> NULL" "\<not> allocated m x" "\<forall>r. allocated m1 r \<longleftrightarrow> allocated m r \<or> r = x"
    and more: "c_mem.more m1 = c_mem.more m" using x(2) by (auto simp: fresh_block_def)
  note eqs = stk_c_more_eq [OF more]
  have "stack_icall STACK_INIT NULL m = Ok (1, x, set_se x e m1)"
    using x(1) fresh(1) by (simp add: stack_icall_def stack_internal_freelist_init_function_def e_def)
  then show ?thesis
    using fresh x(3,4) eqs by (intro exI [of _ x] exI [of _ e] exI [of _ "set_se x e m1"]) auto
qed

lemma free_se_allocated:
  fixes m :: "'a stk_mem_scheme"
  assumes "heap_ok m" "allocated m x"
  shows "\<exists>m'. free_se x m = Ok m' \<and> heap_ok m' \<and>
    (\<forall>r. allocated m' r \<longleftrightarrow> allocated m r \<and> r \<noteq> x) \<and>
    fl_states m' = fl_states m \<and> fl_elems m' = fl_elems m \<and>
    sk_elems m' = (sk_elems m)(x := None) \<and> sk_states m' = sk_states m"
proof -
  obtain m1 where m1: "aligned_free x m = Ok m1" "heap_ok m1"
    "\<forall>r. allocated m1 r \<longleftrightarrow> allocated m r \<and> r \<noteq> x" and more: "c_mem.more m1 = c_mem.more m"
    using aligned_free_allocated [OF assms] by auto
  note eqs = stk_c_more_eq [OF more]
  show ?thesis
    using m1 eqs
    by (intro exI [of _ "m1\<lparr>sk_elems := (sk_elems m1)(x := None)\<rparr>"]) (auto simp: free_se_def)
qed

lemma free_ss_allocated:
  fixes m :: "'a stk_mem_scheme"
  assumes "heap_ok m" "allocated m x"
  shows "\<exists>m'. free_ss x m = Ok m' \<and> heap_ok m' \<and>
    (\<forall>r. allocated m' r \<longleftrightarrow> allocated m r \<and> r \<noteq> x) \<and> sk_states m' = (sk_states m)(x := None)"
proof -
  obtain m1 where m1: "aligned_free x m = Ok m1" "heap_ok m1"
    "\<forall>r. allocated m1 r \<longleftrightarrow> allocated m r \<and> r \<noteq> x" and more: "c_mem.more m1 = c_mem.more m"
    using aligned_free_allocated [OF assms] by auto
  note eqs = stk_c_more_eq [OF more]
  show ?thesis
    using m1 eqs
    by (intro exI [of _ "m1\<lparr>sk_states := (sk_states m1)(x := None)\<rparr>"]) (auto simp: free_ss_def)
qed

interpretation stk_backed: backed_freelist stack_icall stack_dcall STACK_INIT STACK_FREE
  sk_elems sk_states
proof
  show "STACK_INIT \<noteq> NULL" "STACK_FREE \<noteq> NULL" by (simp_all add: STACK_INIT_def STACK_FREE_def)
next
  fix m m' :: "'a stk_mem_scheme"
  assume "fl_mem.more m' = fl_mem.more m"
  from stk_more_eq [OF this]
  show "sk_elems m' = sk_elems m \<and> sk_states m' = sk_states m"
    by simp
next
  fix m :: "'a stk_mem_scheme" and k
  assume "heap_ok m" "enough_mem (Suc k) m"
  then show "\<exists>x v m'. stack_icall STACK_INIT NULL m = Ok (1, x, m') \<and> x \<noteq> NULL \<and> \<not> allocated m x \<and>
    (\<forall>r. allocated m' r \<longleftrightarrow> allocated m r \<or> r = x) \<and> heap_ok m' \<and> enough_mem k m' \<and>
    fl_states m' = fl_states m \<and> fl_elems m' = fl_elems m \<and>
    sk_elems m' = (sk_elems m)(x \<mapsto> v) \<and> sk_states m' = sk_states m"
    by (rule stack_init_law)
next
  fix m :: "'a stk_mem_scheme" and x
  assume *: "heap_ok m" "allocated m x"
  have "stack_dcall STACK_FREE x NULL m = free_se x m"
    using allocated_nonnull [OF *(2)]
    by (simp add: stack_dcall_def stack_internal_freelist_delete_function_def)
  then show "\<exists>m'. stack_dcall STACK_FREE x NULL m = Ok m' \<and> heap_ok m' \<and>
    (\<forall>r. allocated m' r \<longleftrightarrow> allocated m r \<and> r \<noteq> x) \<and>
    fl_states m' = fl_states m \<and> fl_elems m' = fl_elems m \<and>
    sk_elems m' = (sk_elems m)(x := None) \<and> sk_states m' = sk_states m"
    using free_se_allocated [OF *] by simp
qed

section \<open>Life cycle\<close>

text \<open>All blocks of a stack: its state, its freelist's state, the freelist elements, the items.\<close>

definition stk_blocks :: "'a stk_mem_scheme \<Rightarrow> addr \<Rightarrow> addr list \<Rightarrow> addr list \<Rightarrow> addr list" where
  "stk_blocks m ss us fr =
     ss # sk_fs m ss # (map (se_home m) us @ fr) @ (us @ map (fe_item m) fr)"

definition stk_owned :: "'a stk_mem_scheme \<Rightarrow> addr \<Rightarrow> addr list \<Rightarrow> addr list \<Rightarrow> bool" where
  "stk_owned m ss us fr \<longleftrightarrow> stk_inv m ss us fr \<and> heap_ok m \<and> distinct (stk_blocks m ss us fr) \<and>
     (\<forall>q \<in> set (stk_blocks m ss us fr). allocated m q)"

lemma stk_inv_state: "stk_inv m ss us fr \<Longrightarrow> ss \<noteq> NULL \<and> (\<exists>st. sk_states m ss = Some st \<and> ss_fs st = sk_fs m ss)"
  by (auto simp: stk_inv_def sk_fs_def)

lemma stk_owned_same:
  assumes own: "stk_owned m ss us fr" and inv: "stk_inv m' ss us' fr'" and same: "stk_same ss m m'"
    and blocks: "mset (stk_blocks m' ss us' fr') = mset (stk_blocks m ss us fr)"
  shows "stk_owned m' ss us' fr'"
  using own inv same mset_eq_setD [OF blocks] mset_eq_imp_distinct_iff [OF blocks]
  by (simp add: stk_owned_def stk_same_def)

lemma stack_push_owned:
  assumes own: "stk_owned m ss us (f # fr)"
  obtains m' where "stack_push ss d m = Ok (1, m')" "stk_owned m' ss (fe_item m f # us) fr"
    "map (se_item m') (fe_item m f # us) = d # map (se_item m) us" "stk_same ss m m'"
    "mset (stk_blocks m' ss (fe_item m f # us) fr) = mset (stk_blocks m ss us (f # fr))"
proof -
  have inv: "stk_inv m ss us (f # fr)" using own by (simp add: stk_owned_def)
  obtain m' where m': "stack_push ss d m = Ok (1, m')" "stk_inv m' ss (fe_item m f # us) fr"
    "map (se_item m') (fe_item m f # us) = d # map (se_item m) us"
    "se_home m' = (se_home m)(fe_item m f := f)" "stk_same ss m m'"
    using stack_push_inv [OF inv, of d] by (elim exE conjE) (rule that)
  have "fe_item m f \<notin> set us" using inv by (auto simp: stk_inv_def)
  then have "mset (map (se_home m') us) = mset (map (se_home m) us)"
    unfolding m'(4) by (metis (mono_tags, lifting) fun_upd_other map_eq_conv)
  moreover have "se_home m' (fe_item m f) = f" unfolding m'(4) by simp
  ultimately have bl: "mset (stk_blocks m' ss (fe_item m f # us) fr) = mset (stk_blocks m ss us (f # fr))"
    using m'(5) by (simp add: stk_blocks_def stk_same_def)
  show ?thesis
    using that [OF m'(1) stk_owned_same [OF own m'(2,5) bl] m'(3,5) bl] .
qed

lemma stack_pop_owned:
  assumes own: "stk_owned m ss (x # us) fr"
  obtains m' where "stack_pop ss m = Ok (1, Some (se_item m x), m')" "stk_owned m' ss us (se_home m x # fr)"
    "se_item m' = se_item m" "stk_same ss m m'"
    "mset (stk_blocks m' ss us (se_home m x # fr)) = mset (stk_blocks m ss (x # us) fr)"
proof -
  have inv: "stk_inv m ss (x # us) fr" using own by (simp add: stk_owned_def)
  obtain m' where m': "stack_pop ss m = Ok (1, Some (se_item m x), m')" "stk_inv m' ss us (se_home m x # fr)"
    "se_item m' = se_item m" "se_home m' = se_home m" "fe_item m (se_home m x) = x" "stk_same ss m m'"
    using stack_pop_inv [OF inv] by (elim exE conjE) (rule that)
  then have bl: "mset (stk_blocks m' ss us (se_home m x # fr)) = mset (stk_blocks m ss (x # us) fr)"
    by (simp add: stk_blocks_def stk_same_def)
  show ?thesis
    using that [OF m'(1) stk_owned_same [OF own m'(2,6) bl] m'(3,6) bl] .
qed

lemma stack_new_owned:
  fixes m :: "'a stk_mem_scheme"
  assumes ok: "heap_ok m" and en: "enough_mem (Suc (Suc (2 * unat n + k))) m"
  obtains ss fr m' where "stack_new n m = Ok (1, ss, m')" "stk_owned m' ss [] fr" "length fr = unat n"
    "enough_mem k m'" "\<forall>q. allocated m' q \<longleftrightarrow> allocated m q \<or> q \<in> set (stk_blocks m' ss [] fr)"
    "\<forall>q \<in> set (stk_blocks m' ss [] fr). \<not> allocated m q"
proof -
  obtain ss m1 where al: "aligned_malloc 32 LF_ALIGN_DOUBLE_POINTER m = (ss, m1)" "fresh_block ss m m1"
    "heap_ok m1" "enough_mem (Suc (2 * unat n + k)) m1"
    using aligned_malloc_enough [OF ok _ en, where al = LF_ALIGN_DOUBLE_POINTER and sz = 32] by auto
  have ss: "ss \<noteq> NULL" "\<not> allocated m ss" "\<forall>r. allocated m1 r \<longleftrightarrow> allocated m r \<or> r = ss"
    using al(2) by (auto simp: fresh_block_def)
  define st where "st = \<lparr>ss_top = (m_junk m ss, m_junk m (ss + 8)), ss_aba_counter = m_junk m (ss + 16),
      ss_fs = m_junk m (ss + 24)\<rparr>"
  let ?m2 = "set_ss ss st m1"
  have "heap_ok ?m2" "enough_mem (Suc (2 * unat n + k)) ?m2" using al by simp_all
  from stk_backed.freelist_new_backed [OF this] obtain fs fr m3 where
    new: "freelist_new stack_icall n STACK_INIT NULL ?m2 = Ok (1, fs, m3)" "length fr = unat n"
      "enough_mem k m3" and b: "stk_backed.backed ?m2 m3 fs fr"
    by (elim exE conjE) (rule that)
  have states: "sk_states m3 = (sk_states m1)(ss \<mapsto> st)"
    using b unfolding stk_backed.backed_def by simp
  have bl: "distinct (fl_blocks m3 fs fr)" "NULL \<notin> set (fl_blocks m3 fs fr)"
    "\<forall>q. allocated m3 q \<longleftrightarrow> allocated ?m2 q \<or> q \<in> set (fl_blocks m3 fs fr)"
    "\<forall>q \<in> set (fl_blocks m3 fs fr). \<not> allocated ?m2 q" "heap_ok m3" "fl_rep m3 fs fr"
    "\<forall>f \<in> set fr. sk_elems m3 (fe_item m3 f) \<noteq> None" "sk_ready m3 fs"
    using b unfolding stk_backed.backed_def by (simp_all add: sk_ready_def, auto)
  let ?m4 = "set_ss ss (st\<lparr>ss_fs := fs, ss_top := (NULL, 0), ss_aba_counter := 0\<rparr>) m3"
  have fs: "fs \<noteq> NULL" using bl(2) by (simp add: fl_blocks_def)
  have "set_ss ss a (set_ss ss b' m3) = set_ss ss a m3" for a b' by (simp add: set_ss_def)
  then have run: "stack_new n m = Ok (1, ss, ?m4)"
    using al(1) ss(1) new(1) fs states by (simp add: stack_new_def st_def Let_def)
  have items: "fe_item ?m4 = fe_item m3" by (rule fe_item_cong) simp
  have blocks: "stk_blocks ?m4 ss [] fr = ss # fl_blocks m3 fs fr"
    unfolding stk_blocks_def items by (simp add: sk_fs_def fl_blocks_def)
  have inv: "stk_inv ?m4 ss [] fr"
    unfolding stk_inv_def items
    using ss(1) bl by (auto simp: fl_blocks_def sk_ready_def)
  have ssn: "ss \<notin> set (fl_blocks m3 fs fr)" using bl(4) ss(3) by auto
  have "stk_owned ?m4 ss [] fr"
    unfolding stk_owned_def blocks using inv bl ssn ss(3) by auto
  moreover have "\<forall>q. allocated ?m4 q \<longleftrightarrow> allocated m q \<or> q \<in> set (stk_blocks ?m4 ss [] fr)"
    "\<forall>q \<in> set (stk_blocks ?m4 ss [] fr). \<not> allocated m q"
    unfolding blocks using bl(3,4) ss by auto
  ultimately show ?thesis using that [OF run _ new(2)] new(3) by simp
qed

text \<open>
  Draining: the client's function is called on the contents, in order. It may change the
  client's own memory (\<open>stk_mem.more\<close>) only.
\<close>

lemma stk_more_update:
  "stk_owned (stk_mem.more_update h m) ss us fr = stk_owned m ss us fr"
  "stk_blocks (stk_mem.more_update h m) ss us fr = stk_blocks m ss us fr"
  "allocated (stk_mem.more_update h m) = allocated m"
  "se_item (stk_mem.more_update h m) = se_item m"
proof -
  have *: "se_link (stk_mem.more_update h m) = se_link m" "fe_link (stk_mem.more_update h m) = fe_link m"
    "se_item (stk_mem.more_update h m) = se_item m" "se_home (stk_mem.more_update h m) = se_home m"
    "fe_item (stk_mem.more_update h m) = fe_item m" "sk_fs (stk_mem.more_update h m) ss = sk_fs m ss"
    "allocated (stk_mem.more_update h m) = allocated m" "heap_ok (stk_mem.more_update h m) = heap_ok m"
    by (auto simp: se_link_def fe_link_def se_item_def se_home_def fe_item_def sk_fs_def
        allocated_def heap_ok_def fun_eq_iff)
  show "stk_blocks (stk_mem.more_update h m) ss us fr = stk_blocks m ss us fr"
    by (simp add: stk_blocks_def *)
  then show "stk_owned (stk_mem.more_update h m) ss us fr = stk_owned m ss us fr"
    unfolding stk_owned_def * stk_inv_def by (simp add: sk_ready_def fl_rep_def * split: option.split)
qed (auto simp: allocated_def se_item_def fun_eq_iff)

lemma stack_drain_owned:
  fixes m :: "'a stk_mem_scheme"
  assumes call: "\<And>d m. (if f \<noteq> NULL then dcall f d state m else Ok m) = Ok (stk_mem.more_update (g d) m)"
    and own: "stk_owned m ss us fr"
  shows "\<exists>fr' m'. cloop (stack_drain_body dcall ss f state) m = Ok m' \<and> stk_owned m' ss [] fr' \<and>
    length fr' = length us + length fr \<and> allocated m' = allocated m \<and>
    mset (stk_blocks m' ss [] fr') = mset (stk_blocks m ss us fr) \<and>
    stk_mem.more m' = fold g (map (se_item m) us) (stk_mem.more m)"
  using own
proof (induction us arbitrary: m fr)
  case Nil
  then have "stk_inv m ss [] fr" by (simp add: stk_owned_def)
  then have "stack_drain_body dcall ss f state m = Ok (Done m)"
    by (simp add: stack_drain_body_def stack_pop_none)
  with Nil show ?case by (intro exI [of _ fr] exI [of _ m]) simp
next
  case (Cons x us)
  obtain m1 where m1: "stack_pop ss m = Ok (1, Some (se_item m x), m1)"
    "stk_owned m1 ss us (se_home m x # fr)" "se_item m1 = se_item m" "stk_same ss m m1"
    "mset (stk_blocks m1 ss us (se_home m x # fr)) = mset (stk_blocks m ss (x # us) fr)"
    using stack_pop_owned [OF Cons.prems] .
  let ?m2 = "stk_mem.more_update (g (se_item m x)) m1"
  have "stack_drain_body dcall ss f state m = Ok (Again ?m2)"
    using m1(1) call [of "se_item m x" m1] by (simp add: stack_drain_body_def)
  then have step: "cloop (stack_drain_body dcall ss f state) m = cloop (stack_drain_body dcall ss f state) ?m2"
    by (simp add: cloop_Again)
  have "stk_owned ?m2 ss us (se_home m x # fr)" using m1(2) by (simp add: stk_more_update)
  from Cons.IH [OF this] obtain fr' m' where
    m': "cloop (stack_drain_body dcall ss f state) ?m2 = Ok m'" "stk_owned m' ss [] fr'"
    "length fr' = length us + length (se_home m x # fr)" "allocated m' = allocated ?m2"
    "mset (stk_blocks m' ss [] fr') = mset (stk_blocks ?m2 ss us (se_home m x # fr))"
    "stk_mem.more m' = fold g (map (se_item ?m2) us) (stk_mem.more ?m2)"
    by (elim exE conjE) (rule that)
  show ?case
  proof (intro exI conjI)
    show "cloop (stack_drain_body dcall ss f state) m = Ok m'" using step m'(1) by simp
    show "stk_owned m' ss [] fr'" by (rule m'(2))
    show "stk_mem.more m' = fold g (map (se_item m) (x # us)) (stk_mem.more m)"
      using m'(6) m1(3,4) by (simp add: stk_more_update stk_same_def)
  qed (use m'(3-5) m1(4,5) in \<open>simp_all add: stk_more_update stk_same_def\<close>)
qed

lemma stack_delete_owned:
  fixes m :: "'a stk_mem_scheme"
  assumes call: "\<And>d m. (if f \<noteq> NULL then dcall f d state m else Ok m) = Ok (stk_mem.more_update (g d) m)"
    and own: "stk_owned m ss us fr"
  shows "\<exists>m'. stack_delete dcall ss f state m = Ok m' \<and>
    (\<forall>q. allocated m' q \<longleftrightarrow> allocated m q \<and> q \<notin> set (stk_blocks m ss us fr))"
proof -
  obtain fr' m1 where m1: "cloop (stack_drain_body dcall ss f state) m = Ok m1" "stk_owned m1 ss [] fr'"
    "allocated m1 = allocated m" "mset (stk_blocks m1 ss [] fr') = mset (stk_blocks m ss us fr)"
    using stack_drain_owned [where dcall = dcall and f = f and g = g and state = state, OF call own] by (elim exE conjE) (rule that)
  obtain st where st: "ss \<noteq> NULL" "sk_states m1 ss = Some st" "ss_fs st = sk_fs m1 ss"
    using stk_inv_state m1(2) unfolding stk_owned_def by metis
  have bl: "stk_blocks m1 ss [] fr' = ss # fl_blocks m1 (sk_fs m1 ss) fr'"
    by (simp add: stk_blocks_def fl_blocks_def)
  have "fl_rep m1 (sk_fs m1 ss) fr'"
    using m1(2) st by (auto simp: stk_owned_def stk_inv_def)
  then have "stk_backed.disposable m1 (sk_fs m1 ss) fr'"
    using m1(2) unfolding stk_backed.disposable_def stk_owned_def bl by simp
  from stk_backed.freelist_delete_backed [OF this] obtain m2 where
    m2: "freelist_delete stack_dcall (sk_fs m1 ss) STACK_FREE NULL m1 = Ok m2" "heap_ok m2"
      "\<forall>r. allocated m2 r \<longleftrightarrow> allocated m1 r \<and> r \<notin> set (fl_blocks m1 (sk_fs m1 ss) fr')"
    by (elim exE conjE) (rule that)
  have "allocated m2 ss" using m1(2) m2(3) unfolding stk_owned_def bl by simp
  from free_ss_allocated [OF m2(2) this] obtain m3 where
    m3: "free_ss ss m2 = Ok m3" "\<forall>r. allocated m3 r \<longleftrightarrow> allocated m2 r \<and> r \<noteq> ss"
    by (elim exE conjE) (rule that)
  have "stack_delete dcall ss f state m = Ok m3"
    using m1(1) st m2(1) m3(1) by (simp add: stack_delete_def)
  moreover have "allocated m3 q \<longleftrightarrow> allocated m q \<and> q \<notin> set (stk_blocks m ss us fr)" for q
    using m3(2) m2(3) m1(3) mset_eq_setD [OF m1(4)] unfolding bl by auto
  ultimately show ?thesis by auto
qed

section \<open>The stack as a bounded container\<close>

text \<open>A stack with the blocks \<open>B\<close>, in a heap with the allocations \<open>A\<close>.\<close>

definition stk_live :: "addr \<Rightarrow> addr set \<Rightarrow> (addr \<Rightarrow> bool) \<Rightarrow> 'a stk_mem_scheme \<Rightarrow> addr list \<Rightarrow> nat \<Rightarrow> bool" where
  "stk_live ss B A m xs k \<longleftrightarrow> (\<exists>us fr. stk_owned m ss us fr \<and> map (se_item m) us = xs \<and> length fr = k \<and>
     set (stk_blocks m ss us fr) = B \<and> allocated m = A)"

lemma stk_liveI:
  "stk_owned m ss us fr \<Longrightarrow> map (se_item m) us = xs \<Longrightarrow> length fr = k \<Longrightarrow>
     set (stk_blocks m ss us fr) = B \<Longrightarrow> allocated m = A \<Longrightarrow> stk_live ss B A m xs k"
  unfolding stk_live_def by (intro exI [of _ us] exI [of _ fr] conjI)

lemma stk_liveE:
  assumes "stk_live ss B A m xs k"
  obtains us fr where "stk_owned m ss us fr" "map (se_item m) us = xs" "length fr = k"
    "set (stk_blocks m ss us fr) = B" "allocated m = A"
  using assms unfolding stk_live_def by (elim exE conjE) (rule that)

interpretation stk: bounded_container "stk_live ss B A" "(#)" None "stack_push ss" "stack_pop ss" for ss B A
proof
  fix m :: "'a stk_mem_scheme" and xs k d
  assume "stk_live ss B A m xs (Suc k)"
  then obtain us fs where us: "stk_owned m ss us fs" "map (se_item m) us = xs" "length fs = Suc k"
    "set (stk_blocks m ss us fs) = B" "allocated m = A" by (rule stk_liveE)
  then obtain f fr where fs: "fs = f # fr" "length fr = k" by (cases fs) auto
  obtain m' where m': "stack_push ss d m = Ok (1, m')" "stk_owned m' ss (fe_item m f # us) fr"
    "map (se_item m') (fe_item m f # us) = d # map (se_item m) us" "stk_same ss m m'"
    "mset (stk_blocks m' ss (fe_item m f # us) fr) = mset (stk_blocks m ss us (f # fr))"
    using stack_push_owned [OF us(1) [unfolded fs(1)]] .
  have "stk_live ss B A m' (d # xs) k"
    using m' us fs mset_eq_setD [OF m'(5)]
    by (intro stk_liveI [where us = "fe_item m f # us" and fr = fr]) (simp_all add: stk_same_def)
  with m'(1) show "\<exists>m'. stack_push ss d m = Ok (1, m') \<and> stk_live ss B A m' (d # xs) k"
    by (intro exI [of _ m'] conjI)
next
  fix m :: "'a stk_mem_scheme" and xs d
  assume live: "stk_live ss B A m xs 0"
  then obtain us where "stk_owned m ss us []" by (auto elim: stk_liveE)
  then have "stk_inv m ss us []" by (simp add: stk_owned_def)
  then have "stack_push ss d m = Ok (0, m)" by (rule stack_push_full)
  with live show "\<exists>m'. stack_push ss d m = Ok (0, m') \<and> stk_live ss B A m' xs 0"
    by (intro exI [of _ m] conjI)
next
  fix m :: "'a stk_mem_scheme" and x xs k
  assume "stk_live ss B A m (x # xs) k"
  then obtain vs fr where vs: "stk_owned m ss vs fr" "map (se_item m) vs = x # xs" "length fr = k"
    "set (stk_blocks m ss vs fr) = B" "allocated m = A" by (rule stk_liveE)
  then obtain u us where us: "vs = u # us" "se_item m u = x" "map (se_item m) us = xs" by (cases vs) auto
  obtain m' where m': "stack_pop ss m = Ok (1, Some (se_item m u), m')" "stk_owned m' ss us (se_home m u # fr)"
    "se_item m' = se_item m" "stk_same ss m m'"
    "mset (stk_blocks m' ss us (se_home m u # fr)) = mset (stk_blocks m ss (u # us) fr)"
    using stack_pop_owned [OF vs(1) [unfolded us(1)]] .
  have "stk_live ss B A m' xs (Suc k)"
    using m' vs us mset_eq_setD [OF m'(5)]
    by (intro stk_liveI [where us = us and fr = "se_home m u # fr"]) (simp_all add: stk_same_def)
  with m'(1) us(2) show "\<exists>m'. stack_pop ss m = Ok (1, Some x, m') \<and> stk_live ss B A m' xs (Suc k)"
    by (intro exI [of _ m'] conjI) simp_all
next
  fix m :: "'a stk_mem_scheme" and k
  assume live: "stk_live ss B A m [] k"
  then obtain fr where "stk_owned m ss [] fr" by (auto elim: stk_liveE)
  then have "stk_inv m ss [] fr" by (simp add: stk_owned_def)
  then have "stack_pop ss m = Ok (0, None, m)" by (rule stack_pop_none)
  with live show "\<exists>m'. stack_pop ss m = Ok (0, None, m') \<and> stk_live ss B A m' [] k"
    by (intro exI [of _ m] conjI)
qed

section \<open>A concrete stack\<close>

definition stk_demo :: stk_mem where
  "stk_demo = \<lparr>m_script = [16, 112, 208, 304, 400, 496], m_live = [], m_hdr = (\<lambda>p. None),
     m_junk = (\<lambda>p. 255), fl_states = (\<lambda>p. None), fl_elems = (\<lambda>p. None),
     sk_states = (\<lambda>p. None), sk_elems = (\<lambda>p. None)\<rparr>"

lemma stk_demo_heap: "heap_ok stk_demo" "enough_mem 6 stk_demo"
  by (simp_all add: heap_ok_def stk_demo_def good_block_def)

text \<open>A stack with two words in it, and a client that keeps a log.\<close>

definition stk_demo_full :: "addr list stk_mem_scheme" where
  "stk_demo_full = \<lparr>m_script = [592, 688], m_live = [496, 400, 304, 208, 112, 16],
     m_hdr = [24 \<mapsto> 16, 120 \<mapsto> 112, 216 \<mapsto> 208, 312 \<mapsto> 304, 408 \<mapsto> 400, 504 \<mapsto> 496],
     m_junk = (\<lambda>p. 255),
     fl_states = [128 \<mapsto> \<lparr>fs_top = (NULL, 0), fs_init_func = STACK_INIT, fs_state = NULL,
                          fs_aba_counter = 2, fs_element_count = 2\<rparr>],
     fl_elems = [224 \<mapsto> \<lparr>fe_next = (NULL, 0), fe_data = 320\<rparr>,
                 416 \<mapsto> \<lparr>fe_next = (224, 1), fe_data = 512\<rparr>],
     sk_states = [32 \<mapsto> \<lparr>ss_top = (512, 2), ss_aba_counter = 2, ss_fs = 128\<rparr>],
     sk_elems = [320 \<mapsto> \<lparr>se_next = (NULL, 0), se_fe = 224, se_data = 7\<rparr>,
                 512 \<mapsto> \<lparr>se_next = (320, 1), se_fe = 416, se_data = 8\<rparr>], \<dots> = []\<rparr>"

lemma stk_demo_full_owned: "stk_owned stk_demo_full 32 [512, 320] []"
proof -
  have "sk_fs stk_demo_full 32 = 128" "se_home stk_demo_full 512 = 416" "se_home stk_demo_full 320 = 224"
    "stk_mem.more stk_demo_full = []"
    by (simp_all add: sk_fs_def se_home_def stk_demo_full_def)
  then show ?thesis
    by (simp add: stk_owned_def stk_blocks_def stk_inv_def)
      (simp add: stk_demo_full_def heap_ok_def allocated_def good_block_def fl_rep_def sk_ready_def se_link_def)
qed

section \<open>Properties\<close>

text \<open>
  C8. The stack is a bounded last-in-first-out container. \<open>stack_new\<close> of \<open>n\<close> elements (in a
  heap that can satisfy the allocations) gives an empty stack on which every sequence of
  \<open>stack_push\<close> and \<open>stack_pop\<close> returns what it returns on a list with \<open>n\<close> free places: a
  push fails (0) exactly when \<open>n\<close> words are in the stack, a pop fails exactly when it is
  empty, and otherwise pops the word pushed last. Whatever the sequence was, \<open>stack_delete\<close> then
  frees every block that the stack has allocated and no other.
\<close>

theorem stack_sequences:
  assumes "heap_ok m" and "enough_mem (2 + 2 * unat n) m"
    and "\<And>d m. (if f \<noteq> NULL then dcall f d state m else Ok m) = Ok (stk_mem.more_update (g d) m)"
  shows "\<exists>ss m1. stack_new n m = Ok (1, ss, m1) \<and>
    (\<forall>ops. \<exists>m2 m3. container_run (stack_push ss) (stack_pop ss) ops m1 =
         Ok (fst (container_spec (#) None ops [] (unat n)), m2) \<and>
       stack_delete dcall ss f state m2 = Ok m3 \<and> (\<forall>q. allocated m3 q = allocated m q))"
proof -
  have "enough_mem (Suc (Suc (2 * unat n + 0))) m" using assms(2) by simp
  from stack_new_owned [OF assms(1) this] obtain ss fr m1 where
    new: "stack_new n m = Ok (1, ss, m1)" "stk_owned m1 ss [] fr" "length fr = unat n"
    and al: "\<forall>q. allocated m1 q \<longleftrightarrow> allocated m q \<or> q \<in> set (stk_blocks m1 ss [] fr)"
      "\<forall>q \<in> set (stk_blocks m1 ss [] fr). \<not> allocated m q" .
  let ?B = "set (stk_blocks m1 ss [] fr)"
  have live: "stk_live ss ?B (allocated m1) m1 [] (unat n)"
    using new by (intro stk_liveI) simp_all
  have "\<exists>m2 m3. container_run (stack_push ss) (stack_pop ss) ops m1 =
         Ok (fst (container_spec (#) None ops [] (unat n)), m2) \<and>
       stack_delete dcall ss f state m2 = Ok m3 \<and> (\<forall>q. allocated m3 q = allocated m q)" for ops
  proof -
    obtain rs ys j m2 where run: "container_spec (#) None ops [] (unat n) = (rs, ys, j)"
      "container_run (stack_push ss) (stack_pop ss) ops m1 = Ok (rs, m2)"
      and live2: "stk_live ss ?B (allocated m1) m2 ys j"
      using stk.container_run_refines [OF live, of ops] by (elim exE conjE) (rule that)
    obtain us2 fr2 where own: "stk_owned m2 ss us2 fr2" "set (stk_blocks m2 ss us2 fr2) = ?B"
      "allocated m2 = allocated m1" using live2 by (rule stk_liveE)
    obtain m3 where "stack_delete dcall ss f state m2 = Ok m3"
      "\<forall>q. allocated m3 q \<longleftrightarrow> allocated m2 q \<and> q \<notin> set (stk_blocks m2 ss us2 fr2)"
      using stack_delete_owned [where dcall = dcall and f = f and g = g and state = state, OF assms(3) own(1)]
      by (elim exE conjE) (rule that)
    then show ?thesis using run own(2,3) al by auto
  qed
  with new(1) show ?thesis by auto
qed

theorem stack_sequences_witness:
  "\<exists>ss m1. stack_new 2 stk_demo = Ok (1, ss, m1) \<and>
    (\<exists>m2 m3. container_run (stack_push ss) (stack_pop ss) [Put 7, Put 8, Put 9, Get, Get, Get] m1 =
         Ok ([(1, None), (1, None), (0, None), (1, Some 8), (1, Some 7), (0, None)], m2) \<and>
       stack_delete (\<lambda>f d st m. Ok m) ss NULL NULL m2 = Ok m3 \<and> (\<forall>q. allocated m3 q = allocated stk_demo q))"
proof -
  have "(if (NULL :: addr) \<noteq> NULL then Ok m else Ok m) = Ok (stk_mem.more_update ((\<lambda>d x. x) d) m)"
    for d :: addr and m :: stk_mem by simp
  from stack_sequences [where m = stk_demo and n = 2 and f = NULL and dcall = "\<lambda>f d st m. Ok m"
      and state = NULL and g = "\<lambda>d x. x", OF stk_demo_heap(1)] this
  obtain ss m1 where new: "stack_new 2 stk_demo = Ok (1, ss, m1)"
    and all: "\<forall>ops. \<exists>m2 m3. container_run (stack_push ss) (stack_pop ss) ops m1 =
         Ok (fst (container_spec (#) None ops [] 2), m2) \<and>
       stack_delete (\<lambda>f d st m. Ok m) ss NULL NULL m2 = Ok m3 \<and> (\<forall>q. allocated m3 q = allocated stk_demo q)"
    using stk_demo_heap(2) by auto
  show ?thesis
    using new spec [OF all, of "[Put 7, Put 8, Put 9, Get, Get, Get]"] by (simp add: numeral_2_eq_2)
qed

text \<open>
  C9. \<open>stack_clear\<close> calls the client's function once on every word of the stack, last pushed
  first, and leaves the stack empty with all its elements free. (The client's function may do
  what it likes in its own memory; here its effect there is \<open>g\<close>.)
\<close>

theorem stack_clear_order:
  fixes m :: "'a stk_mem_scheme"
  assumes "\<And>d m. (if f \<noteq> NULL then dcall f d state m else Ok m) = Ok (stk_mem.more_update (g d) m)"
    and "stk_owned m ss us fr"
  shows "\<exists>m' fr'. stack_clear dcall ss f state m = Ok m' \<and> stk_owned m' ss [] fr' \<and>
    length fr' = length us + length fr \<and>
    stk_mem.more m' = fold g (map (se_item m) us) (stk_mem.more m)"
proof -
  have "ss \<noteq> NULL" using assms(2) by (simp add: stk_owned_def stk_inv_def)
  moreover obtain fr' m' where "cloop (stack_drain_body dcall ss f state) m = Ok m'" "stk_owned m' ss [] fr'"
    "length fr' = length us + length fr" "stk_mem.more m' = fold g (map (se_item m) us) (stk_mem.more m)"
    using stack_drain_owned [where dcall = dcall and f = f and g = g and state = state, OF assms]
    by (elim exE conjE) (rule that)
  ultimately show ?thesis
    by (intro exI [of _ m'] exI [of _ fr']) (simp add: stack_clear_def)
qed

theorem stack_clear_order_witness:
  "\<exists>m' fr'. stack_clear (\<lambda>f d st m. Ok (stk_mem.more_update (\<lambda>l. l @ [d]) m)) 32 1 NULL stk_demo_full = Ok m' \<and>
     stk_owned m' 32 [] fr' \<and> length fr' = 2 \<and> stk_mem.more m' = [8, 7]"
proof -
  have "map (se_item stk_demo_full) [512, 320] = [8, 7]" "stk_mem.more stk_demo_full = []"
    by (simp_all add: se_item_def stk_demo_full_def)
  then show ?thesis
    using stack_clear_order [where f = 1 and dcall = "\<lambda>f d st m. Ok (stk_mem.more_update (\<lambda>l. l @ [d]) m)"
        and state = NULL and g = "\<lambda>d l. l @ [d]", OF _ stk_demo_full_owned]
    by (simp add: numeral_2_eq_2)
qed

text \<open>
  C10. Validation of a well-formed stack. The verdict on the stack itself is right: valid when
  no bounds are given, otherwise the comparison of the number of words with the bounds. The
  second verdict, on the freelist, is not: with bounds it should compare the number of free
  elements with the bounds derived from them, but the source overwrites that verdict with the
  one of a validation without bounds, so it is valid whatever the bounds were.
\<close>

theorem stack_validate_verdicts:
  assumes "stk_inv m ss us fr" and "list_heap (se_link m)" and "list_heap (fe_link m)"
  shows "stack_query ss STACK_QUERY_VALIDATE vi m =
    Ok (case vi of None \<Rightarrow> SValidity VALIDITY_VALID None
        | Some v \<Rightarrow> SValidity (bounds_verdict v (of_nat (length us)) VALIDITY_VALID) (Some VALIDITY_VALID))"
proof -
  obtain st fst' where st: "ss \<noteq> NULL" "sk_states m ss = Some st" "chain (se_link m) (fst (ss_top st)) us"
    and fl: "fl_rep m (ss_fs st) fr" "fl_states m (ss_fs st) = Some fst'"
    using assms(1) unfolding stk_inv_def fl_rep_def by (auto split: option.splits)
  have fs: "ss_fs st \<noteq> NULL" using fl(1) by (simp add: fl_rep_def)
  have fv: "freelist_query (ss_fs st) FREELIST_QUERY_VALIDATE None m = Ok (Validity VALIDITY_VALID)"
    using freelist_validate_chain [OF assms(3) fl(1), of None] fs by (simp add: freelist_query_def)
  have count: "freelist_query (ss_fs st) FREELIST_QUERY_ELEMENT_COUNT None m = Ok (Count (fs_element_count fst'))"
    using fl(2) fs by (simp add: freelist_query_def)
  have bound: "\<exists>v'. freelist_query (ss_fs st) FREELIST_QUERY_VALIDATE (Some v) m = Ok (Validity v')" for v
    using freelist_validate_chain [OF assms(3) fl(1), of "Some v"] fs by (simp add: freelist_query_def)
  have cyc: "find_cycle (se_link m) (fst (ss_top st)) = Ok (NULL, NULL)"
    by (rule find_cycle_chain [OF assms(2) st(3)])
  have "stack_internal_validate ss vi m = Ok (case vi of None \<Rightarrow> (VALIDITY_VALID, None)
      | Some v \<Rightarrow> (bounds_verdict v (of_nat (length us)) VALIDITY_VALID, Some VALIDITY_VALID))"
  proof (cases vi)
    case (Some v)
    obtain v' where "freelist_query (ss_fs st) FREELIST_QUERY_VALIDATE
        (Some \<lparr>min_element = fs_element_count fst' - max_element v,
               max_element = fs_element_count fst' - min_element v\<rparr>) m = Ok (Validity v')"
      using bound by blast
    then show ?thesis
      using Some st cyc fv count count_elements_chain [OF st(3)]
      by (simp add: stack_internal_validate_def cycle_verdict_def query_count_def query_validity_def Let_def)
  qed (use st cyc in \<open>simp add: stack_internal_validate_def cycle_verdict_def\<close>)
  then show ?thesis
    using st fv by (simp add: stack_query_def query_validity_def split: option.split)
qed

theorem stack_validate_verdicts_witness:
  "stack_query 32 STACK_QUERY_VALIDATE (Some \<lparr>min_element = 0, max_element = 1\<rparr>) stk_demo_full =
     Ok (SValidity VALIDITY_INVALID_ADDITIONAL_ELEMENTS (Some VALIDITY_VALID))"
proof -
  have inv: "stk_inv stk_demo_full 32 [512, 320] []" using stk_demo_full_owned by (simp add: stk_owned_def)
  have "se_link stk_demo_full = [320 \<mapsto> NULL, 512 \<mapsto> 320]" "fe_link stk_demo_full = [224 \<mapsto> NULL, 416 \<mapsto> 224]"
    by (auto simp: se_link_def fe_link_def stk_demo_full_def fun_eq_iff)
  then have "list_heap (se_link stk_demo_full)" "list_heap (fe_link stk_demo_full)"
    by (auto simp: list_heap_def)
  from stack_validate_verdicts [OF inv this, of "Some \<lparr>min_element = 0, max_element = 1\<rparr>"]
  show ?thesis by (simp add: bounds_verdict_def)
qed

text \<open>
  C11. \<open>stack_new\<close> does not survive a failed allocation. If \<open>malloc\<close> fails for the stack's
  state, it goes on with a NULL state, because it tests \<open>ss\<close>, the address of the caller's
  variable, where it means \<open>*ss\<close>. If \<open>malloc\<close> fails for the freelist's state, it frees the
  stack's state, sets \<open>*ss\<close> to NULL and then reads \<open>(*ss)->fs\<close>. Either way it dereferences NULL
  instead of returning 0.
\<close>

theorem stack_new_out_of_memory:
  fixes m :: "'a stk_mem_scheme"
  assumes "sk_states m NULL = None" and "heap_ok m"
    and "m_script m = [] \<or> (\<exists>p. m_script m = [p] \<and> good_block p \<and> p \<notin> set (m_live m))"
  shows "stack_new n m = Fault BadDeref"
  using assms(3)
proof
  assume "m_script m = []"
  then show ?thesis
    using assms(1) by (simp add: stack_new_def aligned_malloc_fails)
next
  assume "\<exists>p. m_script m = [p] \<and> good_block p \<and> p \<notin> set (m_live m)"
  then have en: "enough_mem (Suc 0) m" and one: "length (m_script m) = 1" by auto
  obtain ss m1 where al: "aligned_malloc 32 LF_ALIGN_DOUBLE_POINTER m = (ss, m1)" "fresh_block ss m m1"
    "heap_ok m1"
    using aligned_malloc_enough [OF assms(2) _ en, where al = LF_ALIGN_DOUBLE_POINTER and sz = 32] by auto
  have script: "m_script m1 = []"
    using al(1) one by (cases "m_script m")
      (auto simp: aligned_malloc_def abstraction_malloc_def malloc_def Let_def split: if_splits)
  have ss: "ss \<noteq> NULL" "allocated m1 ss" "sk_states m1 NULL = None"
    using al(2) assms(1) stk_c_more_eq(1) [of m1 m] by (simp_all add: fresh_block_def)
  define m2 where "m2 = set_ss ss \<lparr>ss_top = (m_junk m ss, m_junk m (ss + 8)),
      ss_aba_counter = m_junk m (ss + 16), ss_fs = NULL\<rparr> m1"
  have "heap_ok (m2\<lparr>m_script := []\<rparr>)" "allocated (m2\<lparr>m_script := []\<rparr>) ss"
    using al(3) ss(2) by (simp_all add: m2_def)
  from free_ss_allocated [OF this] obtain m3 where m3: "free_ss ss (m2\<lparr>m_script := []\<rparr>) = Ok m3"
    "sk_states m3 = (sk_states m2)(ss := None)" by (auto simp: m2_def)
  then have "sk_states m3 NULL = None" using ss by (simp add: m2_def)
  moreover have "freelist_new stack_icall n STACK_INIT NULL m' = Ok (0, NULL, m'\<lparr>m_script := []\<rparr>)"
    if "m_script m' = []" for m' :: "'a stk_mem_scheme"
    using that by (simp add: freelist_new_def aligned_malloc_fails)
  moreover have "set_ss ss a ((set_ss ss b m1)\<lparr>m_script := []\<rparr>) = (set_ss ss a m1)\<lparr>m_script := []\<rparr>" for a b
    by (simp add: set_ss_def)
  ultimately show ?thesis
    using al(1) ss(1) script m3(1) by (simp add: stack_new_def Let_def m2_def)
qed

theorem stack_new_out_of_memory_witness:
  "stack_new 2 (stk_demo\<lparr>m_script := []\<rparr>) = Fault BadDeref \<and>
   stack_new 2 (stk_demo\<lparr>m_script := [16]\<rparr>) = Fault BadDeref"
  using stack_new_out_of_memory [of "stk_demo\<lparr>m_script := []\<rparr>"] stack_new_out_of_memory [of "stk_demo\<lparr>m_script := [16]\<rparr>"]
  by (simp add: stk_demo_def heap_ok_def good_block_def)

text \<open>
  \<open>stack_guaranteed_push\<close> does not depend on free elements: if two more blocks can be
  allocated it pushes the word with a new element, on top of what was there, and the free
  elements stay free.
\<close>

theorem stack_guaranteed_push_new:
  fixes m :: "'a stk_mem_scheme"
  assumes own: "stk_owned m ss us fr" and en: "enough_mem 2 m"
  shows "\<exists>x m'. stack_guaranteed_push ss d m = Ok (1, m') \<and> stk_owned m' ss (x # us) fr \<and>
    \<not> allocated m x \<and> map (se_item m') (x # us) = d # map (se_item m) us"
proof -
  have inv: "stk_inv m ss us fr" and ok: "heap_ok m" using own by (simp_all add: stk_owned_def)
  obtain st fst' where st: "ss \<noteq> NULL" "sk_states m ss = Some st" "chain (se_link m) (fst (ss_top st)) us"
    and fl: "fl_rep m (ss_fs st) fr" "fl_states m (ss_fs st) = Some fst'" "fs_init_func fst' = STACK_INIT"
      "fs_state fst' = NULL"
    using inv unfolding stk_inv_def sk_ready_def by blast
  have fs: "ss_fs st \<noteq> NULL" "sk_fs m ss = ss_fs st" using fl(1) st(2) by (simp_all add: fl_rep_def sk_fs_def)
  have en2: "enough_mem (Suc (Suc 0)) m" using en by (simp add: numeral_2_eq_2)
  from stk_backed.new_element_backed [OF ok en2 fs(1) fl(2-4)] obtain q x v e m1 where
    new: "freelist_internal_new_element stack_icall (ss_fs st) m = Ok (1, q, m1)"
    and q: "q \<noteq> NULL" "x \<noteq> NULL" "q \<noteq> x" "\<not> allocated m q" "\<not> allocated m x"
    and m1: "\<forall>r. allocated m1 r \<longleftrightarrow> allocated m r \<or> r = q \<or> r = x" "heap_ok m1"
      "fl_states m1 = (fl_states m)(ss_fs st \<mapsto> fst'\<lparr>fs_element_count := fs_element_count fst' + 1\<rparr>)"
      "fl_elems m1 = (fl_elems m)(q \<mapsto> e)" "fe_data e = x"
      "sk_elems m1 = (sk_elems m)(x \<mapsto> v)" "sk_states m1 = sk_states m"
    by (elim exE conjE) (rule that)
  let ?c = "ss_aba_counter st + 1"
  let ?e = "\<lparr>se_next = (NULL, 0), se_fe = q, se_data = d\<rparr>"
  let ?m2 = "set_se x ?e (set_ss ss (st\<lparr>ss_aba_counter := ?c\<rparr>) m1)"
  let ?m3 = "set_ss ss (st\<lparr>ss_aba_counter := ?c, ss_top := (x, ?c)\<rparr>)
               (set_se x (?e\<lparr>se_next := ss_top st\<rparr>) ?m2)"
  have "stack_internal_new_element ss d m = Ok (Some (x, ?c), ?m2)"
    using st fs new q m1
    by (simp add: stack_internal_new_element_def freelist_guaranteed_pop_def
        stack_internal_init_element_def freelist_get_data_def abstraction_increment_def Let_def)
  moreover have "stack_internal_push ss (x, ?c) ?m2 = Ok ?m3"
    using st(1) q(2) by (simp add: stack_internal_push_eq [where st = "st\<lparr>ss_aba_counter := ?c\<rparr>" and e = ?e])
  ultimately have push: "stack_guaranteed_push ss d m = Ok (1, ?m3)"
    using st(1) by (simp add: stack_guaranteed_push_def)
  have bl: "x \<notin> set (stk_blocks m ss us fr)" "q \<notin> set (stk_blocks m ss us fr)"
    using own q by (auto simp: stk_owned_def)
  have link: "se_link ?m3 = (se_link m)(x \<mapsto> fst (ss_top st))" "fe_link ?m3 = (fe_link m)(q \<mapsto> fst (fe_next e))"
    using m1 by (auto simp: se_link_def fe_link_def fun_eq_iff)
  have maps: "se_home ?m3 = (se_home m)(x := q)" "se_item ?m3 = (se_item m)(x := d)"
    "fe_item ?m3 = (fe_item m)(q := x)" "sk_fs ?m3 ss = sk_fs m ss"
    using m1 st(2) by (auto simp: se_home_def se_item_def fe_item_def sk_fs_def fun_eq_iff)
  have notin: "x \<notin> set us" "q \<notin> set fr" "q \<notin> se_home m ` set us" "x \<notin> fe_item m ` set fr"
    using bl by (auto simp: stk_blocks_def)
  have cong: "map (se_home ?m3) us = map (se_home m) us" "map (se_item ?m3) us = map (se_item m) us"
    "map (fe_item ?m3) fr = map (fe_item m) fr"
    unfolding maps using notin(1,2) by auto
  have "fe_link m1 = (fe_link m)(q \<mapsto> fst (fe_next e))"
    using m1(4) by (auto simp: fe_link_def fun_eq_iff)
  then have chains: "chain (se_link ?m3) x (x # us)" "fl_rep ?m3 (ss_fs st) fr" "sk_ready ?m3 (ss_fs st)"
    unfolding link using st(3) notin q(2) fl fs(1) m1(3)
    by (auto simp: fl_rep_def sk_ready_def)
  have homes: "se_home ?m3 y \<noteq> NULL \<and> (\<exists>f. fl_elems ?m3 (se_home ?m3 y) = Some f \<and> fe_data f = y)"
    if "y \<in> set (x # us)" for y
    using inv that notin(3) m1(4,5) q(1) unfolding maps by (auto simp: stk_inv_def)
  have frees: "fe_item ?m3 g \<noteq> NULL \<and> sk_elems ?m3 (fe_item ?m3 g) \<noteq> None" if "g \<in> set fr" for g
    using inv that notin(2) m1(6) unfolding maps by (auto simp: stk_inv_def)
  have dist: "distinct ((x # us) @ map (fe_item ?m3) fr)"
    unfolding cong using inv notin by (auto simp: stk_inv_def)
  have "sk_states ?m3 ss = Some (st\<lparr>ss_aba_counter := ?c, ss_top := (x, ?c)\<rparr>)" by simp
  then have inv3: "stk_inv ?m3 ss (x # us) fr"
    unfolding stk_inv_def using st(1) chains homes frees dist by auto
  have new_home: "se_home ?m3 x = q" and new_item: "se_item ?m3 x = d" unfolding maps by simp_all
  have blocks: "stk_blocks ?m3 ss (x # us) fr =
      ss # sk_fs m ss # (q # map (se_home m) us @ fr) @ (x # us @ map (fe_item m) fr)"
    unfolding stk_blocks_def maps(4) by (simp only: list.map cong new_home append_Cons)
  have "stk_owned ?m3 ss (x # us) fr"
    unfolding stk_owned_def blocks
    using inv3 own bl q(3) m1(1,2) by (auto simp: stk_owned_def stk_blocks_def)
  moreover have "map (se_item ?m3) (x # us) = d # map (se_item m) us"
    by (simp only: list.map cong new_item)
  ultimately show ?thesis using push q(5)
    by (intro exI [of _ x] exI [of _ ?m3] conjI)
qed

theorem stack_guaranteed_push_new_witness:
  "\<exists>x m'. stack_guaranteed_push 32 9 stk_demo_full = Ok (1, m') \<and>
    stk_owned m' 32 [x, 512, 320] [] \<and> map (se_item m') [x, 512, 320] = [9, 8, 7]"
proof -
  have "enough_mem 2 stk_demo_full" by (simp add: stk_demo_full_def good_block_def)
  moreover have "map (se_item stk_demo_full) [512, 320] = [8, 7]" by (simp add: se_item_def stk_demo_full_def)
  ultimately show ?thesis
    using stack_guaranteed_push_new [OF stk_demo_full_owned, of 9] by auto
qed

end
