(* ===== verification/Stack_Conc.thy ===== *)
theory Stack_Conc
  imports Stack Freelist_Conc
begin

text \<open>
  \<open>stack_push\<close> and \<open>stack_pop\<close> of basic/lf_stack.c under concurrency, between taking an
  element from the freelist and giving it back: the machine of \<open>Tagged_List\<close> with the order of
  accesses of \<open>stack_internal_init_element\<close>, \<open>stack_internal_push\<close> and \<open>stack_pop\<close>, started on
  the stack that \<open>stack_new\<close> leaves. Of \<open>stack_internal_init_element\<close> the steps are those on the
  counter and on \<open>next\<close>; of \<open>stack_pop\<close> they end with the compare-and-swap, where the element
  changes hands: what follows it, reading \<open>data\<close> and giving the element to the freelist, is the
  thread's own business. The elements a thread may push are those it has taken
  from the freelist; by \<open>Freelist_Conc\<close> these are in no other hands, which is the assumption
  on \<open>own\<close>.
\<close>

definition se_pair :: "'a stk_mem_scheme \<Rightarrow> addr \<Rightarrow> addr \<times> u64" where
  "se_pair m p = (case sk_elems m p of Some e \<Rightarrow> se_next e | None \<Rightarrow> (NULL, 0))"

definition stack_trans :: "tl_state \<Rightarrow> lifo_act option \<Rightarrow> tl_state \<Rightarrow> bool" where
  "stack_trans = tl_trans True"

definition sk_threads :: "(nat \<Rightarrow> addr set) \<Rightarrow> 'a stk_mem_scheme \<Rightarrow> addr \<Rightarrow> tl_state" where
  "sk_threads own m ss =
     (case sk_states m ss of
        None \<Rightarrow> \<lparr>tl_top = (NULL, 0), tl_next = se_pair m, tl_ctr = 0, tl_pc = (\<lambda>t. Idle),
                 tl_pushes = 0, tl_own = own\<rparr>
      | Some st \<Rightarrow> \<lparr>tl_top = ss_top st, tl_next = se_pair m, tl_ctr = ss_aba_counter st,
                    tl_pc = (\<lambda>t. Idle), tl_pushes = unat (ss_aba_counter st), tl_own = own\<rparr>)"

lemma stack_new_empty:
  assumes "stack_new n m = Ok (1, ss, m')"
  shows "\<exists>st. sk_states m' ss = Some st \<and> ss_top st = (NULL, 0) \<and> ss_aba_counter st = 0"
  using assms
  by (auto simp: stack_new_def Let_def call_def deref_def split: prod.splits res.splits option.splits if_splits)

lemma sk_threads_inv:
  assumes "stack_new n m = Ok (1, ss, m')"
    and own: "\<And>t. NULL \<notin> own t" "\<And>t u. t \<noteq> u \<Longrightarrow> own t \<inter> own u = {}"
  shows "tl_inv True (sk_threads own m' ss) []" "tl_quiet (sk_threads own m' ss)"
    "tl_own (sk_threads own m' ss) = own"
proof -
  obtain st where "sk_states m' ss = Some st" "ss_top st = (NULL, 0)" "ss_aba_counter st = 0"
    using stack_new_empty [OF assms(1)] by auto
  then have s: "sk_threads own m' ss = \<lparr>tl_top = (NULL, 0), tl_next = se_pair m', tl_ctr = 0,
      tl_pc = (\<lambda>t. Idle), tl_pushes = 0, tl_own = own\<rparr>"
    by (simp add: sk_threads_def)
  show "tl_inv True (sk_threads own m' ss) []" "tl_quiet (sk_threads own m' ss)"
    "tl_own (sk_threads own m' ss) = own"
    using own unfolding s by (auto simp: tl_inv_def past_def priv_def locals_ok_def tl_quiet_def)
qed

section \<open>Properties\<close>

text \<open>
  C7. Linearizability of the stack. Threads that push elements of their own and pop, on a stack
  built by \<open>stack_new\<close>, interleaving their accesses in any order, produce only traces of the
  atomic last-in-first-out list, as long as fewer than 2^64 counters have been drawn; and at
  any moment each element is in the stack or with exactly one thread.
\<close>

theorem stack_linearizable:
  assumes "stack_new n m = Ok (1, ss, m')"
    and "\<And>t. NULL \<notin> own t" and "\<And>t u. t \<noteq> u \<Longrightarrow> own t \<inter> own u = {}"
    and "run stack_trans (sk_threads own m' ss) tr s" and "tl_pushes s < 2 ^ 64"
  shows "\<exists>a. run lifo_step \<lparr>l_list = [], l_status = (\<lambda>t. AIdle), l_own = own\<rparr> tr a \<and>
    lifo_part (\<Union>t. own t) a \<and> tl_own s = l_own a \<and>
    (\<exists>L. pchain (tl_next s) (tl_top s) L \<and> map fst L = l_list a)"
proof -
  note init = sk_threads_inv [where own = own, OF assms(1-3)]
  let ?a0 = "\<lparr>l_list = [], l_status = (\<lambda>t. AIdle), l_own = own\<rparr>"
  from tl_linearizable [OF init(1,2) assms(4) [unfolded stack_trans_def] assms(5)] obtain a L' where
    a: "run lifo_step ?a0 tr a" "tl_inv True s L'" "a = tl_abs True s L'"
    by (auto simp: init(3))
  have "lifo_part (\<Union>t. own t) ?a0"
    using assms(2,3) by (simp add: lifo_part_def lifo_hands_def)
  from lifo_run_part [OF a(1) this] show ?thesis
    using a tl_invD(1) [OF a(2)] by (intro exI [of _ a]) auto
qed

text \<open>Two threads push, each its element; one pops while the other's CAS is under way.\<close>

definition sk_demo_own :: "nat \<Rightarrow> addr set" where
  "sk_demo_own t = (if t = 0 then {320} else if t = 1 then {512} else {})"

definition sk_demo_schedule :: "tl_cmd list" where
  "sk_demo_schedule =
     CallPush 0 320 # replicate 7 (Go 0) @ CallPush 1 512 # replicate 9 (Go 1) @
     replicate 5 (Go 0) @ CallPop 1 # replicate 7 (Go 1)"

theorem stack_linearizable_witness:
  "\<exists>ss m' s. stack_new 2 stk_demo = Ok (1, ss, m') \<and>
    tl_exec True sk_demo_schedule (sk_threads sk_demo_own m' ss) =
      Some ([InvPush 0 320, InvPush 1 512, RetPush 1, RetPush 0, InvPop 1, RetPop 1 320], s) \<and>
    (\<exists>a. run lifo_step \<lparr>l_list = [], l_status = (\<lambda>t. AIdle), l_own = sk_demo_own\<rparr>
        [InvPush 0 320, InvPush 1 512, RetPush 1, RetPush 0, InvPop 1, RetPop 1 320] a \<and>
      lifo_part (\<Union>t. sk_demo_own t) a \<and> tl_own s = l_own a \<and>
      (\<exists>L. pchain (tl_next s) (tl_top s) L \<and> map fst L = l_list a))"
proof -
  have "enough_mem (Suc (Suc (2 * unat (2 :: u64) + 0))) stk_demo"
    using stk_demo_heap(2) by simp
  from stack_new_owned [OF stk_demo_heap(1) this] obtain ss fr m' where
    new: "stack_new 2 stk_demo = Ok (1, ss, m')" .
  obtain st where st: "sk_states m' ss = Some st" "ss_top st = (NULL, 0)" "ss_aba_counter st = 0"
    using stack_new_empty [OF new] by auto
  let ?tr = "[InvPush 0 320, InvPush 1 512, RetPush 1, RetPush 0, InvPop 1, RetPop 1 320]"
  obtain s where s: "tl_exec True sk_demo_schedule (sk_threads sk_demo_own m' ss) = Some (?tr, s)"
    "tl_pushes s < 2 ^ 64"
    by (simp add: sk_demo_schedule_def sk_demo_own_def run_eval sk_threads_def st set_pc_def set_next_def Let_def)
  have "run stack_trans (sk_threads sk_demo_own m' ss) ?tr s"
    using tl_exec_run [OF s(1) run_start] by (simp add: stack_trans_def)
  from stack_linearizable [OF new _ _ this s(2)] new s(1) show ?thesis
    by (auto simp: sk_demo_own_def split: if_splits)
qed

end
