(* ===== verification/Queue.thy ===== *)
theory Queue
  imports Backed Container "HOL-Library.Multiset"
begin

text \<open>
  basic/lf_queue.c and lf_queue.h: a first-in-first-out queue after Michael and Scott, with a
  dummy element in front and elements from a freelist. Every function of the file as it runs
  without interference.

  The counters of the pairs are declared as pointers to elements, so \<open>counter + 1\<close> in the
  source adds \<open>sizeof(struct queue_element)\<close>, that is 32 (\<open>qe_succ\<close>).
\<close>

section \<open>Data\<close>

record queue_state =
  qs_enqueue :: "addr \<times> u64"
  qs_dequeue :: "addr \<times> u64"
  qs_aba_count :: u64
  qs_fs :: addr

record queue_element =
  qe_next :: "addr \<times> u64"
  qe_fe :: addr
  qe_data :: addr

record qu_mem = fl_mem +
  qu_states :: "addr \<Rightarrow> queue_state option"
  qu_elems :: "addr \<Rightarrow> queue_element option"

datatype queue_query_type = QUEUE_QUERY_ELEMENT_COUNT | QUEUE_QUERY_VALIDATE

datatype queue_query_output = QCount u64 | QValidity data_structure_validity data_structure_validity

definition qe_succ :: "u64 \<Rightarrow> u64" where
  "qe_succ c = c + 32"

definition set_qs :: "addr \<Rightarrow> queue_state \<Rightarrow> 'a qu_mem_scheme \<Rightarrow> 'a qu_mem_scheme" where
  "set_qs qs st m = m\<lparr>qu_states := (qu_states m)(qs \<mapsto> st)\<rparr>"

definition set_qe :: "addr \<Rightarrow> queue_element \<Rightarrow> 'a qu_mem_scheme \<Rightarrow> 'a qu_mem_scheme" where
  "set_qe qe e m = m\<lparr>qu_elems := (qu_elems m)(qe \<mapsto> e)\<rparr>"

definition free_qe :: "addr \<Rightarrow> 'a qu_mem_scheme \<Rightarrow> 'a qu_mem_scheme res" where
  "free_qe p m = call (aligned_free p m) (\<lambda>m'. Ok (m'\<lparr>qu_elems := (qu_elems m')(p := None)\<rparr>))"

definition free_qs :: "addr \<Rightarrow> 'a qu_mem_scheme \<Rightarrow> 'a qu_mem_scheme res" where
  "free_qs p m = call (aligned_free p m) (\<lambda>m'. Ok (m'\<lparr>qu_states := (qu_states m')(p := None)\<rparr>))"

section \<open>The functions given to the freelist\<close>

definition QUEUE_INIT :: addr where
  "QUEUE_INIT = 4128"

definition QUEUE_FREE :: addr where
  "QUEUE_FREE = 4144"

definition queue_internal_freelist_init_function ::
  "addr \<Rightarrow> 'a qu_mem_scheme \<Rightarrow> (u64 \<times> addr \<times> 'a qu_mem_scheme) res" where
  "queue_internal_freelist_init_function state m =
     c_assert (state = NULL)
       (case aligned_malloc 32 LF_ALIGN_DOUBLE_POINTER m of (q, m') \<Rightarrow>
          if q \<noteq> NULL then
            Ok (1, q, set_qe q \<lparr>qe_next = (m_junk m q, m_junk m (q + 8)),
                               qe_fe = m_junk m (q + 16), qe_data = m_junk m (q + 24)\<rparr> m')
          else Ok (0, NULL, m'))"

definition queue_internal_freelist_delete_function ::
  "addr \<Rightarrow> addr \<Rightarrow> 'a qu_mem_scheme \<Rightarrow> 'a qu_mem_scheme res" where
  "queue_internal_freelist_delete_function data state m =
     c_assert (data \<noteq> NULL) (c_assert (state = NULL) (free_qe data m))"

definition queue_icall :: "'a qu_mem_scheme init_calls" where
  "queue_icall f state m =
     (if f = QUEUE_INIT then queue_internal_freelist_init_function state m else Fault BadDeref)"

definition queue_dcall :: "'a qu_mem_scheme delete_calls" where
  "queue_dcall f data state m =
     (if f = QUEUE_FREE then queue_internal_freelist_delete_function data state m
      else Fault BadDeref)"

section \<open>Operations\<close>

definition queue_use :: "addr \<Rightarrow> 'a qu_mem_scheme \<Rightarrow> 'a qu_mem_scheme res" where
  "queue_use qs m = c_assert (qs \<noteq> NULL) (Ok m)"

text \<open>\<open>queue_internal_init_element\<close>: returns the pair \<open>qe\<close>; it draws two counters.\<close>

definition queue_internal_init_element ::
  "addr \<Rightarrow> addr \<Rightarrow> addr \<Rightarrow> 'a qu_mem_scheme \<Rightarrow> ((addr \<times> u64) \<times> 'a qu_mem_scheme) res" where
  "queue_internal_init_element qs fe data m =
     c_assert (qs \<noteq> NULL) (c_assert (fe \<noteq> NULL)
       (call (freelist_get_data fe m) (\<lambda>qe.
        deref (qu_states m) qs (\<lambda>st.
          let c1 = abstraction_increment (qs_aba_count st);
              c2 = abstraction_increment c1;
              m1 = set_qs qs (st\<lparr>qs_aba_count := c2\<rparr>) m
          in deref (qu_elems m1) qe (\<lambda>e.
               Ok ((qe, c1), set_qe qe \<lparr>qe_next = (NULL, c2), qe_fe = fe, qe_data = data\<rparr> m1))))))"

text \<open>The two sources of an element; \<open>None\<close> where the pointer of the pair stays NULL.\<close>

definition queue_internal_new_element_from_freelist ::
  "addr \<Rightarrow> addr \<Rightarrow> 'a qu_mem_scheme \<Rightarrow> ((addr \<times> u64) option \<times> 'a qu_mem_scheme) res" where
  "queue_internal_new_element_from_freelist qs data m =
     c_assert (qs \<noteq> NULL)
       (deref (qu_states m) qs (\<lambda>st.
        call (freelist_pop (qs_fs st) m) (\<lambda>(fe, m1).
          if fe \<noteq> NULL then
            call (queue_internal_init_element qs fe data m1) (\<lambda>(qe, m2). Ok (Some qe, m2))
          else Ok (None, m1))))"

definition queue_internal_guaranteed_new_element_from_freelist ::
  "addr \<Rightarrow> addr \<Rightarrow> 'a qu_mem_scheme \<Rightarrow> ((addr \<times> u64) option \<times> 'a qu_mem_scheme) res" where
  "queue_internal_guaranteed_new_element_from_freelist qs data m =
     c_assert (qs \<noteq> NULL)
       (deref (qu_states m) qs (\<lambda>st.
        call (freelist_guaranteed_pop queue_icall (qs_fs st) m) (\<lambda>(fe, m1).
          if fe \<noteq> NULL then
            call (queue_internal_init_element qs fe data m1) (\<lambda>(qe, m2). Ok (Some qe, m2))
          else Ok (None, m1))))"

text \<open>
  \<open>queue_new\<close>: returns \<open>(rv, *qs, m)\<close>. The first element (the dummy) draws its counters from
  \<open>aba_count\<close> before that field is set to 0, so they are what the memory happened to hold.
\<close>

definition queue_new ::
  "u64 \<Rightarrow> 'a qu_mem_scheme \<Rightarrow> (u64 \<times> addr \<times> 'a qu_mem_scheme) res" where
  "queue_new number_elements m =
     (case aligned_malloc 48 LF_ALIGN_DOUBLE_POINTER m of (qs, m1) \<Rightarrow>
        if qs = NULL then Ok (0, NULL, m1)
        else
          let m2 = set_qs qs \<lparr>qs_enqueue = (m_junk m qs, m_junk m (qs + 8)),
                              qs_dequeue = (m_junk m (qs + 16), m_junk m (qs + 24)),
                              qs_aba_count = m_junk m (qs + 32), qs_fs = m_junk m (qs + 40)\<rparr> m1 in
          call (freelist_new queue_icall (number_elements + 1) QUEUE_INIT NULL m2) (\<lambda>(rv, fs, m3).
          deref (qu_states m3) qs (\<lambda>st.
            let m4 = set_qs qs (st\<lparr>qs_fs := fs\<rparr>) m3 in
            if fs \<noteq> NULL then
              call (queue_internal_new_element_from_freelist qs NULL m4) (\<lambda>(qe, m5).
              deref (qu_states m5) qs (\<lambda>st5.
                let p = (case qe of None \<Rightarrow> NULL | Some (q, c) \<Rightarrow> q) in
                Ok (1, qs, set_qs qs (st5\<lparr>qs_enqueue := (p, 0), qs_dequeue := (p, 0),
                                          qs_aba_count := 0\<rparr>) m5)))
            else call (free_qs qs m4) (\<lambda>m5. Ok (0, NULL, m5)))))"

text \<open>
  One round of the loop of \<open>queue_internal_queue\<close>: \<open>Done\<close> with the tail that was read, once
  the element is linked behind it.
\<close>

definition queue_link_body ::
  "addr \<Rightarrow> addr \<Rightarrow> 'a qu_mem_scheme \<Rightarrow> ('a qu_mem_scheme, (addr \<times> u64) \<times> 'a qu_mem_scheme) ctl res" where
  "queue_link_body qs qe m =
     deref (qu_states m) qs (\<lambda>st.
     let enqueue = qs_enqueue st in
     deref (qu_elems m) (fst enqueue) (\<lambda>t.
     let next = qe_next t in
     deref (qu_states m) qs (\<lambda>st1.
       if qs_enqueue st1 = enqueue then
         if fst next = NULL then
           (case abstraction_dcas (qe_next t) (qe, qe_succ (snd next)) next of (r, next', cmp') \<Rightarrow>
              let m1 = set_qe (fst enqueue) (t\<lparr>qe_next := next'\<rparr>) m in
              if r = 0 then Ok (Again m1) else Ok (Done (enqueue, m1)))
         else
           (case abstraction_dcas (qs_enqueue st1) (fst next, qe_succ (snd enqueue)) enqueue of (r, enq', cmp') \<Rightarrow>
              Ok (Again (set_qs qs (st1\<lparr>qs_enqueue := enq'\<rparr>) m)))
       else Ok (Again m))))"

definition queue_internal_queue ::
  "addr \<Rightarrow> addr \<times> u64 \<Rightarrow> 'a qu_mem_scheme \<Rightarrow> 'a qu_mem_scheme res" where
  "queue_internal_queue qs qe m =
     c_assert (qs \<noteq> NULL)
       (call (cloop (queue_link_body qs (fst qe)) m) (\<lambda>(enqueue, m1).
        deref (qu_states m1) qs (\<lambda>st.
          case abstraction_dcas (qs_enqueue st) (fst qe, qe_succ (snd enqueue)) enqueue of (r, enq', cmp') \<Rightarrow>
            Ok (set_qs qs (st\<lparr>qs_enqueue := enq'\<rparr>) m1))))"

definition queue_enqueue :: "addr \<Rightarrow> addr \<Rightarrow> 'a qu_mem_scheme \<Rightarrow> (u64 \<times> 'a qu_mem_scheme) res" where
  "queue_enqueue qs data m =
     c_assert (qs \<noteq> NULL)
       (call (queue_internal_new_element_from_freelist qs data m) (\<lambda>(qe, m1).
          case qe of None \<Rightarrow> Ok (0, m1)
          | Some q \<Rightarrow> call (queue_internal_queue qs q m1) (\<lambda>m2. Ok (1, m2))))"

definition queue_guaranteed_enqueue ::
  "addr \<Rightarrow> addr \<Rightarrow> 'a qu_mem_scheme \<Rightarrow> (u64 \<times> 'a qu_mem_scheme) res" where
  "queue_guaranteed_enqueue qs data m =
     c_assert (qs \<noteq> NULL)
       (call (queue_internal_guaranteed_new_element_from_freelist qs data m) (\<lambda>(qe, m1).
          case qe of None \<Rightarrow> Ok (0, m1)
          | Some q \<Rightarrow> call (queue_internal_queue qs q m1) (\<lambda>m2. Ok (1, m2))))"

text \<open>
  One round of the loop of \<open>queue_dequeue\<close>: \<open>Done None\<close> for the empty queue, \<open>Done (Some (p, d))\<close>
  when the element \<open>p\<close> has been removed and \<open>d\<close> read.
\<close>

definition queue_dequeue_body ::
  "addr \<Rightarrow> 'a qu_mem_scheme \<Rightarrow> ('a qu_mem_scheme, (addr \<times> addr) option \<times> 'a qu_mem_scheme) ctl res" where
  "queue_dequeue_body qs m =
     deref (qu_states m) qs (\<lambda>st.
     let dequeue = qs_dequeue st; enqueue = qs_enqueue st in
     deref (qu_elems m) (fst dequeue) (\<lambda>h.
     let next = qe_next h in
     deref (qu_states m) qs (\<lambda>st1.
       if dequeue = qs_dequeue st1 then
         if fst enqueue = fst dequeue \<and> fst next = NULL then Ok (Done (None, m))
         else if fst enqueue = fst dequeue \<and> fst next \<noteq> NULL then
           (case abstraction_dcas (qs_enqueue st1) (fst next, qe_succ (snd enqueue)) enqueue of (r, enq', cmp') \<Rightarrow>
              Ok (Again (set_qs qs (st1\<lparr>qs_enqueue := enq'\<rparr>) m)))
         else
           deref (qu_elems m) (fst next) (\<lambda>n.
             case abstraction_dcas (qs_dequeue st1) (fst next, qe_succ (snd dequeue)) dequeue of (r, deq', cmp') \<Rightarrow>
               let m1 = set_qs qs (st1\<lparr>qs_dequeue := deq'\<rparr>) m in
               if r = 1 then Ok (Done (Some (fst dequeue, qe_data n), m1)) else Ok (Again m1))
       else Ok (Again m))))"

text \<open>\<open>queue_dequeue\<close>: returns \<open>(rv, *data, m)\<close>; \<open>*data\<close> is set to NULL when it fails.\<close>

definition queue_dequeue ::
  "addr \<Rightarrow> 'a qu_mem_scheme \<Rightarrow> (u64 \<times> addr option \<times> 'a qu_mem_scheme) res" where
  "queue_dequeue qs m =
     c_assert (qs \<noteq> NULL)
       (call (cloop (queue_dequeue_body qs) m) (\<lambda>(r, m1).
          case r of
            None \<Rightarrow> Ok (0, Some NULL, m1)
          | Some (p, d) \<Rightarrow>
              deref (qu_states m1) qs (\<lambda>st.
              deref (qu_elems m1) p (\<lambda>e.
              call (freelist_push (qs_fs st) (qe_fe e) m1) (\<lambda>m2. Ok (1, Some d, m2))))))"

definition queue_drain_body ::
  "'a qu_mem_scheme delete_calls \<Rightarrow> addr \<Rightarrow> addr \<Rightarrow> addr \<Rightarrow> 'a qu_mem_scheme \<Rightarrow>
     ('a qu_mem_scheme, 'a qu_mem_scheme) ctl res" where
  "queue_drain_body dcall qs f state m =
     call (queue_dequeue qs m) (\<lambda>(rv, data, m1).
       if rv \<noteq> 0 then
         (case data of
            None \<Rightarrow> Fault BadDeref
          | Some d \<Rightarrow> call (if f \<noteq> NULL then dcall f d state m1 else Ok m1) (\<lambda>m2. Ok (Again m2)))
       else Ok (Done m1))"

definition queue_delete ::
  "'a qu_mem_scheme delete_calls \<Rightarrow> addr \<Rightarrow> addr \<Rightarrow> addr \<Rightarrow> 'a qu_mem_scheme \<Rightarrow> 'a qu_mem_scheme res" where
  "queue_delete dcall qs delete_func state m =
     c_assert (qs \<noteq> NULL)
       (call (cloop (queue_drain_body dcall qs delete_func state) m) (\<lambda>m1.
        deref (qu_states m1) qs (\<lambda>st.
        deref (qu_elems m1) (fst (qs_enqueue st)) (\<lambda>e.
        call (freelist_push (qs_fs st) (qe_fe e) m1) (\<lambda>m2.
        call (freelist_delete queue_dcall (qs_fs st) QUEUE_FREE NULL m2) (\<lambda>m3. free_qs qs m3))))))"

definition qe_link :: "'a qu_mem_scheme \<Rightarrow> addr \<Rightarrow> addr option" where
  "qe_link m p = map_option (\<lambda>e. fst (qe_next e)) (qu_elems m p)"

text \<open>\<open>queue_internal_validate\<close>: returns \<open>(*qv, *fv)\<close>. The dummy is not counted.\<close>

definition queue_internal_validate ::
  "addr \<Rightarrow> validation_info option \<Rightarrow> 'a qu_mem_scheme \<Rightarrow>
     (data_structure_validity \<times> data_structure_validity) res" where
  "queue_internal_validate qs vi m =
     c_assert (qs \<noteq> NULL)
       (deref (qu_states m) qs (\<lambda>st.
        call (find_cycle (qe_link m) (fst (qs_dequeue st))) (\<lambda>sf.
          let qv = cycle_verdict sf in
          case vi of
            None \<Rightarrow>
              call (freelist_query (qs_fs st) FREELIST_QUERY_VALIDATE None m) (\<lambda>q.
              call (query_validity q) (\<lambda>fv. Ok (qv, fv)))
          | Some v \<Rightarrow>
              call (if qv = VALIDITY_VALID then
                      call (count_elements (qe_link m) (fst (qs_dequeue st)))
                        (\<lambda>element_count. Ok (bounds_verdict v (element_count - 1) qv))
                    else Ok qv) (\<lambda>qv'.
              call (freelist_query (qs_fs st) FREELIST_QUERY_ELEMENT_COUNT None m) (\<lambda>q.
              call (query_count q) (\<lambda>n.
                let total_elements = n - 1;
                    fvi = \<lparr>min_element = total_elements - max_element v,
                           max_element = total_elements - min_element v\<rparr> in
                call (freelist_query (qs_fs st) FREELIST_QUERY_VALIDATE (Some fvi) m) (\<lambda>q1.
                call (query_validity q1) (\<lambda>fv. Ok (qv', fv)))))))))"

text \<open>
  \<open>queue_query\<close>; \<open>outp\<close> is the caller's output pointer. The source asserts that it is not NULL,
  and before it answers a count it asserts the opposite.
\<close>

definition queue_query ::
  "addr \<Rightarrow> queue_query_type \<Rightarrow> validation_info option \<Rightarrow> addr \<Rightarrow> 'a qu_mem_scheme \<Rightarrow> queue_query_output res" where
  "queue_query qs query_type input outp m =
     c_assert (qs \<noteq> NULL) (c_assert (outp \<noteq> NULL)
       (case query_type of
          QUEUE_QUERY_ELEMENT_COUNT \<Rightarrow>
            c_assert (outp = NULL)
              (deref (qu_states m) qs (\<lambda>st.
               call (freelist_query (qs_fs st) FREELIST_QUERY_ELEMENT_COUNT None m) (\<lambda>q.
               call (query_count q) (\<lambda>n. Ok (QCount n)))))
        | QUEUE_QUERY_VALIDATE \<Rightarrow>
            call (queue_internal_validate qs input m) (\<lambda>(qv, fv). Ok (QValidity qv fv))))"

section \<open>Memory\<close>

lemma set_qs_sel [simp]:
  "qu_states (set_qs qs st m) = (qu_states m)(qs \<mapsto> st)" "qu_elems (set_qs qs st m) = qu_elems m"
  "qu_states (set_qe qe e m) = qu_states m" "qu_elems (set_qe qe e m) = (qu_elems m)(qe \<mapsto> e)"
  "fl_states (set_qs qs st m) = fl_states m" "fl_elems (set_qs qs st m) = fl_elems m"
  "fl_states (set_qe qe e m) = fl_states m" "fl_elems (set_qe qe e m) = fl_elems m"
  "qu_states (set_fs fs x m) = qu_states m" "qu_elems (set_fs fs x m) = qu_elems m"
  "qu_states (set_fe fe y m) = qu_states m" "qu_elems (set_fe fe y m) = qu_elems m"
  by (simp_all add: set_qs_def set_qe_def set_fs_def set_fe_def)

lemma set_qs_mem [simp]:
  "m_script (set_qs qs st m) = m_script m" "m_live (set_qs qs st m) = m_live m"
  "m_junk (set_qs qs st m) = m_junk m" "m_junk (set_qe qe e m) = m_junk m"
  "m_script (set_qe qe e m) = m_script m" "m_live (set_qe qe e m) = m_live m"
  "allocated (set_qs qs st m) = allocated m" "allocated (set_qe qe e m) = allocated m"
  "heap_ok (set_qs qs st m) = heap_ok m" "heap_ok (set_qe qe e m) = heap_ok m"
  "qu_mem.more (set_qs qs st m) = qu_mem.more m" "qu_mem.more (set_qe qe e m) = qu_mem.more m"
  "qu_mem.more (set_fs fs x m) = qu_mem.more m" "qu_mem.more (set_fe fe y m) = qu_mem.more m"
  by (auto simp: set_qs_def set_qe_def set_fs_def set_fe_def allocated_def heap_ok_def fun_eq_iff)

lemma qe_link_set [simp]:
  "qe_link (set_qs qs st m) = qe_link m"
  "qe_link (set_qe qe e m) = (qe_link m)(qe \<mapsto> fst (qe_next e))"
  "qe_link (set_fs fs x m) = qe_link m" "qe_link (set_fe fe y m) = qe_link m"
  "fe_link (set_qs qs st m) = fe_link m" "fe_link (set_qe qe e m) = fe_link m"
  by (auto simp: qe_link_def fe_link_def fun_eq_iff)

lemma fl_rep_qu [simp]:
  "fl_rep (set_qs qs st m) fs xs = fl_rep m fs xs" "fl_rep (set_qe qe e m) fs xs = fl_rep m fs xs"
  by (simp_all add: fl_rep_def split: option.split)

section \<open>The representation\<close>

definition qe_item :: "'a qu_mem_scheme \<Rightarrow> addr \<Rightarrow> addr" where
  "qe_item m qe = (case qu_elems m qe of Some e \<Rightarrow> qe_data e | None \<Rightarrow> NULL)"

definition qe_home :: "'a qu_mem_scheme \<Rightarrow> addr \<Rightarrow> addr" where
  "qe_home m qe = (case qu_elems m qe of Some e \<Rightarrow> qe_fe e | None \<Rightarrow> NULL)"

definition qu_ready :: "'a qu_mem_scheme \<Rightarrow> addr \<Rightarrow> bool" where
  "qu_ready m fs \<longleftrightarrow> (\<exists>st. fl_states m fs = Some st \<and> fs_init_func st = QUEUE_INIT \<and> fs_state st = NULL)"

definition qu_fs :: "'a qu_mem_scheme \<Rightarrow> addr \<Rightarrow> addr" where
  "qu_fs m qs = (case qu_states m qs of Some st \<Rightarrow> qs_fs st | None \<Rightarrow> NULL)"

text \<open>
  \<open>qu_inv m qs us fr\<close>: the list from \<open>dequeue\<close> is \<open>us\<close>, dummy first, and ends at \<open>enqueue\<close>;
  the free elements are \<open>fr\<close>.
\<close>

definition qu_inv :: "'a qu_mem_scheme \<Rightarrow> addr \<Rightarrow> addr list \<Rightarrow> addr list \<Rightarrow> bool" where
  "qu_inv m qs us fr \<longleftrightarrow> qs \<noteq> NULL \<and> us \<noteq> [] \<and>
     (\<exists>st. qu_states m qs = Some st \<and> chain (qe_link m) (fst (qs_dequeue st)) us \<and>
        fst (qs_enqueue st) = last us \<and> fl_rep m (qs_fs st) fr \<and> qu_ready m (qs_fs st)) \<and>
     distinct (us @ map (fe_item m) fr) \<and>
     (\<forall>x \<in> set us. qe_home m x \<noteq> NULL \<and> (\<exists>f. fl_elems m (qe_home m x) = Some f \<and> fe_data f = x)) \<and>
     (\<forall>f \<in> set fr. fe_item m f \<noteq> NULL \<and> qu_elems m (fe_item m f) \<noteq> None)"

definition qu_same :: "addr \<Rightarrow> 'a qu_mem_scheme \<Rightarrow> 'a qu_mem_scheme \<Rightarrow> bool" where
  "qu_same qs m m' \<longleftrightarrow> allocated m' = allocated m \<and> heap_ok m' = heap_ok m \<and> qu_fs m' qs = qu_fs m qs \<and>
     fe_item m' = fe_item m \<and> m_script m' = m_script m \<and> m_live m' = m_live m \<and>
     (\<forall>fs. fs \<noteq> qu_fs m qs \<longrightarrow> fl_states m' fs = fl_states m fs) \<and>
     (\<forall>p. p \<noteq> qs \<longrightarrow> qu_states m' p = qu_states m p) \<and>
     qu_mem.more m' = qu_mem.more m"

section \<open>One round of the loops\<close>

text \<open>The chain ends where \<open>enqueue\<close> points: the element there has a NULL link.\<close>

lemma chain_last_link:
  assumes "chain h p us" "us \<noteq> []"
  shows "h (last us) = Some NULL"
  using assms
proof (induction us arbitrary: p)
  case (Cons x us)
  then show ?case by (cases us) (auto split: option.splits)
qed simp

lemma chain_extend:
  assumes "chain h p us" "us \<noteq> []" "x \<notin> set us" "x \<noteq> NULL"
  shows "chain (h(x \<mapsto> NULL, last us \<mapsto> x)) p (us @ [x])"
proof -
  obtain vs t where us: "us = vs @ [t]" using assms(2) by (metis append_butlast_last_id)
  have d: "distinct us" using chain_distinct [OF assms(1)] .
  have "seg h p vs t" "t \<noteq> NULL" "h t = Some NULL"
    using assms(1) by (auto simp: us chain_append split: option.splits)
  moreover have "seg (h(x \<mapsto> NULL, t \<mapsto> x)) p vs t = seg h p vs t"
    using assms(3) d by (intro seg_cong) (auto simp: us)
  ultimately show ?thesis
    using assms(3,4) by (auto simp: us chain_append seg_append)
qed

lemma queue_internal_queue_eq:
  assumes "qs \<noteq> NULL" "qu_states m qs = Some st" "fst (qs_enqueue st) = t" "qu_elems m t = Some te"
    and "fst (qe_next te) = NULL"
  shows "queue_internal_queue qs (qe, c) m =
    Ok (set_qs qs (st\<lparr>qs_enqueue := (qe, qe_succ (snd (qs_enqueue st)))\<rparr>)
         (set_qe t (te\<lparr>qe_next := (qe, qe_succ (snd (qe_next te)))\<rparr>) m))"
  using assms
  by (simp add: queue_internal_queue_def queue_link_body_def abstraction_dcas_def Let_def)

section \<open>Enqueue and dequeue\<close>

text \<open>Linking an initialised element \<open>x\<close> that is not in the queue.\<close>

lemma queue_link_inv:
  assumes inv: "qu_inv m qs us fr" and st: "qu_states m qs = Some st"
    and x: "x \<noteq> NULL" "x \<notin> set us" "x \<notin> fe_item m ` set fr"
    and e: "qu_elems m x = Some \<lparr>qe_next = (NULL, c'), qe_fe = f, qe_data = d\<rparr>"
    and f: "f \<noteq> NULL" "fl_elems m f = Some fe" "fe_data fe = x"
  shows "\<exists>m'. queue_internal_queue qs (x, c) m = Ok m' \<and> qu_inv m' qs (us @ [x]) fr \<and>
    qe_item m' = qe_item m \<and> qe_home m' = qe_home m \<and> qu_same qs m m' \<and> fl_elems m' = fl_elems m"
proof -
  have qs: "qs \<noteq> NULL" "us \<noteq> []" and ch: "chain (qe_link m) (fst (qs_dequeue st)) us"
    and enq: "fst (qs_enqueue st) = last us" and fl: "fl_rep m (qs_fs st) fr" "qu_ready m (qs_fs st)"
    and dist: "distinct (us @ map (fe_item m) fr)"
    and us: "\<And>y. y \<in> set us \<Longrightarrow> qe_home m y \<noteq> NULL \<and> (\<exists>f. fl_elems m (qe_home m y) = Some f \<and> fe_data f = y)"
    and fr: "\<And>g. g \<in> set fr \<Longrightarrow> fe_item m g \<noteq> NULL \<and> qu_elems m (fe_item m g) \<noteq> None"
    using inv st unfolding qu_inv_def by auto
  let ?t = "last us"
  obtain te where te: "qu_elems m ?t = Some te" "fst (qe_next te) = NULL"
    using chain_last_link [OF ch qs(2)] by (auto simp: qe_link_def)
  let ?m' = "set_qs qs (st\<lparr>qs_enqueue := (x, qe_succ (snd (qs_enqueue st)))\<rparr>)
      (set_qe ?t (te\<lparr>qe_next := (x, qe_succ (snd (qe_next te)))\<rparr>) m)"
  have run: "queue_internal_queue qs (x, c) m = Ok ?m'"
    by (rule queue_internal_queue_eq [OF qs(1) st enq te])
  have maps: "qe_item ?m' = qe_item m" "qe_home ?m' = qe_home m" "fe_item ?m' = fe_item m"
    using te(1) by (auto simp: qe_item_def qe_home_def fe_item_def fun_eq_iff)
  have "qe_link m x = Some NULL" using e by (simp add: qe_link_def)
  then have "qe_link ?m' = (qe_link m)(x \<mapsto> NULL, ?t \<mapsto> x)"
    by (auto simp: fun_eq_iff)
  then have "chain (qe_link ?m') (fst (qs_dequeue st)) (us @ [x])"
    using chain_extend [OF ch qs(2) x(2,1)] by simp
  moreover have "qu_ready ?m' (qs_fs st)" using fl(2) by (simp add: qu_ready_def)
  moreover have "qe_home m x = f" using e by (simp add: qe_home_def)
  moreover have "qu_elems ?m' (fe_item m g) \<noteq> None" if "g \<in> set fr" for g using fr [OF that] by simp
  ultimately have "qu_inv ?m' qs (us @ [x]) fr"
    unfolding qu_inv_def maps using qs fl dist x us fr f by auto
  moreover have "qu_same qs m ?m'"
    unfolding qu_same_def maps using st by (simp add: qu_fs_def)
  ultimately show ?thesis using run maps by (intro exI [of _ ?m'] conjI) simp_all
qed

lemma queue_enqueue_inv:
  assumes inv: "qu_inv m qs us (f # fr)"
  shows "\<exists>m'. queue_enqueue qs d m = Ok (1, m') \<and> qu_inv m' qs (us @ [fe_item m f]) fr \<and>
    qe_item m' = (qe_item m)(fe_item m f := d) \<and> qe_home m' = (qe_home m)(fe_item m f := f) \<and>
    qu_same qs m m' \<and> fl_elems m' = fl_elems m"
proof -
  let ?x = "fe_item m f"
  obtain st where qs: "qs \<noteq> NULL" "us \<noteq> []" and st: "qu_states m qs = Some st"
      "chain (qe_link m) (fst (qs_dequeue st)) us" "fst (qs_enqueue st) = last us"
    and fl: "fl_rep m (qs_fs st) (f # fr)" and ready: "qu_ready m (qs_fs st)"
    and dist: "distinct (us @ map (fe_item m) (f # fr))"
    and us: "\<And>x. x \<in> set us \<Longrightarrow> qe_home m x \<noteq> NULL \<and> (\<exists>f. fl_elems m (qe_home m x) = Some f \<and> fe_data f = x)"
    and fr: "\<And>g. g \<in> set (f # fr) \<Longrightarrow> fe_item m g \<noteq> NULL \<and> qu_elems m (fe_item m g) \<noteq> None"
    using inv unfolding qu_inv_def by blast
  obtain fs where fs: "qs_fs st \<noteq> NULL" "fl_states m (qs_fs st) = Some fs"
    "chain (fe_link m) (fst (fs_top fs)) (f # fr)" using fl by (rule fl_repE)
  then obtain fe where fe: "fl_elems m f = Some fe" "f \<noteq> NULL" "fst (fs_top fs) = f"
      "chain (fe_link m) (fst (fe_next fe)) fr"
    by (auto simp: fe_link_def split: option.splits)
  have x: "?x = fe_data fe" "?x \<noteq> NULL" "?x \<notin> set us" "?x \<notin> fe_item m ` set fr"
    using fe(1) fr [of f] dist by (auto simp: fe_item_def)
  obtain e where e: "qu_elems m ?x = Some e" using fr [of f] by auto
  let ?c = "qs_aba_count st + 1" and ?st = "st\<lparr>qs_aba_count := qs_aba_count st + 1 + 1\<rparr>"
  let ?m1 = "set_fs (qs_fs st) (fs\<lparr>fs_top := fe_next fe\<rparr>) m"
  let ?m2 = "set_qe ?x \<lparr>qe_next = (NULL, ?c + 1), qe_fe = f, qe_data = d\<rparr> (set_qs qs ?st ?m1)"
  have new: "queue_internal_new_element_from_freelist qs d m = Ok (Some (?x, ?c), ?m2)"
    using qs st fe fs e x(2)
    by (simp add: queue_internal_new_element_from_freelist_def freelist_pop_eq
        queue_internal_init_element_def freelist_get_data_def abstraction_increment_def x(1) Let_def)
  have maps: "fe_item ?m2 = fe_item m" "qe_home ?m2 = (qe_home m)(?x := f)" "qe_item ?m2 = (qe_item m)(?x := d)"
    by (auto simp: fe_item_def qe_home_def qe_item_def fun_eq_iff)
  have "fl_rep ?m2 (qs_fs st) fr" "qu_ready ?m2 (qs_fs st)"
    using fs fe(4) ready by (auto simp: fl_rep_def qu_ready_def)
  then have inv2: "qu_inv ?m2 qs us fr"
    unfolding qu_inv_def maps using qs st x dist us fr by auto
  have "qu_states ?m2 qs = Some ?st" "fl_elems ?m2 f = Some fe" "fe_data fe = ?x"
    "qu_elems ?m2 ?x = Some \<lparr>qe_next = (NULL, ?c + 1), qe_fe = f, qe_data = d\<rparr>" "?x \<notin> fe_item ?m2 ` set fr"
    using fe(1) x(1,4) unfolding maps by simp_all
  from queue_link_inv [OF inv2 this(1) x(2,3) this(5,4) fe(2) this(2,3), of ?c] obtain m' where
    m': "queue_internal_queue qs (?x, ?c) ?m2 = Ok m'" "qu_inv m' qs (us @ [?x]) fr"
    "qe_item m' = qe_item ?m2" "qe_home m' = qe_home ?m2" "qu_same qs ?m2 m'"
      "fl_elems m' = fl_elems ?m2"
    by (elim exE conjE) (rule that)
  have "queue_enqueue qs d m = Ok (1, m')"
    using new m'(1) qs(1) by (simp add: queue_enqueue_def)
  moreover have "qu_same qs m m'"
    using m'(5) st(1) unfolding qu_same_def maps by (simp add: qu_fs_def)
  ultimately show ?thesis using m'(2-4,6) unfolding maps by (intro exI [of _ m'] conjI) simp_all
qed

lemma queue_enqueue_full:
  assumes inv: "qu_inv m qs us []"
  shows "queue_enqueue qs d m = Ok (0, m)"
proof -
  obtain st where st: "qs \<noteq> NULL" "qu_states m qs = Some st" "fl_rep m (qs_fs st) []"
    using inv unfolding qu_inv_def by blast
  then show ?thesis
    using freelist_pop_rep_Nil [OF st(3)]
    by (simp add: queue_enqueue_def queue_internal_new_element_from_freelist_def)
qed

lemma queue_dequeue_inv:
  assumes inv: "qu_inv m qs (x # y # us) fr"
  shows "\<exists>m'. queue_dequeue qs m = Ok (1, Some (qe_item m y), m') \<and>
    qu_inv m' qs (y # us) (qe_home m x # fr) \<and> qe_item m' = qe_item m \<and> qe_home m' = qe_home m \<and>
    fe_item m (qe_home m x) = x \<and> qu_same qs m m' \<and> (\<forall>g. g \<noteq> qe_home m x \<longrightarrow> fl_elems m' g = fl_elems m g)"
proof -
  let ?f = "qe_home m x"
  obtain st where qs: "qs \<noteq> NULL" and st: "qu_states m qs = Some st"
      "chain (qe_link m) (fst (qs_dequeue st)) (x # y # us)" "fst (qs_enqueue st) = last (x # y # us)"
    and fl: "fl_rep m (qs_fs st) fr" and ready: "qu_ready m (qs_fs st)"
    and dist: "distinct ((x # y # us) @ map (fe_item m) fr)"
    and us: "\<And>z. z \<in> set (x # y # us) \<Longrightarrow> qe_home m z \<noteq> NULL \<and> (\<exists>f. fl_elems m (qe_home m z) = Some f \<and> fe_data f = z)"
    and fr: "\<And>g. g \<in> set fr \<Longrightarrow> fe_item m g \<noteq> NULL \<and> qu_elems m (fe_item m g) \<noteq> None"
    using inv unfolding qu_inv_def by blast
  from st(2) obtain ex ey where ex: "qu_elems m x = Some ex" "fst (qs_dequeue st) = x" "fst (qe_next ex) = y"
    and ey: "qu_elems m y = Some ey" and ch: "chain (qe_link m) y (y # us)"
    by (auto simp: qe_link_def split: option.splits)
  have "last (y # us) \<in> set (y # us)" by (rule last_in_set) simp
  then have ne: "fst (qs_enqueue st) \<noteq> x" "y \<noteq> NULL" "x \<noteq> NULL" using st(2,3) dist by (auto split: option.splits)
  obtain g where g: "?f \<noteq> NULL" "fl_elems m ?f = Some g" "fe_data g = x" using us [of x] by auto
  have fh: "qe_fe ex = ?f" using ex(1) by (simp add: qe_home_def)
  have fnew: "?f \<notin> set fr" using dist g by (auto simp: fe_item_def image_iff split: option.splits)
  obtain fs where fs: "qs_fs st \<noteq> NULL" "fl_states m (qs_fs st) = Some fs"
    "chain (fe_link m) (fst (fs_top fs)) fr" using fl by (rule fl_repE)
  let ?m1 = "set_qs qs (st\<lparr>qs_dequeue := (y, qe_succ (snd (qs_dequeue st)))\<rparr>) m"
  let ?c = "fs_aba_counter fs + 1"
  let ?m2 = "set_fs (qs_fs st) (fs\<lparr>fs_aba_counter := ?c, fs_top := (?f, ?c)\<rparr>)
               (set_fe ?f (g\<lparr>fe_next := fs_top fs\<rparr>) ?m1)"
  have "queue_dequeue_body qs m = Ok (Done (Some (x, qe_data ey), ?m1))"
    using st(1) ex ey ne by (simp add: queue_dequeue_body_def abstraction_dcas_def Let_def)
  moreover have "freelist_push (qs_fs st) ?f ?m1 = Ok ?m2"
    using fs g by (simp add: freelist_push_eq)
  ultimately have deq: "queue_dequeue qs m = Ok (1, Some (qe_item m y), ?m2)"
    using qs ex(1) ey by (simp add: queue_dequeue_def fh qe_item_def)
  have maps: "fe_item ?m2 = fe_item m" "qe_home ?m2 = qe_home m" "qe_item ?m2 = qe_item m"
    using g by (auto simp: fe_item_def qe_home_def qe_item_def fun_eq_iff)
  have "fl_rep ?m2 (qs_fs st) (?f # fr)" "qu_ready ?m2 (qs_fs st)"
    using fs fnew g(1) ready by (auto simp: fl_rep_def qu_ready_def)
  moreover have fx: "fe_item m ?f = x" using g by (simp add: fe_item_def)
  moreover have "\<exists>h. fl_elems ?m2 (qe_home m z) = Some h \<and> fe_data h = z" if "z \<in> set (y # us)" for z
    using us [of z] that g by auto
  ultimately have "qu_inv ?m2 qs (y # us) (?f # fr)"
    unfolding qu_inv_def maps using qs st(1,3) ex ch dist us fr ne(3) by auto
  moreover have "qu_same qs m ?m2"
    unfolding qu_same_def maps using st(1) by (simp add: qu_fs_def)
  ultimately show ?thesis using deq maps fx by (intro exI [of _ ?m2] conjI) simp_all
qed

lemma queue_dequeue_empty:
  assumes inv: "qu_inv m qs [x] fr"
  shows "queue_dequeue qs m = Ok (0, Some NULL, m)"
proof -
  obtain st where "qs \<noteq> NULL" "qu_states m qs = Some st" "chain (qe_link m) (fst (qs_dequeue st)) [x]"
    "fst (qs_enqueue st) = x" using inv unfolding qu_inv_def by auto
  then show ?thesis
    by (auto simp: queue_dequeue_def queue_dequeue_body_def qe_link_def Let_def split: option.splits)
qed

section \<open>The queue's elements as backing of its freelist\<close>

lemma qu_more_eq:
  assumes "fl_mem.more m' = fl_mem.more m"
  shows "qu_states m' = qu_states m" "qu_elems m' = qu_elems m"
  using assms by (cases m, cases m', simp)+

lemma qu_c_more_eq:
  assumes "c_mem.more m' = c_mem.more m"
  shows "qu_states m' = qu_states m" "qu_elems m' = qu_elems m"
    "fl_states m' = fl_states m" "fl_elems m' = fl_elems m"
  using assms by (cases m, cases m', simp)+

lemma allocated_qu [simp]:
  "allocated (m\<lparr>qu_elems := es\<rparr>) = allocated m" "heap_ok (m\<lparr>qu_elems := es\<rparr>) = heap_ok m"
  "allocated (m\<lparr>qu_states := ss\<rparr>) = allocated m" "heap_ok (m\<lparr>qu_states := ss\<rparr>) = heap_ok m"
  by (auto simp: allocated_def heap_ok_def fun_eq_iff)

lemma queue_init_law:
  fixes m :: "'a qu_mem_scheme"
  assumes "heap_ok m" "enough_mem (Suc k) m"
  shows "\<exists>x v m'. queue_icall QUEUE_INIT NULL m = Ok (1, x, m') \<and> x \<noteq> NULL \<and> \<not> allocated m x \<and>
    (\<forall>r. allocated m' r \<longleftrightarrow> allocated m r \<or> r = x) \<and> heap_ok m' \<and> enough_mem k m' \<and>
    fl_states m' = fl_states m \<and> fl_elems m' = fl_elems m \<and>
    qu_elems m' = (qu_elems m)(x \<mapsto> v) \<and> qu_states m' = qu_states m"
proof -
  obtain x m1 where x: "aligned_malloc 32 LF_ALIGN_DOUBLE_POINTER m = (x, m1)" "fresh_block x m m1"
    "heap_ok m1" "enough_mem k m1"
    using aligned_malloc_enough [OF assms(1) _ assms(2), where al = LF_ALIGN_DOUBLE_POINTER and sz = 32] by auto
  define e where "e = \<lparr>qe_next = (m_junk m x, m_junk m (x + 8)), qe_fe = m_junk m (x + 16),
      qe_data = m_junk m (x + 24)\<rparr>"
  have fresh: "x \<noteq> NULL" "\<not> allocated m x" "\<forall>r. allocated m1 r \<longleftrightarrow> allocated m r \<or> r = x"
    and more: "c_mem.more m1 = c_mem.more m" using x(2) by (auto simp: fresh_block_def)
  note eqs = qu_c_more_eq [OF more]
  have "queue_icall QUEUE_INIT NULL m = Ok (1, x, set_qe x e m1)"
    using x(1) fresh(1) by (simp add: queue_icall_def queue_internal_freelist_init_function_def e_def)
  then show ?thesis
    using fresh x(3,4) eqs by (intro exI [of _ x] exI [of _ e] exI [of _ "set_qe x e m1"]) auto
qed

lemma free_qe_allocated:
  fixes m :: "'a qu_mem_scheme"
  assumes "heap_ok m" "allocated m x"
  shows "\<exists>m'. free_qe x m = Ok m' \<and> heap_ok m' \<and>
    (\<forall>r. allocated m' r \<longleftrightarrow> allocated m r \<and> r \<noteq> x) \<and>
    fl_states m' = fl_states m \<and> fl_elems m' = fl_elems m \<and>
    qu_elems m' = (qu_elems m)(x := None) \<and> qu_states m' = qu_states m"
proof -
  obtain m1 where m1: "aligned_free x m = Ok m1" "heap_ok m1"
    "\<forall>r. allocated m1 r \<longleftrightarrow> allocated m r \<and> r \<noteq> x" and more: "c_mem.more m1 = c_mem.more m"
    using aligned_free_allocated [OF assms] by auto
  note eqs = qu_c_more_eq [OF more]
  show ?thesis
    using m1 eqs
    by (intro exI [of _ "m1\<lparr>qu_elems := (qu_elems m1)(x := None)\<rparr>"]) (auto simp: free_qe_def)
qed

lemma free_qs_allocated:
  fixes m :: "'a qu_mem_scheme"
  assumes "heap_ok m" "allocated m x"
  shows "\<exists>m'. free_qs x m = Ok m' \<and> heap_ok m' \<and> (\<forall>r. allocated m' r \<longleftrightarrow> allocated m r \<and> r \<noteq> x)"
proof -
  obtain m1 where m1: "aligned_free x m = Ok m1" "heap_ok m1"
    "\<forall>r. allocated m1 r \<longleftrightarrow> allocated m r \<and> r \<noteq> x"
    using aligned_free_allocated [OF assms] by auto
  show ?thesis
    using m1 by (intro exI [of _ "m1\<lparr>qu_states := (qu_states m1)(x := None)\<rparr>"]) (auto simp: free_qs_def)
qed

interpretation qu_backed: backed_freelist queue_icall queue_dcall QUEUE_INIT QUEUE_FREE qu_elems qu_states
proof
  show "QUEUE_INIT \<noteq> NULL" "QUEUE_FREE \<noteq> NULL" by (simp_all add: QUEUE_INIT_def QUEUE_FREE_def)
next
  fix m m' :: "'a qu_mem_scheme"
  assume "fl_mem.more m' = fl_mem.more m"
  from qu_more_eq [OF this] show "qu_elems m' = qu_elems m \<and> qu_states m' = qu_states m" by simp
next
  fix m :: "'a qu_mem_scheme" and k
  assume "heap_ok m" "enough_mem (Suc k) m"
  then show "\<exists>x v m'. queue_icall QUEUE_INIT NULL m = Ok (1, x, m') \<and> x \<noteq> NULL \<and> \<not> allocated m x \<and>
    (\<forall>r. allocated m' r \<longleftrightarrow> allocated m r \<or> r = x) \<and> heap_ok m' \<and> enough_mem k m' \<and>
    fl_states m' = fl_states m \<and> fl_elems m' = fl_elems m \<and>
    qu_elems m' = (qu_elems m)(x \<mapsto> v) \<and> qu_states m' = qu_states m"
    by (rule queue_init_law)
next
  fix m :: "'a qu_mem_scheme" and x
  assume *: "heap_ok m" "allocated m x"
  have "queue_dcall QUEUE_FREE x NULL m = free_qe x m"
    using allocated_nonnull [OF *(2)]
    by (simp add: queue_dcall_def queue_internal_freelist_delete_function_def)
  then show "\<exists>m'. queue_dcall QUEUE_FREE x NULL m = Ok m' \<and> heap_ok m' \<and>
    (\<forall>r. allocated m' r \<longleftrightarrow> allocated m r \<and> r \<noteq> x) \<and>
    fl_states m' = fl_states m \<and> fl_elems m' = fl_elems m \<and>
    qu_elems m' = (qu_elems m)(x := None) \<and> qu_states m' = qu_states m"
    using free_qe_allocated [OF *] by simp
qed

section \<open>Life cycle\<close>

definition qu_blocks :: "'a qu_mem_scheme \<Rightarrow> addr \<Rightarrow> addr list \<Rightarrow> addr list \<Rightarrow> addr list" where
  "qu_blocks m qs us fr =
     qs # qu_fs m qs # (map (qe_home m) us @ fr) @ (us @ map (fe_item m) fr)"

definition qu_owned :: "'a qu_mem_scheme \<Rightarrow> addr \<Rightarrow> addr list \<Rightarrow> addr list \<Rightarrow> bool" where
  "qu_owned m qs us fr \<longleftrightarrow> qu_inv m qs us fr \<and> heap_ok m \<and> distinct (qu_blocks m qs us fr) \<and>
     (\<forall>q \<in> set (qu_blocks m qs us fr). allocated m q)"

lemma qu_owned_same:
  assumes own: "qu_owned m qs us fr" and inv: "qu_inv m' qs us' fr'" and same: "qu_same qs m m'"
    and blocks: "mset (qu_blocks m' qs us' fr') = mset (qu_blocks m qs us fr)"
  shows "qu_owned m' qs us' fr'"
  using own inv same mset_eq_setD [OF blocks] mset_eq_imp_distinct_iff [OF blocks]
  by (simp add: qu_owned_def qu_same_def)

lemma queue_enqueue_owned:
  assumes own: "qu_owned m qs us (f # fr)"
  obtains m' where "queue_enqueue qs d m = Ok (1, m')" "qu_owned m' qs (us @ [fe_item m f]) fr"
    "map (qe_item m') (us @ [fe_item m f]) = map (qe_item m) us @ [d]" "qu_same qs m m'"
    "mset (qu_blocks m' qs (us @ [fe_item m f]) fr) = mset (qu_blocks m qs us (f # fr))"
proof -
  have inv: "qu_inv m qs us (f # fr)" using own by (simp add: qu_owned_def)
  obtain m' where m': "queue_enqueue qs d m = Ok (1, m')" "qu_inv m' qs (us @ [fe_item m f]) fr"
    "qe_item m' = (qe_item m)(fe_item m f := d)" "qe_home m' = (qe_home m)(fe_item m f := f)" "qu_same qs m m'"
      "fl_elems m' = fl_elems m"
    using queue_enqueue_inv [OF inv, of d] by (elim exE conjE) (rule that)
  have x: "fe_item m f \<notin> set us" using inv by (auto simp: qu_inv_def)
  then have "mset (map (qe_home m') us) = mset (map (qe_home m) us)"
    unfolding m'(4) by (metis (mono_tags, lifting) fun_upd_other map_eq_conv)
  moreover have "qe_home m' (fe_item m f) = f" unfolding m'(4) by simp
  ultimately have bl: "mset (qu_blocks m' qs (us @ [fe_item m f]) fr) = mset (qu_blocks m qs us (f # fr))"
    using m'(5) by (simp add: qu_blocks_def qu_same_def)
  have "map (qe_item m') (us @ [fe_item m f]) = map (qe_item m) us @ [d]"
    unfolding m'(3) using x by auto
  then show ?thesis
    using that [OF m'(1) qu_owned_same [OF own m'(2,5) bl] _ m'(5) bl] by simp
qed

lemma queue_dequeue_owned:
  assumes own: "qu_owned m qs (x # y # us) fr"
  obtains m' where "queue_dequeue qs m = Ok (1, Some (qe_item m y), m')"
    "qu_owned m' qs (y # us) (qe_home m x # fr)" "qe_item m' = qe_item m" "qu_same qs m m'"
    "mset (qu_blocks m' qs (y # us) (qe_home m x # fr)) = mset (qu_blocks m qs (x # y # us) fr)"
proof -
  have inv: "qu_inv m qs (x # y # us) fr" using own by (simp add: qu_owned_def)
  obtain m' where m': "queue_dequeue qs m = Ok (1, Some (qe_item m y), m')"
    "qu_inv m' qs (y # us) (qe_home m x # fr)" "qe_item m' = qe_item m" "qe_home m' = qe_home m"
    "fe_item m (qe_home m x) = x" "qu_same qs m m'" "\<forall>g. g \<noteq> qe_home m x \<longrightarrow> fl_elems m' g = fl_elems m g"
    using queue_dequeue_inv [OF inv] by (elim exE conjE) (rule that)
  then have bl: "mset (qu_blocks m' qs (y # us) (qe_home m x # fr)) = mset (qu_blocks m qs (x # y # us) fr)"
    by (simp add: qu_blocks_def qu_same_def)
  show ?thesis
    using that [OF m'(1) qu_owned_same [OF own m'(2,6) bl] m'(3,6) bl] .
qed

lemma queue_new_owned:
  fixes m :: "'a qu_mem_scheme"
  assumes ok: "heap_ok m" and en: "enough_mem (Suc (Suc (2 * Suc (unat n) + k))) m" and n: "n \<noteq> - 1"
  obtains qs x fr m' where "queue_new n m = Ok (1, qs, m')" "qu_owned m' qs [x] fr" "length fr = unat n"
    "enough_mem k m'" "\<forall>q. allocated m' q \<longleftrightarrow> allocated m q \<or> q \<in> set (qu_blocks m' qs [x] fr)"
    "\<forall>q \<in> set (qu_blocks m' qs [x] fr). \<not> allocated m q"
proof -
  have un: "unat (n + 1) = Suc (unat n)"
    using n by (metis add.commute unatSuc add_eq_0_iff)
  obtain qs m1 where al: "aligned_malloc 48 LF_ALIGN_DOUBLE_POINTER m = (qs, m1)" "fresh_block qs m m1"
    "heap_ok m1" "enough_mem (Suc (2 * unat (n + 1) + k)) m1"
    using aligned_malloc_enough [OF ok _ en, where al = LF_ALIGN_DOUBLE_POINTER and sz = 48] un by auto
  have qs: "qs \<noteq> NULL" "\<not> allocated m qs" "\<forall>r. allocated m1 r \<longleftrightarrow> allocated m r \<or> r = qs"
    using al(2) by (auto simp: fresh_block_def)
  define st where "st = \<lparr>qs_enqueue = (m_junk m qs, m_junk m (qs + 8)),
      qs_dequeue = (m_junk m (qs + 16), m_junk m (qs + 24)), qs_aba_count = m_junk m (qs + 32),
      qs_fs = m_junk m (qs + 40)\<rparr>"
  let ?m2 = "set_qs qs st m1"
  have "heap_ok ?m2" "enough_mem (Suc (2 * unat (n + 1) + k)) ?m2" using al by simp_all
  from qu_backed.freelist_new_backed [OF this] obtain fs fr' m3 where
    new: "freelist_new queue_icall (n + 1) QUEUE_INIT NULL ?m2 = Ok (1, fs, m3)" "length fr' = unat (n + 1)"
      "enough_mem k m3" and b: "qu_backed.backed ?m2 m3 fs fr'"
    by (elim exE conjE) (rule that)
  obtain f fr where fr': "fr' = f # fr" "length fr = unat n" using new(2) un by (cases fr') auto
  have states: "qu_states m3 = (qu_states m1)(qs \<mapsto> st)"
    using b unfolding qu_backed.backed_def by simp
  have bl: "distinct (fl_blocks m3 fs fr')" "NULL \<notin> set (fl_blocks m3 fs fr')"
    "\<forall>q. allocated m3 q \<longleftrightarrow> allocated ?m2 q \<or> q \<in> set (fl_blocks m3 fs fr')"
    "\<forall>q \<in> set (fl_blocks m3 fs fr'). \<not> allocated ?m2 q" "heap_ok m3" "fl_rep m3 fs fr'"
    "\<forall>f \<in> set fr'. qu_elems m3 (fe_item m3 f) \<noteq> None" "qu_ready m3 fs"
    using b unfolding qu_backed.backed_def by (simp_all add: qu_ready_def, auto)
  have fs: "fs \<noteq> NULL" using bl(2) by (simp add: fl_blocks_def)
  obtain fst' where fst': "fl_states m3 fs = Some fst'" "chain (fe_link m3) (fst (fs_top fst')) (f # fr)"
    using bl(6) unfolding fr' by (rule fl_repE)
  then obtain fe where fe: "fl_elems m3 f = Some fe" "f \<noteq> NULL" "fst (fs_top fst') = f"
      "chain (fe_link m3) (fst (fe_next fe)) fr"
    by (auto simp: fe_link_def split: option.splits)
  let ?x = "fe_item m3 f"
  have x: "?x = fe_data fe" "?x \<noteq> NULL" using fe(1) bl(2) by (auto simp: fe_item_def fl_blocks_def fr')
  obtain e where e: "qu_elems m3 ?x = Some e" using bl(7) by (auto simp: fr')
  let ?c = "qs_aba_count st + 1 + 1"
  let ?m5 = "set_qe ?x \<lparr>qe_next = (NULL, ?c), qe_fe = f, qe_data = NULL\<rparr>
     (set_qs qs (st\<lparr>qs_fs := fs, qs_aba_count := ?c\<rparr>)
       (set_fs fs (fst'\<lparr>fs_top := fe_next fe\<rparr>) (set_qs qs (st\<lparr>qs_fs := fs\<rparr>) m3)))"
  let ?m6 = "set_qs qs (st\<lparr>qs_fs := fs, qs_aba_count := 0, qs_enqueue := (?x, 0), qs_dequeue := (?x, 0)\<rparr>) ?m5"
  have "queue_internal_new_element_from_freelist qs NULL (set_qs qs (st\<lparr>qs_fs := fs\<rparr>) m3) =
      Ok (Some (?x, qs_aba_count st + 1), ?m5)"
    using qs(1) fs fst'(1) fe e x(2)
    by (simp add: queue_internal_new_element_from_freelist_def freelist_pop_eq
        queue_internal_init_element_def freelist_get_data_def abstraction_increment_def x(1) Let_def)
  then have run: "queue_new n m = Ok (1, qs, ?m6)"
    using al(1) qs(1) new(1) fs states by (simp add: queue_new_def st_def Let_def)
  have maps: "fe_item ?m6 = fe_item m3" "qe_home ?m6 ?x = f" "qu_fs ?m6 qs = fs"
    by (auto simp: fe_item_def qe_home_def qu_fs_def fun_eq_iff)
  have blocks: "qu_blocks ?m6 qs [?x] fr = qs # fs # (f # fr) @ (?x # map (fe_item m3) fr)"
    unfolding qu_blocks_def maps(3) by (simp only: maps(1,2) list.map append_Cons append_Nil)
  then have setb: "set (qu_blocks ?m6 qs [?x] fr) = insert qs (set (fl_blocks m3 fs fr'))"
    by (auto simp: fl_blocks_def fr')
  have "fl_rep ?m6 fs fr" "qu_ready ?m6 fs"
    using fs fe(4) bl(8) fst'(1) by (auto simp: fl_rep_def qu_ready_def)
  then have inv: "qu_inv ?m6 qs [?x] fr"
    unfolding qu_inv_def maps(1)
    using qs(1) bl x fe e by (auto simp: fl_blocks_def fr' maps(2) qe_link_def qe_home_def)
  have qsn: "qs \<notin> set (fl_blocks m3 fs fr')" using bl(4) qs(3) by auto
  have "distinct (qu_blocks ?m6 qs [?x] fr)"
    unfolding blocks using bl(1) qsn by (auto simp: fl_blocks_def fr')
  moreover have "\<forall>q \<in> set (qu_blocks ?m6 qs [?x] fr). allocated ?m6 q"
    unfolding setb using bl(3) qs(3) by auto
  ultimately have "qu_owned ?m6 qs [?x] fr"
    unfolding qu_owned_def using inv bl(5) by simp
  moreover have "\<forall>q. allocated ?m6 q \<longleftrightarrow> allocated m q \<or> q \<in> set (qu_blocks ?m6 qs [?x] fr)"
    "\<forall>q \<in> set (qu_blocks ?m6 qs [?x] fr). \<not> allocated m q"
    unfolding setb using bl(3,4) qs by auto
  ultimately show ?thesis using that [OF run _ fr'(2)] new(3) by simp
qed

lemma qu_more_update:
  "qu_owned (qu_mem.more_update h m) qs us fr = qu_owned m qs us fr"
  "qu_blocks (qu_mem.more_update h m) qs us fr = qu_blocks m qs us fr"
  "allocated (qu_mem.more_update h m) = allocated m"
  "qe_item (qu_mem.more_update h m) = qe_item m"
proof -
  have *: "qe_link (qu_mem.more_update h m) = qe_link m" "fe_link (qu_mem.more_update h m) = fe_link m"
    "qe_item (qu_mem.more_update h m) = qe_item m" "qe_home (qu_mem.more_update h m) = qe_home m"
    "fe_item (qu_mem.more_update h m) = fe_item m" "qu_fs (qu_mem.more_update h m) qs = qu_fs m qs"
    "allocated (qu_mem.more_update h m) = allocated m" "heap_ok (qu_mem.more_update h m) = heap_ok m"
    by (auto simp: qe_link_def fe_link_def qe_item_def qe_home_def fe_item_def qu_fs_def
        allocated_def heap_ok_def fun_eq_iff)
  show "qu_blocks (qu_mem.more_update h m) qs us fr = qu_blocks m qs us fr"
    by (simp add: qu_blocks_def *)
  then show "qu_owned (qu_mem.more_update h m) qs us fr = qu_owned m qs us fr"
    unfolding qu_owned_def * qu_inv_def by (simp add: qu_ready_def fl_rep_def * split: option.split)
qed (auto simp: allocated_def qe_item_def fun_eq_iff)

lemma queue_drain_owned:
  fixes m :: "'a qu_mem_scheme"
  assumes call: "\<And>d m. (if f \<noteq> NULL then dcall f d state m else Ok m) = Ok (qu_mem.more_update (g d) m)"
    and own: "qu_owned m qs (x # us) fr"
  shows "\<exists>y fr' m'. cloop (queue_drain_body dcall qs f state) m = Ok m' \<and> qu_owned m' qs [y] fr' \<and>
    length fr' = length us + length fr \<and> allocated m' = allocated m \<and>
    mset (qu_blocks m' qs [y] fr') = mset (qu_blocks m qs (x # us) fr) \<and>
    qu_mem.more m' = fold g (map (qe_item m) us) (qu_mem.more m)"
  using own
proof (induction us arbitrary: m x fr)
  case Nil
  then have "qu_inv m qs [x] fr" by (simp add: qu_owned_def)
  then have "queue_drain_body dcall qs f state m = Ok (Done m)"
    by (simp add: queue_drain_body_def queue_dequeue_empty)
  with Nil show ?case by (intro exI [of _ x] exI [of _ fr] exI [of _ m]) simp
next
  case (Cons y us)
  obtain m1 where m1: "queue_dequeue qs m = Ok (1, Some (qe_item m y), m1)"
    "qu_owned m1 qs (y # us) (qe_home m x # fr)" "qe_item m1 = qe_item m" "qu_same qs m m1"
    "mset (qu_blocks m1 qs (y # us) (qe_home m x # fr)) = mset (qu_blocks m qs (x # y # us) fr)"
    using queue_dequeue_owned [OF Cons.prems] .
  let ?m2 = "qu_mem.more_update (g (qe_item m y)) m1"
  have "queue_drain_body dcall qs f state m = Ok (Again ?m2)"
    using m1(1) call [of "qe_item m y" m1] by (simp add: queue_drain_body_def)
  then have step: "cloop (queue_drain_body dcall qs f state) m = cloop (queue_drain_body dcall qs f state) ?m2"
    by (simp add: cloop_Again)
  have "qu_owned ?m2 qs (y # us) (qe_home m x # fr)" using m1(2) by (simp add: qu_more_update)
  from Cons.IH [OF this] obtain z fr' m' where
    m': "cloop (queue_drain_body dcall qs f state) ?m2 = Ok m'" "qu_owned m' qs [z] fr'"
    "length fr' = length us + length (qe_home m x # fr)" "allocated m' = allocated ?m2"
    "mset (qu_blocks m' qs [z] fr') = mset (qu_blocks ?m2 qs (y # us) (qe_home m x # fr))"
    "qu_mem.more m' = fold g (map (qe_item ?m2) us) (qu_mem.more ?m2)"
    by (elim exE conjE) (rule that)
  show ?case
  proof (intro exI conjI)
    show "cloop (queue_drain_body dcall qs f state) m = Ok m'" using step m'(1) by simp
    show "qu_owned m' qs [z] fr'" by (rule m'(2))
    show "qu_mem.more m' = fold g (map (qe_item m) (y # us)) (qu_mem.more m)"
      using m'(6) m1(3,4) by (simp add: qu_more_update qu_same_def)
  qed (use m'(3-5) m1(4,5) in \<open>simp_all add: qu_more_update qu_same_def\<close>)
qed

text \<open>Giving the dummy back: the freelist then owns every element.\<close>

lemma queue_dummy_back:
  fixes m :: "'a qu_mem_scheme"
  assumes own: "qu_owned m qs [y] fr"
  obtains st e m' where "qs \<noteq> NULL" "qu_states m qs = Some st" "qs_fs st = qu_fs m qs" "fst (qs_enqueue st) = y"
    "qu_elems m y = Some e" "freelist_push (qs_fs st) (qe_fe e) m = Ok m'"
    "qu_backed.disposable m' (qu_fs m qs) (qe_home m y # fr)" "allocated m' = allocated m"
    "set (qu_blocks m qs [y] fr) = insert qs (set (fl_blocks m' (qu_fs m qs) (qe_home m y # fr)))"
    "qs \<notin> set (fl_blocks m' (qu_fs m qs) (qe_home m y # fr))"
proof -
  let ?f = "qe_home m y"
  obtain st where qs: "qs \<noteq> NULL" and st: "qu_states m qs = Some st"
      "chain (qe_link m) (fst (qs_dequeue st)) [y]" "fst (qs_enqueue st) = y"
    and fl: "fl_rep m (qs_fs st) fr" and ok: "heap_ok m"
    using own unfolding qu_owned_def qu_inv_def by auto
  obtain g where g: "?f \<noteq> NULL" "fl_elems m ?f = Some g" "fe_data g = y"
    using own unfolding qu_owned_def qu_inv_def by auto
  obtain e where e: "qu_elems m y = Some e" using st(2) by (auto simp: qe_link_def split: option.splits)
  have fh: "qe_fe e = ?f" using e by (simp add: qe_home_def)
  have fsid: "qs_fs st = qu_fs m qs" using st(1) by (simp add: qu_fs_def)
  have dist: "distinct (qu_blocks m qs [y] fr)" "\<forall>q \<in> set (qu_blocks m qs [y] fr). allocated m q"
    using own by (simp_all add: qu_owned_def)
  have fnew: "?f \<notin> set fr" using dist(1) by (simp add: qu_blocks_def)
  obtain fs where fs: "qs_fs st \<noteq> NULL" "fl_states m (qs_fs st) = Some fs"
    "chain (fe_link m) (fst (fs_top fs)) fr" using fl by (rule fl_repE)
  let ?c = "fs_aba_counter fs + 1"
  let ?m' = "set_fs (qs_fs st) (fs\<lparr>fs_aba_counter := ?c, fs_top := (?f, ?c)\<rparr>)
               (set_fe ?f (g\<lparr>fe_next := fs_top fs\<rparr>) m)"
  have push: "freelist_push (qs_fs st) (qe_fe e) m = Ok ?m'"
    unfolding fh using fs g by (simp add: freelist_push_eq)
  have items: "fe_item ?m' = fe_item m" using g by (auto simp: fe_item_def fun_eq_iff)
  have fy: "fe_item m ?f = y" using g by (simp add: fe_item_def)
  have blocks: "fl_blocks ?m' (qu_fs m qs) (?f # fr) = qu_fs m qs # (?f # fr) @ (y # map (fe_item m) fr)"
    unfolding fl_blocks_def items by (simp add: fy)
  have mset: "mset (qu_blocks m qs [y] fr) = mset (qs # fl_blocks ?m' (qu_fs m qs) (?f # fr))"
    unfolding blocks by (simp add: qu_blocks_def)
  note sets = mset_eq_setD [OF mset] and d = mset_eq_imp_distinct_iff [OF mset]
  have "fl_rep ?m' (qs_fs st) (?f # fr)" using fs fnew g(1) by (simp add: fl_rep_def)
  then have "qu_backed.disposable ?m' (qu_fs m qs) (?f # fr)"
    unfolding qu_backed.disposable_def using ok dist d sets fsid by simp
  then show ?thesis
    using that [OF qs st(1) fsid st(3) e push] sets d dist(1) by simp
qed

lemma queue_delete_owned:
  fixes m :: "'a qu_mem_scheme"
  assumes call: "\<And>d m. (if f \<noteq> NULL then dcall f d state m else Ok m) = Ok (qu_mem.more_update (g d) m)"
    and own: "qu_owned m qs (x # us) fr"
  shows "\<exists>m'. queue_delete dcall qs f state m = Ok m' \<and>
    (\<forall>q. allocated m' q \<longleftrightarrow> allocated m q \<and> q \<notin> set (qu_blocks m qs (x # us) fr))"
proof -
  obtain y fr' m1 where m1: "cloop (queue_drain_body dcall qs f state) m = Ok m1" "qu_owned m1 qs [y] fr'"
    "allocated m1 = allocated m" "mset (qu_blocks m1 qs [y] fr') = mset (qu_blocks m qs (x # us) fr)"
    using queue_drain_owned [where dcall = dcall and f = f and g = g and state = state, OF call own]
    by (elim exE conjE) (rule that)
  obtain st e m2 where st: "qs \<noteq> NULL" "qu_states m1 qs = Some st" "qs_fs st = qu_fs m1 qs"
    "fst (qs_enqueue st) = y" "qu_elems m1 y = Some e" "freelist_push (qs_fs st) (qe_fe e) m1 = Ok m2"
    and m2: "qu_backed.disposable m2 (qu_fs m1 qs) (qe_home m1 y # fr')" "allocated m2 = allocated m1"
    "set (qu_blocks m1 qs [y] fr') = insert qs (set (fl_blocks m2 (qu_fs m1 qs) (qe_home m1 y # fr')))"
    "qs \<notin> set (fl_blocks m2 (qu_fs m1 qs) (qe_home m1 y # fr'))"
    using queue_dummy_back [OF m1(2)] .
  from qu_backed.freelist_delete_backed [OF m2(1)] obtain m3 where
    m3: "freelist_delete queue_dcall (qu_fs m1 qs) QUEUE_FREE NULL m2 = Ok m3" "heap_ok m3"
      "\<forall>r. allocated m3 r \<longleftrightarrow> allocated m2 r \<and> r \<notin> set (fl_blocks m2 (qu_fs m1 qs) (qe_home m1 y # fr'))"
    by (elim exE conjE) (rule that)
  have "allocated m1 qs" using m1(2) by (simp add: qu_owned_def qu_blocks_def)
  then have "allocated m3 qs" using m3(3) m2(2,4) by simp
  from free_qs_allocated [OF m3(2) this] obtain m4 where
    m4: "free_qs qs m3 = Ok m4" "\<forall>r. allocated m4 r \<longleftrightarrow> allocated m3 r \<and> r \<noteq> qs"
    by (elim exE conjE) (rule that)
  have "queue_delete dcall qs f state m = Ok m4"
    using m1(1) st m3(1) m4(1) by (simp add: queue_delete_def)
  moreover have "allocated m4 q \<longleftrightarrow> allocated m q \<and> q \<notin> set (qu_blocks m qs (x # us) fr)" for q
    using m4(2) m3(3) m2(2,3) m1(3) mset_eq_setD [OF m1(4)] by auto
  ultimately show ?thesis by auto
qed

section \<open>The queue as a bounded container\<close>

definition qu_live :: "addr \<Rightarrow> addr set \<Rightarrow> (addr \<Rightarrow> bool) \<Rightarrow> 'a qu_mem_scheme \<Rightarrow> addr list \<Rightarrow> nat \<Rightarrow> bool" where
  "qu_live qs B A m xs k \<longleftrightarrow> (\<exists>x us fr. qu_owned m qs (x # us) fr \<and> map (qe_item m) us = xs \<and> length fr = k \<and>
     set (qu_blocks m qs (x # us) fr) = B \<and> allocated m = A)"

lemma qu_liveI:
  "qu_owned m qs (x # us) fr \<Longrightarrow> map (qe_item m) us = xs \<Longrightarrow> length fr = k \<Longrightarrow>
     set (qu_blocks m qs (x # us) fr) = B \<Longrightarrow> allocated m = A \<Longrightarrow> qu_live qs B A m xs k"
  unfolding qu_live_def by (intro exI [of _ x] exI [of _ us] exI [of _ fr] conjI)

lemma qu_liveE:
  assumes "qu_live qs B A m xs k"
  obtains x us fr where "qu_owned m qs (x # us) fr" "map (qe_item m) us = xs" "length fr = k"
    "set (qu_blocks m qs (x # us) fr) = B" "allocated m = A"
  using assms unfolding qu_live_def by (elim exE conjE) (rule that)

interpretation qu: bounded_container "qu_live qs B A" "\<lambda>d xs. xs @ [d]" "Some NULL"
  "queue_enqueue qs" "queue_dequeue qs" for qs B A
proof
  fix m :: "'a qu_mem_scheme" and xs k d
  assume "qu_live qs B A m xs (Suc k)"
  then obtain x us fs where us: "qu_owned m qs (x # us) fs" "map (qe_item m) us = xs" "length fs = Suc k"
    "set (qu_blocks m qs (x # us) fs) = B" "allocated m = A" by (rule qu_liveE)
  then obtain f fr where fs: "fs = f # fr" "length fr = k" by (cases fs) auto
  obtain m' where m': "queue_enqueue qs d m = Ok (1, m')" "qu_owned m' qs ((x # us) @ [fe_item m f]) fr"
    "map (qe_item m') ((x # us) @ [fe_item m f]) = map (qe_item m) (x # us) @ [d]" "qu_same qs m m'"
    "mset (qu_blocks m' qs ((x # us) @ [fe_item m f]) fr) = mset (qu_blocks m qs (x # us) (f # fr))"
    using queue_enqueue_owned [OF us(1) [unfolded fs(1)]] .
  have "qu_live qs B A m' (xs @ [d]) k"
    using m' us fs mset_eq_setD [OF m'(5)]
    by (intro qu_liveI [where us = "us @ [fe_item m f]" and fr = fr and x = x]) (simp_all add: qu_same_def)
  with m'(1) show "\<exists>m'. queue_enqueue qs d m = Ok (1, m') \<and> qu_live qs B A m' (xs @ [d]) k"
    by (intro exI [of _ m'] conjI)
next
  fix m :: "'a qu_mem_scheme" and xs d
  assume live: "qu_live qs B A m xs 0"
  then obtain x us where "qu_owned m qs (x # us) []" by (auto elim: qu_liveE)
  then have "qu_inv m qs (x # us) []" by (simp add: qu_owned_def)
  then have "queue_enqueue qs d m = Ok (0, m)" by (rule queue_enqueue_full)
  with live show "\<exists>m'. queue_enqueue qs d m = Ok (0, m') \<and> qu_live qs B A m' xs 0"
    by (intro exI [of _ m] conjI)
next
  fix m :: "'a qu_mem_scheme" and d xs k
  assume "qu_live qs B A m (d # xs) k"
  then obtain x vs fr where vs: "qu_owned m qs (x # vs) fr" "map (qe_item m) vs = d # xs" "length fr = k"
    "set (qu_blocks m qs (x # vs) fr) = B" "allocated m = A" by (rule qu_liveE)
  then obtain y us where us: "vs = y # us" "qe_item m y = d" "map (qe_item m) us = xs" by (cases vs) auto
  obtain m' where m': "queue_dequeue qs m = Ok (1, Some (qe_item m y), m')"
    "qu_owned m' qs (y # us) (qe_home m x # fr)" "qe_item m' = qe_item m" "qu_same qs m m'"
    "mset (qu_blocks m' qs (y # us) (qe_home m x # fr)) = mset (qu_blocks m qs (x # y # us) fr)"
    using queue_dequeue_owned [OF vs(1) [unfolded us(1)]] .
  have "qu_live qs B A m' xs (Suc k)"
    using m' vs us mset_eq_setD [OF m'(5)]
    by (intro qu_liveI [where x = y and us = us and fr = "qe_home m x # fr"]) (simp_all add: qu_same_def)
  with m'(1) us(2) show "\<exists>m'. queue_dequeue qs m = Ok (1, Some d, m') \<and> qu_live qs B A m' xs (Suc k)"
    by (intro exI [of _ m'] conjI) simp_all
next
  fix m :: "'a qu_mem_scheme" and k
  assume live: "qu_live qs B A m [] k"
  then obtain x fr where "qu_owned m qs [x] fr" by (auto elim: qu_liveE)
  then have "qu_inv m qs [x] fr" by (simp add: qu_owned_def)
  then have "queue_dequeue qs m = Ok (0, Some NULL, m)" by (rule queue_dequeue_empty)
  with live show "\<exists>m'. queue_dequeue qs m = Ok (0, Some NULL, m') \<and> qu_live qs B A m' [] k"
    by (intro exI [of _ m] conjI)
qed

section \<open>A concrete queue\<close>

definition qu_demo :: qu_mem where
  "qu_demo = \<lparr>m_script = [16, 112, 208, 304, 400, 496, 592, 688], m_live = [], m_hdr = (\<lambda>p. None),
     m_junk = (\<lambda>p. 255), fl_states = (\<lambda>p. None), fl_elems = (\<lambda>p. None),
     qu_states = (\<lambda>p. None), qu_elems = (\<lambda>p. None)\<rparr>"

lemma qu_demo_heap: "heap_ok qu_demo" "enough_mem 8 qu_demo"
  by (simp_all add: heap_ok_def qu_demo_def good_block_def)

definition qu_demo_full :: qu_mem where
  "qu_demo_full = \<lparr>m_script = [], m_live = [], m_hdr = (\<lambda>p. None), m_junk = (\<lambda>p. 255),
     fl_states = [128 \<mapsto> \<lparr>fs_top = (NULL, 0), fs_init_func = QUEUE_INIT, fs_state = NULL,
                          fs_aba_counter = 2, fs_element_count = 2\<rparr>],
     fl_elems = [224 \<mapsto> \<lparr>fe_next = (NULL, 0), fe_data = 320\<rparr>,
                 416 \<mapsto> \<lparr>fe_next = (224, 1), fe_data = 512\<rparr>],
     qu_states = [32 \<mapsto> \<lparr>qs_enqueue = (320, 32), qs_dequeue = (512, 0), qs_aba_count = 32, qs_fs = 128\<rparr>],
     qu_elems = [512 \<mapsto> \<lparr>qe_next = (320, 32), qe_fe = 416, qe_data = NULL\<rparr>,
                 320 \<mapsto> \<lparr>qe_next = (NULL, 0), qe_fe = 224, qe_data = 8\<rparr>]\<rparr>"

section \<open>Validation\<close>

text \<open>
  The mirrored bounds of the freelist, subtractions of 64-bit words included that wrap when a
  bound exceeds the total number of elements.
\<close>

lemma mirrored_limit:
  fixes w k :: nat and x :: u64
  assumes "w + k < 2 ^ 64"
  shows "of_nat k < of_nat (w + k) - x \<longleftrightarrow> of_nat (w + k) < x \<or> x < of_nat w"
    and "of_nat (w + k) - x < of_nat k \<longleftrightarrow> x \<le> of_nat (w + k) \<and> of_nat w < x"
proof -
  have u: "unat (of_nat (w + k) :: u64) = w + k" "unat (of_nat w :: u64) = w" "unat (of_nat k :: u64) = k"
    using assms by (simp_all add: unat_of_nat take_bit_nat_eq_self del: of_nat_add)
  have x: "unat x < 2 ^ 64" using unsigned_less [of x, where 'a = nat] by simp
  have sub: "unat (of_nat (w + k) - x) = (if unat x \<le> w + k then w + k - unat x else 2 ^ 64 + (w + k) - unat x)"
    using u(1) x by (auto simp: unat_sub_if_size word_le_nat_alt word_size simp del: of_nat_add)
  show "of_nat k < of_nat (w + k) - x \<longleftrightarrow> of_nat (w + k) < x \<or> x < of_nat w"
    "of_nat (w + k) - x < of_nat k \<longleftrightarrow> x \<le> of_nat (w + k) \<and> of_nat w < x"
    unfolding word_less_nat_alt word_le_nat_alt sub u using x assms by auto
qed

lemma mirrored_bounds:
  fixes v :: validation_info and w k :: nat
  assumes "w + k < 2 ^ 64"
  shows "bounds_verdict \<lparr>min_element = of_nat (w + k) - max_element v, max_element = of_nat (w + k) - min_element v\<rparr>
      (of_nat k) VALIDITY_VALID =
    (if min_element v \<le> of_nat (w + k) \<and> of_nat w < min_element v then VALIDITY_INVALID_ADDITIONAL_ELEMENTS
     else if of_nat (w + k) < max_element v \<or> max_element v < of_nat w then VALIDITY_INVALID_MISSING_ELEMENTS
     else VALIDITY_VALID)"
  unfolding bounds_verdict_def Let_def validation_info.simps mirrored_limit [OF assms] by simp

section \<open>Properties\<close>

text \<open>
  C12. The queue is a bounded first-in-first-out container. \<open>queue_new\<close> of \<open>n\<close> elements (in a
  heap that can satisfy the allocations) gives an empty queue on which every sequence of
  \<open>queue_enqueue\<close> and \<open>queue_dequeue\<close> returns what it returns on a list with \<open>n\<close> free places,
  where words are put at the end and taken from the front. Whatever the sequence was,
  \<open>queue_delete\<close> then frees every block that the queue has allocated and no other.
\<close>

theorem queue_sequences:
  assumes "heap_ok m" and "enough_mem (4 + 2 * unat n) m" and "n \<noteq> - 1"
    and "\<And>d m. (if f \<noteq> NULL then dcall f d state m else Ok m) = Ok (qu_mem.more_update (g d) m)"
  shows "\<exists>qs m1. queue_new n m = Ok (1, qs, m1) \<and>
    (\<forall>ops. \<exists>m2 m3. container_run (queue_enqueue qs) (queue_dequeue qs) ops m1 =
         Ok (fst (container_spec (\<lambda>d xs. xs @ [d]) (Some NULL) ops [] (unat n)), m2) \<and>
       queue_delete dcall qs f state m2 = Ok m3 \<and> (\<forall>q. allocated m3 q = allocated m q))"
proof -
  have "4 + 2 * unat n = Suc (Suc (2 * Suc (unat n) + 0))" by simp
  with assms(2) have "enough_mem (Suc (Suc (2 * Suc (unat n) + 0))) m" by (simp only:)
  from queue_new_owned [OF assms(1) this assms(3)] obtain qs x fr m1 where
    new: "queue_new n m = Ok (1, qs, m1)" "qu_owned m1 qs [x] fr" "length fr = unat n"
    and al: "\<forall>q. allocated m1 q \<longleftrightarrow> allocated m q \<or> q \<in> set (qu_blocks m1 qs [x] fr)"
      "\<forall>q \<in> set (qu_blocks m1 qs [x] fr). \<not> allocated m q" .
  let ?B = "set (qu_blocks m1 qs [x] fr)"
  have live: "qu_live qs ?B (allocated m1) m1 [] (unat n)"
    using new by (intro qu_liveI) simp_all
  have "\<exists>m2 m3. container_run (queue_enqueue qs) (queue_dequeue qs) ops m1 =
         Ok (fst (container_spec (\<lambda>d xs. xs @ [d]) (Some NULL) ops [] (unat n)), m2) \<and>
       queue_delete dcall qs f state m2 = Ok m3 \<and> (\<forall>q. allocated m3 q = allocated m q)" for ops
  proof -
    obtain rs ys j m2 where run: "container_spec (\<lambda>d xs. xs @ [d]) (Some NULL) ops [] (unat n) = (rs, ys, j)"
      "container_run (queue_enqueue qs) (queue_dequeue qs) ops m1 = Ok (rs, m2)"
      and live2: "qu_live qs ?B (allocated m1) m2 ys j"
      using qu.container_run_refines [OF live, of ops] by (elim exE conjE) (rule that)
    obtain x2 us2 fr2 where own: "qu_owned m2 qs (x2 # us2) fr2" "set (qu_blocks m2 qs (x2 # us2) fr2) = ?B"
      "allocated m2 = allocated m1" using live2 by (rule qu_liveE)
    obtain m3 where "queue_delete dcall qs f state m2 = Ok m3"
      "\<forall>q. allocated m3 q \<longleftrightarrow> allocated m2 q \<and> q \<notin> set (qu_blocks m2 qs (x2 # us2) fr2)"
      using queue_delete_owned [where dcall = dcall and f = f and g = g and state = state, OF assms(4) own(1)]
      by (elim exE conjE) (rule that)
    then show ?thesis using run own(2,3) al by auto
  qed
  with new(1) show ?thesis by auto
qed

theorem queue_sequences_witness:
  "\<exists>qs m1. queue_new 2 qu_demo = Ok (1, qs, m1) \<and>
    (\<exists>m2 m3. container_run (queue_enqueue qs) (queue_dequeue qs) [Put 7, Put 8, Put 9, Get, Put 5, Get, Get, Get] m1 =
         Ok ([(1, None), (1, None), (0, None), (1, Some 7), (1, None), (1, Some 8), (1, Some 5), (0, Some NULL)], m2) \<and>
       queue_delete (\<lambda>f d st m. Ok m) qs NULL NULL m2 = Ok m3 \<and> (\<forall>q. allocated m3 q = allocated qu_demo q))"
proof -
  have "(if (NULL :: addr) \<noteq> NULL then Ok m else Ok m) = Ok (qu_mem.more_update ((\<lambda>d x. x) d) m)"
    for d :: addr and m :: qu_mem by simp
  from queue_sequences [where m = qu_demo and n = 2 and f = NULL and dcall = "\<lambda>f d st m. Ok m"
      and state = NULL and g = "\<lambda>d x. x", OF qu_demo_heap(1)] this
  obtain qs m1 where new: "queue_new 2 qu_demo = Ok (1, qs, m1)"
    and all: "\<forall>ops. \<exists>m2 m3. container_run (queue_enqueue qs) (queue_dequeue qs) ops m1 =
         Ok (fst (container_spec (\<lambda>d xs. xs @ [d]) (Some NULL) ops [] 2), m2) \<and>
       queue_delete (\<lambda>f d st m. Ok m) qs NULL NULL m2 = Ok m3 \<and> (\<forall>q. allocated m3 q = allocated qu_demo q)"
    using qu_demo_heap(2) by auto
  show ?thesis
    using new spec [OF all, of "[Put 7, Put 8, Put 9, Get, Put 5, Get, Get, Get]"] by (simp add: numeral_2_eq_2)
qed

text \<open>
  \<open>queue_query\<close> can never count: with any queue, any input and any output pointer, the
  element count ends in a failed assertion, because the source asserts first that \<open>output\<close> is
  not NULL and then that it is.
\<close>

theorem queue_query_count_asserts:
  "queue_query qs QUEUE_QUERY_ELEMENT_COUNT input outp m = Fault AssertFail"
  by (simp add: queue_query_def c_assert_def)

text \<open>
  C13. The two verdicts of validation of a well-formed queue, for all bounds, with \<open>n\<close>
  queued words (the dummy is not counted) and \<open>t\<close> elements in all. Without bounds both
  are valid. With bounds the first compares \<open>n\<close> with them. The second, on the freelist,
  has the bounds \<open>t - max\<close> and \<open>t - min\<close>, computed modulo 2^64: elements are
  additional there exactly when the words are fewer than a \<open>min\<close> of at most
  \<open>t\<close>, and otherwise missing exactly when the words are more than \<open>max\<close> or
  \<open>max\<close> exceeds \<open>t\<close>. In the last case the subtraction wraps and a queue within
  its bounds is reported as damaged.
\<close>

theorem queue_validate_verdicts:
  assumes "qu_inv m qs (x # us) fr" and "list_heap (qe_link m)" and "list_heap (fe_link m)" and "outp \<noteq> NULL"
    and "fl_states m (qu_fs m qs) = Some fst'" and "fs_element_count fst' = of_nat (Suc (length us + length fr))"
    and "length us + length fr < 2 ^ 64"
  shows "queue_query qs QUEUE_QUERY_VALIDATE vi outp m =
    Ok (case vi of None \<Rightarrow> QValidity VALIDITY_VALID VALIDITY_VALID
        | Some v \<Rightarrow> let n = of_nat (length us); t = of_nat (length us + length fr) in
            QValidity
              (if n > max_element v then VALIDITY_INVALID_ADDITIONAL_ELEMENTS
               else if n < min_element v then VALIDITY_INVALID_MISSING_ELEMENTS else VALIDITY_VALID)
              (if min_element v \<le> t \<and> n < min_element v then VALIDITY_INVALID_ADDITIONAL_ELEMENTS
               else if t < max_element v \<or> max_element v < n then VALIDITY_INVALID_MISSING_ELEMENTS
               else VALIDITY_VALID))"
proof -
  obtain st where st: "qs \<noteq> NULL" "qu_states m qs = Some st" "chain (qe_link m) (fst (qs_dequeue st)) (x # us)"
    and fl: "fl_rep m (qs_fs st) fr" using assms(1) unfolding qu_inv_def by auto
  have fs: "qs_fs st \<noteq> NULL" "fl_states m (qs_fs st) = Some fst'"
    using fl st(2) assms(5) by (simp_all add: fl_rep_def qu_fs_def)
  have fv: "freelist_query (qs_fs st) FREELIST_QUERY_VALIDATE w m = Ok (Validity (case w of None \<Rightarrow> VALIDITY_VALID
        | Some v \<Rightarrow> bounds_verdict v (of_nat (length fr)) VALIDITY_VALID))" for w
    using freelist_validate_chain [OF assms(3) fl, of w] fs by (simp add: freelist_query_def)
  have count: "freelist_query (qs_fs st) FREELIST_QUERY_ELEMENT_COUNT None m = Ok (Count (of_nat (Suc (length us + length fr))))"
    using fs assms(6) by (simp add: freelist_query_def)
  have cyc: "find_cycle (qe_link m) (fst (qs_dequeue st)) = Ok (NULL, NULL)"
    by (rule find_cycle_chain [OF assms(2) st(3)])
  note simps = queue_query_def queue_internal_validate_def cycle_verdict_def query_validity_def
  show ?thesis
  proof (cases vi)
    case (Some v)
    note mirror = mirrored_bounds [OF assms(7), of v, unfolded of_nat_add]
    have words: "bounds_verdict v (of_nat (length us)) VALIDITY_VALID =
      (if of_nat (length us) > max_element v then VALIDITY_INVALID_ADDITIONAL_ELEMENTS
       else if of_nat (length us) < min_element v then VALIDITY_INVALID_MISSING_ELEMENTS else VALIDITY_VALID)"
      by (simp add: bounds_verdict_def)
    show ?thesis
      using Some st cyc fv count count_elements_chain [OF st(3)] mirror words assms(4)
      by (simp add: simps query_count_def Let_def)
  qed (use st cyc fv assms(4) in \<open>simp add: simps\<close>)
qed

theorem queue_validate_verdicts_witness:
  "queue_query 32 QUEUE_QUERY_VALIDATE (Some \<lparr>min_element = 0, max_element = 0\<rparr>) 8 qu_demo_full =
     Ok (QValidity VALIDITY_INVALID_ADDITIONAL_ELEMENTS VALIDITY_INVALID_MISSING_ELEMENTS)
   \<and> queue_query 32 QUEUE_QUERY_VALIDATE (Some \<lparr>min_element = 0, max_element = 5\<rparr>) 8 qu_demo_full =
     Ok (QValidity VALIDITY_VALID VALIDITY_INVALID_MISSING_ELEMENTS)"
proof -
  have inv: "qu_inv qu_demo_full 32 [512, 320] []"
    by (simp add: qu_inv_def qe_home_def)
      (simp add: qu_demo_full_def fl_rep_def qu_ready_def qe_link_def)
  have "qe_link qu_demo_full = [320 \<mapsto> NULL, 512 \<mapsto> 320]" "fe_link qu_demo_full = [224 \<mapsto> NULL, 416 \<mapsto> 224]"
    by (auto simp: qe_link_def fe_link_def qu_demo_full_def fun_eq_iff)
  then have "list_heap (qe_link qu_demo_full)" "list_heap (fe_link qu_demo_full)"
    by (auto simp: list_heap_def)
  from queue_validate_verdicts [OF inv this, of 8 _ "Some \<lparr>min_element = 0, max_element = 0\<rparr>"]
    queue_validate_verdicts [OF inv this, of 8 _ "Some \<lparr>min_element = 0, max_element = 5\<rparr>"]
  show ?thesis by (simp add: qu_demo_full_def qu_fs_def)
qed

text \<open>
  \<open>queue_new\<close> survives a failed allocation of its own state or of its freelist's: it
  returns 0 and a NULL queue, and no block is left allocated.
\<close>

theorem queue_new_out_of_memory:
  fixes m :: "'a qu_mem_scheme"
  assumes "heap_ok m"
    and "m_script m = [] \<or> (\<exists>p. m_script m = [p] \<and> good_block p \<and> p \<notin> set (m_live m))"
  shows "\<exists>m'. queue_new n m = Ok (0, NULL, m') \<and> (\<forall>q. allocated m' q = allocated m q)"
  using assms(2)
proof
  assume "m_script m = []"
  then show ?thesis by (simp add: queue_new_def aligned_malloc_fails allocated_def)
next
  assume "\<exists>p. m_script m = [p] \<and> good_block p \<and> p \<notin> set (m_live m)"
  then have en: "enough_mem (Suc 0) m" and one: "length (m_script m) = 1" by auto
  obtain qs m1 where al: "aligned_malloc 48 LF_ALIGN_DOUBLE_POINTER m = (qs, m1)" "fresh_block qs m m1"
    "heap_ok m1"
    using aligned_malloc_enough [OF assms(1) _ en, where al = LF_ALIGN_DOUBLE_POINTER and sz = 48] by auto
  have script: "m_script m1 = []"
    using al(1) one by (cases "m_script m")
      (auto simp: aligned_malloc_def abstraction_malloc_def malloc_def Let_def split: if_splits)
  have qs: "qs \<noteq> NULL" "allocated m1 qs" "\<forall>r. allocated m1 r \<longleftrightarrow> allocated m r \<or> r = qs" "\<not> allocated m qs"
    using al(2) by (auto simp: fresh_block_def)
  define m2 where "m2 = set_qs qs \<lparr>qs_enqueue = (m_junk m qs, m_junk m (qs + 8)),
      qs_dequeue = (m_junk m (qs + 16), m_junk m (qs + 24)), qs_aba_count = m_junk m (qs + 32), qs_fs = NULL\<rparr> m1"
  have "heap_ok (m2\<lparr>m_script := []\<rparr>)" "allocated (m2\<lparr>m_script := []\<rparr>) qs"
    using al(3) qs(2) by (simp_all add: m2_def)
  from free_qs_allocated [OF this] obtain m3 where m3: "free_qs qs (m2\<lparr>m_script := []\<rparr>) = Ok m3"
    "\<forall>r. allocated m3 r \<longleftrightarrow> allocated (m2\<lparr>m_script := []\<rparr>) r \<and> r \<noteq> qs" by auto
  then have "\<forall>r. allocated m3 r = allocated m r" using qs by (auto simp: m2_def)
  moreover have "freelist_new queue_icall k QUEUE_INIT NULL m' = Ok (0, NULL, m'\<lparr>m_script := []\<rparr>)"
    if "m_script m' = []" for k and m' :: "'a qu_mem_scheme"
    using that by (simp add: freelist_new_def aligned_malloc_fails)
  moreover have "set_qs qs a ((set_qs qs b m1)\<lparr>m_script := []\<rparr>) = (set_qs qs a m1)\<lparr>m_script := []\<rparr>" for a b
    by (simp add: set_qs_def)
  ultimately show ?thesis
    using al(1) qs(1) script m3(1) by (simp add: queue_new_def Let_def m2_def)
qed

theorem queue_new_out_of_memory_witness:
  "(\<exists>m'. queue_new 2 (qu_demo\<lparr>m_script := []\<rparr>) = Ok (0, NULL, m') \<and> (\<forall>q. \<not> allocated m' q)) \<and>
   (\<exists>m'. queue_new 2 (qu_demo\<lparr>m_script := [16]\<rparr>) = Ok (0, NULL, m') \<and> (\<forall>q. \<not> allocated m' q))"
  using queue_new_out_of_memory [of "qu_demo\<lparr>m_script := []\<rparr>"] queue_new_out_of_memory [of "qu_demo\<lparr>m_script := [16]\<rparr>"]
  by (simp add: qu_demo_def heap_ok_def good_block_def allocated_def)

end
