(* ===== verification/Ringbuffer.thy ===== *)
theory Ringbuffer
  imports Queue
begin

text \<open>
  basic/lf_ringbuffer.c and lf_ringbuffer.h: a ring buffer made of a freelist of elements to
  write to and a queue of elements to read. Every function of the file as it runs without
  interference.
\<close>

section \<open>Data\<close>

record ringbuffer_state =
  rb_qs :: addr
  rb_fs :: addr

record rb_mem = qu_mem +
  rb_states :: "addr \<Rightarrow> ringbuffer_state option"

datatype ringbuffer_query_type = RINGBUFFER_QUERY_VALIDATE

definition set_rs :: "addr \<Rightarrow> ringbuffer_state \<Rightarrow> 'a rb_mem_scheme \<Rightarrow> 'a rb_mem_scheme" where
  "set_rs rs st m = m\<lparr>rb_states := (rb_states m)(rs \<mapsto> st)\<rparr>"

definition free_rs :: "addr \<Rightarrow> 'a rb_mem_scheme \<Rightarrow> 'a rb_mem_scheme res" where
  "free_rs p m = call (aligned_free p m) (\<lambda>m'. Ok (m'\<lparr>rb_states := (rb_states m')(p := None)\<rparr>))"

section \<open>Operations\<close>

text \<open>
  \<open>ringbuffer_new\<close>: returns \<open>(rv, *rs, m)\<close>. The parameter \<open>number_elements\<close> is declared as a
  pointer and handed on as a number, so the address itself is the number of elements. After a
  failed \<open>queue_new\<close> the source frees \<open>*rs\<close>, sets it to NULL and reads \<open>(*rs)->fs\<close>; after a
  failed \<open>freelist_new\<close> that read comes first.
\<close>

definition ringbuffer_new ::
  "'a rb_mem_scheme init_calls \<Rightarrow> addr \<Rightarrow> addr \<Rightarrow> addr \<Rightarrow> 'a rb_mem_scheme \<Rightarrow>
     (u64 \<times> addr \<times> 'a rb_mem_scheme) res" where
  "ringbuffer_new icall number_elements init_func state m =
     (case aligned_malloc 16 LF_ALIGN_DOUBLE_POINTER m of (rs, m1) \<Rightarrow>
        if rs = NULL then Ok (0, NULL, m1)
        else
          let m2 = set_rs rs \<lparr>rb_qs = m_junk m rs, rb_fs = m_junk m (rs + 8)\<rparr> m1 in
          call (freelist_new icall number_elements init_func state m2) (\<lambda>(_, fs, m3).
          deref (rb_states m3) rs (\<lambda>st3.
            let m4 = set_rs rs (st3\<lparr>rb_fs := fs\<rparr>) m3 in
            call
              (if fs \<noteq> NULL then
                 call (queue_new number_elements m4) (\<lambda>(_, qs, m5).
                 deref (rb_states m5) rs (\<lambda>st5.
                   let m6 = set_rs rs (st5\<lparr>rb_qs := qs\<rparr>) m5;
                       rv = (if rb_fs st5 \<noteq> NULL then 1 else 0) in
                   if qs = NULL then call (free_rs rs m6) (\<lambda>m7. Ok (rv, NULL, m7))
                   else Ok (rv, rs, m6)))
               else Ok (0, rs, m4)) (\<lambda>(rv, rs', m8).
            deref (rb_states m8) rs' (\<lambda>st8.
              if rb_fs st8 = NULL then call (free_rs rs' m8) (\<lambda>m9. Ok (rv, NULL, m9))
              else Ok (rv, rs', m8))))))"

definition ringbuffer_delete ::
  "'a rb_mem_scheme delete_calls \<Rightarrow> addr \<Rightarrow> addr \<Rightarrow> addr \<Rightarrow> 'a rb_mem_scheme \<Rightarrow> 'a rb_mem_scheme res" where
  "ringbuffer_delete dcall rs delete_func state m =
     c_assert (rs \<noteq> NULL)
       (deref (rb_states m) rs (\<lambda>st.
        call (queue_delete dcall (rb_qs st) NULL NULL m) (\<lambda>m1.
        deref (rb_states m1) rs (\<lambda>st1.
        call (freelist_delete dcall (rb_fs st1) delete_func state m1) (\<lambda>m2.
        free_rs rs m2)))))"

text \<open>\<open>ringbuffer_get_read\<close>: \<open>fe0\<close> is the value of \<open>*fe\<close> before the call; returns \<open>(*fe, m)\<close>.\<close>

definition ringbuffer_get_read ::
  "addr \<Rightarrow> addr \<Rightarrow> 'a rb_mem_scheme \<Rightarrow> (addr \<times> 'a rb_mem_scheme) res" where
  "ringbuffer_get_read rs fe0 m =
     c_assert (rs \<noteq> NULL)
       (deref (rb_states m) rs (\<lambda>st.
        call (queue_dequeue (rb_qs st) m) (\<lambda>(rv, data, m1).
          Ok (case data of None \<Rightarrow> fe0 | Some d \<Rightarrow> d, m1))))"

text \<open>
  \<open>ringbuffer_get_write\<close>: \<open>flag\<close> is whether \<open>overwrite_flag\<close> is not NULL; returns
  \<open>(*fe, *overwrite_flag, m)\<close>. The loop goes round until an element turns up.
\<close>

definition ringbuffer_get_write_body ::
  "addr \<Rightarrow> bool \<Rightarrow> 'a rb_mem_scheme \<Rightarrow> ('a rb_mem_scheme, addr \<times> u64 option \<times> 'a rb_mem_scheme) ctl res" where
  "ringbuffer_get_write_body rs flag m =
     deref (rb_states m) rs (\<lambda>st.
     let ow = (if flag then Some 0 else None) in
     call (freelist_pop (rb_fs st) m) (\<lambda>(fe, m1).
       if fe = NULL then
         call (ringbuffer_get_read rs fe m1) (\<lambda>(fe', m2).
           let ow' = (if flag \<and> fe' \<noteq> NULL then Some 1 else ow) in
           if fe' = NULL then Ok (Again m2) else Ok (Done (fe', ow', m2)))
       else Ok (Done (fe, ow, m1))))"

definition ringbuffer_get_write ::
  "addr \<Rightarrow> bool \<Rightarrow> 'a rb_mem_scheme \<Rightarrow> (addr \<times> u64 option \<times> 'a rb_mem_scheme) res" where
  "ringbuffer_get_write rs flag m =
     c_assert (rs \<noteq> NULL) (cloop (ringbuffer_get_write_body rs flag) m)"

definition ringbuffer_put_read :: "addr \<Rightarrow> addr \<Rightarrow> 'a rb_mem_scheme \<Rightarrow> 'a rb_mem_scheme res" where
  "ringbuffer_put_read rs fe m =
     c_assert (rs \<noteq> NULL) (c_assert (fe \<noteq> NULL)
       (deref (rb_states m) rs (\<lambda>st. freelist_push (rb_fs st) fe m)))"

definition ringbuffer_put_write :: "addr \<Rightarrow> addr \<Rightarrow> 'a rb_mem_scheme \<Rightarrow> 'a rb_mem_scheme res" where
  "ringbuffer_put_write rs fe m =
     c_assert (rs \<noteq> NULL) (c_assert (fe \<noteq> NULL)
       (deref (rb_states m) rs (\<lambda>st. call (queue_enqueue (rb_qs st) fe m) (\<lambda>(rv, m1). Ok m1))))"

text \<open>
  \<open>ringbuffer_internal_validate\<close>: returns \<open>(qv[0], qv[1])\<close>, the two verdicts that the query on
  the queue writes, and \<open>*fv\<close>. The verdicts are 4 bytes each.
\<close>

definition ringbuffer_internal_validate ::
  "addr \<Rightarrow> validation_info option \<Rightarrow> addr \<Rightarrow> addr \<Rightarrow> 'a rb_mem_scheme \<Rightarrow>
     (queue_query_output \<times> data_structure_validity) res" where
  "ringbuffer_internal_validate rs vi qv fvp m =
     c_assert (rs \<noteq> NULL) (c_assert (qv \<noteq> NULL) (c_assert (fvp \<noteq> NULL)
       (deref (rb_states m) rs (\<lambda>st.
        call (queue_query (rb_qs st) QUEUE_QUERY_VALIDATE vi qv m) (\<lambda>q.
          case vi of
            None \<Rightarrow>
              call (freelist_query (rb_fs st) FREELIST_QUERY_VALIDATE None m) (\<lambda>f.
              call (query_validity f) (\<lambda>fv. Ok (q, fv)))
          | Some v \<Rightarrow>
              call (freelist_query (rb_fs st) FREELIST_QUERY_ELEMENT_COUNT None m) (\<lambda>c.
              call (query_count c) (\<lambda>total_element.
                let fvi = \<lparr>min_element = total_element - max_element v,
                           max_element = total_element - min_element v\<rparr> in
                call (freelist_query (rb_fs st) FREELIST_QUERY_VALIDATE (Some fvi) m) (\<lambda>f.
                call (query_validity f) (\<lambda>fv. Ok (q, fv))))))))))"

definition ringbuffer_query ::
  "addr \<Rightarrow> ringbuffer_query_type \<Rightarrow> validation_info option \<Rightarrow> addr \<Rightarrow> 'a rb_mem_scheme \<Rightarrow>
     (queue_query_output \<times> data_structure_validity) res" where
  "ringbuffer_query rs query_type input outp m =
     c_assert (rs \<noteq> NULL) (c_assert (outp \<noteq> NULL)
       (case query_type of RINGBUFFER_QUERY_VALIDATE \<Rightarrow> ringbuffer_internal_validate rs input outp (outp + 8) m))"

definition ringbuffer_use :: "addr \<Rightarrow> 'a rb_mem_scheme \<Rightarrow> 'a rb_mem_scheme res" where
  "ringbuffer_use rs m = c_assert (rs \<noteq> NULL) (Ok m)"

section \<open>Memory\<close>

lemma set_rs_sel [simp]:
  "rb_states (set_rs rs st m) = (rb_states m)(rs \<mapsto> st)"
  "qu_states (set_rs rs st m) = qu_states m" "qu_elems (set_rs rs st m) = qu_elems m"
  "fl_states (set_rs rs st m) = fl_states m" "fl_elems (set_rs rs st m) = fl_elems m"
  "rb_states (set_fs fs x m) = rb_states m" "rb_states (set_fe fe y m) = rb_states m"
  by (simp_all add: set_rs_def set_fs_def set_fe_def)

lemma qu_rb_states: "qu_mem.more m' = qu_mem.more m \<Longrightarrow> rb_states m' = rb_states m"
  by (cases m, cases m', simp)

text \<open>What the invariant of a queue reads of the memory.\<close>

lemma qu_inv_frame:
  assumes inv: "qu_inv m qs us fr" and q: "qu_states m' qs = qu_states m qs" "qu_elems m' = qu_elems m"
    and s: "fl_states m' (qu_fs m qs) = fl_states m (qu_fs m qs)"
    and e: "\<And>f. f \<in> qe_home m ` set us \<union> set fr \<Longrightarrow> fl_elems m' f = fl_elems m f"
  shows "qu_inv m' qs us fr"
proof -
  obtain st where st: "qs \<noteq> NULL" "us \<noteq> []" "qu_states m qs = Some st"
    "chain (qe_link m) (fst (qs_dequeue st)) us" "fst (qs_enqueue st) = last us"
    "fl_rep m (qs_fs st) fr" "qu_ready m (qs_fs st)" "distinct (us @ map (fe_item m) fr)"
    and us: "\<forall>x \<in> set us. qe_home m x \<noteq> NULL \<and> (\<exists>f. fl_elems m (qe_home m x) = Some f \<and> fe_data f = x)"
    and fr: "\<forall>f \<in> set fr. fe_item m f \<noteq> NULL \<and> qu_elems m (fe_item m f) \<noteq> None"
    using inv unfolding qu_inv_def by blast
  have fs: "qu_fs m qs = qs_fs st" using st(3) by (simp add: qu_fs_def)
  have eqs: "qe_link m' = qe_link m" "qe_home m' = qe_home m"
    using q(2) by (simp_all add: qe_link_def qe_home_def fun_eq_iff)
  have it: "\<And>f. f \<in> set fr \<Longrightarrow> fe_item m' f = fe_item m f" "map (fe_item m') fr = map (fe_item m) fr"
    using e by (simp_all add: fe_item_def)
  have "fl_rep m (qs_fs st) fr = fl_rep m' (qs_fs st) fr"
    using s e fs by (intro fl_rep_cong) (auto simp: fe_link_def)
  moreover have "qu_ready m' (qs_fs st)" using st(7) s fs by (simp add: qu_ready_def)
  moreover have "\<forall>x \<in> set us. \<exists>f. fl_elems m' (qe_home m x) = Some f \<and> fe_data f = x" using us e by simp
  ultimately show ?thesis
    unfolding qu_inv_def eqs it(2) using st us fr q it(1) by auto
qed

section \<open>Representation\<close>

text \<open>
  \<open>rb_inv m rs hs x us qfr fr\<close>: the ring buffer at \<open>rs\<close> has \<open>hs\<close> in the hands of its clients,
  the queue elements \<open>us\<close> behind the dummy \<open>x\<close> (their words are the elements to read, oldest
  first), the elements \<open>fr\<close> to write to, and \<open>qfr\<close> spare elements of the queue. The queue has
  room for all elements.
\<close>

definition rb_elems :: "'a rb_mem_scheme \<Rightarrow> addr list \<Rightarrow> addr list \<Rightarrow> addr list \<Rightarrow> addr list" where
  "rb_elems m hs us fr = hs @ map (qe_item m) us @ fr"

definition rb_inv ::
  "'a rb_mem_scheme \<Rightarrow> addr \<Rightarrow> addr list \<Rightarrow> addr \<Rightarrow> addr list \<Rightarrow> addr list \<Rightarrow> addr list \<Rightarrow> bool" where
  "rb_inv m rs hs x us qfr fr \<longleftrightarrow> rs \<noteq> NULL \<and>
     (\<exists>st. rb_states m rs = Some st \<and> qu_inv m (rb_qs st) (x # us) qfr \<and> fl_rep m (rb_fs st) fr \<and>
        rb_fs st \<noteq> qu_fs m (rb_qs st)) \<and>
     distinct (rb_elems m hs us fr) \<and> length us + length qfr = length (rb_elems m hs us fr) \<and>
     (\<forall>f \<in> set (rb_elems m hs us fr). f \<noteq> NULL \<and> fl_elems m f \<noteq> None \<and> f \<notin> qe_home m ` set (x # us) \<and> f \<notin> set qfr)"

lemma rb_invE:
  assumes "rb_inv m rs hs x us qfr fr"
  obtains st where "rs \<noteq> NULL" "rb_states m rs = Some st" "qu_inv m (rb_qs st) (x # us) qfr"
    "fl_rep m (rb_fs st) fr" "rb_fs st \<noteq> qu_fs m (rb_qs st)" "distinct (rb_elems m hs us fr)"
    "length us + length qfr = length (rb_elems m hs us fr)"
    "\<forall>f \<in> set (rb_elems m hs us fr). f \<noteq> NULL \<and> fl_elems m f \<noteq> None \<and> f \<notin> qe_home m ` set (x # us) \<and> f \<notin> set qfr"
  using assms unfolding rb_inv_def by blast

text \<open>Reading: the oldest element goes to the reader, the queue's dummy to its freelist.\<close>

lemma ringbuffer_get_read_inv:
  assumes inv: "rb_inv m rs hs x (y # us) qfr fr"
  shows "\<exists>m'. ringbuffer_get_read rs fe0 m = Ok (qe_item m y, m') \<and>
    rb_inv m' rs (qe_item m y # hs) y us (qe_home m x # qfr) fr \<and> qe_item m' = qe_item m"
proof -
  obtain st where st: "rs \<noteq> NULL" "rb_states m rs = Some st" "qu_inv m (rb_qs st) (x # y # us) qfr"
    "fl_rep m (rb_fs st) fr" "rb_fs st \<noteq> qu_fs m (rb_qs st)" and el: "distinct (rb_elems m hs (y # us) fr)"
    "length (y # us) + length qfr = length (rb_elems m hs (y # us) fr)"
    "\<forall>f \<in> set (rb_elems m hs (y # us) fr). f \<noteq> NULL \<and> fl_elems m f \<noteq> None \<and> f \<notin> qe_home m ` set (x # y # us) \<and> f \<notin> set qfr"
    using inv by (rule rb_invE)
  obtain m' where m': "queue_dequeue (rb_qs st) m = Ok (1, Some (qe_item m y), m')"
    "qu_inv m' (rb_qs st) (y # us) (qe_home m x # qfr)" "qe_item m' = qe_item m" "qe_home m' = qe_home m"
    "fe_item m (qe_home m x) = x" "qu_same (rb_qs st) m m'" "\<forall>g. g \<noteq> qe_home m x \<longrightarrow> fl_elems m' g = fl_elems m g"
    using queue_dequeue_inv [OF st(3)] by (elim exE conjE) (rule that)
  have rb: "rb_states m' = rb_states m" using m'(6) by (intro qu_rb_states) (simp add: qu_same_def)
  have fs: "fl_states m' (rb_fs st) = fl_states m (rb_fs st)" "qu_fs m' (rb_qs st) = qu_fs m (rb_qs st)"
    using m'(6) st(5) by (auto simp: qu_same_def)
  have els: "rb_elems m' (qe_item m y # hs) us fr = qe_item m y # hs @ map (qe_item m) us @ fr"
    by (simp add: rb_elems_def m'(3))
  then have sets: "set (rb_elems m' (qe_item m y # hs) us fr) = set (rb_elems m hs (y # us) fr)"
    by (auto simp: rb_elems_def)
  have "fl_rep m' (rb_fs st) fr"
    using st(4) fs(1) el(3) m'(7) fl_rep_cong [of m' "rb_fs st" m fr] by (auto simp: fe_link_def rb_elems_def)
  moreover have "\<forall>f \<in> set (rb_elems m hs (y # us) fr). f \<noteq> NULL \<and> fl_elems m' f \<noteq> None \<and>
      f \<notin> qe_home m' ` set (y # us) \<and> f \<notin> set (qe_home m x # qfr)"
    using el(3) m'(4,7) by auto
  moreover have "distinct (rb_elems m' (qe_item m y # hs) us fr)"
    "length us + length (qe_home m x # qfr) = length (rb_elems m' (qe_item m y # hs) us fr)"
    using el(1,2) unfolding els by (auto simp: rb_elems_def)
  ultimately have "rb_inv m' rs (qe_item m y # hs) y us (qe_home m x # qfr) fr"
    unfolding rb_inv_def sets using st(1,2,5) rb m'(2) fs(2) by auto
  moreover have "ringbuffer_get_read rs fe0 m = Ok (qe_item m y, m')"
    using st(1,2) m'(1) by (simp add: ringbuffer_get_read_def)
  ultimately show ?thesis using m'(3) by auto
qed

lemma ringbuffer_get_read_empty:
  assumes inv: "rb_inv m rs hs x [] qfr fr"
  shows "ringbuffer_get_read rs fe0 m = Ok (NULL, m)"
proof -
  obtain st where "rs \<noteq> NULL" "rb_states m rs = Some st" "qu_inv m (rb_qs st) [x] qfr"
    using inv by (rule rb_invE)
  then show ?thesis using queue_dequeue_empty [of m "rb_qs st" x qfr] by (simp add: ringbuffer_get_read_def)
qed

text \<open>Writing: an element that is free, or else the oldest one that waits to be read.\<close>

lemma ringbuffer_get_write_free:
  assumes inv: "rb_inv m rs hs x us qfr (f # fr)"
  shows "\<exists>m'. ringbuffer_get_write rs flag m = Ok (f, if flag then Some 0 else None, m') \<and>
    rb_inv m' rs (f # hs) x us qfr fr \<and> qe_item m' = qe_item m"
proof -
  obtain st where st: "rs \<noteq> NULL" "rb_states m rs = Some st" "qu_inv m (rb_qs st) (x # us) qfr"
    "fl_rep m (rb_fs st) (f # fr)" "rb_fs st \<noteq> qu_fs m (rb_qs st)" and el: "distinct (rb_elems m hs us (f # fr))"
    "length us + length qfr = length (rb_elems m hs us (f # fr))"
    "\<forall>g \<in> set (rb_elems m hs us (f # fr)). g \<noteq> NULL \<and> fl_elems m g \<noteq> None \<and> g \<notin> qe_home m ` set (x # us) \<and> g \<notin> set qfr"
    using inv by (rule rb_invE)
  obtain fs where fs: "rb_fs st \<noteq> NULL" "fl_states m (rb_fs st) = Some fs"
    "chain (fe_link m) (fst (fs_top fs)) (f # fr)" using st(4) by (rule fl_repE)
  then obtain e where e: "fl_elems m f = Some e" "f \<noteq> NULL" "fst (fs_top fs) = f" "chain (fe_link m) (fst (fe_next e)) fr"
    by (auto simp: fe_link_def split: option.splits)
  let ?m' = "set_fs (rb_fs st) (fs\<lparr>fs_top := fe_next e\<rparr>) m"
  have run: "ringbuffer_get_write rs flag m = Ok (f, if flag then Some 0 else None, ?m')"
    using st(1,2) fs e by (simp add: ringbuffer_get_write_def ringbuffer_get_write_body_def freelist_pop_eq)
  have maps: "qe_item ?m' = qe_item m" "qe_home ?m' = qe_home m" "qu_fs ?m' = qu_fs m"
    by (auto simp: qe_item_def qe_home_def qu_fs_def fun_eq_iff)
  have q: "qu_inv ?m' (rb_qs st) (x # us) qfr" 
    by (rule qu_inv_frame [OF st(3)]) (use st(5) in auto)
  have els: "rb_elems ?m' (f # hs) us fr = f # hs @ map (qe_item m) us @ fr"
    unfolding rb_elems_def maps by simp
  have sets: "set (rb_elems ?m' (f # hs) us fr) = set (rb_elems m hs us (f # fr))"
    unfolding els by (auto simp: rb_elems_def)
  have "distinct (rb_elems ?m' (f # hs) us fr)"
    "length us + length qfr = length (rb_elems ?m' (f # hs) us fr)"
    using el(1,2) unfolding els by (auto simp: rb_elems_def)
  then have "rb_inv ?m' rs (f # hs) x us qfr fr"
    unfolding rb_inv_def sets maps using st(1,2,5) q el(3) fs(1) e(4) by (auto simp: fl_rep_def)
  then show ?thesis using run maps by (intro exI [of _ ?m'] conjI)
qed

lemma ringbuffer_get_write_full:
  assumes inv: "rb_inv m rs hs x (y # us) qfr []"
  shows "\<exists>m'. ringbuffer_get_write rs flag m = Ok (qe_item m y, if flag then Some 1 else None, m') \<and>
    rb_inv m' rs (qe_item m y # hs) y us (qe_home m x # qfr) [] \<and> qe_item m' = qe_item m"
proof -
  obtain st where st: "rs \<noteq> NULL" "rb_states m rs = Some st" "fl_rep m (rb_fs st) []"
    "\<forall>g \<in> set (rb_elems m hs (y # us) []). g \<noteq> NULL \<and> fl_elems m g \<noteq> None \<and> g \<notin> qe_home m ` set (x # y # us) \<and> g \<notin> set qfr"
    using inv by (rule rb_invE)
  obtain m' where m': "ringbuffer_get_read rs NULL m = Ok (qe_item m y, m')"
    "rb_inv m' rs (qe_item m y # hs) y us (qe_home m x # qfr) []" "qe_item m' = qe_item m"
    using ringbuffer_get_read_inv [OF inv, of NULL] by (elim exE conjE) (rule that)
  have "qe_item m y \<noteq> NULL" using st(4) by (auto simp: rb_elems_def)
  then have "ringbuffer_get_write rs flag m = Ok (qe_item m y, if flag then Some 1 else None, m')"
    using st(1,2) m'(1) freelist_pop_rep_Nil [OF st(3)]
    by (simp add: ringbuffer_get_write_def ringbuffer_get_write_body_def)
  with m' show ?thesis by (intro exI [of _ m'] conjI)
qed

lemma ringbuffer_get_write_none:
  assumes inv: "rb_inv m rs hs x [] qfr []"
  shows "ringbuffer_get_write rs flag m = Fault Diverge"
proof -
  obtain st where st: "rs \<noteq> NULL" "rb_states m rs = Some st" "fl_rep m (rb_fs st) []"
    using inv by (rule rb_invE)
  have "ringbuffer_get_write_body rs flag m = Ok (Again m)"
    using st freelist_pop_rep_Nil [OF st(3)] ringbuffer_get_read_empty [OF inv]
    by (simp add: ringbuffer_get_write_body_def)
  then have "cloop (ringbuffer_get_write_body rs flag) m = Fault Diverge"
    by (intro cloop_diverges [where I = "\<lambda>s. s = m"]) auto
  then show ?thesis using st(1) by (simp add: ringbuffer_get_write_def)
qed

lemma ringbuffer_put_read_inv:
  assumes inv: "rb_inv m rs hs x us qfr fr" and h: "h \<in> set hs"
  shows "\<exists>m'. ringbuffer_put_read rs h m = Ok m' \<and> rb_inv m' rs (remove1 h hs) x us qfr (h # fr) \<and>
    qe_item m' = qe_item m"
proof -
  obtain st where st: "rs \<noteq> NULL" "rb_states m rs = Some st" "qu_inv m (rb_qs st) (x # us) qfr"
    "fl_rep m (rb_fs st) fr" "rb_fs st \<noteq> qu_fs m (rb_qs st)" and el: "distinct (rb_elems m hs us fr)"
    "length us + length qfr = length (rb_elems m hs us fr)"
    "\<forall>g \<in> set (rb_elems m hs us fr). g \<noteq> NULL \<and> fl_elems m g \<noteq> None \<and> g \<notin> qe_home m ` set (x # us) \<and> g \<notin> set qfr"
    using inv by (rule rb_invE)
  obtain fs where fs: "rb_fs st \<noteq> NULL" "fl_states m (rb_fs st) = Some fs"
    "chain (fe_link m) (fst (fs_top fs)) fr" using st(4) by (rule fl_repE)
  have hin: "h \<in> set (rb_elems m hs us fr)" using h by (simp add: rb_elems_def)
  then obtain e where e: "fl_elems m h = Some e" "h \<noteq> NULL" "h \<notin> qe_home m ` set (x # us)" "h \<notin> set qfr"
    using el(3) by auto
  have hfr: "h \<notin> set fr" using el(1) h by (auto simp: rb_elems_def)
  let ?c = "fs_aba_counter fs + 1"
  let ?m' = "set_fs (rb_fs st) (fs\<lparr>fs_aba_counter := ?c, fs_top := (h, ?c)\<rparr>) (set_fe h (e\<lparr>fe_next := fs_top fs\<rparr>) m)"
  have run: "ringbuffer_put_read rs h m = Ok ?m'"
    using st(1,2) e fs by (simp add: ringbuffer_put_read_def freelist_push_eq)
  have maps: "qe_item ?m' = qe_item m" "qe_home ?m' = qe_home m" "qu_fs ?m' = qu_fs m"
    by (auto simp: qe_item_def qe_home_def qu_fs_def fun_eq_iff)
  have q: "qu_inv ?m' (rb_qs st) (x # us) qfr" 
    by (rule qu_inv_frame [OF st(3)]) (use st(5) e(3,4) in auto)
  have els: "rb_elems ?m' (remove1 h hs) us (h # fr) = remove1 h hs @ map (qe_item m) us @ h # fr"
    unfolding rb_elems_def maps by simp
  have mset: "mset (rb_elems ?m' (remove1 h hs) us (h # fr)) = mset (rb_elems m hs us fr)"
    unfolding els using h by (simp add: rb_elems_def)
  note sets = mset_eq_setD [OF mset] and len = mset_eq_length [OF mset]
  have "distinct (rb_elems ?m' (remove1 h hs) us (h # fr))"
    using el(1) mset_eq_imp_distinct_iff [OF mset] by simp
  moreover have "fl_rep ?m' (rb_fs st) (h # fr)" using fs hfr e(2) by (simp add: fl_rep_def)
  ultimately have "rb_inv ?m' rs (remove1 h hs) x us qfr (h # fr)"
    unfolding rb_inv_def sets maps len using st(1,2,5) q el(2,3) by auto
  then show ?thesis using run maps by (intro exI [of _ ?m'] conjI)
qed

lemma ringbuffer_put_write_inv:
  assumes inv: "rb_inv m rs hs x us (q # qfr) fr" and h: "h \<in> set hs"
  shows "\<exists>m'. ringbuffer_put_write rs h m = Ok m' \<and>
    rb_inv m' rs (remove1 h hs) x (us @ [fe_item m q]) qfr fr \<and>
    map (qe_item m') (us @ [fe_item m q]) = map (qe_item m) us @ [h]"
proof -
  let ?y = "fe_item m q"
  obtain st where st: "rs \<noteq> NULL" "rb_states m rs = Some st" "qu_inv m (rb_qs st) (x # us) (q # qfr)"
    "fl_rep m (rb_fs st) fr" "rb_fs st \<noteq> qu_fs m (rb_qs st)" and el: "distinct (rb_elems m hs us fr)"
    "length us + length (q # qfr) = length (rb_elems m hs us fr)"
    "\<forall>g \<in> set (rb_elems m hs us fr). g \<noteq> NULL \<and> fl_elems m g \<noteq> None \<and> g \<notin> qe_home m ` set (x # us) \<and> g \<notin> set (q # qfr)"
    using inv by (rule rb_invE)
  have h': "h \<noteq> NULL" using el(3) h by (simp add: rb_elems_def)
  obtain m' where m': "queue_enqueue (rb_qs st) h m = Ok (1, m')" "qu_inv m' (rb_qs st) ((x # us) @ [?y]) qfr"
    "qe_item m' = (qe_item m)(?y := h)" "qe_home m' = (qe_home m)(?y := q)" "qu_same (rb_qs st) m m'"
    "fl_elems m' = fl_elems m"
    using queue_enqueue_inv [OF st(3), of h] by (elim exE conjE) (rule that)
  have run: "ringbuffer_put_write rs h m = Ok m'"
    using st(1,2) h' m'(1) by (simp add: ringbuffer_put_write_def)
  have rb: "rb_states m' = rb_states m" using m'(5) by (intro qu_rb_states) (simp add: qu_same_def)
  have fs: "fl_states m' (rb_fs st) = fl_states m (rb_fs st)" "qu_fs m' (rb_qs st) = qu_fs m (rb_qs st)"
    using m'(5) st(5) by (auto simp: qu_same_def)
  have y: "?y \<notin> set us" "?y \<noteq> x" using st(3) by (auto simp: qu_inv_def)
  then have items: "map (qe_item m') (us @ [?y]) = map (qe_item m) us @ [h]"
    unfolding m'(3) by auto
  have homes: "qe_home m' ` set (x # us @ [?y]) = insert q (qe_home m ` set (x # us))"
    unfolding m'(4) using y by auto
  have els: "rb_elems m' (remove1 h hs) (us @ [?y]) fr = remove1 h hs @ (map (qe_item m) us @ [h]) @ fr"
    unfolding rb_elems_def items ..
  have mset: "mset (rb_elems m' (remove1 h hs) (us @ [?y]) fr) = mset (rb_elems m hs us fr)"
    unfolding els using h by (simp add: rb_elems_def)
  note sets = mset_eq_setD [OF mset] and len = mset_eq_length [OF mset]
  have "distinct (rb_elems m' (remove1 h hs) (us @ [?y]) fr)"
    using el(1) mset_eq_imp_distinct_iff [OF mset] by simp
  moreover have "fl_rep m' (rb_fs st) fr"
    using st(4) fs(1) m'(6) fl_rep_cong [of m' "rb_fs st" m fr] by (simp add: fe_link_def)
  ultimately have "rb_inv m' rs (remove1 h hs) x (us @ [?y]) qfr fr"
    unfolding rb_inv_def sets len homes using st(1,2,5) rb m'(2,6) fs(2) el(2,3) by auto
  then show ?thesis using run items by (intro exI [of _ m'] conjI)
qed

section \<open>Ring buffer as two lists\<close>

text \<open>
  What the ring buffer promises: the elements in the clients' hands, those waiting to be read
  in the order they were written, and those free to be written. A put of an element that the
  client does not hold is not allowed, and there must be an element for a writer to get.
\<close>

datatype ring_op = GetRead | GetWrite | PutRead addr | PutWrite addr

type_synonym ring = "addr list \<times> addr list \<times> addr list"
type_synonym ring_result = "(addr \<times> u64 option) option"

fun ring_allowed :: "ring_op \<Rightarrow> ring \<Rightarrow> bool" where
  "ring_allowed GetRead r = True"
| "ring_allowed GetWrite (hs, ws, fr) = (ws \<noteq> [] \<or> fr \<noteq> [])"
| "ring_allowed (PutRead f) (hs, ws, fr) = (f \<in> set hs)"
| "ring_allowed (PutWrite f) (hs, ws, fr) = (f \<in> set hs)"

fun ring_step :: "ring_op \<Rightarrow> ring \<Rightarrow> ring_result \<times> ring" where
  "ring_step GetRead (hs, [], fr) = (Some (NULL, None), (hs, [], fr))"
| "ring_step GetRead (hs, w # ws, fr) = (Some (w, None), (w # hs, ws, fr))"
| "ring_step GetWrite (hs, ws, f # fr) = (Some (f, Some 0), (f # hs, ws, fr))"
| "ring_step GetWrite (hs, w # ws, []) = (Some (w, Some 1), (w # hs, ws, []))"
| "ring_step GetWrite (hs, [], []) = (None, (hs, [], []))"
| "ring_step (PutRead f) (hs, ws, fr) = (None, (remove1 f hs, ws, f # fr))"
| "ring_step (PutWrite f) (hs, ws, fr) = (None, (remove1 f hs, ws @ [f], fr))"

fun ring_spec :: "ring_op list \<Rightarrow> ring \<Rightarrow> (ring_result list \<times> ring) option" where
  "ring_spec [] r = Some ([], r)"
| "ring_spec (p # ps) r =
     (if ring_allowed p r then
        (case ring_step p r of (x, r') \<Rightarrow> map_option (\<lambda>(xs, r''). (x # xs, r'')) (ring_spec ps r'))
      else None)"

text \<open>The same operations on the ring buffer at \<open>rs\<close>.\<close>

fun ring_call :: "addr \<Rightarrow> ring_op \<Rightarrow> 'a rb_mem_scheme \<Rightarrow> (ring_result \<times> 'a rb_mem_scheme) res" where
  "ring_call rs GetRead m = call (ringbuffer_get_read rs NULL m) (\<lambda>(fe, m'). Ok (Some (fe, None), m'))"
| "ring_call rs GetWrite m = call (ringbuffer_get_write rs True m) (\<lambda>(fe, ow, m'). Ok (Some (fe, ow), m'))"
| "ring_call rs (PutRead f) m = call (ringbuffer_put_read rs f m) (\<lambda>m'. Ok (None, m'))"
| "ring_call rs (PutWrite f) m = call (ringbuffer_put_write rs f m) (\<lambda>m'. Ok (None, m'))"

fun ring_run :: "addr \<Rightarrow> ring_op list \<Rightarrow> 'a rb_mem_scheme \<Rightarrow> (ring_result list \<times> 'a rb_mem_scheme) res" where
  "ring_run rs [] m = Ok ([], m)"
| "ring_run rs (p # ps) m =
     call (ring_call rs p m) (\<lambda>(x, m1). call (ring_run rs ps m1) (\<lambda>(xs, m2). Ok (x # xs, m2)))"

definition rb_rep :: "'a rb_mem_scheme \<Rightarrow> addr \<Rightarrow> ring \<Rightarrow> bool" where
  "rb_rep m rs r \<longleftrightarrow> (case r of (hs, ws, fr) \<Rightarrow>
     \<exists>x us qfr. rb_inv m rs hs x us qfr fr \<and> map (qe_item m) us = ws)"

lemma rb_repI: "rb_inv m rs hs x us qfr fr \<Longrightarrow> map (qe_item m) us = ws \<Longrightarrow> rb_rep m rs (hs, ws, fr)"
  by (auto simp: rb_rep_def)

lemma rb_repE:
  assumes "rb_rep m rs (hs, ws, fr)"
  obtains x us qfr where "rb_inv m rs hs x us qfr fr" "map (qe_item m) us = ws"
  using assms by (auto simp: rb_rep_def)

text \<open>No element is lost or doubled.\<close>

lemma ring_step_elems:
  assumes "ring_allowed p (hs, ws, fr)" "ring_step p (hs, ws, fr) = (x, (hs', ws', fr'))"
  shows "mset (hs' @ ws' @ fr') = mset (hs @ ws @ fr)"
  using assms by (cases p; cases ws; cases fr) auto

lemma ring_spec_elems:
  "ring_spec ps (hs, ws, fr) = Some (xs, (hs', ws', fr')) \<Longrightarrow> mset (hs' @ ws' @ fr') = mset (hs @ ws @ fr)"
proof (induction ps arbitrary: hs ws fr xs)
  case (Cons p ps)
  then obtain x r1 ys where st: "ring_allowed p (hs, ws, fr)" "ring_step p (hs, ws, fr) = (x, r1)"
    "ring_spec ps r1 = Some (ys, (hs', ws', fr'))"
    by (auto split: if_splits prod.splits)
  obtain hs1 ws1 fr1 where r1: "r1 = (hs1, ws1, fr1)" by (cases r1)
  show ?case using Cons.IH [OF st(3) [unfolded r1]] ring_step_elems [OF st(1) st(2) [unfolded r1]] by simp
qed simp

lemma ring_call_refines:
  assumes rep: "rb_rep m rs (hs, ws, fr)" and al: "ring_allowed p (hs, ws, fr)"
    and step: "ring_step p (hs, ws, fr) = (x, r')"
  shows "\<exists>m'. ring_call rs p m = Ok (x, m') \<and> rb_rep m' rs r'"
proof -
  obtain d us qfr where inv: "rb_inv m rs hs d us qfr fr" and ws: "map (qe_item m) us = ws"
    using rep by (rule rb_repE)
  show ?thesis
  proof (cases p)
    case GetRead
    show ?thesis
    proof (cases us)
      case Nil
      then show ?thesis
        using GetRead rep step ws inv ringbuffer_get_read_empty [of m rs hs d qfr fr NULL] by auto
    next
      case (Cons y us')
      from ringbuffer_get_read_inv [OF inv [unfolded Cons], of NULL] obtain m' where
        m': "ringbuffer_get_read rs NULL m = Ok (qe_item m y, m')"
          "rb_inv m' rs (qe_item m y # hs) y us' (qe_home m d # qfr) fr" "qe_item m' = qe_item m"
        by (elim exE conjE) (rule that)
      have "rb_rep m' rs (qe_item m y # hs, map (qe_item m) us', fr)"
        using m' by (intro rb_repI) simp_all
      then show ?thesis using GetRead step ws m'(1) Cons by auto
    qed
  next
    case GetWrite
    show ?thesis
    proof (cases fr)
      case Nil
      then obtain y us' where us: "us = y # us'" using al ws GetWrite by (cases us) auto
      from ringbuffer_get_write_full [OF inv [unfolded us Nil], of True] obtain m' where
        m': "ringbuffer_get_write rs True m = Ok (qe_item m y, Some 1, m')"
          "rb_inv m' rs (qe_item m y # hs) y us' (qe_home m d # qfr) []" "qe_item m' = qe_item m"
        by (auto simp: that)
      have "rb_rep m' rs (qe_item m y # hs, map (qe_item m) us', [])"
        using m' by (intro rb_repI) simp_all
      then show ?thesis using GetWrite step ws m'(1) us Nil by auto
    next
      case (Cons f fr')
      from ringbuffer_get_write_free [OF inv [unfolded Cons], of True] obtain m' where
        m': "ringbuffer_get_write rs True m = Ok (f, Some 0, m')"
          "rb_inv m' rs (f # hs) d us qfr fr'" "qe_item m' = qe_item m" by (auto simp: that)
      have "rb_rep m' rs (f # hs, ws, fr')" using m' ws by (intro rb_repI) simp_all
      then show ?thesis using GetWrite step m'(1) Cons by auto
    qed
  next
    case (PutRead f)
    then have "f \<in> set hs" using al by simp
    from ringbuffer_put_read_inv [OF inv this] obtain m' where
      m': "ringbuffer_put_read rs f m = Ok m'" "rb_inv m' rs (remove1 f hs) d us qfr (f # fr)"
        "qe_item m' = qe_item m" by (elim exE conjE) (rule that)
    have "rb_rep m' rs (remove1 f hs, ws, f # fr)" using m' ws by (intro rb_repI) simp_all
    then show ?thesis using PutRead step m'(1) by auto
  next
    case (PutWrite f)
    then have f: "f \<in> set hs" using al by simp
    have "length us + length qfr = length (rb_elems m hs us fr)" using inv by (rule rb_invE)
    then obtain q qfr' where q: "qfr = q # qfr'"
      using f by (cases qfr) (auto simp: rb_elems_def)
    from ringbuffer_put_write_inv [OF inv [unfolded q] f] obtain m' where
      m': "ringbuffer_put_write rs f m = Ok m'" "rb_inv m' rs (remove1 f hs) d (us @ [fe_item m q]) qfr' fr"
        "map (qe_item m') (us @ [fe_item m q]) = map (qe_item m) us @ [f]" by (elim exE conjE) (rule that)
    have "rb_rep m' rs (remove1 f hs, ws @ [f], fr)" by (rule rb_repI [OF m'(2)]) (simp only: m'(3) ws)
    then show ?thesis using PutWrite step m'(1) by auto
  qed
qed

lemma ring_run_refines:
  assumes "rb_rep m rs r" and "ring_spec ps r = Some (xs, r')"
  shows "\<exists>m'. ring_run rs ps m = Ok (xs, m') \<and> rb_rep m' rs r'"
  using assms
proof (induction ps arbitrary: m r xs)
  case (Cons p ps)
  obtain hs ws fr where r: "r = (hs, ws, fr)" by (cases r)
  obtain x r1 ys where st: "ring_allowed p r" "ring_step p r = (x, r1)"
    "ring_spec ps r1 = Some (ys, r')" "xs = x # ys"
    using Cons.prems(2) by (auto split: if_splits prod.splits)
  from ring_call_refines [OF Cons.prems(1) [unfolded r] st(1,2) [unfolded r]] obtain m1 where
    m1: "ring_call rs p m = Ok (x, m1)" "rb_rep m1 rs r1" by (elim exE conjE) (rule that)
  from Cons.IH [OF m1(2) st(3)] obtain m2 where "ring_run rs ps m1 = Ok (ys, m2)" "rb_rep m2 rs r'"
    by (elim exE conjE) (rule that)
  then show ?case using m1(1) st(4) by simp
qed simp

section \<open>A concrete ring buffer\<close>

text \<open>Two elements, 160 and 256, and the queue at 352 with the dummy 640.\<close>

definition rb_demo :: rb_mem where
  "rb_demo = \<lparr>m_script = [], m_live = [], m_hdr = (\<lambda>p. None), m_junk = (\<lambda>p. 255),
     fl_states = [64 \<mapsto> \<lparr>fs_top = (256, 2), fs_init_func = NULL, fs_state = NULL,
                         fs_aba_counter = 2, fs_element_count = 2\<rparr>,
                  448 \<mapsto> \<lparr>fs_top = (736, 2), fs_init_func = QUEUE_INIT, fs_state = NULL,
                          fs_aba_counter = 3, fs_element_count = 3\<rparr>],
     fl_elems = [160 \<mapsto> \<lparr>fe_next = (NULL, 0), fe_data = NULL\<rparr>, 256 \<mapsto> \<lparr>fe_next = (160, 1), fe_data = NULL\<rparr>,
                 544 \<mapsto> \<lparr>fe_next = (NULL, 0), fe_data = 592\<rparr>, 736 \<mapsto> \<lparr>fe_next = (544, 1), fe_data = 784\<rparr>,
                 832 \<mapsto> \<lparr>fe_next = (736, 2), fe_data = 640\<rparr>],
     qu_states = [352 \<mapsto> \<lparr>qs_enqueue = (640, 0), qs_dequeue = (640, 0), qs_aba_count = 0, qs_fs = 448\<rparr>],
     qu_elems = [592 \<mapsto> \<lparr>qe_next = (0, 0), qe_fe = 0, qe_data = 0\<rparr>, 784 \<mapsto> \<lparr>qe_next = (0, 0), qe_fe = 0, qe_data = 0\<rparr>,
                 640 \<mapsto> \<lparr>qe_next = (NULL, 2), qe_fe = 832, qe_data = NULL\<rparr>],
     rb_states = [32 \<mapsto> \<lparr>rb_qs = 352, rb_fs = 64\<rparr>]\<rparr>"

lemma rb_demo_rep: "rb_rep rb_demo 32 ([], [], [256, 160])"
proof -
  have "qe_home rb_demo 640 = 832" "fe_item rb_demo 736 = 784" "fe_item rb_demo 544 = 592" "qu_fs rb_demo 352 = 448"
    by (simp_all add: qe_home_def fe_item_def qu_fs_def rb_demo_def)
  moreover have "qu_inv rb_demo 352 [640] [736, 544]"
    by (simp add: qu_inv_def calculation)
      (simp add: rb_demo_def fl_rep_def qu_ready_def qe_link_def fe_link_def)
  ultimately have "rb_inv rb_demo 32 [] 640 [] [736, 544] [256, 160]"
    by (simp add: rb_inv_def rb_elems_def)
      (simp add: rb_demo_def fl_rep_def fe_link_def)
  then show ?thesis by (rule rb_repI) simp
qed

section \<open>Properties\<close>

text \<open>
  C14. The ring buffer as two lists. Any sequence of calls in which clients give back only
  elements they hold, and write only when there is an element left to write to, returns what
  the lists return: readers get elements in the order they were written, a writer gets a free
  element (overwrite flag 0) as long as there is one and otherwise the oldest unread one
  (overwrite flag 1), and \<open>ringbuffer_put_write\<close> never drops an element although it ignores the
  result of \<open>queue_enqueue\<close>. No element is lost or in two places.
\<close>

theorem ringbuffer_sequences:
  assumes "rb_rep m rs (hs, ws, fr)" and "ring_spec ps (hs, ws, fr) = Some (xs, (hs', ws', fr'))"
  shows "\<exists>m'. ring_run rs ps m = Ok (xs, m') \<and> rb_rep m' rs (hs', ws', fr') \<and>
    mset (hs' @ ws' @ fr') = mset (hs @ ws @ fr)"
  using ring_run_refines [OF assms] ring_spec_elems [OF assms(2)] by auto

theorem ringbuffer_sequences_witness:
  "\<exists>m'. ring_run 32 [GetWrite, PutWrite 256, GetWrite, PutWrite 160, GetWrite, PutWrite 256, GetRead, PutRead 160, GetRead, GetRead]
      rb_demo = Ok ([Some (256, Some 0), None, Some (160, Some 0), None, Some (256, Some 1), None, Some (160, None), None,
        Some (256, None), Some (NULL, None)], m') \<and> rb_rep m' 32 ([256], [], [160])"
  using ringbuffer_sequences [OF rb_demo_rep,
    of "[GetWrite, PutWrite 256, GetWrite, PutWrite 160, GetWrite, PutWrite 256, GetRead, PutRead 160, GetRead, GetRead]"]
  by simp

text \<open>
  C24. \<open>ringbuffer_get_write\<close> spins forever when there is nothing to write to: with every
  element in the hands of other clients it does not return.
\<close>

theorem ringbuffer_get_write_spins:
  assumes "rb_rep m rs (hs, [], [])"
  shows "ringbuffer_get_write rs flag m = Fault Diverge"
proof -
  obtain x us qfr where "rb_inv m rs hs x us qfr []" "map (qe_item m) us = []" using assms by (rule rb_repE)
  then show ?thesis using ringbuffer_get_write_none by simp
qed

theorem ringbuffer_get_write_spins_witness:
  "\<exists>m'. ring_run 32 [GetWrite, GetWrite] rb_demo = Ok ([Some (256, Some 0), Some (160, Some 0)], m') \<and>
    ringbuffer_get_write 32 True m' = Fault Diverge"
proof -
  obtain m' where "ring_run 32 [GetWrite, GetWrite] rb_demo = Ok ([Some (256, Some 0), Some (160, Some 0)], m')"
    "rb_rep m' 32 ([160, 256], [], [])"
    using ring_run_refines [OF rb_demo_rep, of "[GetWrite, GetWrite]"] by auto
  then show ?thesis using ringbuffer_get_write_spins by blast
qed

end
