(* ===== verification/Slist.thy ===== *)
theory Slist
  imports CMem
begin

text \<open>
  basic/lf_slist.c and lf_slist.h: a singly linked list whose elements are marked as deleted and
  stay linked until the whole list is deleted. Every function of the file as it runs without
  interference. The two words of \<open>data_flag\<close> are a pair of data and flags; \<open>dcall\<close> maps the
  address of a function to its behaviour.
\<close>

section \<open>Data\<close>

record slist_state =
  sl_head :: addr
  sl_delete_func :: addr
  sl_state :: addr

record slist_element =
  le_data_flag :: "addr \<times> u64"
  le_next :: addr

record sl_mem = c_mem +
  sl_states :: "addr \<Rightarrow> slist_state option"
  sl_elems :: "addr \<Rightarrow> slist_element option"

definition SLIST_NO_FLAGS :: u64 where
  "SLIST_NO_FLAGS = 0"

definition SLIST_FLAG_DELETED :: u64 where
  "SLIST_FLAG_DELETED = 1"

unbundle bit_operations_syntax

definition le_deleted :: "u64 \<Rightarrow> bool" where
  "le_deleted flag \<longleftrightarrow> flag AND SLIST_FLAG_DELETED \<noteq> 0"

type_synonym 'm slist_calls = "addr \<Rightarrow> addr \<Rightarrow> addr \<Rightarrow> 'm \<Rightarrow> 'm res"

definition set_sl :: "addr \<Rightarrow> slist_state \<Rightarrow> 'a sl_mem_scheme \<Rightarrow> 'a sl_mem_scheme" where
  "set_sl ss st m = m\<lparr>sl_states := (sl_states m)(ss \<mapsto> st)\<rparr>"

definition set_le :: "addr \<Rightarrow> slist_element \<Rightarrow> 'a sl_mem_scheme \<Rightarrow> 'a sl_mem_scheme" where
  "set_le se e m = m\<lparr>sl_elems := (sl_elems m)(se \<mapsto> e)\<rparr>"

definition free_le :: "addr \<Rightarrow> 'a sl_mem_scheme \<Rightarrow> 'a sl_mem_scheme res" where
  "free_le p m = call (aligned_free p m) (\<lambda>m'. Ok (m'\<lparr>sl_elems := (sl_elems m')(p := None)\<rparr>))"

definition free_sl :: "addr \<Rightarrow> 'a sl_mem_scheme \<Rightarrow> 'a sl_mem_scheme res" where
  "free_sl p m = call (aligned_free p m) (\<lambda>m'. Ok (m'\<lparr>sl_states := (sl_states m')(p := None)\<rparr>))"

section \<open>Linking\<close>

definition slist_link_head_body ::
  "addr \<Rightarrow> addr \<Rightarrow> addr \<times> 'a sl_mem_scheme \<Rightarrow> (addr \<times> 'a sl_mem_scheme, 'a sl_mem_scheme) ctl res" where
  "slist_link_head_body ss se = (\<lambda>(se_next, m).
     deref (sl_elems m) se (\<lambda>e.
     let m1 = set_le se (e\<lparr>le_next := se_next\<rparr>) m in
     deref (sl_states m1) ss (\<lambda>st.
       case abstraction_cas (sl_head st) se se_next of (rv, head') \<Rightarrow>
         let m2 = set_sl ss (st\<lparr>sl_head := head'\<rparr>) m1 in
         if se_next \<noteq> rv then Ok (Again (rv, m2)) else Ok (Done m2))))"

definition slist_internal_link_head :: "addr \<Rightarrow> addr \<Rightarrow> 'a sl_mem_scheme \<Rightarrow> 'a sl_mem_scheme res" where
  "slist_internal_link_head ss se m =
     c_assert (ss \<noteq> NULL) (c_assert (se \<noteq> NULL)
       (deref (sl_states m) ss (\<lambda>st. cloop (slist_link_head_body ss se) (sl_head st, m))))"

text \<open>
  The loop condition of \<open>slist_internal_link_after\<close> reads \<open>se_next\<close> and assigns it in one
  expression; the model takes the value read to be the one from before the assignment.
\<close>

definition slist_link_after_body ::
  "addr \<Rightarrow> addr \<Rightarrow> addr \<times> 'a sl_mem_scheme \<Rightarrow> (addr \<times> 'a sl_mem_scheme, 'a sl_mem_scheme) ctl res" where
  "slist_link_after_body se_prev se = (\<lambda>(se_next, m).
     deref (sl_elems m) se (\<lambda>e.
     let m1 = set_le se (e\<lparr>le_next := se_next\<rparr>) m in
     deref (sl_elems m1) se_prev (\<lambda>p.
       case abstraction_cas (le_next p) se se_next of (rv, next') \<Rightarrow>
         let m2 = set_le se_prev (p\<lparr>le_next := next'\<rparr>) m1 in
         if se_next \<noteq> rv then Ok (Again (rv, m2)) else Ok (Done m2))))"

definition slist_internal_link_after :: "addr \<Rightarrow> addr \<Rightarrow> 'a sl_mem_scheme \<Rightarrow> 'a sl_mem_scheme res" where
  "slist_internal_link_after ase se m =
     c_assert (ase \<noteq> NULL) (c_assert (se \<noteq> NULL)
       (deref (sl_elems m) ase (\<lambda>p. cloop (slist_link_after_body ase se) (le_next p, m))))"

section \<open>The list\<close>

definition slist_internal_init_slist ::
  "addr \<Rightarrow> addr \<Rightarrow> addr \<Rightarrow> 'a sl_mem_scheme \<Rightarrow> 'a sl_mem_scheme res" where
  "slist_internal_init_slist ss delete_func state m =
     c_assert (ss \<noteq> NULL)
       (deref (sl_states m) ss (\<lambda>_.
          Ok (set_sl ss \<lparr>sl_head = NULL, sl_delete_func = delete_func, sl_state = state\<rparr> m)))"

definition slist_new ::
  "addr \<Rightarrow> addr \<Rightarrow> 'a sl_mem_scheme \<Rightarrow> (u64 \<times> addr \<times> 'a sl_mem_scheme) res" where
  "slist_new delete_func state m =
     (case aligned_malloc 24 LF_ALIGN_SINGLE_POINTER m of (ss, m1) \<Rightarrow>
        if ss \<noteq> NULL then
          let m2 = set_sl ss \<lparr>sl_head = m_junk m ss, sl_delete_func = m_junk m (ss + 8),
                              sl_state = m_junk m (ss + 16)\<rparr> m1 in
          call (slist_internal_init_slist ss delete_func state m2) (\<lambda>m3. Ok (1, ss, m3))
        else Ok (0, NULL, m1))"

text \<open>The delete function of the list, if it has one.\<close>

definition slist_delete_call ::
  "'a sl_mem_scheme slist_calls \<Rightarrow> slist_state \<Rightarrow> addr \<Rightarrow> 'a sl_mem_scheme \<Rightarrow> 'a sl_mem_scheme res" where
  "slist_delete_call dcall st data m =
     (if sl_delete_func st \<noteq> NULL then dcall (sl_delete_func st) data (sl_state st) m else Ok m)"

definition slist_physical_body ::
  "'a sl_mem_scheme slist_calls \<Rightarrow> addr \<Rightarrow> addr \<times> 'a sl_mem_scheme \<Rightarrow>
     (addr \<times> 'a sl_mem_scheme, 'a sl_mem_scheme) ctl res" where
  "slist_physical_body dcall ss = (\<lambda>(se, m).
     if se = NULL then Ok (Done m)
     else
       deref (sl_states m) ss (\<lambda>st.
       deref (sl_elems m) se (\<lambda>e.
       call (slist_delete_call dcall st (fst (le_data_flag e)) m) (\<lambda>m1.
       deref (sl_elems m1) se (\<lambda>e1.
       call (free_le se m1) (\<lambda>m2. Ok (Again (le_next e1, m2))))))))"

definition slist_single_threaded_physically_delete_all_elements ::
  "'a sl_mem_scheme slist_calls \<Rightarrow> addr \<Rightarrow> 'a sl_mem_scheme \<Rightarrow> 'a sl_mem_scheme res" where
  "slist_single_threaded_physically_delete_all_elements dcall ss m =
     deref (sl_states m) ss (\<lambda>st.
     call (cloop (slist_physical_body dcall ss) (sl_head st, m)) (\<lambda>m1.
     deref (sl_states m1) ss (\<lambda>st1.
       slist_internal_init_slist ss (sl_delete_func st1) (sl_state st1) m1)))"

definition slist_delete :: "'a sl_mem_scheme slist_calls \<Rightarrow> addr \<Rightarrow> 'a sl_mem_scheme \<Rightarrow> 'a sl_mem_scheme res" where
  "slist_delete dcall ss m =
     call (slist_single_threaded_physically_delete_all_elements dcall ss m) (\<lambda>m1. free_sl ss m1)"

definition slist_use :: "addr \<Rightarrow> 'a sl_mem_scheme \<Rightarrow> 'a sl_mem_scheme res" where
  "slist_use ss m = c_assert (ss \<noteq> NULL) (Ok m)"

section \<open>Elements\<close>

text \<open>Memory for a new element: its fields hold whatever the memory held.\<close>

definition alloc_le :: "'a sl_mem_scheme \<Rightarrow> addr \<times> 'a sl_mem_scheme" where
  "alloc_le m =
     (case aligned_malloc 24 LF_ALIGN_DOUBLE_POINTER m of (q, m') \<Rightarrow>
        if q = NULL then (NULL, m')
        else (q, set_le q \<lparr>le_data_flag = (m_junk m q, m_junk m (q + 8)), le_next = m_junk m (q + 16)\<rparr> m'))"

definition slist_new_head :: "addr \<Rightarrow> addr \<Rightarrow> 'a sl_mem_scheme \<Rightarrow> (addr \<times> 'a sl_mem_scheme) res" where
  "slist_new_head ss data m =
     c_assert (ss \<noteq> NULL)
       (case alloc_le m of (se, m1) \<Rightarrow>
          if se \<noteq> NULL then
            deref (sl_elems m1) se (\<lambda>e.
            call (slist_internal_link_head ss se (set_le se (e\<lparr>le_data_flag := (data, SLIST_NO_FLAGS)\<rparr>) m1))
              (\<lambda>m2. Ok (se, m2)))
          else Ok (NULL, m1))"

definition slist_new_next :: "addr \<Rightarrow> addr \<Rightarrow> 'a sl_mem_scheme \<Rightarrow> (addr \<times> 'a sl_mem_scheme) res" where
  "slist_new_next se data m =
     c_assert (se \<noteq> NULL)
       (case alloc_le m of (se_next, m1) \<Rightarrow>
          if se_next \<noteq> NULL then
            deref (sl_elems m1) se_next (\<lambda>e.
            call (slist_internal_link_after se se_next (set_le se_next (e\<lparr>le_data_flag := (data, SLIST_NO_FLAGS)\<rparr>) m1))
              (\<lambda>m2. Ok (se_next, m2)))
          else Ok (NULL, m1))"

definition slist_logically_delete_body ::
  "addr \<Rightarrow> (addr \<times> u64) \<times> 'a sl_mem_scheme \<Rightarrow>
     ((addr \<times> u64) \<times> 'a sl_mem_scheme, u8 \<times> (addr \<times> u64) \<times> 'a sl_mem_scheme) ctl res" where
  "slist_logically_delete_body se = (\<lambda>(data_flag, m).
     let new_data_flag = (fst data_flag, snd data_flag OR SLIST_FLAG_DELETED) in
     if le_deleted (snd data_flag) then Ok (Done (0, data_flag, m))
     else
       deref (sl_elems m) se (\<lambda>e.
         case abstraction_dcas (le_data_flag e) new_data_flag data_flag of (r, df', cmp') \<Rightarrow>
           let m1 = set_le se (e\<lparr>le_data_flag := df'\<rparr>) m in
           if r = 0 then Ok (Again (cmp', m1)) else Ok (Done (r, cmp', m1))))"

definition slist_logically_delete_element ::
  "'a sl_mem_scheme slist_calls \<Rightarrow> addr \<Rightarrow> addr \<Rightarrow> 'a sl_mem_scheme \<Rightarrow> (u8 \<times> 'a sl_mem_scheme) res" where
  "slist_logically_delete_element dcall ss se m =
     c_assert (ss \<noteq> NULL) (c_assert (se \<noteq> NULL)
       (deref (sl_elems m) se (\<lambda>e.
        call (cloop (slist_logically_delete_body se) (le_data_flag e, m)) (\<lambda>(cas_rv, data_flag, m1).
          if cas_rv = 1 then
            deref (sl_states m1) ss (\<lambda>st.
            call (slist_delete_call dcall st (fst data_flag) m1) (\<lambda>m2. Ok (cas_rv, m2)))
          else Ok (cas_rv, m1)))))"

text \<open>\<open>slist_get_data\<close>: returns \<open>(rv, *data)\<close>.\<close>

definition slist_get_data :: "addr \<Rightarrow> 'a sl_mem_scheme \<Rightarrow> (u64 \<times> addr) res" where
  "slist_get_data se m =
     c_assert (se \<noteq> NULL)
       (deref (sl_elems m) se (\<lambda>e.
          Ok (if le_deleted (snd (le_data_flag e)) then 0 else 1, fst (le_data_flag e))))"

definition slist_set_data_body ::
  "addr \<Rightarrow> addr \<Rightarrow> (addr \<times> u64) \<times> 'a sl_mem_scheme \<Rightarrow>
     ((addr \<times> u64) \<times> 'a sl_mem_scheme, (addr \<times> u64) \<times> 'a sl_mem_scheme) ctl res" where
  "slist_set_data_body se data = (\<lambda>(data_flag, m).
     let new_data_flag = (data, snd data_flag) in
     if le_deleted (snd data_flag) then Ok (Done (data_flag, m))
     else
       deref (sl_elems m) se (\<lambda>e.
         case abstraction_dcas (le_data_flag e) new_data_flag data_flag of (r, df', cmp') \<Rightarrow>
           let m1 = set_le se (e\<lparr>le_data_flag := df'\<rparr>) m in
           if r = 0 then Ok (Again (cmp', m1)) else Ok (Done (cmp', m1))))"

definition slist_set_data :: "addr \<Rightarrow> addr \<Rightarrow> 'a sl_mem_scheme \<Rightarrow> (u64 \<times> 'a sl_mem_scheme) res" where
  "slist_set_data se data m =
     c_assert (se \<noteq> NULL)
       (deref (sl_elems m) se (\<lambda>e.
        call (cloop (slist_set_data_body se data) (le_data_flag e, m)) (\<lambda>(data_flag, m1).
          Ok (if le_deleted (snd data_flag) then 0 else 1, m1))))"

section \<open>Walking\<close>

definition slist_moveto_body :: "'a sl_mem_scheme \<Rightarrow> addr \<Rightarrow> (addr, addr) ctl res" where
  "slist_moveto_body m se =
     (if se = NULL then Ok (Done se)
      else deref (sl_elems m) se (\<lambda>e.
        if le_deleted (snd (le_data_flag e)) then Ok (Again (le_next e)) else Ok (Done se)))"

definition slist_internal_moveto_first :: "addr \<Rightarrow> 'a sl_mem_scheme \<Rightarrow> addr res" where
  "slist_internal_moveto_first se m = cloop (slist_moveto_body m) se"

definition slist_get_head :: "addr \<Rightarrow> 'a sl_mem_scheme \<Rightarrow> addr res" where
  "slist_get_head ss m =
     c_assert (ss \<noteq> NULL)
       (deref (sl_states m) ss (\<lambda>st. slist_internal_moveto_first (sl_head st) m))"

definition slist_get_next :: "addr \<Rightarrow> 'a sl_mem_scheme \<Rightarrow> addr res" where
  "slist_get_next se m =
     c_assert (se \<noteq> NULL)
       (deref (sl_elems m) se (\<lambda>e. slist_internal_moveto_first (le_next e) m))"

text \<open>\<open>slist_pick_head\<close>: \<open>se\<close> is the value of \<open>*se\<close> before the call.\<close>

definition slist_pick_head :: "addr \<Rightarrow> addr \<Rightarrow> 'a sl_mem_scheme \<Rightarrow> addr res" where
  "slist_pick_head ss se m =
     c_assert (ss \<noteq> NULL) (if se = NULL then slist_get_head ss m else slist_get_next se m)"

section \<open>Memory\<close>

lemma set_sl_sel [simp]:
  "sl_states (set_sl ss st m) = (sl_states m)(ss \<mapsto> st)" "sl_elems (set_sl ss st m) = sl_elems m"
  "sl_states (set_le se e m) = sl_states m" "sl_elems (set_le se e m) = (sl_elems m)(se \<mapsto> e)"
  "m_script (set_sl ss st m) = m_script m" "m_live (set_sl ss st m) = m_live m"
  "m_script (set_le se e m) = m_script m" "m_live (set_le se e m) = m_live m"
  "sl_mem.more (set_sl ss st m) = sl_mem.more m" "sl_mem.more (set_le se e m) = sl_mem.more m"
  "allocated (set_sl ss st m) = allocated m" "allocated (set_le se e m) = allocated m"
  "heap_ok (set_sl ss st m) = heap_ok m" "heap_ok (set_le se e m) = heap_ok m"
  by (auto simp: set_sl_def set_le_def allocated_def heap_ok_def fun_eq_iff)

lemma sl_more_sel [simp]:
  "sl_states (sl_mem.more_update g m) = sl_states m" "sl_elems (sl_mem.more_update g m) = sl_elems m"
  "m_script (sl_mem.more_update g m) = m_script m" "m_live (sl_mem.more_update g m) = m_live m"
  "allocated (sl_mem.more_update g m) = allocated m" "heap_ok (sl_mem.more_update g m) = heap_ok m"
  by (auto simp: allocated_def heap_ok_def fun_eq_iff)

lemma sl_c_more_eq:
  assumes "c_mem.more m' = c_mem.more m"
  shows "sl_states m' = sl_states m" "sl_elems m' = sl_elems m" "sl_mem.more m' = sl_mem.more m"
  using assms by (cases m, cases m', simp)+

section \<open>Representation\<close>

definition le_link :: "'a sl_mem_scheme \<Rightarrow> addr \<Rightarrow> addr option" where
  "le_link m p = map_option le_next (sl_elems m p)"

text \<open>A cell: the element, its data, whether it is marked as deleted.\<close>

type_synonym slist_cell = "addr \<times> addr \<times> bool"

definition le_cell :: "'a sl_mem_scheme \<Rightarrow> addr \<Rightarrow> slist_cell" where
  "le_cell m p = (case sl_elems m p of
      Some e \<Rightarrow> (p, fst (le_data_flag e), le_deleted (snd (le_data_flag e))) | None \<Rightarrow> (p, NULL, False))"

lemma le_link_set [simp]:
  "le_link (set_sl ss st m) = le_link m" "le_link (set_le p e m) = (le_link m)(p \<mapsto> le_next e)"
  "le_link (sl_mem.more_update g m) = le_link m"
  by (auto simp: le_link_def fun_eq_iff)

lemma le_cell_set [simp]:
  "le_cell (set_sl ss st m) = le_cell m"
  "le_cell (set_le p e m) = (le_cell m)(p := (p, fst (le_data_flag e), le_deleted (snd (le_data_flag e))))"
  "le_cell (sl_mem.more_update g m) = le_cell m"
  by (auto simp: le_cell_def fun_eq_iff)

lemma le_cell_fst [simp]: "fst (le_cell m p) = p"
  by (simp add: le_cell_def split: option.split)

lemma map_fst_cell [simp]: "map (fst \<circ> le_cell m) us = us" "map fst (map (le_cell m) us) = us"
  by (simp_all add: map_idI)

text \<open>\<open>sl_owned m ss us\<close>: the list at \<open>ss\<close> has the elements \<open>us\<close>; its blocks are its own.\<close>

definition sl_owned :: "'a sl_mem_scheme \<Rightarrow> addr \<Rightarrow> addr list \<Rightarrow> bool" where
  "sl_owned m ss us \<longleftrightarrow> heap_ok m \<and> allocated m ss \<and> ss \<notin> set us \<and> (\<forall>u \<in> set us. allocated m u) \<and>
     (\<exists>st. sl_states m ss = Some st \<and> chain (le_link m) (sl_head st) us)"

lemma sl_ownedE:
  assumes "sl_owned m ss us"
  obtains st where "ss \<noteq> NULL" "sl_states m ss = Some st" "chain (le_link m) (sl_head st) us" "heap_ok m"
    "allocated m ss" "ss \<notin> set us" "\<forall>u \<in> set us. allocated m u" "distinct us"
  using assms unfolding sl_owned_def by (auto dest: allocated_nonnull chain_distinct)

lemma sl_owned_elem:
  assumes "sl_owned m ss us" "p \<in> set us"
  obtains e where "p \<noteq> NULL" "sl_elems m p = Some e"
proof -
  obtain st :: slist_state where st: "chain (le_link m) (sl_head st) us" using assms(1) by (auto simp: sl_owned_def)
  then have "le_link m p \<noteq> None" "p \<noteq> NULL"
    using chain_dom [OF st assms(2)] chain_not_NULL [OF st] assms(2) by auto
  with that show ?thesis by (auto simp: le_link_def)
qed

section \<open>New elements\<close>

lemma alloc_le_enough:
  fixes m :: "'a sl_mem_scheme"
  assumes "heap_ok m" "enough_mem (Suc k) m"
  obtains q e m' where "alloc_le m = (q, m')" "q \<noteq> NULL" "\<not> allocated m q"
    "\<forall>r. allocated m' r \<longleftrightarrow> allocated m r \<or> r = q" "heap_ok m'" "enough_mem k m'"
    "sl_states m' = sl_states m" "sl_elems m' = (sl_elems m)(q \<mapsto> e)" "sl_mem.more m' = sl_mem.more m"
proof -
  obtain q m1 where al: "aligned_malloc 24 LF_ALIGN_DOUBLE_POINTER m = (q, m1)" "fresh_block q m m1"
    "heap_ok m1" "enough_mem k m1"
    using aligned_malloc_enough [OF assms(1) _ assms(2), where al = LF_ALIGN_DOUBLE_POINTER and sz = 24] by auto
  have q: "q \<noteq> NULL" "\<not> allocated m q" "\<forall>r. allocated m1 r \<longleftrightarrow> allocated m r \<or> r = q"
    and more: "c_mem.more m1 = c_mem.more m" using al(2) by (auto simp: fresh_block_def)
  note eqs = sl_c_more_eq [OF more]
  let ?e = "\<lparr>le_data_flag = (m_junk m q, m_junk m (q + 8)), le_next = m_junk m (q + 16)\<rparr>"
  show ?thesis
    by (rule that [of q "set_le q ?e m1" ?e]) (use al q eqs in \<open>simp_all add: alloc_le_def\<close>)
qed

lemma slist_new_head_owned:
  assumes own: "sl_owned m ss us" and en: "enough_mem (Suc k) m"
  shows "\<exists>p m'. slist_new_head ss d m = Ok (p, m') \<and> sl_owned m' ss (p # us) \<and> \<not> allocated m p \<and>
    map (le_cell m') (p # us) = (p, d, False) # map (le_cell m) us \<and> enough_mem k m' \<and> sl_mem.more m' = sl_mem.more m"
proof -
  obtain st where st: "ss \<noteq> NULL" "sl_states m ss = Some st" "chain (le_link m) (sl_head st) us" "heap_ok m"
    "allocated m ss" "ss \<notin> set us" "\<forall>u \<in> set us. allocated m u" "distinct us" using own by (rule sl_ownedE)
  obtain q e m1 where al: "alloc_le m = (q, m1)" "q \<noteq> NULL" "\<not> allocated m q"
    "\<forall>r. allocated m1 r \<longleftrightarrow> allocated m r \<or> r = q" "heap_ok m1" "enough_mem k m1"
    "sl_states m1 = sl_states m" "sl_elems m1 = (sl_elems m)(q \<mapsto> e)" "sl_mem.more m1 = sl_mem.more m"
    using alloc_le_enough [OF st(4) en] .
  have q: "q \<notin> set us" "q \<noteq> ss" using al(3) st(5,7) by auto
  let ?e = "e\<lparr>le_data_flag := (d, SLIST_NO_FLAGS), le_next := sl_head st\<rparr>"
  let ?m' = "set_sl ss (st\<lparr>sl_head := q\<rparr>) (set_le q ?e (set_le q (e\<lparr>le_data_flag := (d, SLIST_NO_FLAGS)\<rparr>) m1))"
  have run: "slist_new_head ss d m = Ok (q, ?m')"
    using st(1,2) al by (simp add: slist_new_head_def slist_internal_link_head_def slist_link_head_body_def abstraction_cas_def)
  have link: "le_link m1 = (le_link m)(q \<mapsto> le_next e)" "\<And>r. r \<noteq> q \<Longrightarrow> le_cell m1 r = le_cell m r"
    using al(8) by (auto simp: le_link_def le_cell_def fun_eq_iff)
  have "chain (le_link ?m') q (q # us)" using st(3) q(1) al(2) by (simp add: link(1))
  then have own': "sl_owned ?m' ss (q # us)" using st al(4,5) q by (auto simp: sl_owned_def)
  have "map (le_cell ?m') us = map (le_cell m) us"
    using q(1) by (auto intro!: link(2))
  then have "map (le_cell ?m') (q # us) = (q, d, False) # map (le_cell m) us"
    by (simp only: list.map) (simp add: le_deleted_def SLIST_NO_FLAGS_def)
  with run own' show ?thesis using al(3,6,9) by (intro exI [of _ q] exI [of _ ?m'] conjI) (assumption | simp)+
qed

lemma slist_new_next_owned:
  assumes own: "sl_owned m ss (us @ x # vs)" and en: "enough_mem (Suc k) m"
  shows "\<exists>p m'. slist_new_next x d m = Ok (p, m') \<and> sl_owned m' ss (us @ x # p # vs) \<and> \<not> allocated m p \<and>
    map (le_cell m') (us @ x # p # vs) = map (le_cell m) us @ le_cell m x # (p, d, False) # map (le_cell m) vs \<and>
    enough_mem k m' \<and> sl_mem.more m' = sl_mem.more m"
proof -
  obtain st where st: "ss \<noteq> NULL" "sl_states m ss = Some st" "chain (le_link m) (sl_head st) (us @ x # vs)" "heap_ok m"
    "allocated m ss" "ss \<notin> set (us @ x # vs)" "\<forall>u \<in> set (us @ x # vs). allocated m u" "distinct (us @ x # vs)"
    using own by (rule sl_ownedE)
  obtain xe where xe: "x \<noteq> NULL" "sl_elems m x = Some xe" using sl_owned_elem [OF own] by auto
  obtain q e m1 where al: "alloc_le m = (q, m1)" "q \<noteq> NULL" "\<not> allocated m q"
    "\<forall>r. allocated m1 r \<longleftrightarrow> allocated m r \<or> r = q" "heap_ok m1" "enough_mem k m1"
    "sl_states m1 = sl_states m" "sl_elems m1 = (sl_elems m)(q \<mapsto> e)" "sl_mem.more m1 = sl_mem.more m"
    using alloc_le_enough [OF st(4) en] .
  have q: "q \<notin> set us" "q \<notin> set vs" "q \<noteq> x" "q \<noteq> ss" using al(3) st(5,7) by auto
  let ?e = "e\<lparr>le_data_flag := (d, SLIST_NO_FLAGS), le_next := le_next xe\<rparr>"
  let ?m' = "set_le x (xe\<lparr>le_next := q\<rparr>) (set_le q ?e (set_le q (e\<lparr>le_data_flag := (d, SLIST_NO_FLAGS)\<rparr>) m1))"
  have run: "slist_new_next x d m = Ok (q, ?m')"
    using xe al q(3) by (simp add: slist_new_next_def slist_internal_link_after_def slist_link_after_body_def abstraction_cas_def)
  have link: "le_link m1 = (le_link m)(q \<mapsto> le_next e)" "\<And>r. r \<noteq> q \<Longrightarrow> le_cell m1 r = le_cell m r"
    using al(8) by (auto simp: le_link_def le_cell_def fun_eq_iff)
  have sg: "seg (le_link m) (sl_head st) us x" "chain (le_link m) (le_next xe) vs"
    using st(3) xe by (auto simp: chain_append le_link_def)
  have "chain (le_link ?m') (sl_head st) (us @ x # q # vs)"
    using sg q st(8) al(2) xe(1) by (auto simp: chain_append link(1))
  then have own': "sl_owned ?m' ss (us @ x # q # vs)" using st al(4,5,7) q by (auto simp: sl_owned_def)
  have "map (le_cell ?m') us = map (le_cell m) us" and "map (le_cell ?m') vs = map (le_cell m) vs"
    using q(1,2) st(8) by (auto intro!: link(2))
  moreover have "le_cell ?m' x = le_cell m x" using xe(2) by (simp add: le_cell_def)
  moreover have "le_cell ?m' q = (q, d, False)" using q(3) by (simp add: le_deleted_def SLIST_NO_FLAGS_def)
  ultimately have "map (le_cell ?m') (us @ x # q # vs) =
      map (le_cell m) us @ le_cell m x # (q, d, False) # map (le_cell m) vs"
    by (simp only: list.map map_append)
  with run own' show ?thesis using al(3,6,9) by (intro exI [of _ q] exI [of _ ?m'] conjI) (assumption | simp)+
qed

section \<open>Marking and data\<close>

lemma sl_owned_data:
  assumes own: "sl_owned m ss us" and e: "sl_elems m p = Some e"
  shows "sl_owned (set_le p (e\<lparr>le_data_flag := df\<rparr>) m) ss us"
proof -
  have "le_link (set_le p (e\<lparr>le_data_flag := df\<rparr>) m) = le_link m"
    using e by (auto simp: le_link_def fun_eq_iff)
  then show ?thesis using own by (simp add: sl_owned_def)
qed

lemma sl_owned_more: "sl_owned (sl_mem.more_update g m) ss us = sl_owned m ss us"
  by (simp add: sl_owned_def)

lemma le_deleted_mark: "le_deleted (flag OR SLIST_FLAG_DELETED)"
proof -
  have "(flag OR 1) AND 1 = 1" by (auto simp: bit_eq_iff bit_simps)
  then show ?thesis by (simp add: le_deleted_def SLIST_FLAG_DELETED_def)
qed

definition slist_mark :: "addr \<Rightarrow> slist_cell \<Rightarrow> slist_cell" where
  "slist_mark p = (\<lambda>(q, d, b). if q = p then (q, d, True) else (q, d, b))"

definition slist_write :: "addr \<Rightarrow> addr \<Rightarrow> slist_cell \<Rightarrow> slist_cell" where
  "slist_write p d' = (\<lambda>(q, d, b). if q = p \<and> \<not> b then (q, d', b) else (q, d, b))"

lemma slist_mark_other: "fst c \<noteq> p \<Longrightarrow> slist_mark p c = c"
  by (cases c) (simp add: slist_mark_def)

lemma slist_write_other: "fst c \<noteq> p \<Longrightarrow> slist_write p d c = c"
  by (cases c) (simp add: slist_write_def)

lemma map_le_cell_upd:
  assumes "\<And>q. q \<noteq> p \<Longrightarrow> le_cell m' q = le_cell m q" "\<And>c. fst c \<noteq> p \<Longrightarrow> f c = c" "le_cell m' p = f (le_cell m p)"
  shows "map (le_cell m') us = map f (map (le_cell m) us)"
proof -
  have "le_cell m' q = f (le_cell m q)" for q
    using assms by (cases "q = p") simp_all
  then show ?thesis by simp
qed

lemma slist_delete_owned:
  fixes m :: "'a sl_mem_scheme"
  assumes call: "\<And>d m. slist_delete_call dcall st d m = Ok (sl_mem.more_update (g d) m)"
    and st: "sl_states m ss = Some st"
    and own: "sl_owned m ss us" and p: "p \<in> set us" and cell: "le_cell m p = (p, d, b)"
  shows "\<exists>m'. slist_logically_delete_element dcall ss p m = Ok (if b then 0 else 1, m') \<and> sl_owned m' ss us \<and>
    map (le_cell m') us = map (slist_mark p) (map (le_cell m) us) \<and> m_script m' = m_script m \<and> m_live m' = m_live m \<and>
    allocated m' = allocated m \<and> sl_states m' = sl_states m \<and> sl_mem.more m' = (if b then sl_mem.more m else g d (sl_mem.more m))"
proof -
  have ss: "ss \<noteq> NULL" using own by (rule sl_ownedE)
  obtain e where e: "p \<noteq> NULL" "sl_elems m p = Some e" using sl_owned_elem [OF own p] .
  have de: "fst (le_data_flag e) = d" "le_deleted (snd (le_data_flag e)) = b"
    using cell e(2) by (simp_all add: le_cell_def)
  show ?thesis
  proof (cases b)
    case True
    then have "map (le_cell m) us = map (slist_mark p) (map (le_cell m) us)"
      using cell by (intro map_le_cell_upd [of p]) (auto simp: slist_mark_def split: prod.splits)
    then show ?thesis
      using ss e de own True
      by (intro exI [of _ m]) (simp add: slist_logically_delete_element_def slist_logically_delete_body_def)
  next
    case False
    let ?e = "e\<lparr>le_data_flag := (d, snd (le_data_flag e) OR SLIST_FLAG_DELETED)\<rparr>"
    let ?m' = "sl_mem.more_update (g d) (set_le p ?e m)"
    have "slist_logically_delete_element dcall ss p m = Ok (1, ?m')"
      using ss st e de False call
      by (simp add: slist_logically_delete_element_def slist_logically_delete_body_def abstraction_dcas_def Let_def)
    moreover have "sl_owned ?m' ss us"
      using sl_owned_data [OF own e(2)] by (simp add: sl_owned_more)
    moreover have "map (le_cell ?m') us = map (slist_mark p) (map (le_cell m) us)"
      using cell by (intro map_le_cell_upd [of p]) (auto simp: slist_mark_def le_deleted_mark split: prod.splits)
    ultimately show ?thesis using False by (intro exI [of _ ?m']) simp
  qed
qed

lemma slist_set_data_owned:
  fixes m :: "'a sl_mem_scheme"
  assumes own: "sl_owned m ss us" and p: "p \<in> set us" and cell: "le_cell m p = (p, d, b)"
  shows "\<exists>m'. slist_set_data p d' m = Ok (if b then 0 else 1, m') \<and> sl_owned m' ss us \<and>
    map (le_cell m') us = map (slist_write p d') (map (le_cell m) us) \<and> m_script m' = m_script m \<and> m_live m' = m_live m \<and>
    allocated m' = allocated m \<and> sl_mem.more m' = sl_mem.more m"
proof -
  obtain e where e: "p \<noteq> NULL" "sl_elems m p = Some e" using sl_owned_elem [OF own p] .
  have de: "fst (le_data_flag e) = d" "le_deleted (snd (le_data_flag e)) = b"
    using cell e(2) by (simp_all add: le_cell_def)
  show ?thesis
  proof (cases b)
    case True
    then have "map (le_cell m) us = map (slist_write p d') (map (le_cell m) us)"
      using cell by (intro map_le_cell_upd [of p]) (auto simp: slist_write_def split: prod.splits)
    then show ?thesis
      using e de own True by (intro exI [of _ m]) (simp add: slist_set_data_def slist_set_data_body_def)
  next
    case False
    let ?m' = "set_le p (e\<lparr>le_data_flag := (d', snd (le_data_flag e))\<rparr>) m"
    have "slist_set_data p d' m = Ok (1, ?m')"
      using e de False by (simp add: slist_set_data_def slist_set_data_body_def abstraction_dcas_def Let_def)
    moreover have "map (le_cell ?m') us = map (slist_write p d') (map (le_cell m) us)"
      using cell de False by (intro map_le_cell_upd [of p]) (auto simp: slist_write_def split: prod.splits)
    ultimately show ?thesis using False sl_owned_data [OF own e(2)] by (intro exI [of _ ?m']) simp
  qed
qed

section \<open>Walking\<close>

lemma le_chain_Cons:
  assumes "chain (le_link m) p (u # us)"
  obtains e where "p = u" "u \<noteq> NULL" "sl_elems m u = Some e" "chain (le_link m) (le_next e) us"
proof -
  have "le_link m u = map_option le_next (sl_elems m u)" by (simp add: le_link_def)
  then show ?thesis using assms that by (cases "sl_elems m u") auto
qed

lemma slist_moveto_chain:
  assumes "chain (le_link m) p us"
  shows "\<exists>q. slist_internal_moveto_first p m = Ok q \<and>
    (case dropWhile (\<lambda>u. snd (snd (le_cell m u))) us of [] \<Rightarrow> q = NULL | v # vs \<Rightarrow> q = v)"
  using assms
proof (induction us arbitrary: p)
  case Nil
  then show ?case by (simp add: slist_internal_moveto_first_def slist_moveto_body_def)
next
  case (Cons u us)
  obtain e where e: "p = u" "u \<noteq> NULL" "sl_elems m u = Some e" "chain (le_link m) (le_next e) us"
    using le_chain_Cons [OF Cons.prems] .
  show ?case
  proof (cases "le_deleted (snd (le_data_flag e))")
    case True
    then have "slist_internal_moveto_first p m = slist_internal_moveto_first (le_next e) m"
      using e by (simp add: slist_internal_moveto_first_def slist_moveto_body_def cloop_Again)
    then show ?thesis using Cons.IH [OF e(4)] True e by (simp add: le_cell_def)
  qed (use e in \<open>simp add: slist_internal_moveto_first_def slist_moveto_body_def le_cell_def\<close>)
qed

text \<open>A client that visits the list: \<open>slist_pick_head\<close> until NULL, collecting the data.\<close>

definition slist_walk_body ::
  "'a sl_mem_scheme \<Rightarrow> addr \<Rightarrow> addr \<times> (addr \<times> addr) list \<Rightarrow> (addr \<times> (addr \<times> addr) list, (addr \<times> addr) list) ctl res" where
  "slist_walk_body m ss = (\<lambda>(se, acc).
     call (slist_pick_head ss se m) (\<lambda>se'.
       if se' = NULL then Ok (Done (rev acc))
       else call (slist_get_data se' m) (\<lambda>(rv, d). Ok (Again (se', (se', d) # acc)))))"

definition slist_walk :: "addr \<Rightarrow> 'a sl_mem_scheme \<Rightarrow> (addr \<times> addr) list res" where
  "slist_walk ss m = cloop (slist_walk_body m ss) (NULL, [])"

text \<open>The cells that are not marked.\<close>

definition slist_visible :: "slist_cell list \<Rightarrow> (addr \<times> addr) list" where
  "slist_visible cs = map (\<lambda>(p, d, b). (p, d)) (filter (\<lambda>(p, d, b). \<not> b) cs)"

lemma slist_visible_dropWhile:
  "slist_visible (map (le_cell m) (dropWhile (\<lambda>u. snd (snd (le_cell m u))) us)) = slist_visible (map (le_cell m) us)"
  by (induction us) (auto simp: slist_visible_def split: prod.splits)

lemma slist_walk_step:
  assumes start: "slist_pick_head ss se m = slist_internal_moveto_first p m" and c: "chain (le_link m) p us"
    and ss: "ss \<noteq> NULL"
  shows "cloop (slist_walk_body m ss) (se, acc) = Ok (rev acc @ slist_visible (map (le_cell m) us))"
  using start c
proof (induction us arbitrary: se p acc rule: length_induct)
  case (1 us)
  let ?ws = "dropWhile (\<lambda>u. snd (snd (le_cell m u))) us"
  obtain q where q: "slist_internal_moveto_first p m = Ok q"
    "case ?ws of [] \<Rightarrow> q = NULL | v # vs \<Rightarrow> q = v" using slist_moveto_chain [OF 1(3)] by auto
  note vis = slist_visible_dropWhile [of m us]
  show ?case
  proof (cases ?ws)
    case Nil
    have "q = NULL" using q(2) unfolding Nil by simp
    then have "slist_walk_body m ss (se, acc) = Ok (Done (rev acc))"
      using q(1) 1(2) by (simp add: slist_walk_body_def)
    then show ?thesis using vis unfolding Nil by (simp add: slist_visible_def)
  next
    case (Cons v vs)
    define us1 where "us1 = takeWhile (\<lambda>u. snd (snd (le_cell m u))) us"
    have us: "us = us1 @ v # vs" using Cons by (metis takeWhile_dropWhile_id us1_def)
    obtain p' where "chain (le_link m) p' (v # vs)" using 1(3) unfolding us chain_append by blast
    then obtain e where e: "v \<noteq> NULL" "sl_elems m v = Some e" "chain (le_link m) (le_next e) vs"
      by (rule le_chain_Cons)
    have nd: "\<not> snd (snd (le_cell m v))" using hd_dropWhile [of "\<lambda>u. snd (snd (le_cell m u))" us] Cons by simp
    have cell: "le_cell m v = (v, fst (le_data_flag e), False)" using e(2) nd by (simp add: le_cell_def)
    have "q = v" using q(2) unfolding Cons by simp
    then have "slist_walk_body m ss (se, acc) = Ok (Again (v, (v, fst (le_data_flag e)) # acc))"
      using q(1) 1(2) e by (simp add: slist_walk_body_def slist_get_data_def)
    moreover have "slist_pick_head ss v m = slist_internal_moveto_first (le_next e) m"
      using e ss by (simp add: slist_pick_head_def slist_get_next_def)
    moreover have "length vs < length us" using us by simp
    ultimately show ?thesis
      using 1(1) e(3) vis cell unfolding Cons by (simp add: cloop_Again slist_visible_def)
  qed
qed

lemma slist_walk_owned:
  assumes "sl_owned m ss us"
  shows "slist_walk ss m = Ok (slist_visible (map (le_cell m) us))"
proof -
  obtain st where st: "ss \<noteq> NULL" "sl_states m ss = Some st" "chain (le_link m) (sl_head st) us"
    using assms by (rule sl_ownedE)
  then have "slist_pick_head ss NULL m = slist_internal_moveto_first (sl_head st) m"
    by (simp add: slist_pick_head_def slist_get_head_def)
  from slist_walk_step [OF this st(3,1), of "[]"] show ?thesis by (simp add: slist_walk_def)
qed

section \<open>Physical deletion\<close>

lemma free_le_allocated:
  fixes m :: "'a sl_mem_scheme"
  assumes "heap_ok m" "allocated m x"
  shows "\<exists>m'. free_le x m = Ok m' \<and> heap_ok m' \<and> (\<forall>r. allocated m' r \<longleftrightarrow> allocated m r \<and> r \<noteq> x) \<and>
    sl_states m' = sl_states m \<and> sl_elems m' = (sl_elems m)(x := None) \<and> sl_mem.more m' = sl_mem.more m"
proof -
  obtain m1 where m1: "aligned_free x m = Ok m1" "heap_ok m1"
    "\<forall>r. allocated m1 r \<longleftrightarrow> allocated m r \<and> r \<noteq> x" and more: "c_mem.more m1 = c_mem.more m"
    using aligned_free_allocated [OF assms] by auto
  note eqs = sl_c_more_eq [OF more]
  let ?m' = "m1\<lparr>sl_elems := (sl_elems m1)(x := None)\<rparr>"
  have "allocated ?m' = allocated m1" "heap_ok ?m' = heap_ok m1" by (auto simp: allocated_def heap_ok_def fun_eq_iff)
  then show ?thesis using m1 eqs by (intro exI [of _ ?m']) (simp add: free_le_def)
qed

lemma slist_physical_loop:
  fixes m :: "'a sl_mem_scheme"
  assumes call: "\<And>d m. slist_delete_call dcall st d m = Ok (sl_mem.more_update (g d) m)"
    and "heap_ok m" "\<forall>u \<in> set us. allocated m u" "chain (le_link m) p us" "distinct us" "sl_states m ss = Some st"
  shows "\<exists>m'. cloop (slist_physical_body dcall ss) (p, m) = Ok m' \<and> heap_ok m' \<and>
    (\<forall>r. allocated m' r \<longleftrightarrow> allocated m r \<and> r \<notin> set us) \<and> sl_states m' = sl_states m \<and>
    sl_mem.more m' = fold g (map (\<lambda>u. fst (snd (le_cell m u))) us) (sl_mem.more m)"
  using assms(2-)
proof (induction us arbitrary: m p)
  case Nil
  then show ?case by (intro exI [of _ m]) (simp add: slist_physical_body_def)
next
  case (Cons u us)
  obtain e where e: "p = u" "u \<noteq> NULL" "sl_elems m u = Some e" "chain (le_link m) (le_next e) us"
    using le_chain_Cons [OF Cons.prems(3)] .
  let ?d = "fst (le_data_flag e)"
  let ?m1 = "sl_mem.more_update (g ?d) m"
  have "heap_ok ?m1" "allocated ?m1 u" using Cons.prems by simp_all
  from free_le_allocated [OF this] obtain m2 where m2: "free_le u ?m1 = Ok m2" "heap_ok m2"
    "\<forall>r. allocated m2 r \<longleftrightarrow> allocated ?m1 r \<and> r \<noteq> u" "sl_states m2 = sl_states ?m1"
    "sl_elems m2 = (sl_elems ?m1)(u := None)" "sl_mem.more m2 = sl_mem.more ?m1"
    by (elim exE conjE) (rule that)
  have "slist_physical_body dcall ss (p, m) = Ok (Again (le_next e, m2))"
    using e m2(1) call Cons.prems(5) by (simp add: slist_physical_body_def)
  then have step: "cloop (slist_physical_body dcall ss) (p, m) = cloop (slist_physical_body dcall ss) (le_next e, m2)"
    by (rule cloop_Again)
  have "le_link m2 = (le_link m)(u := None)" using m2(5) by (auto simp: le_link_def fun_eq_iff)
  then have "chain (le_link m2) (le_next e) us" using e(4) Cons.prems(4) by simp
  moreover have "\<forall>v \<in> set us. allocated m2 v" using m2(3) Cons.prems(2,4) by auto
  ultimately obtain m' where m': "cloop (slist_physical_body dcall ss) (le_next e, m2) = Ok m'" "heap_ok m'"
    "\<forall>r. allocated m' r \<longleftrightarrow> allocated m2 r \<and> r \<notin> set us" "sl_states m' = sl_states m2"
    "sl_mem.more m' = fold g (map (\<lambda>u. fst (snd (le_cell m2 u))) us) (sl_mem.more m2)"
    using Cons.IH [of m2 "le_next e"] m2(2,4) Cons.prems(4,5) by auto
  have items: "map (\<lambda>v. fst (snd (le_cell m2 v))) us = map (\<lambda>v. fst (snd (le_cell m v))) us"
    using m2(5) Cons.prems(4) by (auto simp: le_cell_def)
  have "fst (snd (le_cell m u)) = ?d" using e(3) by (simp add: le_cell_def)
  then have "sl_mem.more m' = fold g (map (\<lambda>u. fst (snd (le_cell m u))) (u # us)) (sl_mem.more m)"
    unfolding m'(5) items m2(6) by simp
  then show ?case using step m'(1-4) m2 by (intro exI [of _ m'] conjI) auto
qed

lemma slist_delete_all:
  fixes m :: "'a sl_mem_scheme"
  assumes call: "\<And>d m. slist_delete_call dcall st d m = Ok (sl_mem.more_update (g d) m)"
    and state: "sl_states m ss = Some st" and own: "sl_owned m ss us"
  shows "\<exists>m'. slist_delete dcall ss m = Ok m' \<and>
    (\<forall>r. allocated m' r \<longleftrightarrow> allocated m r \<and> r \<notin> set (ss # us)) \<and>
    sl_mem.more m' = fold g (map (\<lambda>u. fst (snd (le_cell m u))) us) (sl_mem.more m)"
proof -
  have st: "ss \<noteq> NULL" "sl_states m ss = Some st" "chain (le_link m) (sl_head st) us" "heap_ok m"
    "allocated m ss" "ss \<notin> set us" "\<forall>u \<in> set us. allocated m u" "distinct us"
    using own state by (auto elim: sl_ownedE)
  from slist_physical_loop [where dcall = dcall and g = g, OF call st(4,7,3,8,2)] obtain m1 where
    m1: "cloop (slist_physical_body dcall ss) (sl_head st, m) = Ok m1" "heap_ok m1"
    "\<forall>r. allocated m1 r \<longleftrightarrow> allocated m r \<and> r \<notin> set us" "sl_states m1 = sl_states m"
    "sl_mem.more m1 = fold g (map (\<lambda>u. fst (snd (le_cell m u))) us) (sl_mem.more m)"
    by (elim exE conjE) (rule that)
  let ?m2 = "set_sl ss \<lparr>sl_head = NULL, sl_delete_func = sl_delete_func st, sl_state = sl_state st\<rparr> m1"
  have al: "heap_ok ?m2" "allocated ?m2 ss" using m1(2,3) st(5,6) by simp_all
  obtain m3 where m3: "aligned_free ss ?m2 = Ok m3" "\<forall>r. allocated m3 r \<longleftrightarrow> allocated ?m2 r \<and> r \<noteq> ss"
    and more: "c_mem.more m3 = c_mem.more ?m2"
    using aligned_free_allocated [OF al] by auto
  let ?m4 = "m3\<lparr>sl_states := (sl_states m3)(ss := None)\<rparr>"
  have "slist_delete dcall ss m = Ok ?m4"
    using st(1,2) m1(1,4) m3(1)
    by (simp add: slist_delete_def slist_single_threaded_physically_delete_all_elements_def
        slist_internal_init_slist_def free_sl_def)
  moreover have "allocated ?m4 = allocated m3" by (auto simp: allocated_def fun_eq_iff)
  moreover have "sl_mem.more ?m4 = sl_mem.more m1" using sl_c_more_eq(3) [OF more] by simp
  ultimately show ?thesis using m3(2) m1(3,5) by (intro exI [of _ ?m4]) auto
qed

section \<open>Sequences of operations\<close>

datatype slist_op = NewHead addr | NewNext addr addr | DeleteElement addr | SetData addr addr

text \<open>
  What an operation does to the cells, given the result the caller saw: \<open>None\<close> when that
  result is not one the operation may give.
\<close>

fun slist_insert :: "addr \<Rightarrow> slist_cell \<Rightarrow> slist_cell list \<Rightarrow> slist_cell list" where
  "slist_insert p c [] = []"
| "slist_insert p c (x # xs) = (if fst x = p then x # c # xs else x # slist_insert p c xs)"

definition slist_marked :: "addr \<Rightarrow> slist_cell list \<Rightarrow> bool" where
  "slist_marked p cs \<longleftrightarrow> (\<exists>d. (p, d, True) \<in> set cs)"

fun slist_step :: "slist_op \<Rightarrow> u64 \<Rightarrow> slist_cell list \<Rightarrow> slist_cell list option" where
  "slist_step (NewHead d) r cs = (if r \<noteq> NULL \<and> r \<notin> fst ` set cs then Some ((r, d, False) # cs) else None)"
| "slist_step (NewNext p d) r cs =
     (if r \<noteq> NULL \<and> r \<notin> fst ` set cs then Some (slist_insert p (r, d, False) cs) else None)"
| "slist_step (DeleteElement p) r cs =
     (if r = (if slist_marked p cs then 0 else 1) then Some (map (slist_mark p) cs) else None)"
| "slist_step (SetData p d) r cs =
     (if r = (if slist_marked p cs then 0 else 1) then Some (map (slist_write p d) cs) else None)"

text \<open>The same operations on the list at \<open>ss\<close>.\<close>

fun slist_call ::
  "'a sl_mem_scheme slist_calls \<Rightarrow> addr \<Rightarrow> slist_op \<Rightarrow> 'a sl_mem_scheme \<Rightarrow> (u64 \<times> 'a sl_mem_scheme) res" where
  "slist_call dcall ss (NewHead d) m = slist_new_head ss d m"
| "slist_call dcall ss (NewNext p d) m = slist_new_next p d m"
| "slist_call dcall ss (DeleteElement p) m =
     call (slist_logically_delete_element dcall ss p m) (\<lambda>(r, m'). Ok (ucast r, m'))"
| "slist_call dcall ss (SetData p d) m = slist_set_data p d m"

fun slist_target :: "slist_op \<Rightarrow> addr option" where
  "slist_target (NewHead d) = None"
| "slist_target (NewNext p d) = Some p"
| "slist_target (DeleteElement p) = Some p"
| "slist_target (SetData p d) = Some p"

lemma slist_insert_at:
  "p \<notin> fst ` set cs \<Longrightarrow> fst x = p \<Longrightarrow> slist_insert p c (cs @ x # ds) = cs @ x # c # ds"
  by (induction cs) auto

lemma slist_marked_cell:
  assumes "p \<in> set us"
  shows "slist_marked p (map (le_cell m) us) = snd (snd (le_cell m p))"
proof -
  have "(p, d, True) = le_cell m q \<longleftrightarrow> q = p \<and> le_cell m p = (p, d, True)" for q d
    by (metis fst_conv le_cell_fst)
  then show ?thesis
    using assms by (cases "le_cell m p") (auto simp: slist_marked_def image_iff, metis fst_conv le_cell_fst)
qed

lemma slist_call_refines:
  fixes m :: "'a sl_mem_scheme"
  assumes call: "\<And>d m. slist_delete_call dcall st d m = Ok (sl_mem.more_update (g d) m)"
    and state: "sl_states m ss = Some st" and own: "sl_owned m ss us" and en: "enough_mem (Suc k) m"
    and target: "\<And>p. slist_target x = Some p \<Longrightarrow> p \<in> set us"
  shows "\<exists>r us' m'. slist_call dcall ss x m = Ok (r, m') \<and> sl_owned m' ss us' \<and> set us \<subseteq> set us' \<and>
    slist_step x r (map (le_cell m) us) = Some (map (le_cell m') us') \<and> enough_mem k m'"
proof (cases x)
  case (NewHead d)
  from slist_new_head_owned [OF own en, of d] obtain p m' where
    m': "slist_new_head ss d m = Ok (p, m')" "sl_owned m' ss (p # us)" "\<not> allocated m p"
    "map (le_cell m') (p # us) = (p, d, False) # map (le_cell m) us" "enough_mem k m'"
    by (elim exE conjE) (rule that)
  have "p \<notin> set us" using own m'(3) by (auto simp: sl_owned_def)
  moreover have "p \<noteq> NULL" using sl_owned_elem [OF m'(2), of p] by auto
  ultimately have "slist_step x p (map (le_cell m) us) = Some (map (le_cell m') (p # us))"
    unfolding m'(4) using NewHead by (simp add: image_image)
  then show ?thesis using NewHead m'
    by (intro exI [of _ p] exI [of _ "p # us"] exI [of _ m'] conjI) auto
next
  case (NewNext u d)
  then have "u \<in> set us" using target by simp
  then obtain vs ws where us: "us = vs @ u # ws" "u \<notin> set vs" by (metis split_list_first)
  from slist_new_next_owned [OF own [unfolded us] en, of d] obtain p m' where
    m': "slist_new_next u d m = Ok (p, m')" "sl_owned m' ss (vs @ u # p # ws)" "\<not> allocated m p"
    "map (le_cell m') (vs @ u # p # ws) = map (le_cell m) vs @ le_cell m u # (p, d, False) # map (le_cell m) ws"
    "enough_mem k m'" by (elim exE conjE) (rule that)
  have p: "p \<notin> set us" using own m'(3) by (auto simp: sl_owned_def)
  moreover have "p \<noteq> NULL" using sl_owned_elem [OF m'(2), of p] by auto
  moreover have "slist_insert u (p, d, False) (map (le_cell m) us) = map (le_cell m') (vs @ u # p # ws)"
    unfolding m'(4) using slist_insert_at [of u "map (le_cell m) vs" "le_cell m u"] us by (simp add: image_image)
  ultimately have "slist_step x p (map (le_cell m) us) = Some (map (le_cell m') (vs @ u # p # ws))"
    using NewNext by (simp add: image_image)
  then show ?thesis using NewNext m' us
    by (intro exI [of _ p] exI [of _ "vs @ u # p # ws"] exI [of _ m'] conjI) auto
next
  case (DeleteElement p)
  then have p: "p \<in> set us" using target by simp
  obtain d b where cell: "le_cell m p = (p, d, b)" by (metis le_cell_fst prod.collapse)
  from slist_delete_owned [where dcall = dcall and g = g, OF call state own p cell] obtain m' where
    m': "slist_logically_delete_element dcall ss p m = Ok (if b then 0 else 1, m')" "sl_owned m' ss us"
    "map (le_cell m') us = map (slist_mark p) (map (le_cell m) us)" "m_script m' = m_script m" "m_live m' = m_live m"
    by (elim exE conjE) (rule that)
  have "slist_step x (if b then 0 else 1) (map (le_cell m) us) = Some (map (le_cell m') us)"
    unfolding m'(3) using DeleteElement cell slist_marked_cell [OF p, of m] by simp
  then show ?thesis using DeleteElement m' enough_Suc [OF en]
    by (intro exI [of _ "if b then 0 else 1"] exI [of _ us] exI [of _ m'] conjI) auto
next
  case (SetData p d')
  then have p: "p \<in> set us" using target by simp
  obtain d b where cell: "le_cell m p = (p, d, b)" by (metis le_cell_fst prod.collapse)
  from slist_set_data_owned [OF own p cell, of d'] obtain m' where
    m': "slist_set_data p d' m = Ok (if b then 0 else 1, m')" "sl_owned m' ss us"
    "map (le_cell m') us = map (slist_write p d') (map (le_cell m) us)" "m_script m' = m_script m" "m_live m' = m_live m"
    by (elim exE conjE) (rule that)
  have "slist_step x (if b then 0 else 1) (map (le_cell m) us) = Some (map (le_cell m') us)"
    unfolding m'(3) using SetData cell slist_marked_cell [OF p, of m] by simp
  then show ?thesis using SetData m' enough_Suc [OF en]
    by (intro exI [of _ "if b then 0 else 1"] exI [of _ us] exI [of _ m'] conjI) auto
qed

section \<open>A concrete list\<close>

text \<open>The list at 32 with the elements 224 (data 8) and 128 (data 7); the client keeps a log.\<close>

definition sl_demo :: "addr list sl_mem_scheme" where
  "sl_demo = \<lparr>m_script = [304], m_live = [208, 112, 16], m_hdr = [24 \<mapsto> 16, 120 \<mapsto> 112, 216 \<mapsto> 208],
     m_junk = (\<lambda>p. 255),
     sl_states = [32 \<mapsto> \<lparr>sl_head = 224, sl_delete_func = 4096, sl_state = NULL\<rparr>],
     sl_elems = [128 \<mapsto> \<lparr>le_data_flag = (7, 0), le_next = NULL\<rparr>, 224 \<mapsto> \<lparr>le_data_flag = (8, 0), le_next = 128\<rparr>],
     \<dots> = []\<rparr>"

definition sl_log :: "addr list sl_mem_scheme slist_calls" where
  "sl_log f d state m = Ok (sl_mem.more_update (\<lambda>l. l @ [d]) m)"

lemma sl_demo_state: "sl_states sl_demo 32 = Some \<lparr>sl_head = 224, sl_delete_func = 4096, sl_state = NULL\<rparr>"
  by (simp add: sl_demo_def)

lemma sl_log_call:
  "slist_delete_call sl_log \<lparr>sl_head = 224, sl_delete_func = 4096, sl_state = NULL\<rparr> d m =
     Ok (sl_mem.more_update ((\<lambda>d l. l @ [d]) d) m)"
  by (simp add: slist_delete_call_def sl_log_def)

lemma sl_demo_owned: "sl_owned sl_demo 32 [224, 128]"
  by (simp add: sl_owned_def sl_demo_def heap_ok_def allocated_def good_block_def le_link_def)

lemma sl_demo_cells: "map (le_cell sl_demo) [224, 128] = [(224, 8, False), (128, 7, False)]"
  by (simp add: le_cell_def sl_demo_def le_deleted_def)

section \<open>Properties\<close>

text \<open>
  C17. Every operation on a list keeps it well formed and does to its cells (element, data,
  deletion mark) what it should: \<open>slist_new_head\<close> puts a new element in front,
  \<open>slist_new_next\<close> puts one right behind the given element, even a deleted one,
  \<open>slist_logically_delete_element\<close> sets the mark and returns 1 the first time and 0 from then
  on, \<open>slist_set_data\<close> replaces the data and returns 1, or 0 with nothing changed if the
  element is marked. All of them return.
\<close>

theorem slist_operations:
  fixes m :: "'a sl_mem_scheme"
  assumes "\<And>d m. slist_delete_call dcall st d m = Ok (sl_mem.more_update (g d) m)"
    and "sl_states m ss = Some st" and "sl_owned m ss us" and "enough_mem 1 m" and "\<And>p. slist_target x = Some p \<Longrightarrow> p \<in> set us"
  shows "\<exists>r us' m'. slist_call dcall ss x m = Ok (r, m') \<and> sl_owned m' ss us' \<and> set us \<subseteq> set us' \<and>
    slist_step x r (map (le_cell m) us) = Some (map (le_cell m') us')"
proof -
  have "enough_mem (Suc 0) m" using assms(4) by simp
  from slist_call_refines [where dcall = dcall and g = g, OF assms(1-3) this assms(5)] show ?thesis by blast
qed

theorem slist_operations_witness:
  "\<exists>r us' m'. slist_call sl_log 32 (NewNext 224 9) sl_demo = Ok (r, m') \<and> sl_owned m' 32 us' \<and>
     map (le_cell m') us' = [(224, 8, False), (r, 9, False), (128, 7, False)]"
proof -
  obtain r us' m' where "slist_call sl_log 32 (NewNext 224 9) sl_demo = Ok (r, m')" "sl_owned m' 32 us'"
    "slist_step (NewNext 224 9) r (map (le_cell sl_demo) [224, 128]) = Some (map (le_cell m') us')"
    using slist_operations [where x = "NewNext 224 9", OF sl_log_call sl_demo_state sl_demo_owned]
    by (auto simp: sl_demo_def good_block_def)
  then show ?thesis unfolding sl_demo_cells by (intro exI [of _ r] exI [of _ us'] exI [of _ m']) (auto split: if_splits)
qed

text \<open>
  C18. Visiting a list with \<open>slist_pick_head\<close> until it gives NULL ends, and visits exactly the
  elements that are not marked as deleted, in order, with their data.
\<close>

theorem slist_walk_visits:
  assumes "sl_owned m ss us"
  shows "slist_walk ss m = Ok (slist_visible (map (le_cell m) us))"
  by (rule slist_walk_owned [OF assms])

theorem slist_walk_visits_witness: "slist_walk 32 sl_demo = Ok [(224, 8), (128, 7)]"
  using slist_walk_visits [OF sl_demo_owned] unfolding sl_demo_cells by (simp add: slist_visible_def)

text \<open>
  C23. \<open>slist_delete\<close> frees the list and all its elements and no other block, and calls the
  delete function once for every element. For an element that was deleted logically before,
  that is a second call on the same data: after \<open>slist_logically_delete_element\<close> has passed
  the data \<open>d\<close> to the delete function, \<open>slist_delete\<close> passes it again.
\<close>

theorem slist_delete_twice:
  fixes m :: "'a sl_mem_scheme"
  assumes "\<And>d m. slist_delete_call dcall st d m = Ok (sl_mem.more_update (g d) m)"
    and "sl_states m ss = Some st" and "sl_owned m ss us" and "p \<in> set us" and "le_cell m p = (p, d, False)"
  shows "\<exists>m1 m2. slist_logically_delete_element dcall ss p m = Ok (1, m1) \<and> slist_delete dcall ss m1 = Ok m2 \<and>
    (\<forall>r. allocated m2 r \<longleftrightarrow> allocated m r \<and> r \<notin> set (ss # us)) \<and>
    sl_mem.more m2 = fold g (d # map (\<lambda>u. fst (snd (le_cell m u))) us) (sl_mem.more m)"
proof -
  from slist_delete_owned [where dcall = dcall and g = g, OF assms] obtain m1 where
    m1: "slist_logically_delete_element dcall ss p m = Ok (1, m1)" "sl_owned m1 ss us"
    "map (le_cell m1) us = map (slist_mark p) (map (le_cell m) us)" "allocated m1 = allocated m"
    "sl_mem.more m1 = g d (sl_mem.more m)" "sl_states m1 = sl_states m" by auto
  have st1: "sl_states m1 ss = Some st" using m1(6) assms(2) by simp
  from slist_delete_all [where dcall = dcall and g = g, OF assms(1) st1 m1(2)] obtain m2 where
    m2: "slist_delete dcall ss m1 = Ok m2" "\<forall>r. allocated m2 r \<longleftrightarrow> allocated m1 r \<and> r \<notin> set (ss # us)"
    "sl_mem.more m2 = fold g (map (\<lambda>u. fst (snd (le_cell m1 u))) us) (sl_mem.more m1)"
    by (elim exE conjE) (rule that)
  have "fst (snd (slist_mark p c)) = fst (snd c)" for c by (cases c) (simp add: slist_mark_def)
  then have "map (fst \<circ> snd) (map (le_cell m1) us) = map (fst \<circ> snd) (map (le_cell m) us)"
    unfolding m1(3) by simp
  then have "map (\<lambda>u. fst (snd (le_cell m1 u))) us = map (\<lambda>u. fst (snd (le_cell m u))) us" by simp
  then show ?thesis using m1 m2 by (intro exI [of _ m1] exI [of _ m2]) (simp del: map_eq_conv)
qed

theorem slist_delete_twice_witness:
  "\<exists>m1 m2. slist_logically_delete_element sl_log 32 128 sl_demo = Ok (1, m1) \<and>
    slist_delete sl_log 32 m1 = Ok m2 \<and> sl_mem.more m2 = [7, 8, 7]"
proof -
  have "le_cell sl_demo 128 = (128, 7, False)" using sl_demo_cells by simp
  from slist_delete_twice [OF sl_log_call sl_demo_state sl_demo_owned _ this]
  show ?thesis using sl_demo_cells by (auto simp: sl_demo_def)
qed

end
