(* ===== verification/Hashfunc.thy ===== *)
theory Hashfunc
  imports Prelude
begin

text \<open>
  advance/hashfunc/basic_hashfunc.h and the MurmurHash3 functions of
  advance/hashfunc/bloom_hashfunc.h. A key is the list of its bytes and \<open>len\<close> its length, which
  is assumed to fit the \<open>int\<close> that the source passes it in. Words are loaded little-endian, as
  x86 does. A shift of a byte by 24 overflows the \<open>int\<close> it is promoted to in C when the byte
  is 128 or more; the model has the bits that the hardware produces.
\<close>

unbundle bit_operations_syntax

section \<open>The basic hash function\<close>

definition DCHARHASH :: "u32 \<Rightarrow> u8 \<Rightarrow> u32" where
  "DCHARHASH h c = 0x63c63cd9 * h + 0x9c39c33d + ucast c"

text \<open>
  The loop of \<open>__hash_func\<close> with \<open>k\<close> and \<open>e\<close> as offsets from the key; \<open>n\<close> is the number of
  rounds still possible, so that the loop ends when \<open>k\<close> has reached \<open>e\<close>.
\<close>

fun hash_func_loop :: "u8 list \<Rightarrow> nat \<Rightarrow> nat \<Rightarrow> u32 \<Rightarrow> nat \<Rightarrow> u32" where
  "hash_func_loop key e 0 h k = h"
| "hash_func_loop key e (Suc n) h k =
     (if k = e then h
      else
        let c = key ! k; k' = k + 1 in
        if c = 0 \<and> k' > e then h
        else hash_func_loop key e n (DCHARHASH h c) k')"

definition hash_func :: "u8 list \<Rightarrow> u32" where
  "hash_func key = hash_func_loop key (length key) (length key) 0 0"

section \<open>Murmur: rotations, finalisers, loads\<close>

definition rotl32 :: "u32 \<Rightarrow> nat \<Rightarrow> u32" where
  "rotl32 x r = push_bit r x OR drop_bit (32 - r) x"

definition rotl64 :: "u64 \<Rightarrow> nat \<Rightarrow> u64" where
  "rotl64 x r = push_bit r x OR drop_bit (64 - r) x"

definition fmix32 :: "u32 \<Rightarrow> u32" where
  "fmix32 h0 =
     (let h1 = h0 XOR drop_bit 16 h0;
          h2 = h1 * 0x85ebca6b;
          h3 = h2 XOR drop_bit 13 h2;
          h4 = h3 * 0xc2b2ae35
      in h4 XOR drop_bit 16 h4)"

definition fmix64 :: "u64 \<Rightarrow> u64" where
  "fmix64 k0 =
     (let k1 = k0 XOR drop_bit 33 k0;
          k2 = k1 * 0xff51afd7ed558ccd;
          k3 = k2 XOR drop_bit 33 k2;
          k4 = k3 * 0xc4ceb9fe1a85ec53
      in k4 XOR drop_bit 33 k4)"

text \<open>\<open>getblock(blocks, i)\<close> for words of 4 and of 8 bytes.\<close>

definition getblock32 :: "u8 list \<Rightarrow> nat \<Rightarrow> u32" where
  "getblock32 data i =
     ucast (data ! (4 * i)) OR push_bit 8 (ucast (data ! (4 * i + 1))) OR
     push_bit 16 (ucast (data ! (4 * i + 2))) OR push_bit 24 (ucast (data ! (4 * i + 3)))"

definition getblock64 :: "u8 list \<Rightarrow> nat \<Rightarrow> u64" where
  "getblock64 data i =
     ucast (data ! (8 * i)) OR push_bit 8 (ucast (data ! (8 * i + 1))) OR
     push_bit 16 (ucast (data ! (8 * i + 2))) OR push_bit 24 (ucast (data ! (8 * i + 3))) OR
     push_bit 32 (ucast (data ! (8 * i + 4))) OR push_bit 40 (ucast (data ! (8 * i + 5))) OR
     push_bit 48 (ucast (data ! (8 * i + 6))) OR push_bit 56 (ucast (data ! (8 * i + 7)))"

text \<open>One \<open>case r: k ^= tail[r - 1] << s\<close> of a switch that falls through.\<close>

definition tail32 :: "u8 list \<Rightarrow> nat \<Rightarrow> nat \<Rightarrow> nat \<Rightarrow> nat \<Rightarrow> u32 \<Rightarrow> u32" where
  "tail32 data base rest r s k =
     (if rest \<ge> r then k XOR push_bit s (ucast (data ! (base + r - 1))) else k)"

definition tail64 :: "u8 list \<Rightarrow> nat \<Rightarrow> nat \<Rightarrow> nat \<Rightarrow> nat \<Rightarrow> u64 \<Rightarrow> u64" where
  "tail64 data base rest r s k =
     (if rest \<ge> r then k XOR push_bit s (ucast (data ! (base + r - 1))) else k)"

section \<open>MurmurHash3\_x86\_32\<close>

definition x86_32_mix :: "u32 \<Rightarrow> u32" where
  "x86_32_mix k1 = rotl32 (k1 * 0xcc9e2d51) 15 * 0x1b873593"

definition x86_32_body :: "u8 list \<Rightarrow> nat \<Rightarrow> u32 \<Rightarrow> u32" where
  "x86_32_body data i h1 =
     (let k1 = x86_32_mix (getblock32 data i)
      in rotl32 (h1 XOR k1) 13 * 5 + 0xe6546b64)"

definition x86_32_tail :: "u8 list \<Rightarrow> u32 \<Rightarrow> u32" where
  "x86_32_tail data h1 =
     (let len = length data; base = len div 4 * 4; rest = len mod 4;
          k1 = tail32 data base rest 1 0 (tail32 data base rest 2 8 (tail32 data base rest 3 16 0))
      in if rest \<ge> 1 then h1 XOR x86_32_mix k1 else h1)"

definition MurmurHash3_x86_32 :: "u8 list \<Rightarrow> u32 \<Rightarrow> u32" where
  "MurmurHash3_x86_32 key seed =
     (let len = length key; nblocks = len div 4;
          h1 = fold (x86_32_body key) [0..<nblocks] seed;
          h2 = x86_32_tail key h1
      in fmix32 (h2 XOR of_nat len))"

section \<open>MurmurHash3\_x86\_128\<close>

type_synonym x86_128 = "u32 \<times> u32 \<times> u32 \<times> u32"

definition x86_128_body :: "u8 list \<Rightarrow> nat \<Rightarrow> x86_128 \<Rightarrow> x86_128" where
  "x86_128_body data i = (\<lambda>(h1, h2, h3, h4).
     let k1 = rotl32 (getblock32 data (i * 4 + 0) * 0x239b961b) 15 * 0xab0e9789;
         h1 = (rotl32 (h1 XOR k1) 19 + h2) * 5 + 0x561ccd1b;
         k2 = rotl32 (getblock32 data (i * 4 + 1) * 0xab0e9789) 16 * 0x38b34ae5;
         h2 = (rotl32 (h2 XOR k2) 17 + h3) * 5 + 0x0bcaa747;
         k3 = rotl32 (getblock32 data (i * 4 + 2) * 0x38b34ae5) 17 * 0xa1e38b93;
         h3 = (rotl32 (h3 XOR k3) 15 + h4) * 5 + 0x96cd1c35;
         k4 = rotl32 (getblock32 data (i * 4 + 3) * 0xa1e38b93) 18 * 0x239b961b;
         h4 = (rotl32 (h4 XOR k4) 13 + h1) * 5 + 0x32ac3b17
     in (h1, h2, h3, h4))"

definition x86_128_tail :: "u8 list \<Rightarrow> x86_128 \<Rightarrow> x86_128" where
  "x86_128_tail data = (\<lambda>(h1, h2, h3, h4).
     let len = length data; t = tail32 data (len div 16 * 16) (len mod 16); rest = len mod 16;
         k4 = t 13 0 (t 14 8 (t 15 16 0));
         h4 = (if rest \<ge> 13 then h4 XOR (rotl32 (k4 * 0xa1e38b93) 18 * 0x239b961b) else h4);
         k3 = t 9 0 (t 10 8 (t 11 16 (t 12 24 0)));
         h3 = (if rest \<ge> 9 then h3 XOR (rotl32 (k3 * 0x38b34ae5) 17 * 0xa1e38b93) else h3);
         k2 = t 5 0 (t 6 8 (t 7 16 (t 8 24 0)));
         h2 = (if rest \<ge> 5 then h2 XOR (rotl32 (k2 * 0xab0e9789) 16 * 0x38b34ae5) else h2);
         k1 = t 1 0 (t 2 8 (t 3 16 (t 4 24 0)));
         h1 = (if rest \<ge> 1 then h1 XOR (rotl32 (k1 * 0x239b961b) 15 * 0xab0e9789) else h1)
     in (h1, h2, h3, h4))"

text \<open>The additions that spread each word over the others, done twice.\<close>

definition x86_128_spread :: "x86_128 \<Rightarrow> x86_128" where
  "x86_128_spread = (\<lambda>(h1, h2, h3, h4). let h1 = h1 + h2 + h3 + h4 in (h1, h2 + h1, h3 + h1, h4 + h1))"

definition MurmurHash3_x86_128 :: "u8 list \<Rightarrow> u32 \<Rightarrow> x86_128" where
  "MurmurHash3_x86_128 key seed =
     (let len = length key; nblocks = len div 16;
          hs = fold (x86_128_body key) [0..<nblocks] (seed, seed, seed, seed);
          (h1, h2, h3, h4) = x86_128_tail key hs;
          (h1, h2, h3, h4) = x86_128_spread (h1 XOR of_nat len, h2 XOR of_nat len, h3 XOR of_nat len, h4 XOR of_nat len)
      in x86_128_spread (fmix32 h1, fmix32 h2, fmix32 h3, fmix32 h4))"

section \<open>MurmurHash3\_x64\_128\<close>

definition x64_mix1 :: "u64 \<Rightarrow> u64" where
  "x64_mix1 k1 = rotl64 (k1 * 0x87c37b91114253d5) 31 * 0x4cf5ad432745937f"

definition x64_mix2 :: "u64 \<Rightarrow> u64" where
  "x64_mix2 k2 = rotl64 (k2 * 0x4cf5ad432745937f) 33 * 0x87c37b91114253d5"

definition x64_128_body :: "u8 list \<Rightarrow> nat \<Rightarrow> u64 \<times> u64 \<Rightarrow> u64 \<times> u64" where
  "x64_128_body data i = (\<lambda>(h1, h2).
     let k1 = x64_mix1 (getblock64 data (i * 2 + 0));
         h1 = (rotl64 (h1 XOR k1) 27 + h2) * 5 + 0x52dce729;
         k2 = x64_mix2 (getblock64 data (i * 2 + 1));
         h2 = (rotl64 (h2 XOR k2) 31 + h1) * 5 + 0x38495ab5
     in (h1, h2))"

definition x64_128_tail :: "u8 list \<Rightarrow> u64 \<times> u64 \<Rightarrow> u64 \<times> u64" where
  "x64_128_tail data = (\<lambda>(h1, h2).
     let len = length data; t = tail64 data (len div 16 * 16) (len mod 16); rest = len mod 16;
         k2 = t 9 0 (t 10 8 (t 11 16 (t 12 24 (t 13 32 (t 14 40 (t 15 48 0))))));
         h2 = (if rest \<ge> 9 then h2 XOR x64_mix2 k2 else h2);
         k1 = t 1 0 (t 2 8 (t 3 16 (t 4 24 (t 5 32 (t 6 40 (t 7 48 (t 8 56 0)))))));
         h1 = (if rest \<ge> 1 then h1 XOR x64_mix1 k1 else h1)
     in (h1, h2))"

definition x64_128_final :: "nat \<Rightarrow> u64 \<times> u64 \<Rightarrow> u64 \<times> u64" where
  "x64_128_final len = (\<lambda>(h1, h2).
     let h1 = h1 XOR of_nat len; h2 = h2 XOR of_nat len;
         h1 = h1 + h2; h2 = h2 + h1;
         h1 = fmix64 h1; h2 = fmix64 h2;
         h1 = h1 + h2; h2 = h2 + h1
     in (h1, h2))"

definition MurmurHash3_x64_128 :: "u8 list \<Rightarrow> u32 \<Rightarrow> u64 \<times> u64" where
  "MurmurHash3_x64_128 key seed =
     (let nblocks = length key div 16;
          hs = fold (x64_128_body key) [0..<nblocks] (ucast seed, ucast seed)
      in x64_128_final (length key) (x64_128_tail key hs))"

section \<open>Invertible steps\<close>

lemma xorshift_inv32:
  "(h XOR drop_bit 16 h) XOR drop_bit 16 (h XOR drop_bit 16 h) = (h :: u32)"
  "(h XOR drop_bit 13 h) XOR drop_bit 13 (h XOR drop_bit 13 h) XOR drop_bit 26 (h XOR drop_bit 13 h) = (h :: u32)"
  by (rule bit_word_eqI; auto simp: bit_simps)+

lemma xorshift_inv64: "(k XOR drop_bit 33 k) XOR drop_bit 33 (k XOR drop_bit 33 k) = (k :: u64)"
  by (rule bit_word_eqI; auto simp: bit_simps)

lemma inj_inv: "(\<And>x. g (f x) = x) \<Longrightarrow> inj f"
  by (metis injI)

lemma inj_xorshift32: "inj (\<lambda>h :: u32. h XOR drop_bit 16 h)" "inj (\<lambda>h :: u32. h XOR drop_bit 13 h)"
  by (rule inj_inv [where g = "\<lambda>y. y XOR drop_bit 16 y"], rule xorshift_inv32)
    (rule inj_inv [where g = "\<lambda>y. y XOR drop_bit 13 y XOR drop_bit 26 y"], rule xorshift_inv32)

lemma inj_xorshift64: "inj (\<lambda>k :: u64. k XOR drop_bit 33 k)"
  by (rule inj_inv [where g = "\<lambda>y. y XOR drop_bit 33 y"], rule xorshift_inv64)

lemma mult_unit_iff: "c * d = 1 \<Longrightarrow> x * c = y * c \<longleftrightarrow> x = (y :: 'a :: comm_ring_1)"
  by (metis mult.assoc mult_1_right)

lemma rotl32_inv: "0 < r \<Longrightarrow> r < 32 \<Longrightarrow> rotl32 (rotl32 x r) (32 - r) = x"
  unfolding rotl32_def by (rule bit_word_eqI) (auto simp: bit_simps)

lemma rotl64_inv: "0 < r \<Longrightarrow> r < 64 \<Longrightarrow> rotl64 (rotl64 x r) (64 - r) = x"
  unfolding rotl64_def by (rule bit_word_eqI) (auto simp: bit_simps)

lemma rotl32_eq [simp]: "0 < r \<Longrightarrow> r < 32 \<Longrightarrow> rotl32 x r = rotl32 y r \<longleftrightarrow> x = y"
  by (metis rotl32_inv)

lemma rotl64_eq [simp]: "0 < r \<Longrightarrow> r < 64 \<Longrightarrow> rotl64 x r = rotl64 y r \<longleftrightarrow> x = y"
  by (metis rotl64_inv)

lemma mult_odd_eq32 [simp]:
  "(x :: u32) * 0x85ebca6b = y * 0x85ebca6b \<longleftrightarrow> x = y" "(x :: u32) * 0xc2b2ae35 = y * 0xc2b2ae35 \<longleftrightarrow> x = y"
  "(x :: u32) * 0xcc9e2d51 = y * 0xcc9e2d51 \<longleftrightarrow> x = y" "(x :: u32) * 0x1b873593 = y * 0x1b873593 \<longleftrightarrow> x = y"
  "(x :: u32) * 0x239b961b = y * 0x239b961b \<longleftrightarrow> x = y" "(x :: u32) * 0xab0e9789 = y * 0xab0e9789 \<longleftrightarrow> x = y"
  "(x :: u32) * 0x38b34ae5 = y * 0x38b34ae5 \<longleftrightarrow> x = y" "(x :: u32) * 0xa1e38b93 = y * 0xa1e38b93 \<longleftrightarrow> x = y"
  "(x :: u32) * 5 = y * 5 \<longleftrightarrow> x = y"
  subgoal by (rule mult_unit_iff [of _ "0xa5cb9243"], simp)
  subgoal by (rule mult_unit_iff [of _ "0x7ed1b41d"], simp)
  subgoal by (rule mult_unit_iff [of _ "0xdee13bb1"], simp)
  subgoal by (rule mult_unit_iff [of _ "0x56ed309b"], simp)
  subgoal by (rule mult_unit_iff [of _ "0x89c95413"], simp)
  subgoal by (rule mult_unit_iff [of _ "0xdf130eb9"], simp)
  subgoal by (rule mult_unit_iff [of _ "0x747862ed"], simp)
  subgoal by (rule mult_unit_iff [of _ "0x58d64a9b"], simp)
  subgoal by (rule mult_unit_iff [of _ "0xcccccccd"], simp)
  done

lemma mult_odd_eq64 [simp]:
  "(x :: u64) * 0xff51afd7ed558ccd = y * 0xff51afd7ed558ccd \<longleftrightarrow> x = y"
  "(x :: u64) * 0xc4ceb9fe1a85ec53 = y * 0xc4ceb9fe1a85ec53 \<longleftrightarrow> x = y"
  "(x :: u64) * 0x87c37b91114253d5 = y * 0x87c37b91114253d5 \<longleftrightarrow> x = y"
  "(x :: u64) * 0x4cf5ad432745937f = y * 0x4cf5ad432745937f \<longleftrightarrow> x = y" "(x :: u64) * 5 = y * 5 \<longleftrightarrow> x = y"
  subgoal by (rule mult_unit_iff [of _ "0x4f74430c22a54005"], simp)
  subgoal by (rule mult_unit_iff [of _ "0x9cb4b2f8129337db"], simp)
  subgoal by (rule mult_unit_iff [of _ "0xa98409e882ce4d7d"], simp)
  subgoal by (rule mult_unit_iff [of _ "0xa81e14edd9de2c7f"], simp)
  subgoal by (rule mult_unit_iff [of _ "0xcccccccccccccccd"], simp)
  done

lemma xorshift_eq [simp]:
  "(x :: u32) XOR drop_bit 16 x = y XOR drop_bit 16 y \<longleftrightarrow> x = y" "(x :: u32) XOR drop_bit 13 x = y XOR drop_bit 13 y \<longleftrightarrow> x = y"
  "(z :: u64) XOR drop_bit 33 z = w XOR drop_bit 33 w \<longleftrightarrow> z = w"
  using injD [OF inj_xorshift32(1), of x y] injD [OF inj_xorshift32(2), of x y] injD [OF inj_xorshift64, of z w] by auto

lemma xor_eq [simp]:
  "(x :: 'a :: len word) XOR k = y XOR k \<longleftrightarrow> x = y" "k XOR x = k XOR y \<longleftrightarrow> x = y"
  by (metis bit.xor_left_self bit.xor_self xor.right_neutral xor.assoc xor.commute)+

lemma fmix_eq [simp]: "fmix32 x = fmix32 y \<longleftrightarrow> x = y" "fmix64 z = fmix64 w \<longleftrightarrow> z = w"
  by (simp_all add: fmix32_def fmix64_def Let_def)

lemma mix_eq [simp]: "x86_32_mix x = x86_32_mix y \<longleftrightarrow> x = y" "x64_mix1 z = x64_mix1 w \<longleftrightarrow> z = w"
  "x64_mix2 z = x64_mix2 w \<longleftrightarrow> z = w"
  by (simp_all add: x86_32_mix_def x64_mix1_def x64_mix2_def)

section \<open>Loads\<close>

text \<open>The bytes of a loaded word can be read back.\<close>

definition join32 :: "u8 \<Rightarrow> u8 \<Rightarrow> u8 \<Rightarrow> u8 \<Rightarrow> u32" where
  "join32 a b c d = ucast a OR push_bit 8 (ucast b) OR push_bit 16 (ucast c) OR push_bit 24 (ucast d)"

lemma bytes_of_join32:
  "(ucast (join32 a b c d) :: u8) = a" "(ucast (drop_bit 8 (join32 a b c d)) :: u8) = b"
  "(ucast (drop_bit 16 (join32 a b c d)) :: u8) = c" "(ucast (drop_bit 24 (join32 a b c d)) :: u8) = d"
  unfolding join32_def by (rule bit_word_eqI; auto simp: bit_simps dest: bit_imp_le_length)+

definition join64 :: "u8 \<Rightarrow> u8 \<Rightarrow> u8 \<Rightarrow> u8 \<Rightarrow> u8 \<Rightarrow> u8 \<Rightarrow> u8 \<Rightarrow> u8 \<Rightarrow> u64" where
  "join64 a b c d e f g h = ucast a OR push_bit 8 (ucast b) OR push_bit 16 (ucast c) OR push_bit 24 (ucast d) OR
     push_bit 32 (ucast e) OR push_bit 40 (ucast f) OR push_bit 48 (ucast g) OR push_bit 56 (ucast h)"

lemma bytes_of_join64:
  "(ucast (join64 a b c d e f g h) :: u8) = a" "(ucast (drop_bit 8 (join64 a b c d e f g h)) :: u8) = b"
  "(ucast (drop_bit 16 (join64 a b c d e f g h)) :: u8) = c" "(ucast (drop_bit 24 (join64 a b c d e f g h)) :: u8) = d"
  "(ucast (drop_bit 32 (join64 a b c d e f g h)) :: u8) = e" "(ucast (drop_bit 40 (join64 a b c d e f g h)) :: u8) = f"
  "(ucast (drop_bit 48 (join64 a b c d e f g h)) :: u8) = g" "(ucast (drop_bit 56 (join64 a b c d e f g h)) :: u8) = h"
  unfolding join64_def by (rule bit_word_eqI; auto simp: bit_simps dest: bit_imp_le_length)+

lemma join32_eq: "join32 a b c d = join32 a' b' c' d' \<longleftrightarrow> a = a' \<and> b = b' \<and> c = c' \<and> d = d'"
  by (metis bytes_of_join32)

lemma join64_eq: "join64 a b c d e f g h = join64 a' b' c' d' e' f' g' h' \<longleftrightarrow>
    a = a' \<and> b = b' \<and> c = c' \<and> d = d' \<and> e = e' \<and> f = f' \<and> g = g' \<and> h = h'"
  by (metis bytes_of_join64)

lemma all_less_4: "(\<forall>j < 4. P j) \<longleftrightarrow> P 0 \<and> P 1 \<and> P 2 \<and> P (3 :: nat)"
  by (simp add: numeral_eq_Suc All_less_Suc conj_ac)

lemma all_less_8: "(\<forall>j < 8. P j) \<longleftrightarrow> P 0 \<and> P 1 \<and> P 2 \<and> P 3 \<and> P 4 \<and> P 5 \<and> P 6 \<and> P (7 :: nat)"
  by (simp add: numeral_eq_Suc All_less_Suc conj_ac)

lemma getblock32_eq:
  "getblock32 data i = getblock32 data' i \<longleftrightarrow> (\<forall>j < 4. data ! (4 * i + j) = data' ! (4 * i + j))"
  using join32_eq unfolding getblock32_def join32_def all_less_4 by simp

lemma getblock64_eq:
  "getblock64 data i = getblock64 data' i \<longleftrightarrow> (\<forall>j < 8. data ! (8 * i + j) = data' ! (8 * i + j))"
  using join64_eq unfolding getblock64_def join64_def all_less_8 by simp

section \<open>Hashes that go block by block\<close>

text \<open>
  What the three hash functions have in common: \<open>width\<close> bytes at a time go through a step that
  is injective both in the state and in the bytes, and the end of the computation is injective
  in the state and reads only the bytes behind the last block.
\<close>

locale block_hash =
  fixes width :: nat and step :: "u8 list \<Rightarrow> nat \<Rightarrow> 's \<Rightarrow> 's" and finish :: "u8 list \<Rightarrow> 's \<Rightarrow> 'r"
  assumes step_state: "step data i s = step data i s' \<Longrightarrow> s = s'"
    and step_block: "step data i s = step data' i s \<longleftrightarrow> (\<forall>j < width. data ! (width * i + j) = data' ! (width * i + j))"
    and finish_state: "finish data s = finish data s' \<Longrightarrow> s = s'"
    and finish_tail: "length data = length data' \<Longrightarrow>
      (\<And>j. width * (length data div width) \<le> j \<Longrightarrow> j < length data \<Longrightarrow> data ! j = data' ! j) \<Longrightarrow>
      finish data = finish data'"
begin

definition hash :: "u8 list \<Rightarrow> 's \<Rightarrow> 'r" where
  "hash data s = finish data (fold (step data) [0..<length data div width] s)"

lemma fold_step_state: "fold (step data) is s = fold (step data) is s' \<Longrightarrow> s = s'"
  by (induction "is" arbitrary: s s') (auto dest: step_state)

lemma block_bytes:
  assumes "\<And>j. j < length data \<Longrightarrow> j div width \<noteq> b \<Longrightarrow> data ! j = data' ! j" "i \<noteq> b" "i < length data div width" "k < width"
  shows "data ! (width * i + k) = data' ! (width * i + k)"
proof -
  have "(width * i + k) div width = i" using assms(4) by simp
  moreover have "width * i + width \<le> width * (length data div width)"
    using mult_le_mono2 [of "Suc i" "length data div width" width] assms(3) by simp
  then have "width * i + k < length data"
    using assms(4) times_div_less_eq_dividend [of width "length data"] by linarith
  ultimately show ?thesis using assms(1,2) by simp
qed

lemma hash_one_block:
  assumes len: "length data = length data'" and b: "b < length data div width"
    and same: "\<And>j. j < length data \<Longrightarrow> j div width \<noteq> b \<Longrightarrow> data ! j = data' ! j" and ne: "data \<noteq> data'"
  shows "hash data s \<noteq> hash data' s"
proof -
  let ?n = "length data div width"
  have w: "0 < width" using b by (cases width) auto
  have step_eq: "step data i = step data' i" if "i \<noteq> b" "i < ?n" for i
    using step_block [of data i _ data'] block_bytes [OF same that] by auto
  have split: "[0..<?n] = [0..<b] @ b # [Suc b..<?n]"
    using b by (metis upt_add_eq_append upt_conv_Cons less_imp_le_nat zero_le le_add_diff_inverse)
  have pre: "fold (step data) [0..<b] t = fold (step data') [0..<b] t" for t
    using b by (intro fold_cong) (auto intro!: step_eq)
  have post: "fold (step data) [Suc b..<?n] t = fold (step data') [Suc b..<?n] t" for t
    by (intro fold_cong) (auto intro!: step_eq)
  have fin: "finish data = finish data'"
  proof (rule finish_tail [OF len])
    fix j assume "width * ?n \<le> j" "j < length data"
    then have "j div width \<noteq> b"
      using b w by (metis less_mult_imp_div_less div_le_mono linorder_not_less mult.commute nonzero_mult_div_cancel_left less_irrefl_nat)
    then show "data ! j = data' ! j" using same \<open>j < length data\<close> by simp
  qed
  obtain j where j: "j < length data" "data ! j \<noteq> data' ! j" using len ne by (metis nth_equalityI)
  then have jb: "j = width * b + j mod width" using same [of j] by (metis div_mult_mod_eq mult.commute)
  then have "\<not> (\<forall>k < width. data ! (width * b + k) = data' ! (width * b + k))"
    using j(2) w by (metis mod_less_divisor)
  then have diff: "step data b t \<noteq> step data' b t" for t using step_block by blast
  show ?thesis
  proof
    assume "hash data s = hash data' s"
    then have "finish data (fold (step data) [Suc b..<?n] (step data b (fold (step data) [0..<b] s))) =
      finish data (fold (step data) [Suc b..<?n] (step data' b (fold (step data) [0..<b] s)))"
      unfolding hash_def len [symmetric] split fin by (simp add: pre post)
    then show False using diff finish_state fold_step_state by blast
  qed
qed

end

lemma tail32_cong:
  "(\<And>j. base \<le> j \<Longrightarrow> j < base + rest \<Longrightarrow> data ! j = data' ! j) \<Longrightarrow> 0 < r \<Longrightarrow> tail32 data base rest r = tail32 data' base rest r"
  by (auto simp: tail32_def fun_eq_iff)

lemma tail64_cong:
  "(\<And>j. base \<le> j \<Longrightarrow> j < base + rest \<Longrightarrow> data ! j = data' ! j) \<Longrightarrow> 0 < r \<Longrightarrow> tail64 data base rest r = tail64 data' base rest r"
  by (auto simp: tail64_def fun_eq_iff)

definition x86_32_finish :: "u8 list \<Rightarrow> u32 \<Rightarrow> u32" where
  "x86_32_finish key h = fmix32 (x86_32_tail key h XOR of_nat (length key))"

definition x86_128_finish :: "u8 list \<Rightarrow> x86_128 \<Rightarrow> x86_128" where
  "x86_128_finish key hs =
     (let (h1, h2, h3, h4) = x86_128_tail key hs; l = of_nat (length key);
          (h1, h2, h3, h4) = x86_128_spread (h1 XOR l, h2 XOR l, h3 XOR l, h4 XOR l)
      in x86_128_spread (fmix32 h1, fmix32 h2, fmix32 h3, fmix32 h4))"

definition x64_128_finish :: "u8 list \<Rightarrow> u64 \<times> u64 \<Rightarrow> u64 \<times> u64" where
  "x64_128_finish key hs = x64_128_final (length key) (x64_128_tail key hs)"

lemma all_less_add: "(\<forall>j < m + n. P j) \<longleftrightarrow> (\<forall>j < m. P j) \<and> (\<forall>j < n. P (m + j :: nat))"
  by (auto simp: less_diff_conv2) (metis add_diff_inverse_nat nat_add_left_cancel_less)

lemma x86_32_tail_cong:
  assumes "length data = length data'"
    and "\<And>j. 4 * (length data div 4) \<le> j \<Longrightarrow> j < length data \<Longrightarrow> data ! j = data' ! j"
  shows "x86_32_tail data = x86_32_tail data'"
proof -
  define b r where "b = length data' div 4 * 4" and "r = length data' mod 4"
  have "data ! j = data' ! j" if "b \<le> j" "j < b + r" for j using assms that by (simp add: b_def r_def)
  then have "tail32 data b r k = tail32 data' b r k" if "0 < k" for k by (rule tail32_cong) (use that in simp_all)
  from this [of 1] this [of 2] this [of 3] show ?thesis
    unfolding x86_32_tail_def assms(1) Let_def b_def [symmetric] r_def [symmetric] by (simp only: zero_less_numeral zero_less_one)
qed

lemma x64_128_tail_cong:
  assumes "length data = length data'"
    and "\<And>j. 16 * (length data div 16) \<le> j \<Longrightarrow> j < length data \<Longrightarrow> data ! j = data' ! j"
  shows "x64_128_tail data = x64_128_tail data'"
proof -
  define b r where "b = length data' div 16 * 16" and "r = length data' mod 16"
  have "data ! j = data' ! j" if "b \<le> j" "j < b + r" for j using assms that by (simp add: b_def r_def)
  then have t: "tail64 data b r k = tail64 data' b r k" if "0 < k" for k by (rule tail64_cong) (use that in simp_all)
  show ?thesis
    unfolding x64_128_tail_def assms(1) Let_def b_def [symmetric] r_def [symmetric]
    by (simp only: t zero_less_numeral zero_less_one)
qed

lemma x64_128_body_state:
  assumes "x64_128_body data i s = x64_128_body data i s'"
  shows "s = s'"
proof -
  obtain a b a' b' where s: "s = (a, b)" "s' = (a', b')" by (metis surj_pair)
  let ?k1 = "x64_mix1 (getblock64 data (i * 2 + 0))" and ?k2 = "x64_mix2 (getblock64 data (i * 2 + 1))"
  let ?h = "\<lambda>a b. (rotl64 (a XOR ?k1) 27 + b) * 5 + 0x52dce729"
  note eqs = assms [unfolded s x64_128_body_def Let_def prod.case prod.inject]
  have h: "?h a b = ?h a' b'" using eqs by (rule conjunct1)
  have "rotl64 (b XOR ?k2) 31 = rotl64 (b' XOR ?k2) 31"
    using conjunct2 [OF eqs] unfolding h by (simp only: add_right_cancel mult_odd_eq64)
  then have b: "b = b'" by simp
  have "rotl64 (a XOR ?k1) 27 = rotl64 (a' XOR ?k1) 27"
    using h unfolding b by (simp only: add_right_cancel mult_odd_eq64)
  with b show ?thesis by (simp add: s)
qed

lemma x64_128_body_block:
  "x64_128_body data i s = x64_128_body data' i s \<longleftrightarrow> (\<forall>j < 16. data ! (16 * i + j) = data' ! (16 * i + j))"
proof -
  obtain a b where s: "s = (a, b)" by (metis surj_pair)
  let ?g = "\<lambda>d. getblock64 d (i * 2 + 0)" and ?g' = "\<lambda>d. getblock64 d (i * 2 + 1)"
  have "x64_128_body data i s = x64_128_body data' i s \<longleftrightarrow> ?g data = ?g data' \<and> ?g' data = ?g' data'"
  proof
    assume *: "x64_128_body data i s = x64_128_body data' i s"
    note eqs = * [unfolded s x64_128_body_def Let_def prod.case prod.inject]
    have "rotl64 (a XOR x64_mix1 (?g data)) 27 = rotl64 (a XOR x64_mix1 (?g data')) 27"
      using conjunct1 [OF eqs] by (simp only: add_right_cancel mult_odd_eq64)
    then have g: "?g data = ?g data'" by simp
    have "rotl64 (b XOR x64_mix2 (?g' data)) 31 = rotl64 (b XOR x64_mix2 (?g' data')) 31"
      using conjunct2 [OF eqs] unfolding g by (simp only: add_right_cancel mult_odd_eq64)
    with g show "?g data = ?g data' \<and> ?g' data = ?g' data'" by simp
  qed (simp add: x64_128_body_def)
  also have "\<dots> \<longleftrightarrow> (\<forall>j < 8 + 8. data ! (16 * i + j) = data' ! (16 * i + j))"
    unfolding all_less_add getblock64_eq by (simp add: algebra_simps)
  finally show ?thesis by simp
qed

lemma x64_128_final_state:
  assumes "x64_128_final n s = x64_128_final n s'"
  shows "s = s'"
proof -
  obtain a b a' b' where s: "s = (a, b)" "s' = (a', b')" by (metis surj_pair)
  let ?l = "of_nat n :: u64"
  let ?x = "\<lambda>a b. (a XOR ?l) + (b XOR ?l)" and ?y = "\<lambda>a b. (b XOR ?l) + ((a XOR ?l) + (b XOR ?l))"
  note eqs = assms [unfolded s x64_128_final_def Let_def prod.case prod.inject]
  have "fmix64 (?y a b) = fmix64 (?y a' b')"
    using conjunct2 [OF eqs] unfolding conjunct1 [OF eqs] add_right_cancel .
  then have y: "?y a b = ?y a' b'" by (simp only: fmix_eq)
  have "fmix64 (?x a b) = fmix64 (?x a' b')" using conjunct1 [OF eqs] unfolding y add_right_cancel .
  then have x: "?x a b = ?x a' b'" by (simp only: fmix_eq)
  have "b XOR ?l = b' XOR ?l" using y unfolding x add_right_cancel .
  then have b: "b = b'" by simp
  have "a XOR ?l = a' XOR ?l" using x unfolding b add_right_cancel .
  then show ?thesis using b by (simp add: s)
qed

lemma x64_128_tail_state:
  assumes "x64_128_tail data s = x64_128_tail data s'"
  shows "s = s'"
  using assms by (cases s; cases s') (auto simp: x64_128_tail_def Let_def simp del: mix_eq split: if_splits)

lemma x86_128_tail_cong:
  assumes "length data = length data'"
    and "\<And>j. 16 * (length data div 16) \<le> j \<Longrightarrow> j < length data \<Longrightarrow> data ! j = data' ! j"
  shows "x86_128_tail data = x86_128_tail data'"
proof -
  define b r where "b = length data' div 16 * 16" and "r = length data' mod 16"
  have "data ! j = data' ! j" if "b \<le> j" "j < b + r" for j using assms that by (simp add: b_def r_def)
  then have t: "tail32 data b r k = tail32 data' b r k" if "0 < k" for k by (rule tail32_cong) (use that in simp_all)
  show ?thesis
    unfolding x86_128_tail_def assms(1) Let_def b_def [symmetric] r_def [symmetric]
    by (simp only: t zero_less_numeral zero_less_one)
qed

text \<open>One word of a round of \<open>MurmurHash3_x86_128\<close>: the word \<open>k\<close> goes into \<open>h\<close>, then \<open>g\<close> is added.\<close>

definition x86_128_word :: "u32 \<Rightarrow> nat \<Rightarrow> u32 \<Rightarrow> nat \<Rightarrow> u32 \<Rightarrow> u32 \<Rightarrow> u32 \<Rightarrow> u32 \<Rightarrow> u32" where
  "x86_128_word c r c' r' d k h g = (rotl32 (h XOR rotl32 (k * c) r * c') r' + g) * 5 + d"

lemma x86_128_word_eq:
  assumes "0 < r" "r < 32" "0 < r'" "r' < 32" "c * e = 1" "c' * e' = 1"
  shows "x86_128_word c r c' r' d k h g = x86_128_word c r c' r' d k h' g \<longleftrightarrow> h = h'"
    "x86_128_word c r c' r' d k h g = x86_128_word c r c' r' d k' h g \<longleftrightarrow> k = k'"
  using assms by (simp_all only: x86_128_word_def add_right_cancel mult_odd_eq32 rotl32_eq xor_eq mult_unit_iff [OF assms(5)] mult_unit_iff [OF assms(6)])

definition x86_128_words :: "u32 \<Rightarrow> u32 \<Rightarrow> u32 \<Rightarrow> u32 \<Rightarrow> x86_128 \<Rightarrow> x86_128" where
  "x86_128_words k1 k2 k3 k4 = (\<lambda>(h1, h2, h3, h4).
     let h1' = x86_128_word 0x239b961b 15 0xab0e9789 19 0x561ccd1b k1 h1 h2;
         h2' = x86_128_word 0xab0e9789 16 0x38b34ae5 17 0x0bcaa747 k2 h2 h3;
         h3' = x86_128_word 0x38b34ae5 17 0xa1e38b93 15 0x96cd1c35 k3 h3 h4;
         h4' = x86_128_word 0xa1e38b93 18 0x239b961b 13 0x32ac3b17 k4 h4 h1'
     in (h1', h2', h3', h4'))"

lemma x86_128_body_words:
  "x86_128_body data i = x86_128_words (getblock32 data (i * 4 + 0)) (getblock32 data (i * 4 + 1))
     (getblock32 data (i * 4 + 2)) (getblock32 data (i * 4 + 3))"
  unfolding x86_128_body_def x86_128_words_def x86_128_word_def Let_def ..

lemma x86_128_inverses:
  "(0x239b961b :: u32) * 0x89c95413 = 1" "(0xab0e9789 :: u32) * 0xdf130eb9 = 1" "(0x38b34ae5 :: u32) * 0x747862ed = 1" "(0xa1e38b93 :: u32) * 0x58d64a9b = 1"
  by simp_all

lemma x86_128_word_eqs:
  "x86_128_word 0x239b961b 15 0xab0e9789 19 d k h g = x86_128_word 0x239b961b 15 0xab0e9789 19 d k h' g \<longleftrightarrow> h = h'"
  "x86_128_word 0xab0e9789 16 0x38b34ae5 17 d k h g = x86_128_word 0xab0e9789 16 0x38b34ae5 17 d k h' g \<longleftrightarrow> h = h'"
  "x86_128_word 0x38b34ae5 17 0xa1e38b93 15 d k h g = x86_128_word 0x38b34ae5 17 0xa1e38b93 15 d k h' g \<longleftrightarrow> h = h'"
  "x86_128_word 0xa1e38b93 18 0x239b961b 13 d k h g = x86_128_word 0xa1e38b93 18 0x239b961b 13 d k h' g \<longleftrightarrow> h = h'"
  "x86_128_word 0x239b961b 15 0xab0e9789 19 d k h g = x86_128_word 0x239b961b 15 0xab0e9789 19 d k' h g \<longleftrightarrow> k = k'"
  "x86_128_word 0xab0e9789 16 0x38b34ae5 17 d k h g = x86_128_word 0xab0e9789 16 0x38b34ae5 17 d k' h g \<longleftrightarrow> k = k'"
  "x86_128_word 0x38b34ae5 17 0xa1e38b93 15 d k h g = x86_128_word 0x38b34ae5 17 0xa1e38b93 15 d k' h g \<longleftrightarrow> k = k'"
  "x86_128_word 0xa1e38b93 18 0x239b961b 13 d k h g = x86_128_word 0xa1e38b93 18 0x239b961b 13 d k' h g \<longleftrightarrow> k = k'"
  using x86_128_inverses
  by (simp_all only: x86_128_word_eq [OF _ _ _ _ x86_128_inverses(1) x86_128_inverses(2)] x86_128_word_eq [OF _ _ _ _ x86_128_inverses(2) x86_128_inverses(3)]
      x86_128_word_eq [OF _ _ _ _ x86_128_inverses(3) x86_128_inverses(4)] x86_128_word_eq [OF _ _ _ _ x86_128_inverses(4) x86_128_inverses(1)]
      zero_less_numeral numeral_less_iff semiring_norm)

lemma x86_128_body_state:
  assumes "x86_128_body data i s = x86_128_body data i s'"
  shows "s = s'"
proof -
  obtain a b c d a' b' c' d' where s: "s = (a, b, c, d)" "s' = (a', b', c', d')" by (metis surj_pair)
  note eqs = assms [unfolded s x86_128_body_words x86_128_words_def Let_def prod.case prod.inject]
  have d: "d = d'" using eqs [THEN conjunct2, THEN conjunct2, THEN conjunct2] unfolding eqs [THEN conjunct1] x86_128_word_eqs .
  have c: "c = c'" using eqs [THEN conjunct2, THEN conjunct2, THEN conjunct1] unfolding d x86_128_word_eqs .
  have b: "b = b'" using eqs [THEN conjunct2, THEN conjunct1] unfolding c x86_128_word_eqs .
  have "a = a'" using eqs [THEN conjunct1] unfolding b x86_128_word_eqs .
  with b c d show ?thesis by (simp add: s)
qed

lemma x86_128_body_block:
  "x86_128_body data i s = x86_128_body data' i s \<longleftrightarrow> (\<forall>j < 16. data ! (16 * i + j) = data' ! (16 * i + j))"
proof -
  obtain a b c d where s: "s = (a, b, c, d)" by (metis surj_pair)
  let ?g = "\<lambda>d k. getblock32 d (i * 4 + k)"
  have "x86_128_body data i s = x86_128_body data' i s \<longleftrightarrow>
    ?g data 0 = ?g data' 0 \<and> ?g data 1 = ?g data' 1 \<and> ?g data 2 = ?g data' 2 \<and> ?g data 3 = ?g data' 3"
  proof
    assume *: "x86_128_body data i s = x86_128_body data' i s"
    note eqs = * [unfolded s x86_128_body_words x86_128_words_def Let_def prod.case prod.inject]
    have "?g data 0 = ?g data' 0" using eqs [THEN conjunct1] unfolding x86_128_word_eqs .
    moreover have "?g data 1 = ?g data' 1" using eqs [THEN conjunct2, THEN conjunct1] unfolding x86_128_word_eqs .
    moreover have "?g data 2 = ?g data' 2" using eqs [THEN conjunct2, THEN conjunct2, THEN conjunct1] unfolding x86_128_word_eqs .
    moreover have "?g data 3 = ?g data' 3"
      using eqs [THEN conjunct2, THEN conjunct2, THEN conjunct2] unfolding eqs [THEN conjunct1] x86_128_word_eqs .
    ultimately show "?g data 0 = ?g data' 0 \<and> ?g data 1 = ?g data' 1 \<and> ?g data 2 = ?g data' 2 \<and> ?g data 3 = ?g data' 3" by blast
  qed (simp only: x86_128_body_words)
  also have "\<dots> \<longleftrightarrow> (\<forall>j < 4 + (4 + (4 + 4)). data ! (16 * i + j) = data' ! (16 * i + j))"
    unfolding all_less_add getblock32_eq by (simp add: algebra_simps)
  finally show ?thesis by simp
qed

lemma x86_128_spread_state:
  assumes "x86_128_spread s = x86_128_spread s'"
  shows "s = s'"
proof -
  obtain a b c d a' b' c' d' where s: "s = (a, b, c, d)" "s' = (a', b', c', d')" by (metis surj_pair)
  note eqs = assms [unfolded s x86_128_spread_def Let_def prod.case prod.inject]
  note sum = eqs [THEN conjunct1]
  have b: "b = b'" using eqs [THEN conjunct2, THEN conjunct1] unfolding sum add_right_cancel .
  have c: "c = c'" using eqs [THEN conjunct2, THEN conjunct2, THEN conjunct1] unfolding sum add_right_cancel .
  have d: "d = d'" using eqs [THEN conjunct2, THEN conjunct2, THEN conjunct2] unfolding sum add_right_cancel .
  have "a = a'" using sum unfolding b c d add_right_cancel .
  with b c d show ?thesis by (simp add: s)
qed

lemma x86_128_tail_state:
  assumes "x86_128_tail data s = x86_128_tail data s'"
  shows "s = s'"
  using assms by (cases s; cases s') (auto simp: x86_128_tail_def Let_def split: if_splits)

lemma x86_128_finish_state:
  assumes "x86_128_finish data s = x86_128_finish data s'"
  shows "s = s'"
proof -
  obtain a b c d a' b' c' d' where t: "x86_128_tail data s = (a, b, c, d)" "x86_128_tail data s' = (a', b', c', d')"
    by (metis surj_pair)
  let ?l = "of_nat (length data) :: u32"
  obtain e f g h e' f' g' h' where u: "x86_128_spread (a XOR ?l, b XOR ?l, c XOR ?l, d XOR ?l) = (e, f, g, h)"
    "x86_128_spread (a' XOR ?l, b' XOR ?l, c' XOR ?l, d' XOR ?l) = (e', f', g', h')" by (metis surj_pair)
  have "x86_128_spread (fmix32 e, fmix32 f, fmix32 g, fmix32 h) = x86_128_spread (fmix32 e', fmix32 f', fmix32 g', fmix32 h')"
    using assms by (simp add: x86_128_finish_def t u Let_def)
  then have "(fmix32 e, fmix32 f, fmix32 g, fmix32 h) = (fmix32 e', fmix32 f', fmix32 g', fmix32 h')"
    by (rule x86_128_spread_state)
  then have "x86_128_spread (a XOR ?l, b XOR ?l, c XOR ?l, d XOR ?l) = x86_128_spread (a' XOR ?l, b' XOR ?l, c' XOR ?l, d' XOR ?l)"
    using u by simp
  then have "(a XOR ?l, b XOR ?l, c XOR ?l, d XOR ?l) = (a' XOR ?l, b' XOR ?l, c' XOR ?l, d' XOR ?l)"
    by (rule x86_128_spread_state)
  then have "x86_128_tail data s = x86_128_tail data s'" using t by simp
  then show ?thesis by (rule x86_128_tail_state)
qed

interpretation x86_32: block_hash 4 x86_32_body x86_32_finish
proof
  show "x86_32_body data i s = x86_32_body data i s' \<Longrightarrow> s = s'" for data i s s'
    by (simp add: x86_32_body_def Let_def)
  show "x86_32_body data i s = x86_32_body data' i s \<longleftrightarrow> (\<forall>j < 4. data ! (4 * i + j) = data' ! (4 * i + j))"
    for data data' i s by (simp add: x86_32_body_def Let_def getblock32_eq [symmetric])
  show "x86_32_finish data s = x86_32_finish data s' \<Longrightarrow> s = s'" for data s s'
    by (auto simp: x86_32_finish_def x86_32_tail_def Let_def split: if_splits)
next
  fix data data' :: "u8 list"
  assume len: "length data = length data'"
    and "\<And>j. 4 * (length data div 4) \<le> j \<Longrightarrow> j < length data \<Longrightarrow> data ! j = data' ! j"
  then have "x86_32_tail data = x86_32_tail data'" by (rule x86_32_tail_cong)
  with len show "x86_32_finish data = x86_32_finish data'" by (simp add: x86_32_finish_def fun_eq_iff)
qed

interpretation x64_128: block_hash 16 x64_128_body x64_128_finish
proof
  show "x64_128_body data i s = x64_128_body data i s' \<Longrightarrow> s = s'" for data i s s'
    by (rule x64_128_body_state)
  show "x64_128_body data i s = x64_128_body data' i s \<longleftrightarrow> (\<forall>j < 16. data ! (16 * i + j) = data' ! (16 * i + j))"
    for data data' i s by (rule x64_128_body_block)
  show "x64_128_finish data s = x64_128_finish data s' \<Longrightarrow> s = s'" for data s s'
    by (auto simp: x64_128_finish_def dest: x64_128_final_state x64_128_tail_state)
next
  fix data data' :: "u8 list"
  assume len: "length data = length data'"
    and "\<And>j. 16 * (length data div 16) \<le> j \<Longrightarrow> j < length data \<Longrightarrow> data ! j = data' ! j"
  then have "x64_128_tail data = x64_128_tail data'" by (rule x64_128_tail_cong)
  with len show "x64_128_finish data = x64_128_finish data'" by (simp add: x64_128_finish_def fun_eq_iff)
qed

interpretation x86_128: block_hash 16 x86_128_body x86_128_finish
proof
  show "x86_128_body data i s = x86_128_body data i s' \<Longrightarrow> s = s'" for data i s s'
    by (rule x86_128_body_state)
  show "x86_128_body data i s = x86_128_body data' i s \<longleftrightarrow> (\<forall>j < 16. data ! (16 * i + j) = data' ! (16 * i + j))"
    for data data' i s by (rule x86_128_body_block)
  show "x86_128_finish data s = x86_128_finish data s' \<Longrightarrow> s = s'" for data s s'
    by (rule x86_128_finish_state)
next
  fix data data' :: "u8 list"
  assume len: "length data = length data'"
    and "\<And>j. 16 * (length data div 16) \<le> j \<Longrightarrow> j < length data \<Longrightarrow> data ! j = data' ! j"
  then have "x86_128_tail data = x86_128_tail data'" by (rule x86_128_tail_cong)
  with len show "x86_128_finish data = x86_128_finish data'" by (simp add: x86_128_finish_def fun_eq_iff)
qed

section \<open>Properties\<close>

definition unfmix32 :: "u32 \<Rightarrow> u32" where
  "unfmix32 y =
     (let a = y XOR drop_bit 16 y; b = a * 0x7ed1b41d;
          c = b XOR drop_bit 13 b XOR drop_bit 26 b; d = c * 0xa5cb9243
      in d XOR drop_bit 16 d)"

definition unfmix64 :: "u64 \<Rightarrow> u64" where
  "unfmix64 y =
     (let a = y XOR drop_bit 33 y; b = a * 0x9cb4b2f8129337db;
          c = b XOR drop_bit 33 b; d = c * 0x4f74430c22a54005
      in d XOR drop_bit 33 d)"

lemma unfmix_fmix: "unfmix32 (fmix32 h) = h" "unfmix64 (fmix64 k) = k"
proof -
  have inv: "(0x85ebca6b :: u32) * 0xa5cb9243 = 1" "(0xc2b2ae35 :: u32) * 0x7ed1b41d = 1"
    "(0xff51afd7ed558ccd :: u64) * 0x4f74430c22a54005 = 1" "(0xc4ceb9fe1a85ec53 :: u64) * 0x9cb4b2f8129337db = 1"
    by simp_all
  show "unfmix32 (fmix32 h) = h" "unfmix64 (fmix64 k) = k"
    by (simp_all only: unfmix32_def fmix32_def unfmix64_def fmix64_def Let_def
        xorshift_inv32 xorshift_inv64 mult.assoc inv mult_1_right)
qed

text \<open>
  C21. The finalisers lose no information: \<open>fmix32\<close> and \<open>fmix64\<close> are bijections on words, with
  the inverses \<open>unfmix32\<close> and \<open>unfmix64\<close>.
\<close>

theorem fmix_roundtrip:
  "unfmix32 (fmix32 h) = h \<and> fmix32 (unfmix32 h) = h \<and> unfmix64 (fmix64 k) = k \<and> fmix64 (unfmix64 k) = k"
proof -
  have "surj fmix32" "surj fmix64" by (auto intro!: finite_UNIV_inj_surj injI)
  then show ?thesis by (metis surjD unfmix_fmix)
qed

text \<open>
  Two keys of the same length that differ in one block of four bytes only never have the same
  \<open>MurmurHash3_x86_32\<close>, whatever the seed.
\<close>

theorem murmur_x86_32_one_block:
  assumes "length key = length key'" and "b < length key div 4"
    and "\<And>j. j < length key \<Longrightarrow> j div 4 \<noteq> b \<Longrightarrow> key ! j = key' ! j" and "key \<noteq> key'"
  shows "MurmurHash3_x86_32 key seed \<noteq> MurmurHash3_x86_32 key' seed"
  using x86_32.hash_one_block [OF assms, of seed]
  by (simp add: x86_32.hash_def x86_32_finish_def MurmurHash3_x86_32_def Let_def)

theorem murmur_x86_32_one_block_witness:
  "MurmurHash3_x86_32 [1, 2, 3, 4, 5] 7 \<noteq> MurmurHash3_x86_32 [1, 2, 9, 4, 5] 7"
proof (rule murmur_x86_32_one_block [where b = 0])
  have "\<forall>j \<in> set [0..<5]. j div 4 \<noteq> 0 \<longrightarrow> [1, 2, 3, 4, 5 :: u8] ! j = [1, 2, 9, 4, 5] ! j" by code_simp
  then show "j < length [1, 2, 3, 4, 5 :: u8] \<Longrightarrow> j div 4 \<noteq> 0 \<Longrightarrow> [1, 2, 3, 4, 5 :: u8] ! j = [1, 2, 9, 4, 5] ! j" for j
    by simp
qed simp_all

text \<open>
  C19. Two keys of the same length that differ in one block of sixteen bytes only never have the
  same \<open>MurmurHash3_x64_128\<close>, whatever the seed. In particular it is a perfect hash on keys of
  sixteen bytes.
\<close>

theorem murmur_x64_128_one_block:
  assumes "length key = length key'" and "b < length key div 16"
    and "\<And>j. j < length key \<Longrightarrow> j div 16 \<noteq> b \<Longrightarrow> key ! j = key' ! j" and "key \<noteq> key'"
  shows "MurmurHash3_x64_128 key seed \<noteq> MurmurHash3_x64_128 key' seed"
  using x64_128.hash_one_block [OF assms, of "(ucast seed, ucast seed)"]
  by (simp add: x64_128.hash_def x64_128_finish_def MurmurHash3_x64_128_def Let_def)

theorem murmur_x64_128_one_block_witness:
  "MurmurHash3_x64_128 (replicate 15 7 @ [8, 1]) 0 \<noteq> MurmurHash3_x64_128 (replicate 15 7 @ [9, 1]) 0"
proof (rule murmur_x64_128_one_block [where b = 0])
  let ?k = "replicate 15 7 @ [8, 1 :: u8]" and ?k' = "replicate 15 7 @ [9, 1 :: u8]"
  have "\<forall>j \<in> set [0..<17]. j div 16 \<noteq> 0 \<longrightarrow> ?k ! j = ?k' ! j" by code_simp
  then show "j < length ?k \<Longrightarrow> j div 16 \<noteq> 0 \<Longrightarrow> ?k ! j = ?k' ! j" for j by simp
qed simp_all

text \<open>
  C20. The same for \<open>MurmurHash3_x86_128\<close>, the variant for 32-bit machines.
\<close>

theorem murmur_x86_128_one_block:
  assumes "length key = length key'" and "b < length key div 16"
    and "\<And>j. j < length key \<Longrightarrow> j div 16 \<noteq> b \<Longrightarrow> key ! j = key' ! j" and "key \<noteq> key'"
  shows "MurmurHash3_x86_128 key seed \<noteq> MurmurHash3_x86_128 key' seed"
  using x86_128.hash_one_block [OF assms, of "(seed, seed, seed, seed)"]
  by (simp add: x86_128.hash_def x86_128_finish_def MurmurHash3_x86_128_def Let_def)

theorem murmur_x86_128_one_block_witness:
  "MurmurHash3_x86_128 (replicate 15 7 @ [8, 1]) 0 \<noteq> MurmurHash3_x86_128 (replicate 15 7 @ [9, 1]) 0"
proof (rule murmur_x86_128_one_block [where b = 0])
  let ?k = "replicate 15 7 @ [8, 1 :: u8]" and ?k' = "replicate 15 7 @ [9, 1 :: u8]"
  have "\<forall>j \<in> set [0..<17]. j div 16 \<noteq> 0 \<longrightarrow> ?k ! j = ?k' ! j" by code_simp
  then show "j < length ?k \<Longrightarrow> j div 16 \<noteq> 0 \<Longrightarrow> ?k ! j = ?k' ! j" for j by simp
qed simp_all

lemma hash_func_loop_fold:
  "k + n = length key \<Longrightarrow> hash_func_loop key (length key) n h k = fold (\<lambda>c h. DCHARHASH h c) (drop k key) h"
proof (induction n arbitrary: h k)
  case (Suc n)
  then have "drop k key = key ! k # drop (Suc k) key" by (simp add: Cons_nth_drop_Suc)
  then show ?case using Suc.IH [of "Suc k"] Suc.prems by (simp add: Let_def)
qed simp

text \<open>
  \<open>__hash_func\<close> hashes every byte of the key: its test for a zero byte behind the end never
  stops it, so a key with zero bytes in it is hashed to its full length.
\<close>

theorem hash_func_all_bytes: "hash_func key = fold (\<lambda>c h. DCHARHASH h c) key 0"
  using hash_func_loop_fold [of 0 "length key" key 0] by (simp add: hash_func_def)

end
