(* ===== verification/Bloom.thy ===== *)
theory Bloom
  imports Hashfunc
begin

text \<open>
  The bit vector and the Bloom filter of advance/hashfunc/bloom_hashfunc.h. The array of a bit
  vector is the list of its 32-bit words; whether \<open>malloc\<close> and \<open>calloc\<close> succeed is an argument
  of the functions that call them. The two sizes that the source computes with \<open>log\<close> and \<open>ceil\<close>
  in floating point are arguments too (\<open>bits_for_accuracy\<close> and \<open>hash_ratio\<close>), for any type
  \<open>'d\<close> of error rates. The assertions of \<open>BV_BOUND_CHECK\<close> are the ones of a build without
  \<open>NDEBUG\<close>.
\<close>

section \<open>Bit vectors\<close>

record bitvector =
  bv_field :: "u32 list"
  bv_size :: u64

definition INT_BIT :: u64 where
  "INT_BIT = 32"

text \<open>\<open>bv_init\<close>: returns the result code and the vector.\<close>

definition bv_init :: "bool \<Rightarrow> u64 \<Rightarrow> int \<times> bitvector" where
  "bv_init calloc_ok k =
     (let ints = (k + (INT_BIT - 1)) div INT_BIT in
      if calloc_ok then (0, \<lparr>bv_field = replicate (unat ints) 0, bv_size = k\<rparr>)
      else (- 1, \<lparr>bv_field = [], bv_size = k\<rparr>))"

definition bv_create :: "bool \<Rightarrow> bool \<Rightarrow> u64 \<Rightarrow> bitvector option" where
  "bv_create malloc_ok calloc_ok k =
     (if \<not> malloc_ok then None
      else case bv_init calloc_ok k of (r, v) \<Rightarrow> if r \<noteq> 0 then None else Some v)"

definition bv_free :: "bitvector \<Rightarrow> bitvector" where
  "bv_free bv = bv\<lparr>bv_field := [], bv_size := 0\<rparr>"

text \<open>\<open>bv->field[k / INT_BIT]\<close>, given that the array reaches that far.\<close>

definition bv_word :: "bitvector \<Rightarrow> u64 \<Rightarrow> (u32 \<Rightarrow> 'b res) \<Rightarrow> 'b res" where
  "bv_word bv k c =
     (let i = unat (k div INT_BIT) in
      if i < length (bv_field bv) then c (bv_field bv ! i) else Fault BadDeref)"

definition bv_store :: "bitvector \<Rightarrow> u64 \<Rightarrow> u32 \<Rightarrow> bitvector" where
  "bv_store bv k w = bv\<lparr>bv_field := (bv_field bv)[unat (k div INT_BIT) := w]\<rparr>"

definition bv_mask :: "u64 \<Rightarrow> u32" where
  "bv_mask k = push_bit (unat (k mod INT_BIT)) 1"

definition bv_set :: "bitvector \<Rightarrow> u64 \<Rightarrow> bitvector res" where
  "bv_set bv k =
     c_assert (k < bv_size bv) (bv_word bv k (\<lambda>w. Ok (bv_store bv k (w OR bv_mask k))))"

definition bv_unset :: "bitvector \<Rightarrow> u64 \<Rightarrow> bitvector res" where
  "bv_unset bv k =
     c_assert (k < bv_size bv) (bv_word bv k (\<lambda>w. Ok (bv_store bv k (w AND NOT (bv_mask k)))))"

definition bv_toggle :: "bitvector \<Rightarrow> u64 \<Rightarrow> bitvector res" where
  "bv_toggle bv k =
     c_assert (k < bv_size bv) (bv_word bv k (\<lambda>w. Ok (bv_store bv k (w XOR bv_mask k))))"

definition bv_get :: "bitvector \<Rightarrow> u64 \<Rightarrow> bool res" where
  "bv_get bv k =
     c_assert (k < bv_size bv) (bv_word bv k (\<lambda>w. Ok (w AND bv_mask k \<noteq> 0)))"

section \<open>The Bloom filter\<close>

record 'd bloom =
  bl_capacity :: u64
  bl_nhashes :: u64
  bl_error_rate :: 'd
  bl_nitems :: u64
  bl_size :: u64
  bl_bitvector :: bitvector

definition SALT_CONSTANT :: u32 where
  "SALT_CONSTANT = 0x97c29b3a"

definition bloom_optimal_hash_count :: "(u64 \<Rightarrow> u64 \<Rightarrow> u64) \<Rightarrow> u64 \<Rightarrow> u64 \<Rightarrow> u64" where
  "bloom_optimal_hash_count hash_ratio bits items =
     (let k = hash_ratio bits items in if k < 1 then 1 else k)"

text \<open>The entries of \<open>hashes\<close> from index 1 on, after \<open>prev\<close>.\<close>

fun gen_hashes_loop :: "u32 \<Rightarrow> u64 \<Rightarrow> nat \<Rightarrow> u64 \<Rightarrow> u64 list" where
  "gen_hashes_loop b max_size 0 prev = []"
| "gen_hashes_loop b max_size (Suc n) prev =
     (let x = (prev + ucast b) mod max_size in x # gen_hashes_loop b max_size n x)"

text \<open>
  \<open>hashfunc\<close>, which is \<open>MurmurHash3_x64_128\<close> on x86-64, as \<open>gen_hashes\<close> calls it: the length of
  the key, a \<open>size_t\<close>, is converted to the parameter \<open>const int len\<close>. A length whose low 32 bits
  are below 2^31 hashes that many bytes. For a negative \<open>len\<close> the number of blocks, a division
  that rounds towards 0, is not positive, so no block is read; the tail, \<open>len & 15\<close> bytes, starts
  at the key when \<open>len\<close> exceeds -16 and in front of the key otherwise, and \<open>h1 ^= len\<close> extends the
  sign.
\<close>

definition hashfunc :: "u8 list \<Rightarrow> u32 \<Rightarrow> (u64 \<times> u64) res" where
  "hashfunc key seed =
     (let len = of_nat (length key) :: 32 word; rest = nat (sint len mod 16) in
      if 0 \<le> sint len then Ok (MurmurHash3_x64_128 (take (nat (sint len)) key) seed)
      else if sint len \<le> - 16 \<and> rest \<noteq> 0 then Fault BadDeref
      else Ok (x64_128_final (unat (scast len :: u64)) (x64_128_tail (take rest key) (ucast seed, ucast seed))))"

text \<open>
  \<open>gen_hashes\<close>: the words of \<open>hashes\<close>, an array of \<open>nhashes\<close> entries. \<open>hashvalues[0]\<close> and
  \<open>[1]\<close> are the low and the high half of the first word of the hash. The first entry is written
  even if \<open>nhashes\<close> is 0; \<open>ok\<close> is whether \<open>hashes\<close> is not NULL.
\<close>

definition gen_hashes :: "bool \<Rightarrow> u8 list \<Rightarrow> u64 \<Rightarrow> u64 \<Rightarrow> u64 list res" where
  "gen_hashes ok key nhashes max_size =
     call (hashfunc key SALT_CONSTANT) (\<lambda>(h, _).
       let a = ucast h; b = ucast (drop_bit 32 h) in
       if max_size = 0 then Fault DivByZero
       else if \<not> ok \<or> nhashes = 0 then Fault BadDeref
       else
         let h0 = ucast (a :: u32) mod max_size in
         Ok (h0 # gen_hashes_loop b max_size (unat nhashes - 1) h0))"

text \<open>\<open>bloom_init\<close>: returns the filter, or None for the result -1.\<close>

definition bloom_init ::
  "(u64 \<Rightarrow> 'd \<Rightarrow> u64) \<Rightarrow> (u64 \<Rightarrow> u64 \<Rightarrow> u64) \<Rightarrow> bool \<Rightarrow> bool \<Rightarrow> u64 \<Rightarrow> 'd \<Rightarrow> 'd bloom option" where
  "bloom_init bits_for_accuracy hash_ratio malloc_ok calloc_ok capacity error_rate =
     (let sz = bits_for_accuracy capacity error_rate;
          nhashes = bloom_optimal_hash_count hash_ratio sz capacity in
      case bv_create malloc_ok calloc_ok sz of
        None \<Rightarrow> None
      | Some v \<Rightarrow> Some \<lparr>bl_capacity = capacity, bl_nhashes = nhashes, bl_error_rate = error_rate,
                        bl_nitems = 0, bl_size = sz, bl_bitvector = v\<rparr>)"

definition bloom_create ::
  "(u64 \<Rightarrow> 'd \<Rightarrow> u64) \<Rightarrow> (u64 \<Rightarrow> u64 \<Rightarrow> u64) \<Rightarrow> bool \<Rightarrow> bool \<Rightarrow> bool \<Rightarrow> u64 \<Rightarrow> 'd \<Rightarrow> 'd bloom option" where
  "bloom_create bits_for_accuracy hash_ratio bloom_ok malloc_ok calloc_ok capacity error_rate =
     (if \<not> bloom_ok then None
      else bloom_init bits_for_accuracy hash_ratio malloc_ok calloc_ok capacity error_rate)"

text \<open>The loop that \<open>bloom_add\<close> and \<open>bloom_attach\<close> share: sets the bits, tells if all were set.\<close>

fun bloom_set_bits :: "bitvector \<Rightarrow> u64 list \<Rightarrow> bool \<Rightarrow> (bool \<times> bitvector) res" where
  "bloom_set_bits bv [] seen = Ok (seen, bv)"
| "bloom_set_bits bv (h # hs) seen =
     call (bv_get bv h) (\<lambda>cval.
     call (if \<not> cval then bv_set bv h else Ok bv) (\<lambda>bv1.
       bloom_set_bits bv1 hs (seen \<and> cval)))"

definition bloom_count :: "'d bloom \<Rightarrow> bool \<Rightarrow> bitvector \<Rightarrow> 'd bloom" where
  "bloom_count bloom seen bv =
     bloom\<lparr>bl_bitvector := bv, bl_nitems := if \<not> seen then bl_nitems bloom + 1 else bl_nitems bloom\<rparr>"

text \<open>\<open>bloom_attach\<close>: \<open>hashes\<close> is whether the caller's array is not NULL.\<close>

definition bloom_attach :: "bool \<Rightarrow> 'd bloom \<Rightarrow> u8 list \<Rightarrow> (int \<times> 'd bloom) res" where
  "bloom_attach hashes bloom key =
     (if \<not> hashes then Ok (- 1, bloom)
      else
        call (gen_hashes True key (bl_nhashes bloom) (bl_size bloom)) (\<lambda>hs.
        call (bloom_set_bits (bl_bitvector bloom) hs True) (\<lambda>(seen, bv).
          Ok (if seen then 1 else 0, bloom_count bloom seen bv))))"

definition bloom_add :: "bool \<Rightarrow> 'd bloom \<Rightarrow> u8 list \<Rightarrow> (int \<times> 'd bloom) res" where
  "bloom_add calloc_ok bloom key =
     (if \<not> calloc_ok then Ok (- 1, bloom)
      else
        call (gen_hashes True key (bl_nhashes bloom) (bl_size bloom)) (\<lambda>hs.
        call (bloom_set_bits (bl_bitvector bloom) hs True) (\<lambda>(seen, bv).
          Ok (if seen then 1 else 0, bloom_count bloom seen bv))))"

fun bloom_test_bits :: "bitvector \<Rightarrow> u64 list \<Rightarrow> int res" where
  "bloom_test_bits bv [] = Ok 1"
| "bloom_test_bits bv (h # hs) =
     call (bv_get bv h) (\<lambda>cval. if \<not> cval then Ok 0 else bloom_test_bits bv hs)"

text \<open>\<open>bloom_obtain\<close> and \<open>bloom_get\<close> write to the array without a test for NULL.\<close>

definition bloom_obtain :: "bool \<Rightarrow> 'd bloom \<Rightarrow> u8 list \<Rightarrow> int res" where
  "bloom_obtain hashes bloom key =
     call (gen_hashes hashes key (bl_nhashes bloom) (bl_size bloom)) (bloom_test_bits (bl_bitvector bloom))"

definition bloom_get :: "bool \<Rightarrow> 'd bloom \<Rightarrow> u8 list \<Rightarrow> int res" where
  "bloom_get calloc_ok bloom key =
     call (gen_hashes calloc_ok key (bl_nhashes bloom) (bl_size bloom)) (bloom_test_bits (bl_bitvector bloom))"

section \<open>A bit vector as a set\<close>

definition bv_ok :: "bitvector \<Rightarrow> bool" where
  "bv_ok bv \<longleftrightarrow> unat (bv_size bv) + 31 < 2 ^ 64 \<and> length (bv_field bv) = (unat (bv_size bv) + 31) div 32"

definition bv_bits :: "bitvector \<Rightarrow> u64 set" where
  "bv_bits bv = {k. k < bv_size bv \<and> bit (bv_field bv ! (unat k div 32)) (unat k mod 32)}"

lemma bv_index:
  assumes "bv_ok bv" "k < bv_size bv"
  shows "unat k div 32 < length (bv_field bv)"
proof -
  have "unat k < unat (bv_size bv)" using assms(2) by (simp add: word_less_nat_alt)
  then show ?thesis using assms(1) by (simp add: bv_ok_def)
qed

lemma INT_BIT_div [simp]: "unat (k div INT_BIT) = unat k div 32" "unat (k mod INT_BIT) = unat k mod 32"
  by (simp_all add: INT_BIT_def unat_div unat_mod)

lemma bv_word_ok:
  assumes "bv_ok bv" "k < bv_size bv"
  shows "bv_word bv k c = c (bv_field bv ! (unat k div 32))"
  using bv_index [OF assms] by (simp add: bv_word_def)

lemma bv_mask_bit: "bit (bv_mask k) n \<longleftrightarrow> n = unat k mod 32"
  by (auto simp: bv_mask_def bit_simps)

lemma bv_mask_test: "w AND bv_mask k \<noteq> 0 \<longleftrightarrow> bit w (unat k mod 32)"
  using bit_eq_iff [of "w AND bv_mask k" 0] by (auto simp: bit_simps bv_mask_bit)

lemma bv_index_eq: "unat k div 32 = unat j div 32 \<Longrightarrow> unat k mod 32 = unat j mod 32 \<longleftrightarrow> k = (j :: u64)"
  by (metis div_mult_mod_eq word_unat_eq_iff)

lemma bv_store_ok [simp]: "bv_ok (bv_store bv k w) = bv_ok bv" "bv_size (bv_store bv k w) = bv_size bv"
  by (simp_all add: bv_ok_def bv_store_def)

lemma bv_store_bits:
  assumes "bv_ok bv" "k < bv_size bv"
    and "\<And>n. n < 32 \<Longrightarrow> n \<noteq> unat k mod 32 \<Longrightarrow> bit w n = bit (bv_field bv ! (unat k div 32)) n"
  shows "bv_bits (bv_store bv k w) = (if bit w (unat k mod 32) then insert k (bv_bits bv) else bv_bits bv - {k})"
proof -
  have mem: "j \<in> bv_bits (bv_store bv k w) \<longleftrightarrow> (if j = k then bit w (unat k mod 32) else j \<in> bv_bits bv)" for j
  proof (cases "unat j div 32 = unat k div 32")
    case True
    then have "unat j mod 32 = unat k mod 32 \<longleftrightarrow> j = k" by (rule bv_index_eq)
    then show ?thesis
      using True bv_index [OF assms(1,2)] assms(2) assms(3) [of "unat j mod 32"]
      by (auto simp: bv_bits_def bv_store_def)
  next
    case False
    then show ?thesis by (auto simp: bv_bits_def bv_store_def nth_list_update_neq)
  qed
  show ?thesis by (rule set_eqI) (simp add: mem)
qed

lemma bv_get_bits: "bv_ok bv \<Longrightarrow> k < bv_size bv \<Longrightarrow> bv_get bv k = Ok (k \<in> bv_bits bv)"
  by (simp add: bv_get_def bv_word_ok bv_mask_test bv_bits_def)

lemma bv_set_bits:
  assumes "bv_ok bv" "k < bv_size bv"
  shows "\<exists>bv'. bv_set bv k = Ok bv' \<and> bv_ok bv' \<and> bv_size bv' = bv_size bv \<and> bv_bits bv' = insert k (bv_bits bv)"
  using assms bv_store_bits [OF assms, of "bv_field bv ! (unat k div 32) OR bv_mask k"]
  by (simp add: bv_set_def bv_word_ok bit_simps bv_mask_bit)

lemma bv_unset_bits:
  assumes "bv_ok bv" "k < bv_size bv"
  shows "\<exists>bv'. bv_unset bv k = Ok bv' \<and> bv_ok bv' \<and> bv_size bv' = bv_size bv \<and> bv_bits bv' = bv_bits bv - {k}"
  using assms bv_store_bits [OF assms, of "bv_field bv ! (unat k div 32) AND NOT (bv_mask k)"]
  by (simp add: bv_unset_def bv_word_ok bit_simps bv_mask_bit)

lemma bv_toggle_bits:
  assumes "bv_ok bv" "k < bv_size bv"
  shows "\<exists>bv'. bv_toggle bv k = Ok bv' \<and> bv_ok bv' \<and> bv_size bv' = bv_size bv \<and>
    bv_bits bv' = (if k \<in> bv_bits bv then bv_bits bv - {k} else insert k (bv_bits bv))"
  using assms bv_store_bits [OF assms, of "bv_field bv ! (unat k div 32) XOR bv_mask k"]
  by (simp add: bv_toggle_def bv_word_ok bit_simps bv_mask_bit) (simp add: bv_bits_def)

lemma bv_create_ok:
  assumes "unat k + 31 < 2 ^ 64"
  obtains v where "bv_create True True k = Some v" "bv_ok v" "bv_size v = k" "bv_bits v = {}"
proof -
  have "unat (k + 31) = unat k + 31" using assms by (simp add: unat_word_ariths)
  then have ints: "unat (k + (INT_BIT - 1)) div 32 = (unat k + 31) div 32" by (simp add: INT_BIT_def)
  let ?v = "\<lparr>bv_field = replicate ((unat k + 31) div 32) 0, bv_size = k\<rparr>"
  have ok: "bv_ok ?v" using assms by (simp add: bv_ok_def)
  have "bv_bits ?v = {}" using bv_index [OF ok] by (auto simp: bv_bits_def)
  then show ?thesis using ok by (intro that [of ?v]) (simp_all add: bv_create_def bv_init_def ints Let_def)
qed

section \<open>Hashes\<close>

lemma gen_hashes_loop_range: "m \<noteq> 0 \<Longrightarrow> \<forall>h \<in> set (gen_hashes_loop b m n x). h < m"
  by (induction n arbitrary: x) (simp_all add: Let_def word_mod_less_divisor word_gt_0)

lemma gen_hashes_loop_length: "length (gen_hashes_loop b m n x) = n"
  by (induction n arbitrary: x) (simp_all add: Let_def)

lemma hashfunc_ok:
  assumes "length key < 2 ^ 31"
  shows "hashfunc key seed = Ok (MurmurHash3_x64_128 key seed)"
proof -
  have "sint (of_nat (length key) :: 32 word) = int (length key)"
    using assms by (simp add: signed_of_nat signed_take_bit_int_eq_self)
  then show ?thesis by (simp add: hashfunc_def)
qed

lemma gen_hashes_cases:
  assumes "gen_hashes ok key n m = Ok hs"
  obtains a b where "m \<noteq> 0" "n \<noteq> 0" "hs = (a mod m) # gen_hashes_loop b m (unat n - 1) (a mod m)"
  using assms by (auto simp: gen_hashes_def Let_def call_eq_Ok split: if_splits)

lemma gen_hashes_range:
  assumes "gen_hashes ok key n m = Ok hs"
  shows "\<forall>h \<in> set hs. h < m" "length hs = unat n" "hs \<noteq> []"
proof -
  obtain a b where hs: "m \<noteq> 0" "n \<noteq> 0" "hs = (a mod m) # gen_hashes_loop b m (unat n - 1) (a mod m)"
    using assms by (rule gen_hashes_cases)
  show "\<forall>h \<in> set hs. h < m"
    using hs gen_hashes_loop_range by (simp add: word_mod_less_divisor word_gt_0)
  have "0 < unat n" using hs(2) by (simp add: unat_gt_0)
  then show "length hs = unat n" using hs by (simp add: gen_hashes_loop_length)
  show "hs \<noteq> []" using hs by simp
qed

lemma gen_hashes_ok: "length key < 2 ^ 31 \<Longrightarrow> n \<noteq> 0 \<Longrightarrow> m \<noteq> 0 \<Longrightarrow> \<exists>hs. gen_hashes True key n m = Ok hs"
  by (simp add: gen_hashes_def hashfunc_ok Let_def split_beta)

lemma bloom_set_bits_ok:
  assumes "bv_ok bv" "\<forall>h \<in> set hs. h < bv_size bv"
  shows "\<exists>bv'. bloom_set_bits bv hs seen = Ok (seen \<and> set hs \<subseteq> bv_bits bv, bv') \<and> bv_ok bv' \<and>
    bv_size bv' = bv_size bv \<and> bv_bits bv' = bv_bits bv \<union> set hs"
  using assms
proof (induction hs arbitrary: bv seen)
  case (Cons h hs)
  then have h: "bv_get bv h = Ok (h \<in> bv_bits bv)" by (simp add: bv_get_bits)
  show ?case
  proof (cases "h \<in> bv_bits bv")
    case True
    then show ?thesis using h Cons.IH [of bv seen] Cons.prems by (simp add: insert_absorb)
  next
    case False
    obtain bv1 where bv1: "bv_set bv h = Ok bv1" "bv_ok bv1" "bv_size bv1 = bv_size bv"
      "bv_bits bv1 = insert h (bv_bits bv)" using bv_set_bits [of bv h] Cons.prems by auto
    then show ?thesis using h False Cons.IH [of bv1 False] Cons.prems by auto
  qed
qed simp

lemma bloom_test_bits_ok:
  assumes "bv_ok bv" "\<forall>h \<in> set hs. h < bv_size bv"
  shows "bloom_test_bits bv hs = Ok (if set hs \<subseteq> bv_bits bv then 1 else 0)"
  using assms by (induction hs) (auto simp: bv_get_bits)

section \<open>The filter as a set of positions\<close>

definition bloom_ok :: "'d bloom \<Rightarrow> bool" where
  "bloom_ok b \<longleftrightarrow> bv_ok (bl_bitvector b) \<and> bv_size (bl_bitvector b) = bl_size b \<and> bl_size b \<noteq> 0 \<and> bl_nhashes b \<noteq> 0"

text \<open>The positions of a key in a filter with these parameters.\<close>

definition bloom_positions :: "'d bloom \<Rightarrow> u8 list \<Rightarrow> u64 set" where
  "bloom_positions b key = (case gen_hashes True key (bl_nhashes b) (bl_size b) of Ok hs \<Rightarrow> set hs | Fault e \<Rightarrow> {})"

lemma bloom_hashes:
  assumes "bloom_ok b" "length key < 2 ^ 31"
  obtains hs where "gen_hashes True key (bl_nhashes b) (bl_size b) = Ok hs" "set hs = bloom_positions b key"
    "\<forall>h \<in> set hs. h < bl_size b" "hs \<noteq> []"
proof -
  obtain hs where hs: "gen_hashes True key (bl_nhashes b) (bl_size b) = Ok hs"
    using gen_hashes_ok [of key "bl_nhashes b" "bl_size b"] assms by (auto simp: bloom_ok_def)
  show ?thesis using that [OF hs] gen_hashes_range [OF hs] hs by (simp add: bloom_positions_def)
qed

lemma bloom_get_ok:
  assumes "bloom_ok b" "length key < 2 ^ 31"
  shows "bloom_get True b key = Ok (if bloom_positions b key \<subseteq> bv_bits (bl_bitvector b) then 1 else 0)"
proof -
  obtain hs where hs: "gen_hashes True key (bl_nhashes b) (bl_size b) = Ok hs" "set hs = bloom_positions b key"
    "\<forall>h \<in> set hs. h < bl_size b" using bloom_hashes [OF assms] by metis
  then show ?thesis using assms bloom_test_bits_ok [of "bl_bitvector b" hs] by (simp add: bloom_get_def bloom_ok_def)
qed

lemma bloom_add_ok:
  assumes "bloom_ok b" "length key < 2 ^ 31"
  shows "\<exists>b'. bloom_add True b key = Ok (if bloom_positions b key \<subseteq> bv_bits (bl_bitvector b) then 1 else 0, b') \<and>
    bloom_ok b' \<and> bloom_positions b' = bloom_positions b \<and>
    bv_bits (bl_bitvector b') = bv_bits (bl_bitvector b) \<union> bloom_positions b key \<and>
    bl_nitems b' = (if bloom_positions b key \<subseteq> bv_bits (bl_bitvector b) then bl_nitems b else bl_nitems b + 1)"
proof -
  obtain hs where hs: "gen_hashes True key (bl_nhashes b) (bl_size b) = Ok hs" "set hs = bloom_positions b key"
    "\<forall>h \<in> set hs. h < bl_size b" using bloom_hashes [OF assms] by metis
  obtain bv' where bv': "bloom_set_bits (bl_bitvector b) hs True = Ok (set hs \<subseteq> bv_bits (bl_bitvector b), bv')"
    "bv_ok bv'" "bv_size bv' = bl_size b" "bv_bits bv' = bv_bits (bl_bitvector b) \<union> set hs"
    using bloom_set_bits_ok [of "bl_bitvector b" hs True] assms hs(3) by (auto simp: bloom_ok_def)
  let ?b = "bloom_count b (set hs \<subseteq> bv_bits (bl_bitvector b)) bv'"
  have "bloom_positions ?b = bloom_positions b" by (simp add: bloom_positions_def bloom_count_def fun_eq_iff)
  then show ?thesis using assms hs bv' by (simp add: bloom_add_def bloom_ok_def bloom_count_def)
qed

text \<open>Adding keys one after the other; the results of the calls.\<close>

fun bloom_adds :: "'d bloom \<Rightarrow> u8 list list \<Rightarrow> (int list \<times> 'd bloom) res" where
  "bloom_adds b [] = Ok ([], b)"
| "bloom_adds b (k # ks) =
     call (bloom_add True b k) (\<lambda>(r, b1). call (bloom_adds b1 ks) (\<lambda>(rs, b2). Ok (r # rs, b2)))"

lemma bloom_adds_ok:
  assumes "bloom_ok b" "unat (bl_nitems b) + length ks < 2 ^ 64" "\<forall>k \<in> set ks. length k < 2 ^ 31"
  shows "\<exists>rs b'. bloom_adds b ks = Ok (rs, b') \<and> bloom_ok b' \<and> bloom_positions b' = bloom_positions b \<and>
    bv_bits (bl_bitvector b') = bv_bits (bl_bitvector b) \<union> (\<Union>k \<in> set ks. bloom_positions b k) \<and>
    set rs \<subseteq> {0, 1} \<and> unat (bl_nitems b') = unat (bl_nitems b) + count_list rs 0"
  using assms
proof (induction ks arbitrary: b)
  case Nil
  then show ?case by simp
next
  case (Cons k ks)
  let ?seen = "bloom_positions b k \<subseteq> bv_bits (bl_bitvector b)"
  obtain b1 where b1: "bloom_add True b k = Ok (if ?seen then 1 else 0, b1)" "bloom_ok b1" "bloom_positions b1 = bloom_positions b"
    "bv_bits (bl_bitvector b1) = bv_bits (bl_bitvector b) \<union> bloom_positions b k"
    "bl_nitems b1 = (if ?seen then bl_nitems b else bl_nitems b + 1)"
    using bloom_add_ok [OF Cons.prems(1), of k] Cons.prems(3) by auto
  have n: "unat (bl_nitems b1) = unat (bl_nitems b) + (if ?seen then 0 else 1)"
    using Cons.prems(2) b1(5) by (simp add: unat_word_ariths)
  then obtain rs b' where b': "bloom_adds b1 ks = Ok (rs, b')" "bloom_ok b'" "bloom_positions b' = bloom_positions b1"
    "bv_bits (bl_bitvector b') = bv_bits (bl_bitvector b1) \<union> (\<Union>k \<in> set ks. bloom_positions b1 k)"
    "set rs \<subseteq> {0, 1}" "unat (bl_nitems b') = unat (bl_nitems b1) + count_list rs 0"
    using Cons.IH [OF b1(2)] Cons.prems(2,3) by (auto split: if_splits)
  show ?case
    using b1 b' n by (intro exI [of _ "(if ?seen then 1 else 0) # rs"] exI [of _ b']) (auto split: if_splits)
qed

section \<open>Properties\<close>

text \<open>
  The bit vector is a set of positions below its size: \<open>bv_set\<close> adds a position, \<open>bv_unset\<close>
  removes it, \<open>bv_toggle\<close> does one or the other, \<open>bv_get\<close> tests it, no other position is
  touched, and no access is outside the array. At a position from the size on, all four fail
  their assertion.
\<close>

theorem bitvector_set:
  assumes "bv_ok bv"
  shows "if k < bv_size bv then
      bv_get bv k = Ok (k \<in> bv_bits bv) \<and>
      (\<exists>bv'. bv_set bv k = Ok bv' \<and> bv_ok bv' \<and> bv_bits bv' = insert k (bv_bits bv)) \<and>
      (\<exists>bv'. bv_unset bv k = Ok bv' \<and> bv_ok bv' \<and> bv_bits bv' = bv_bits bv - {k}) \<and>
      (\<exists>bv'. bv_toggle bv k = Ok bv' \<and> bv_ok bv' \<and>
         bv_bits bv' = (if k \<in> bv_bits bv then bv_bits bv - {k} else insert k (bv_bits bv)))
    else bv_get bv k = Fault AssertFail \<and> bv_set bv k = Fault AssertFail \<and>
      bv_unset bv k = Fault AssertFail \<and> bv_toggle bv k = Fault AssertFail"
proof (cases "k < bv_size bv")
  case True
  show ?thesis
    using True bv_get_bits [OF assms True] bv_set_bits [OF assms True] bv_unset_bits [OF assms True]
      bv_toggle_bits [OF assms True] by auto
qed (simp add: bv_get_def bv_set_def bv_unset_def bv_toggle_def)

theorem bitvector_set_witness:
  "(\<exists>bv'. bv_set \<lparr>bv_field = [0, 0], bv_size = 40\<rparr> 33 = Ok bv' \<and> bv_ok bv' \<and> 33 \<in> bv_bits bv') \<and>
   bv_set \<lparr>bv_field = [0, 0], bv_size = 40\<rparr> 40 = Fault AssertFail"
proof -
  have ok: "bv_ok \<lparr>bv_field = [0, 0], bv_size = 40\<rparr>" by (simp add: bv_ok_def)
  show ?thesis using bitvector_set [OF ok, of 33] bitvector_set [OF ok, of 40] by auto
qed

text \<open>
  C15. The Bloom filter has no false negatives, and its answers are exact in terms of bit
  positions. A filter from \<open>bloom_init\<close> with a size that is neither 0 nor so large that the
  rounding wraps accepts any sequence of keys of less than 2^31 bytes; afterwards
  \<open>bloom_get\<close> answers 1 for exactly those keys of less than 2^31 bytes whose positions were
  all set by the keys added, so for every key added; and the item count is the number of
  \<open>bloom_add\<close> calls that answered 0.
\<close>

theorem bloom_no_false_negatives:
  fixes bits_for_accuracy :: "u64 \<Rightarrow> 'd \<Rightarrow> u64"
  assumes "bits_for_accuracy capacity error_rate = n" and "n \<noteq> 0" and "unat n + 31 < 2 ^ 64" and "length ks < 2 ^ 64"
    and "\<forall>k \<in> set ks. length k < 2 ^ 31"
  shows "\<exists>b rs b'. bloom_init bits_for_accuracy hash_ratio True True capacity error_rate = Some b \<and>
    bloom_adds b ks = Ok (rs, b') \<and>
    (\<forall>key. length key < 2 ^ 31 \<longrightarrow> bloom_get True b' key =
       Ok (if bloom_positions b key \<subseteq> (\<Union>k \<in> set ks. bloom_positions b k) then 1 else 0)) \<and>
    (\<forall>key \<in> set ks. bloom_get True b' key = Ok 1) \<and> unat (bl_nitems b') = count_list rs 0"
proof -
  obtain v where v: "bv_create True True n = Some v" "bv_ok v" "bv_size v = n" "bv_bits v = {}"
    using bv_create_ok [OF assms(3)] .
  obtain b where b: "bloom_init bits_for_accuracy hash_ratio True True capacity error_rate = Some b"
    "bl_bitvector b = v" "bl_size b = n" "bl_nitems b = 0" "bl_nhashes b \<noteq> 0"
    using v(1) assms(1) by (auto simp: bloom_init_def bloom_optimal_hash_count_def Let_def word_less_1)
  have ok: "bloom_ok b" using b v assms(2) by (simp add: bloom_ok_def)
  obtain rs b' where b': "bloom_adds b ks = Ok (rs, b')" "bloom_ok b'" "bloom_positions b' = bloom_positions b"
    "bv_bits (bl_bitvector b') = (\<Union>k \<in> set ks. bloom_positions b k)" "unat (bl_nitems b') = count_list rs 0"
    using bloom_adds_ok [OF ok, of ks] assms(4,5) b(2,4) v(4) by auto
  have get: "bloom_get True b' key = Ok (if bloom_positions b key \<subseteq> (\<Union>k \<in> set ks. bloom_positions b k) then 1 else 0)"
    if "length key < 2 ^ 31" for key
    using bloom_get_ok [OF b'(2) that] b'(3,4) by simp
  then have "\<forall>key \<in> set ks. bloom_get True b' key = Ok 1" using assms(5) by auto
  then show ?thesis using b(1) b'(1,5) get by blast
qed

theorem bloom_no_false_negatives_witness:
  "\<exists>b rs b'. bloom_init (\<lambda>c e. 100) (\<lambda>b c. 7) True True 10 () = Some b \<and> bloom_adds b [[1], [2, 3], [1]] = Ok (rs, b') \<and>
    bloom_get True b' [2, 3] = Ok 1"
  using bloom_no_false_negatives [of "\<lambda>c e. 100" 10 "()" 100 "[[1], [2, 3], [1]]" "\<lambda>b c. 7"] by auto



end
