(* ===== verification/Memtrie.thy ===== *)
theory Memtrie
  imports CMem Pool "HOL-Library.Sublist"
begin

text \<open>
  advance/lf_memtrie.c and lf_memtrie.h: a trie over bytes. A node points to its first child
  (\<open>_firstSubNode\<close>) and to its next sibling (\<open>_brotherNode\<close>), siblings are in ascending order of
  their key; nodes come from a list made in advance. Every function of the file as it runs
  without interference. A word is the list of its bytes, \<open>strlen\<close> its length. Parameters that
  point to a local variable of the caller are passed by value and returned.
\<close>

section \<open>Data\<close>

record trie_node =
  tn_first :: addr
  tn_brother :: addr
  tn_key :: u8

record trie =
  tr_root :: addr
  tr_counter :: u64

record trie_node_list =
  nl_first :: addr
  nl_counter :: u64

record trie_state =
  ts_list :: addr
  ts_entry :: addr
  ts_init_counter :: u64

record tr_mem = c_mem +
  tr_nodes :: "addr \<Rightarrow> trie_node option"
  tr_tries :: "addr \<Rightarrow> trie option"
  tr_lists :: "addr \<Rightarrow> trie_node_list option"
  tr_states :: "addr \<Rightarrow> trie_state option"

definition TRIE_INSERT_SUCCESS :: u64 where "TRIE_INSERT_SUCCESS = 1"
definition TRIE_INSERT_DUPLICATION :: u64 where "TRIE_INSERT_DUPLICATION = 2"
definition TRIE_INSERT_ERROR :: u64 where "TRIE_INSERT_ERROR = 3"
definition TRIE_SEARCH_SUCCESS :: u64 where "TRIE_SEARCH_SUCCESS = 1"
definition TRIE_SEARCH_ERROR :: u64 where "TRIE_SEARCH_ERROR = 2"

definition set_tn :: "addr \<Rightarrow> trie_node \<Rightarrow> 'a tr_mem_scheme \<Rightarrow> 'a tr_mem_scheme" where
  "set_tn p n m = m\<lparr>tr_nodes := (tr_nodes m)(p \<mapsto> n)\<rparr>"

definition set_nl :: "addr \<Rightarrow> trie_node_list \<Rightarrow> 'a tr_mem_scheme \<Rightarrow> 'a tr_mem_scheme" where
  "set_nl p l m = m\<lparr>tr_lists := (tr_lists m)(p \<mapsto> l)\<rparr>"

definition set_tr :: "addr \<Rightarrow> trie \<Rightarrow> 'a tr_mem_scheme \<Rightarrow> 'a tr_mem_scheme" where
  "set_tr p t m = m\<lparr>tr_tries := (tr_tries m)(p \<mapsto> t)\<rparr>"

definition set_ts :: "addr \<Rightarrow> trie_state \<Rightarrow> 'a tr_mem_scheme \<Rightarrow> 'a tr_mem_scheme" where
  "set_ts p s m = m\<lparr>tr_states := (tr_states m)(p \<mapsto> s)\<rparr>"

definition free_tn :: "addr \<Rightarrow> 'a tr_mem_scheme \<Rightarrow> 'a tr_mem_scheme res" where
  "free_tn p m = call (aligned_free p m) (\<lambda>m'. Ok (m'\<lparr>tr_nodes := (tr_nodes m')(p := None)\<rparr>))"

definition free_nl :: "addr \<Rightarrow> 'a tr_mem_scheme \<Rightarrow> 'a tr_mem_scheme res" where
  "free_nl p m = call (aligned_free p m) (\<lambda>m'. Ok (m'\<lparr>tr_lists := (tr_lists m')(p := None)\<rparr>))"

definition free_tr :: "addr \<Rightarrow> 'a tr_mem_scheme \<Rightarrow> 'a tr_mem_scheme res" where
  "free_tr p m = call (aligned_free p m) (\<lambda>m'. Ok (m'\<lparr>tr_tries := (tr_tries m')(p := None)\<rparr>))"

definition free_ts :: "addr \<Rightarrow> 'a tr_mem_scheme \<Rightarrow> 'a tr_mem_scheme res" where
  "free_ts p m = call (aligned_free p m) (\<lambda>m'. Ok (m'\<lparr>tr_states := (tr_states m')(p := None)\<rparr>))"

section \<open>The list of spare nodes\<close>

definition tnode_push_body ::
  "addr \<Rightarrow> addr \<Rightarrow> addr \<times> 'a tr_mem_scheme \<Rightarrow> (addr \<times> 'a tr_mem_scheme, 'a tr_mem_scheme) ctl res" where
  "tnode_push_body nodelist tnode = (\<lambda>(tnode_original, m).
     deref (tr_nodes m) tnode (\<lambda>n.
     let m1 = set_tn tnode (n\<lparr>tn_brother := tnode_original\<rparr>) m in
     deref (tr_lists m1) nodelist (\<lambda>l.
       case abstraction_cas (nl_first l) tnode tnode_original of (rv, first') \<Rightarrow>
         let m2 = set_nl nodelist (l\<lparr>nl_first := first'\<rparr>) m1 in
         if tnode_original \<noteq> rv then Ok (Again (rv, m2)) else Ok (Done m2))))"

definition tnode_push :: "addr \<Rightarrow> addr \<Rightarrow> 'a tr_mem_scheme \<Rightarrow> 'a tr_mem_scheme res" where
  "tnode_push nodelist tnode m =
     deref (tr_lists m) nodelist (\<lambda>l.
     call (cloop (tnode_push_body nodelist tnode) (nl_first l, m)) (\<lambda>m1.
     deref (tr_lists m1) nodelist (\<lambda>l1.
       Ok (set_nl nodelist (l1\<lparr>nl_counter := abstraction_increment (nl_counter l1)\<rparr>) m1))))"

text \<open>\<open>tnode_pop\<close>: returns \<open>(rv, *tnode, m)\<close>. The test for NULL reads the head again.\<close>

definition tnode_pop_body ::
  "addr \<Rightarrow> addr \<times> 'a tr_mem_scheme \<Rightarrow> (addr \<times> 'a tr_mem_scheme, addr option \<times> 'a tr_mem_scheme) ctl res" where
  "tnode_pop_body nodelist = (\<lambda>(tnode_local, m).
     deref (tr_lists m) nodelist (\<lambda>l.
       if nl_first l = NULL then Ok (Done (None, m))
       else
         deref (tr_nodes m) tnode_local (\<lambda>n.
           case abstraction_cas (nl_first l) (tn_brother n) tnode_local of (rv, first') \<Rightarrow>
             let m1 = set_nl nodelist (l\<lparr>nl_first := first'\<rparr>) m in
             if tnode_local \<noteq> rv then Ok (Again (rv, m1)) else Ok (Done (Some rv, m1)))))"

definition tnode_pop :: "addr \<Rightarrow> 'a tr_mem_scheme \<Rightarrow> (u64 \<times> addr \<times> 'a tr_mem_scheme) res" where
  "tnode_pop nodelist m =
     c_assert (nodelist \<noteq> NULL)
       (deref (tr_lists m) nodelist (\<lambda>l.
        call (cloop (tnode_pop_body nodelist) (nl_first l, m)) (\<lambda>(r, m1).
          case r of
            None \<Rightarrow> Ok (0, NULL, m1)
          | Some tnode_local \<Rightarrow>
              deref (tr_lists m1) nodelist (\<lambda>l1.
              let m2 = set_nl nodelist (l1\<lparr>nl_counter := abstraction_sub (nl_counter l1)\<rparr>) m1 in
              deref (tr_nodes m2) tnode_local (\<lambda>n.
                Ok (1, tnode_local, set_tn tnode_local (n\<lparr>tn_brother := NULL\<rparr>) m2))))))"

text \<open>A node from \<open>aligned_malloc\<close>, cleared by \<open>memset\<close>.\<close>

definition alloc_tn :: "'a tr_mem_scheme \<Rightarrow> addr \<times> 'a tr_mem_scheme" where
  "alloc_tn m =
     (case aligned_malloc 24 LF_ALIGN_DOUBLE_POINTER m of (q, m') \<Rightarrow>
        if q = NULL then (NULL, m')
        else (q, set_tn q \<lparr>tn_first = NULL, tn_brother = NULL, tn_key = 0\<rparr> m'))"

fun trie_nodelist_new_elements_loop ::
  "addr \<Rightarrow> nat \<Rightarrow> u64 \<Rightarrow> 'a tr_mem_scheme \<Rightarrow> (u64 \<times> 'a tr_mem_scheme) res" where
  "trie_nodelist_new_elements_loop nodelist 0 count m = Ok (count, m)"
| "trie_nodelist_new_elements_loop nodelist (Suc n) count m =
     (case alloc_tn m of (tnode, m1) \<Rightarrow>
        if tnode \<noteq> NULL then
          call (tnode_push nodelist tnode m1) (\<lambda>m2. trie_nodelist_new_elements_loop nodelist n (count + 1) m2)
        else trie_nodelist_new_elements_loop nodelist n count m1)"

definition trie_nodelist_new_elements ::
  "addr \<Rightarrow> u64 \<Rightarrow> 'a tr_mem_scheme \<Rightarrow> (u64 \<times> 'a tr_mem_scheme) res" where
  "trie_nodelist_new_elements nodelist trie_node_num m =
     c_assert (nodelist \<noteq> NULL) (trie_nodelist_new_elements_loop nodelist (unat trie_node_num) 0 m)"

definition trie_nodelist_free_body ::
  "addr \<Rightarrow> 'a tr_mem_scheme \<Rightarrow> ('a tr_mem_scheme, 'a tr_mem_scheme) ctl res" where
  "trie_nodelist_free_body nodelist m =
     call (tnode_pop nodelist m) (\<lambda>(rv, tnode, m1).
       if rv \<noteq> 0 then call (free_tn tnode m1) (\<lambda>m2. Ok (Again m2)) else Ok (Done m1))"

definition trie_nodelist_free :: "addr \<Rightarrow> 'a tr_mem_scheme \<Rightarrow> 'a tr_mem_scheme res" where
  "trie_nodelist_free nodelist m =
     c_assert (nodelist \<noteq> NULL)
       (call (cloop (trie_nodelist_free_body nodelist) m) (\<lambda>m1. free_nl nodelist m1))"

section \<open>Creation and deletion\<close>

text \<open>
  \<open>trie_new_nodelist\<close>: returns \<open>(rv, *nodelist, m)\<close>. The head and the counter of the new list
  are not initialised. After a failure the list is freed twice.
\<close>

definition trie_new_nodelist :: "u64 \<Rightarrow> 'a tr_mem_scheme \<Rightarrow> (u64 \<times> addr \<times> 'a tr_mem_scheme) res" where
  "trie_new_nodelist trie_node_num m =
     (case aligned_malloc 16 LF_ALIGN_DOUBLE_POINTER m of (nodelist, m1) \<Rightarrow>
        if nodelist \<noteq> NULL then
          let m2 = set_nl nodelist \<lparr>nl_first = m_junk m nodelist, nl_counter = m_junk m (nodelist + 8)\<rparr> m1 in
          call (trie_nodelist_new_elements nodelist trie_node_num m2) (\<lambda>(element_count, m3).
            if element_count = trie_node_num then Ok (1, nodelist, m3)
            else
              call (trie_nodelist_free nodelist m3) (\<lambda>m4.
              call (free_nl nodelist m4) (\<lambda>m5. Ok (0, NULL, m5))))
        else Ok (0, NULL, m1))"

text \<open>\<open>trie_new_trie_entry\<close>: the root is cleared without a test for NULL.\<close>

definition trie_new_trie_entry :: "'a tr_mem_scheme \<Rightarrow> (u64 \<times> addr \<times> 'a tr_mem_scheme) res" where
  "trie_new_trie_entry m =
     (case aligned_malloc 16 LF_ALIGN_DOUBLE_POINTER m of (trie, m1) \<Rightarrow>
        if trie \<noteq> NULL then
          case alloc_tn m1 of (root, m2) \<Rightarrow>
            if root = NULL then Fault BadDeref
            else Ok (1, trie, set_tr trie \<lparr>tr_root = root, tr_counter = 0\<rparr> m2)
        else Ok (0, NULL, m1))"

definition trie_new :: "u64 \<Rightarrow> 'a tr_mem_scheme \<Rightarrow> (u64 \<times> addr \<times> 'a tr_mem_scheme) res" where
  "trie_new trie_node_num m =
     (case aligned_malloc 24 LF_ALIGN_DOUBLE_POINTER m of (trie, m1) \<Rightarrow>
        if trie = NULL then Fault BadDeref
        else
          let s = \<lparr>ts_list = m_junk m trie, ts_entry = m_junk m (trie + 8), ts_init_counter = trie_node_num\<rparr>;
              m2 = set_ts trie s m1 in
          call (trie_new_trie_entry m2) (\<lambda>(_, entry, m3).
          let s3 = s\<lparr>ts_entry := entry\<rparr>; m4 = set_ts trie s3 m3 in
          call (trie_new_nodelist trie_node_num m4) (\<lambda>(_, list, m5).
          let s5 = s3\<lparr>ts_list := list\<rparr>; m6 = set_ts trie s5 m5 in
          if \<not> (list \<noteq> NULL \<and> entry \<noteq> NULL) then
            call (if entry \<noteq> NULL then free_tr entry m6 else Ok m6) (\<lambda>m7.
            call (if list \<noteq> NULL then trie_nodelist_free list m7 else Ok m7) (\<lambda>m8.
            call (free_ts trie m8) (\<lambda>m9. Ok (0, trie, m9))))
          else Ok (1, trie, m6))))"

definition trie_use :: "addr \<Rightarrow> 'a tr_mem_scheme \<Rightarrow> 'a tr_mem_scheme res" where
  "trie_use ts m = c_assert (ts \<noteq> NULL) (Ok m)"

text \<open>\<open>trie_entry_free\<close> frees the entry only: the nodes of the trie stay allocated.\<close>

definition trie_entry_free :: "addr \<Rightarrow> 'a tr_mem_scheme \<Rightarrow> 'a tr_mem_scheme res" where
  "trie_entry_free trie m = c_assert (trie \<noteq> NULL) (free_tr trie m)"

definition trie_state_free :: "addr \<Rightarrow> 'a tr_mem_scheme \<Rightarrow> 'a tr_mem_scheme res" where
  "trie_state_free trie_state m =
     (if trie_state \<noteq> NULL then
        deref (tr_states m) trie_state (\<lambda>s.
        call (if ts_list s \<noteq> NULL then trie_nodelist_free (ts_list s) m else Ok m) (\<lambda>m1.
        call (if ts_entry s \<noteq> NULL then trie_entry_free (ts_entry s) m1 else Ok m1) (\<lambda>m2.
          free_ts trie_state m2)))
      else Ok m)"

section \<open>Children\<close>

definition search_subnode_body :: "'a tr_mem_scheme \<Rightarrow> u8 \<Rightarrow> addr \<Rightarrow> (addr, addr) ctl res" where
  "search_subnode_body m key tmp_node =
     (if tmp_node = NULL then Ok (Done NULL)
      else deref (tr_nodes m) tmp_node (\<lambda>n.
        if tn_key n > key then Ok (Done NULL)
        else if tn_key n < key then Ok (Again (tn_brother n))
        else Ok (Done tmp_node)))"

definition search_subnode_by_label :: "addr \<Rightarrow> u8 \<Rightarrow> 'a tr_mem_scheme \<Rightarrow> addr res" where
  "search_subnode_by_label parrent key m =
     c_assert (parrent \<noteq> NULL)
       (deref (tr_nodes m) parrent (\<lambda>n. cloop (search_subnode_body m key) (tn_first n)))"

text \<open>\<open>get_subnode_by_label\<close>: takes and returns \<open>(*prev, *prev_next)\<close>, beside the result.\<close>

definition get_subnode_body ::
  "'a tr_mem_scheme \<Rightarrow> u8 \<Rightarrow> addr \<times> addr \<Rightarrow> (addr \<times> addr, addr \<times> addr \<times> addr) ctl res" where
  "get_subnode_body m key = (\<lambda>(prev, prev_next).
     if prev_next = NULL then Ok (Done (NULL, prev, prev_next))
     else deref (tr_nodes m) prev_next (\<lambda>n.
       if tn_key n < key then Ok (Again (prev_next, tn_brother n))
       else if tn_key n > key then Ok (Done (NULL, prev, prev_next))
       else Ok (Done (prev_next, prev_next, tn_first n))))"

definition get_subnode_by_label ::
  "addr \<Rightarrow> addr \<Rightarrow> addr \<Rightarrow> u8 \<Rightarrow> 'a tr_mem_scheme \<Rightarrow> (addr \<times> addr \<times> addr) res" where
  "get_subnode_by_label parrent prev prev_next key m =
     c_assert (parrent \<noteq> NULL)
       (deref (tr_nodes m) parrent (\<lambda>p.
          let tmp_node = tn_first p in
          if tmp_node = NULL then Ok (NULL, parrent, tmp_node)
          else deref (tr_nodes m) tmp_node (\<lambda>n.
            if tn_key n > key then Ok (NULL, parrent, tmp_node)
            else if tn_key n < key then
              cloop (get_subnode_body m key)
                (if prev = parrent then (tmp_node, tn_brother n) else (prev, prev_next))
            else Ok (tmp_node, tmp_node, tn_first n))))"

section \<open>Search and insertion\<close>

text \<open>\<open>lf_trie_search_real_data\<close>: the loop returns the last \<open>node\<close> and the rest of the word.\<close>

fun trie_search_loop :: "addr \<Rightarrow> u8 list \<Rightarrow> 'a tr_mem_scheme \<Rightarrow> (addr \<times> u8 list) res" where
  "trie_search_loop node [] m = Ok (node, [])"
| "trie_search_loop node (c # cs) m =
     call (search_subnode_by_label node c m) (\<lambda>node'.
       if node' \<noteq> NULL then trie_search_loop node' cs m else Ok (NULL, c # cs))"

definition lf_trie_search_real_data :: "addr \<Rightarrow> u8 list \<Rightarrow> 'a tr_mem_scheme \<Rightarrow> u64 res" where
  "lf_trie_search_real_data trie_state in_str m =
     deref (tr_states m) trie_state (\<lambda>s.
     deref (tr_tries m) (ts_entry s) (\<lambda>t.
     call (trie_search_loop (tr_root t) in_str m) (\<lambda>(node, rest).
       if node = NULL \<or> rest \<noteq> [] then Ok TRIE_SEARCH_ERROR else Ok TRIE_SEARCH_SUCCESS)))"

text \<open>
  The first loop of \<open>lf_trie_insert_real_data\<close>: returns the last \<open>node\<close> and \<open>parrent\<close>,
  \<open>prev\<close>, \<open>prev_next\<close> and the rest of the word.
\<close>

fun trie_descend ::
  "addr \<Rightarrow> addr \<Rightarrow> addr \<Rightarrow> addr \<Rightarrow> u8 list \<Rightarrow> 'a tr_mem_scheme \<Rightarrow> (addr \<times> addr \<times> addr \<times> addr \<times> u8 list) res" where
  "trie_descend node parrent prev prev_next [] m = Ok (node, parrent, prev, prev_next, [])"
| "trie_descend node parrent prev prev_next (c # cs) m =
     call (get_subnode_by_label node prev prev_next c m) (\<lambda>(node', prev', prev_next').
       if node' \<noteq> NULL then trie_descend node' node prev' prev_next' cs m
       else Ok (NULL, node, prev', prev_next', c # cs))"

text \<open>\<open>lf_trie_insert_node\<close>: returns the node, \<open>*prev\<close>, \<open>*prev_next\<close> and the memory.\<close>

definition trie_insert_node_body ::
  "addr \<Rightarrow> addr \<Rightarrow> addr \<Rightarrow> u8 \<Rightarrow> addr \<times> addr \<times> 'a tr_mem_scheme \<Rightarrow>
     (addr \<times> addr \<times> 'a tr_mem_scheme, addr \<times> addr \<times> addr \<times> 'a tr_mem_scheme) ctl res" where
  "trie_insert_node_body trie_state tnode parrent key = (\<lambda>(prev, prev_next, m).
     call (get_subnode_by_label parrent prev prev_next key m) (\<lambda>(rv_node, prev1, prev_next1).
       if rv_node \<noteq> NULL then
         deref (tr_nodes m) tnode (\<lambda>n.
         deref (tr_states m) trie_state (\<lambda>s.
         call (tnode_push (ts_list s) tnode (set_tn tnode (n\<lparr>tn_brother := NULL\<rparr>) m)) (\<lambda>m1.
           Ok (Done (rv_node, prev1, prev_next1, m1)))))
       else
         deref (tr_nodes m) tnode (\<lambda>n.
         let m1 = set_tn tnode (n\<lparr>tn_brother := prev_next1\<rparr>) m in
         deref (tr_nodes m1) prev1 (\<lambda>p.
         case (if prev1 = parrent
               then (case abstraction_cas (tn_first p) tnode prev_next1 of (rv, x) \<Rightarrow>
                       (rv, set_tn prev1 (p\<lparr>tn_first := x\<rparr>) m1))
               else (case abstraction_cas (tn_brother p) tnode prev_next1 of (rv, x) \<Rightarrow>
                       (rv, set_tn prev1 (p\<lparr>tn_brother := x\<rparr>) m1))) of (rv, m2) \<Rightarrow>
         if prev_next1 = rv then
           deref (tr_nodes m2) tnode (\<lambda>n2.
           deref (tr_states m2) trie_state (\<lambda>s.
           deref (tr_tries m2) (ts_entry s) (\<lambda>t.
             Ok (Done (tnode, tnode, tn_first n2,
               set_tr (ts_entry s) (t\<lparr>tr_counter := abstraction_increment (tr_counter t)\<rparr>) m2)))))
         else Ok (Again (prev1, rv, m2))))))"

definition lf_trie_insert_node ::
  "addr \<Rightarrow> addr \<Rightarrow> addr \<Rightarrow> addr \<Rightarrow> u8 \<Rightarrow> 'a tr_mem_scheme \<Rightarrow> (addr \<times> addr \<times> addr \<times> 'a tr_mem_scheme) res" where
  "lf_trie_insert_node trie_state parrent prev prev_next key m =
     deref (tr_states m) trie_state (\<lambda>s.
     call (tnode_pop (ts_list s) m) (\<lambda>(rv, tnode, m1).
       if rv = 0 then Ok (NULL, prev, prev_next, m1)
       else
         deref (tr_nodes m1) tnode (\<lambda>n.
           cloop (trie_insert_node_body trie_state tnode parrent key)
             (prev, prev_next, set_tn tnode (n\<lparr>tn_key := key\<rparr>) m1))))"

fun trie_insert_rest ::
  "addr \<Rightarrow> addr \<Rightarrow> addr \<Rightarrow> addr \<Rightarrow> u8 list \<Rightarrow> 'a tr_mem_scheme \<Rightarrow> (u64 \<times> 'a tr_mem_scheme) res" where
  "trie_insert_rest trie_state node prev prev_next [] m = Ok (TRIE_INSERT_SUCCESS, m)"
| "trie_insert_rest trie_state node prev prev_next (c # cs) m =
     call (lf_trie_insert_node trie_state node prev prev_next c m) (\<lambda>(node', prev', prev_next', m1).
       if node' = NULL then Ok (TRIE_INSERT_ERROR, m1)
       else trie_insert_rest trie_state node' prev' prev_next' cs m1)"

definition lf_trie_insert_real_data :: "addr \<Rightarrow> u8 list \<Rightarrow> 'a tr_mem_scheme \<Rightarrow> (u64 \<times> 'a tr_mem_scheme) res" where
  "lf_trie_insert_real_data trie_state in_str m =
     deref (tr_states m) trie_state (\<lambda>s.
     deref (tr_tries m) (ts_entry s) (\<lambda>t.
     let node = tr_root t in
     call (trie_descend node NULL node NULL in_str m) (\<lambda>(node', parrent, prev, prev_next, rest).
       if node' = NULL \<or> rest \<noteq> [] then trie_insert_rest trie_state parrent prev prev_next rest m
       else c_assert (node' \<noteq> NULL) (Ok (TRIE_INSERT_DUPLICATION, m)))))"

section \<open>Shape of a trie\<close>

text \<open>
  The children of every node as a list of addresses, and the key of every node. \<open>kid\<close> is the
  child with a given key, \<open>walk\<close> the node a word leads to.
\<close>

definition kid :: "(addr \<Rightarrow> addr list) \<Rightarrow> (addr \<Rightarrow> u8) \<Rightarrow> addr \<Rightarrow> u8 \<Rightarrow> addr option" where
  "kid ch ky p c =
     (case dropWhile (\<lambda>x. ky x < c) (ch p) of [] \<Rightarrow> None | x # _ \<Rightarrow> if ky x = c then Some x else None)"

fun walk :: "(addr \<Rightarrow> addr list) \<Rightarrow> (addr \<Rightarrow> u8) \<Rightarrow> addr \<Rightarrow> u8 list \<Rightarrow> addr option" where
  "walk ch ky p [] = Some p"
| "walk ch ky p (c # cs) = (case kid ch ky p c of None \<Rightarrow> None | Some q \<Rightarrow> walk ch ky q cs)"

definition trie_shape :: "addr \<Rightarrow> addr set \<Rightarrow> (addr \<Rightarrow> addr list) \<Rightarrow> (addr \<Rightarrow> u8) \<Rightarrow> bool" where
  "trie_shape root N ch ky \<longleftrightarrow>
     root \<in> N \<and> NULL \<notin> N \<and>
     (\<forall>p\<in>N. set (ch p) \<subseteq> N - {root} \<and> sorted_wrt (\<lambda>x y. ky x < ky y) (ch p)) \<and>
     (\<forall>p\<in>N. \<forall>q\<in>N. p \<noteq> q \<longrightarrow> set (ch p) \<inter> set (ch q) = {})"

lemma walk_snoc:
  "walk ch ky p (u @ [c]) = (case walk ch ky p u of None \<Rightarrow> None | Some q \<Rightarrow> kid ch ky q c)"
  by (induction u arbitrary: p) (auto split: option.splits)

lemma kid_Some: "kid ch ky p c = Some x \<Longrightarrow> x \<in> set (ch p) \<and> ky x = c"
  unfolding kid_def by (auto split: list.splits if_splits dest!: arg_cong [where f = set] dest: set_dropWhileD)

lemma walk_in:
  assumes "trie_shape root N ch ky" and "walk ch ky root u = Some p"
  shows "p \<in> N"
  using assms(2)
proof (induction u arbitrary: p rule: rev_induct)
  case Nil
  then show ?case using assms(1) by (simp add: trie_shape_def)
next
  case (snoc c u)
  then obtain q where "walk ch ky root u = Some q" and k: "kid ch ky q c = Some p"
    by (auto simp: walk_snoc split: option.splits)
  with snoc.IH have "q \<in> N" by blast
  with kid_Some [OF k] assms(1) show ?case by (auto simp: trie_shape_def)
qed

lemma walk_inj:
  assumes sh: "trie_shape root N ch ky"
  shows "walk ch ky root u = Some p \<Longrightarrow> walk ch ky root v = Some p \<Longrightarrow> u = v"
proof (induction u arbitrary: v p rule: rev_induct)
  case Nil
  show ?case
  proof (cases v rule: rev_cases)
    case (snoc w c)
    with Nil.prems(2) obtain q where q: "walk ch ky root w = Some q" and k: "kid ch ky q c = Some p"
      by (auto simp: walk_snoc split: option.splits)
    then have "q \<in> N" by (meson sh walk_in)
    with kid_Some [OF k] sh Nil.prems(1) show ?thesis by (auto simp: trie_shape_def)
  qed simp
next
  case (snoc c u)
  then obtain q where q: "walk ch ky root u = Some q" and k: "kid ch ky q c = Some p"
    by (auto simp: walk_snoc split: option.splits)
  have qN: "q \<in> N" by (rule walk_in [OF sh q])
  show ?case
  proof (cases v rule: rev_cases)
    case Nil
    with snoc.prems(2) have "p = root" by simp
    with kid_Some [OF k] sh qN show ?thesis by (auto simp: trie_shape_def)
  next
    case (snoc w d)
    with snoc.prems(2) obtain r where r: "walk ch ky root w = Some r" and k': "kid ch ky r d = Some p"
      by (auto simp: walk_snoc split: option.splits)
    have "r \<in> N" by (rule walk_in [OF sh r])
    then have "q = r" using kid_Some [OF k] kid_Some [OF k'] sh qN unfolding trie_shape_def by blast
    with snoc.IH [OF q] r have "u = w" by simp
    with kid_Some [OF k] kid_Some [OF k'] snoc show ?thesis by simp
  qed
qed

lemma walk_not_own_kid:
  assumes sh: "trie_shape root N ch ky" and w: "walk ch ky root u = Some p"
  shows "p \<notin> set (ch p)"
proof
  assume p: "p \<in> set (ch p)"
  have pN: "p \<in> N" by (rule walk_in [OF sh w])
  with sh have so: "sorted_wrt (\<lambda>x y. ky x < ky y) (ch p)" by (simp add: trie_shape_def)
  obtain us vs where ch: "ch p = us @ p # vs" using p by (auto simp: in_set_conv_decomp)
  with so have "\<forall>x\<in>set us. ky x < ky p" by (auto simp: sorted_wrt_append)
  then have "kid ch ky p (ky p) = Some p" by (simp add: kid_def ch)
  with w have "walk ch ky root (u @ [ky p]) = Some p" by (simp add: walk_snoc)
  from walk_inj [OF sh w this] show False by simp
qed

section \<open>A new leaf\<close>

definition lo :: "(addr \<Rightarrow> u8) \<Rightarrow> addr list \<Rightarrow> u8 \<Rightarrow> addr list" where
  "lo ky xs c = takeWhile (\<lambda>x. ky x < c) xs"

definition hi :: "(addr \<Rightarrow> u8) \<Rightarrow> addr list \<Rightarrow> u8 \<Rightarrow> addr list" where
  "hi ky xs c = dropWhile (\<lambda>x. ky x < c) xs"

definition add_leaf :: "addr \<Rightarrow> addr \<Rightarrow> u8 \<Rightarrow> (addr \<Rightarrow> u8) \<Rightarrow> (addr \<Rightarrow> addr list) \<Rightarrow> addr \<Rightarrow> addr list" where
  "add_leaf p t c ky ch = ch(p := lo ky (ch p) c @ t # hi ky (ch p) c, t := [])"

lemma lo_hi [simp]: "lo ky xs c @ hi ky xs c = xs"
  by (simp add: lo_def hi_def)

lemma lo_less: "x \<in> set (lo ky xs c) \<Longrightarrow> ky x < c"
  by (auto simp: lo_def dest: set_takeWhileD)

lemma hi_greater:
  assumes "sorted_wrt (\<lambda>x y. ky x < ky y) xs" and "kid ch ky p c = None" and "ch p = xs"
    and "x \<in> set (hi ky xs c)"
  shows "c < ky x"
proof (cases "hi ky xs c")
  case (Cons y ys)
  have y: "\<not> ky y < c" using Cons by (metis hi_def dropWhile_eq_Cons_conv)
  moreover have "ky y \<noteq> c" using assms(2,3) Cons by (auto simp: kid_def hi_def split: if_splits)
  ultimately have "c < ky y" by simp
  moreover have "sorted_wrt (\<lambda>x y. ky x < ky y) (lo ky xs c @ y # ys)" using assms(1) Cons by (metis lo_hi)
  then have "\<forall>z\<in>set ys. ky y < ky z" by (simp add: sorted_wrt_append)
  ultimately show ?thesis using assms(4) Cons by auto
qed (use assms(4) in simp)

lemma kid_iff:
  assumes "sorted_wrt (\<lambda>x y. ky x < ky y) (ch p)"
  shows "kid ch ky p c = Some x \<longleftrightarrow> x \<in> set (ch p) \<and> ky x = c"
proof
  assume x: "x \<in> set (ch p) \<and> ky x = c"
  then obtain us vs where ch: "ch p = us @ x # vs" by (auto simp: in_set_conv_decomp)
  with assms x have "\<forall>y\<in>set us. ky y < c" by (auto simp: sorted_wrt_append)
  with x ch show "kid ch ky p c = Some x" by (simp add: kid_def)
qed (rule kid_Some)

lemma new_kids_sorted:
  assumes so: "sorted_wrt (\<lambda>x y. ky x < ky y) (ch p)" and no: "kid ch ky p c = None"
    and t: "ky' t = c" and eq: "\<forall>x\<in>set (ch p). ky' x = ky x"
  shows "sorted_wrt (\<lambda>x y. ky' x < ky' y) (lo ky (ch p) c @ t # hi ky (ch p) c)"
proof -
  have e: "ch p = lo ky (ch p) c @ hi ky (ch p) c" by simp
  have so': "sorted_wrt (\<lambda>x y. ky' x < ky' y) (ch p)"
    by (rule sorted_wrt_mono_rel [OF _ so]) (use eq in auto)
  have sub: "set (lo ky (ch p) c) \<subseteq> set (ch p)" "set (hi ky (ch p) c) \<subseteq> set (ch p)"
    by (metis lo_hi set_append Un_upper1, metis lo_hi set_append Un_upper2)
  have l: "\<forall>x\<in>set (lo ky (ch p) c). ky' x < c" using lo_less sub(1) eq by fastforce
  have h: "\<forall>x\<in>set (hi ky (ch p) c). c < ky' x" using hi_greater [OF so no] sub(2) eq by fastforce
  from so' e have "sorted_wrt (\<lambda>x y. ky' x < ky' y) (lo ky (ch p) c @ hi ky (ch p) c)" by simp
  then have "sorted_wrt (\<lambda>x y. ky' x < ky' y) (lo ky (ch p) c)" "sorted_wrt (\<lambda>x y. ky' x < ky' y) (hi ky (ch p) c)"
    unfolding sorted_wrt_append by simp_all
  then show ?thesis using l h t by (fastforce simp: sorted_wrt_append)
qed

lemma set_new_kids: "set (lo ky xs c @ t # hi ky xs c) = insert t (set xs)"
  by (metis (no_types, lifting) Un_insert_right list.simps(15) lo_hi set_append)

lemma kid_new:
  assumes so: "sorted_wrt (\<lambda>x y. ky x < ky y) (ch p)" and no: "kid ch ky p c = None"
    and t: "ky' t = c" and eq: "\<forall>x\<in>set (ch p). ky' x = ky x"
    and ch': "ch' p = lo ky (ch p) c @ t # hi ky (ch p) c"
  shows "kid ch' ky' p d = (if d = c then Some t else kid ch ky p d)"
proof -
  have so': "sorted_wrt (\<lambda>x y. ky' x < ky' y) (ch' p)"
    unfolding ch' by (rule new_kids_sorted [OF so no t eq])
  have none: "\<forall>x\<in>set (ch p). ky x \<noteq> c"
    using no kid_iff [of ky ch p c, OF so] by (metis option.distinct(1))
  have "kid ch' ky' p d = Some x \<longleftrightarrow> (if d = c then Some t else kid ch ky p d) = Some x" for x
    unfolding kid_iff [of ky' ch' p d x, OF so'] using kid_iff [of ky ch p d x, OF so] none t eq
    by (auto simp: ch' set_new_kids simp del: set_append)
  then show ?thesis by (metis option.exhaust)
qed

lemma kid_cong:
  assumes "ch' p = ch p" and "\<forall>x\<in>set (ch p). ky' x = ky x"
  shows "kid ch' ky' p d = kid ch ky p d"
proof -
  have "dropWhile (\<lambda>x. ky' x < d) (ch p) = dropWhile (\<lambda>x. ky x < d) (ch p)"
    using assms(2) by (intro dropWhile_cong) auto
  moreover have "x \<in> set (ch p)" if "dropWhile (\<lambda>x. ky x < d) (ch p) = x # xs" for x xs
    using that by (metis list.set_intros(1) set_dropWhileD)
  ultimately show ?thesis using assms by (auto simp: kid_def split: list.split simp del: dropWhile_eq_Nil_conv)
qed

lemma add_leaf_shape:
  assumes sh: "trie_shape root N ch ky" and p: "p \<in> N" and no: "kid ch ky p c = None"
    and t: "t \<notin> N" "t \<noteq> NULL" "ky' t = c" and eq: "\<forall>x\<in>N. ky' x = ky x"
  shows "trie_shape root (insert t N) (add_leaf p t c ky ch) ky'"
proof -
  let ?ch = "add_leaf p t c ky ch"
  have pt: "p \<noteq> t" using p t by blast
  have setp: "set (?ch p) = insert t (set (ch p))" using pt by (simp add: add_leaf_def set_new_kids del: set_append)
  have oth: "q \<noteq> p \<Longrightarrow> q \<noteq> t \<Longrightarrow> ?ch q = ch q" "?ch t = []" for q by (simp_all add: add_leaf_def)
  have sub: "set (ch q) \<subseteq> N - {root}" if "q \<in> N" for q using sh that by (simp add: trie_shape_def)
  have so: "sorted_wrt (\<lambda>x y. ky x < ky y) (ch q)" if "q \<in> N" for q using sh that by (simp add: trie_shape_def)
  have eq': "\<forall>x\<in>set (ch q). ky' x = ky x" if "q \<in> N" for q using eq sub [OF that] by blast
  have so': "sorted_wrt (\<lambda>x y. ky' x < ky' y) (ch q)" if "q \<in> N" for q
    by (rule sorted_wrt_mono_rel [OF _ so [OF that]]) (use eq' [OF that] in auto)
  have "sorted_wrt (\<lambda>x y. ky' x < ky' y) (?ch q)" if "q \<in> insert t N" for q
    using that pt so' oth new_kids_sorted [OF so [OF p] no t(3) eq' [OF p]]
    by (cases "q = p"; cases "q = t") (auto simp: add_leaf_def)
  moreover have "set (?ch q) \<subseteq> insert t N - {root}" if "q \<in> insert t N" for q
    using that setp sub oth sub [OF p] t(1) sh by (cases "q = p"; cases "q = t") (auto simp: trie_shape_def)
  moreover have "set (?ch q) \<inter> set (?ch r) = {}" if "q \<in> insert t N" "r \<in> insert t N" "q \<noteq> r" for q r
  proof -
    have dj: "set (ch q) \<inter> set (ch r) = {}" if "q \<in> N" "r \<in> N" using sh that \<open>q \<noteq> r\<close> by (simp add: trie_shape_def)
    have no_t: "t \<notin> set (ch x)" if "x \<in> N" for x using sub [OF that] t(1) by blast
    show ?thesis using that dj setp oth no_t by (cases "q = t"; cases "r = t"; cases "q = p"; cases "r = p") auto
  qed
  ultimately show ?thesis using sh t by (simp add: trie_shape_def)
qed

lemma add_leaf_walk:
  assumes sh: "trie_shape root N ch ky" and w: "walk ch ky root u = Some p" and no: "kid ch ky p c = None"
    and t: "t \<notin> N" "ky' t = c" and eq: "\<forall>x\<in>N. ky' x = ky x"
  shows "walk (add_leaf p t c ky ch) ky' root v = (if v = u @ [c] then Some t else walk ch ky root v)"
proof (induction v rule: rev_induct)
  case (snoc d v)
  let ?ch = "add_leaf p t c ky ch"
  have p: "p \<in> N" by (rule walk_in [OF sh w])
  then have pt: "p \<noteq> t" using t by blast
  have eq': "\<forall>x\<in>set (ch q). ky' x = ky x" if "q \<in> N" for q using eq sh that by (auto simp: trie_shape_def)
  have so: "sorted_wrt (\<lambda>x y. ky x < ky y) (ch p)" using sh p by (simp add: trie_shape_def)
  have kp: "kid ?ch ky' p d = (if d = c then Some t else kid ch ky p d)" for d
    by (rule kid_new [OF so no t(2) eq' [OF p]]) (use pt in \<open>simp add: add_leaf_def\<close>)
  have kq: "kid ?ch ky' q d = kid ch ky q d" if "q \<in> N" "q \<noteq> p" for q d
    by (rule kid_cong) (use that t eq' [of q] in \<open>auto simp: add_leaf_def\<close>)
  have kt: "kid ?ch ky' t d = None" for d by (simp add: kid_def add_leaf_def)
  show ?case
  proof (cases "walk ch ky root v")
    case None
    then have "v \<noteq> u" using w by auto
    with None kt show ?thesis by (simp add: walk_snoc snoc.IH)
  next
    case (Some q)
    have q: "q \<in> N" by (rule walk_in [OF sh Some])
    have vu: "q = p \<longleftrightarrow> v = u" using walk_inj [OF sh w, of v] Some w by auto
    have vc: "v \<noteq> u @ [c]" using Some w no by (auto simp: walk_snoc)
    then have iv: "walk ?ch ky' root v = Some q" using Some by (simp add: snoc.IH)
    have "walk ?ch ky' root (v @ [d]) = kid ?ch ky' q d" and "walk ch ky root (v @ [d]) = kid ch ky q d"
      by (simp_all add: walk_snoc iv Some)
    then show ?thesis using kp [of d] kq [OF q, of d] vu by (cases "q = p") auto
  qed
qed simp

section \<open>Tries in memory\<close>

type_synonym node_heap = "addr \<Rightarrow> trie_node option"

definition keyat :: "node_heap \<Rightarrow> addr \<Rightarrow> u8" where
  "keyat h p = (case h p of None \<Rightarrow> 0 | Some n \<Rightarrow> tn_key n)"

definition blink :: "node_heap \<Rightarrow> addr \<Rightarrow> addr option" where
  "blink h p = map_option tn_brother (h p)"

definition head :: "addr list \<Rightarrow> addr" where
  "head xs = (case xs of [] \<Rightarrow> NULL | x # _ \<Rightarrow> x)"

definition trie_rep :: "node_heap \<Rightarrow> addr \<Rightarrow> addr set \<Rightarrow> (addr \<Rightarrow> addr list) \<Rightarrow> bool" where
  "trie_rep h root N ch \<longleftrightarrow> trie_shape root N ch (keyat h) \<and>
     (\<forall>p\<in>N. \<exists>n. h p = Some n \<and> chain (blink h) (tn_first n) (ch p))"

lemma head_simps [simp]: "head [] = NULL" "head (x # xs) = x"
  by (simp_all add: head_def)

lemma keyat_Some: "h p = Some n \<Longrightarrow> keyat h p = tn_key n"
  by (simp add: keyat_def)

lemma chain_head: "chain h p xs \<Longrightarrow> p = head xs"
  by (cases xs) auto

lemma blink_Some: "blink h x = Some q \<longleftrightarrow> (\<exists>n. h x = Some n \<and> tn_brother n = q)"
  by (auto simp: blink_def)

lemma blink_chain_Cons:
  "chain (blink h) p (x # xs) \<longleftrightarrow>
     p = x \<and> x \<noteq> NULL \<and> (\<exists>n. h x = Some n \<and> chain (blink h) (tn_brother n) xs)"
  by (auto simp: blink_def split: option.splits)

lemma trie_rep_node:
  assumes "trie_rep h root N ch" and "p \<in> N"
  obtains n where "h p = Some n" "chain (blink h) (tn_first n) (ch p)" "p \<noteq> NULL" "set (ch p) \<subseteq> N"
    "tn_first n = head (ch p)" "sorted_wrt (\<lambda>x y. keyat h x < keyat h y) (ch p)"
proof -
  from assms obtain n where n: "h p = Some n" "chain (blink h) (tn_first n) (ch p)"
    by (auto simp: trie_rep_def)
  moreover have "p \<noteq> NULL" "set (ch p) \<subseteq> N" "sorted_wrt (\<lambda>x y. keyat h x < keyat h y) (ch p)"
    using assms by (auto simp: trie_rep_def trie_shape_def)
  moreover have "tn_first n = head (ch p)" by (rule chain_head [OF n(2)])
  ultimately show ?thesis using that by blast
qed

lemma trie_rep_frame:
  assumes "trie_rep h root N ch" and "\<And>p. p \<in> N \<Longrightarrow> h' p = h p"
  shows "trie_rep h' root N ch"
proof -
  have k: "keyat h' p = keyat h p" if "p \<in> N" for p using assms(2) that by (simp add: keyat_def)
  have sub: "set (ch p) \<subseteq> N" if "p \<in> N" for p using assms(1) that by (auto simp: trie_rep_def trie_shape_def)
  have "sorted_wrt (\<lambda>x y. keyat h' x < keyat h' y) (ch p)" if "p \<in> N" for p
    by (rule sorted_wrt_mono_rel [of _ "\<lambda>x y. keyat h x < keyat h y"])
      (use assms(1) sub that k in \<open>auto simp: trie_rep_def trie_shape_def subset_iff\<close>)
  moreover have "chain (blink h') q (ch p) = chain (blink h) q (ch p)" if "p \<in> N" for p q
    by (rule chain_cong) (use sub [OF that] assms(2) in \<open>auto simp: blink_def subset_iff\<close>)
  ultimately show ?thesis using assms by (simp add: trie_rep_def trie_shape_def)
qed

lemma search_subnode_loop:
  "chain (blink (tr_nodes m)) p xs \<Longrightarrow>
   cloop (search_subnode_body m c) p =
     Ok (case dropWhile (\<lambda>x. keyat (tr_nodes m) x < c) xs of [] \<Rightarrow> NULL
         | x # _ \<Rightarrow> if keyat (tr_nodes m) x = c then x else NULL)"
proof (induction xs arbitrary: p)
  case Nil
  then show ?case by (intro cloop_Done) (simp add: search_subnode_body_def)
next
  case (Cons x xs)
  then obtain n where n: "p = x" "x \<noteq> NULL" "tr_nodes m x = Some n" "chain (blink (tr_nodes m)) (tn_brother n) xs"
    unfolding blink_chain_Cons by auto
  consider "tn_key n < c" | "tn_key n = c" | "tn_key n > c" by fastforce
  then show ?case
  proof cases
    case 1
    then have "search_subnode_body m c x = Ok (Again (tn_brother n))"
      using n by (auto simp: search_subnode_body_def)
    with 1 n Cons.IH [OF n(4)] show ?thesis by (simp add: cloop_Again keyat_Some)
  qed (use n in \<open>auto simp: search_subnode_body_def keyat_Some intro!: cloop_Done\<close>)
qed

lemma search_subnode_kid:
  assumes "trie_rep (tr_nodes m) root N ch" and "p \<in> N"
  shows "search_subnode_by_label p c m =
    Ok (case kid ch (keyat (tr_nodes m)) p c of None \<Rightarrow> NULL | Some x \<Rightarrow> x)"
proof -
  obtain n where "tr_nodes m p = Some n" "chain (blink (tr_nodes m)) (tn_first n) (ch p)" "p \<noteq> NULL"
    using trie_rep_node [OF assms] by metis
  then show ?thesis
    by (simp add: search_subnode_by_label_def search_subnode_loop kid_def del: dropWhile_eq_Nil_conv split: list.split)
qed

lemma trie_search_loop_walk:
  assumes "trie_rep (tr_nodes m) root N ch"
  shows "p \<in> N \<Longrightarrow> \<exists>node rest. trie_search_loop p w m = Ok (node, rest) \<and>
    (node = NULL \<or> rest \<noteq> [] \<longleftrightarrow> walk ch (keyat (tr_nodes m)) p w = None)"
proof (induction w arbitrary: p)
  case Nil
  then show ?case using assms by (auto simp: trie_rep_def trie_shape_def)
next
  case (Cons c w)
  note s = search_subnode_kid [OF assms Cons.prems, of c]
  show ?case
  proof (cases "kid ch (keyat (tr_nodes m)) p c")
    case None
    with s show ?thesis by simp
  next
    case (Some q)
    then have "q \<in> N" using kid_Some [OF Some] assms Cons.prems by (auto simp: trie_rep_def trie_shape_def)
    moreover from this have "q \<noteq> NULL" using assms by (auto simp: trie_rep_def trie_shape_def)
    ultimately show ?thesis using Cons.IH [of q] s Some by simp
  qed
qed

section \<open>The place of a new node\<close>

lemma get_subnode_loop:
  "chain (blink (tr_nodes m)) (head vs) vs \<Longrightarrow>
   cloop (get_subnode_body m c) (pr, head vs) =
     Ok (case hi (keyat (tr_nodes m)) vs c of
           [] \<Rightarrow> (NULL, last (pr # lo (keyat (tr_nodes m)) vs c), NULL)
         | x # _ \<Rightarrow> if keyat (tr_nodes m) x = c then (x, x, tn_first (the (tr_nodes m x)))
                   else (NULL, last (pr # lo (keyat (tr_nodes m)) vs c), x))"
proof (induction vs arbitrary: pr)
  case Nil
  then show ?case by (intro cloop_Done) (simp add: get_subnode_body_def hi_def lo_def)
next
  case (Cons x xs)
  then obtain n where n: "x \<noteq> NULL" "tr_nodes m x = Some n" "chain (blink (tr_nodes m)) (tn_brother n) xs"
    unfolding blink_chain_Cons by auto
  consider "tn_key n < c" | "tn_key n = c" | "tn_key n > c" by fastforce
  then show ?case
  proof cases
    case 1
    have b: "tn_brother n = head xs" by (rule chain_head [OF n(3)])
    then have "get_subnode_body m c (pr, x) = Ok (Again (x, head xs))"
      using n 1 by (auto simp: get_subnode_body_def)
    moreover have "lo (keyat (tr_nodes m)) (x # xs) c = x # lo (keyat (tr_nodes m)) xs c"
      and "hi (keyat (tr_nodes m)) (x # xs) c = hi (keyat (tr_nodes m)) xs c"
      using 1 n by (simp_all add: keyat_Some hi_def lo_def)
    ultimately show ?thesis using n Cons.IH [of x] b by (simp add: cloop_Again split: list.split)
  qed (use n in \<open>auto simp: get_subnode_body_def keyat_Some hi_def lo_def intro!: cloop_Done\<close>)
qed

definition place_ok :: "(addr \<Rightarrow> addr list) \<Rightarrow> (addr \<Rightarrow> u8) \<Rightarrow> addr \<Rightarrow> u8 \<Rightarrow> addr \<Rightarrow> addr \<Rightarrow> bool" where
  "place_ok ch ky p c prev prev_next \<longleftrightarrow> prev = p \<or>
     (\<exists>us vs. ch p = us @ vs \<and> us \<noteq> [] \<and> prev = last us \<and> prev_next = head vs \<and> (\<forall>x\<in>set us. ky x < c))"

lemma lo_hi_append:
  assumes "\<forall>x\<in>set us. ky x < c"
  shows "lo ky (us @ vs) c = us @ lo ky vs c" "hi ky (us @ vs) c = hi ky vs c"
  using assms by (simp_all add: lo_def hi_def)

lemma get_subnode_kid:
  assumes rep: "trie_rep (tr_nodes m) root N ch" and p: "p \<in> N" "p \<notin> set (ch p)"
    and pl: "place_ok ch (keyat (tr_nodes m)) p c prev prev_next"
  shows "get_subnode_by_label p prev prev_next c m =
    Ok (case kid ch (keyat (tr_nodes m)) p c of
          None \<Rightarrow> (NULL, last (p # lo (keyat (tr_nodes m)) (ch p) c), head (hi (keyat (tr_nodes m)) (ch p) c))
        | Some x \<Rightarrow> (x, x, tn_first (the (tr_nodes m x))))"
proof -
  let ?k = "keyat (tr_nodes m)"
  obtain n where n: "tr_nodes m p = Some n" and cn: "chain (blink (tr_nodes m)) (tn_first n) (ch p)" and p0: "p \<noteq> NULL"
    and first: "tn_first n = head (ch p)"
    using trie_rep_node [OF rep p(1)] by metis
  show ?thesis
  proof (cases "ch p")
    case Nil
    then show ?thesis using n first p0 by (simp add: get_subnode_by_label_def kid_def lo_def hi_def)
  next
    case (Cons y ys)
    then obtain ny where ny: "tr_nodes m y = Some ny" "y \<noteq> NULL" and cy: "chain (blink (tr_nodes m)) (tn_brother ny) ys"
      using cn unfolding Cons blink_chain_Cons by auto
    consider "tn_key ny < c" | "tn_key ny = c" | "tn_key ny > c" by fastforce
    then show ?thesis
    proof cases
      case 1
      have "\<exists>us vs. ch p = us @ vs \<and> us \<noteq> [] \<and> (\<forall>x\<in>set us. ?k x < c) \<and>
        (if prev = p then (y, tn_brother ny) else (prev, prev_next)) = (last us, head vs)"
        (is "\<exists>us vs. ?P us vs")
      proof (cases "prev = p")
        case True
        then show ?thesis using Cons ny 1 chain_head [OF cy]
          by (intro exI [of _ "[y]"] exI [of _ ys]) (simp add: keyat_Some)
      next
        case False
        then show ?thesis using pl by (auto simp: place_ok_def)
      qed
      then obtain us vs where uv: "?P us vs" by blast
      then have cv: "chain (blink (tr_nodes m)) (head vs) vs"
        using cn by (auto simp: chain_append dest: chain_head)
      have eq: "get_subnode_by_label p prev prev_next c m = cloop (get_subnode_body m c) (last us, head vs)"
        using n first p0 Cons ny 1 uv by (auto simp: get_subnode_by_label_def)
      have ch: "ch p = us @ vs" and us: "us \<noteq> []" "\<forall>x\<in>set us. ?k x < c" using uv by auto
      have "last (p # lo ?k (ch p) c) = last (last us # lo ?k vs c)"
        using us by (simp add: ch lo_hi_append)
      then show ?thesis unfolding eq get_subnode_loop [OF cv]
        unfolding kid_def hi_def [symmetric] using us by (auto simp: ch lo_hi_append split: list.split)
    qed (use n first p0 Cons ny in \<open>auto simp: get_subnode_by_label_def keyat_Some kid_def lo_def hi_def\<close>)
  qed
qed

section \<open>Linking a new node\<close>

text \<open>The heap after \<open>lf_trie_insert_node\<close> has linked \<open>t\<close> under \<open>p\<close>.\<close>

definition link_leaf :: "addr \<Rightarrow> addr \<Rightarrow> u8 \<Rightarrow> addr list \<Rightarrow> node_heap \<Rightarrow> node_heap" where
  "link_leaf p t c xs h =
     (let l = lo (keyat h) xs c; v = last (p # l);
          h1 = h(t \<mapsto> \<lparr>tn_first = NULL, tn_brother = head (hi (keyat h) xs c), tn_key = c\<rparr>)
      in h1(v := map_option (\<lambda>n. if l = [] then n\<lparr>tn_first := t\<rparr> else n\<lparr>tn_brother := t\<rparr>) (h1 v)))"

lemma link_leaf_frame:
  assumes "set xs \<subseteq> N" and "p \<in> N" and "q \<notin> N" "q \<noteq> t"
  shows "link_leaf p t c xs h q = h q"
proof -
  have "last (p # lo (keyat h) xs c) \<in> N"
    using assms(1,2) by (auto simp: lo_def dest!: last_in_set set_takeWhileD)
  then show ?thesis using assms(3,4) by (auto simp: link_leaf_def Let_def)
qed

lemma link_leaf_keyat:
  assumes "t \<notin> N" and "set xs \<subseteq> N" and "p \<in> N"
  shows "keyat (link_leaf p t c xs h) q = (if q = t then c else keyat h q)"
proof -
  have "last (p # lo (keyat h) xs c) \<noteq> t"
    using assms by (auto simp: lo_def dest!: last_in_set set_takeWhileD)
  then show ?thesis by (auto simp: link_leaf_def Let_def keyat_def split: option.split)
qed

lemma link_leaf_chain:
  assumes c: "chain (blink h) (tn_first n) xs" and n: "h p = Some n" and t: "t \<notin> insert p (set xs)" "t \<noteq> NULL"
    and p: "p \<notin> set xs"
  shows "\<exists>n'. link_leaf p t c xs h p = Some n' \<and>
    chain (blink (link_leaf p t c xs h)) (tn_first n') (lo (keyat h) xs c @ t # hi (keyat h) xs c)"
proof -
  obtain ls hs where lh: "lo (keyat h) xs c = ls" "hi (keyat h) xs c = hs" and xs: "xs = ls @ hs"
    by (metis lo_hi)
  define G where "G = link_leaf p t c xs h"
  have tl: "t \<noteq> last (p # ls)" using t xs by auto
  have g: "G = (h(t \<mapsto> \<lparr>tn_first = NULL, tn_brother = head hs, tn_key = c\<rparr>))
      (last (p # ls) := map_option (\<lambda>n. if ls = [] then n\<lparr>tn_first := t\<rparr> else n\<lparr>tn_brother := t\<rparr>) (h (last (p # ls))))"
    unfolding G_def link_leaf_def Let_def lh using tl by simp
  have dx: "distinct (ls @ hs)" using chain_distinct [OF c] xs by simp
  have bt: "blink G t = Some (head hs)" using t by (auto simp: g xs blink_def)
  have "chain (blink h) (head hs) hs" using c by (auto simp: xs chain_append dest: chain_head)
  moreover have "blink h x = blink G x" if "x \<in> set hs" for x
    using that dx p t by (cases ls rule: rev_cases) (auto simp: g xs blink_def)
  ultimately have "chain (blink G) (head hs) hs" using chain_cong by metis
  then have ct: "chain (blink G) t (t # hs)" using bt t by simp
  have "\<exists>n'. G p = Some n' \<and> chain (blink G) (tn_first n') (ls @ t # hs)"
  proof (cases ls rule: rev_cases)
    case Nil
    then have "G p = Some (n\<lparr>tn_first := t\<rparr>)" using n t by (simp add: g)
    then show ?thesis using ct Nil by simp
  next
    case (snoc us x)
    have px: "p \<noteq> x" "x \<noteq> t" "p \<noteq> t" using p xs snoc t by auto
    then have gp: "G p = Some n" using snoc n by (simp add: g)
    obtain nx where s: "seg (blink h) (tn_first n) us x" and x: "x \<noteq> NULL" "h x = Some nx"
      using c by (auto simp: xs snoc chain_append blink_def split: option.splits)
    have "blink h y = blink G y" if "y \<in> set us" for y
      using that t dx snoc xs by (auto simp: g blink_def)
    then have "seg (blink G) (tn_first n) us x" using s seg_cong by metis
    moreover have "blink G x = Some t" using snoc x by (simp add: g blink_def)
    ultimately have "chain (blink G) (tn_first n) (us @ x # t # hs)"
      using ct x by (auto simp: chain_append)
    then show ?thesis using gp snoc by simp
  qed
  then show ?thesis unfolding lh G_def .
qed

lemma link_leaf_rep:
  assumes rep: "trie_rep h root N ch" and p: "p \<in> N" "p \<notin> set (ch p)" and no: "kid ch (keyat h) p c = None"
    and t: "t \<notin> N" "t \<noteq> NULL"
  shows "trie_rep (link_leaf p t c (ch p) h) root (insert t N) (add_leaf p t c (keyat h) ch)"
proof -
  let ?g = "link_leaf p t c (ch p) h"
  have sh: "trie_shape root N ch (keyat h)" using rep by (simp add: trie_rep_def)
  obtain n where n: "h p = Some n" "chain (blink h) (tn_first n) (ch p)" "set (ch p) \<subseteq> N"
    using trie_rep_node [OF rep p(1)] by metis
  have k: "keyat ?g q = (if q = t then c else keyat h q)" for q
    by (rule link_leaf_keyat [OF t(1) n(3) p(1)])
  have "trie_shape root (insert t N) (add_leaf p t c (keyat h) ch) (keyat ?g)"
    by (rule add_leaf_shape [OF sh p(1) no t]) (use k t in auto)
  moreover have "\<exists>n. ?g q = Some n \<and> chain (blink ?g) (tn_first n) (add_leaf p t c (keyat h) ch q)"
    if q: "q \<in> insert t N" for q
  proof -
    have v: "last (p # lo (keyat h) (ch p) c) \<in> insert p (set (ch p))"
      by (auto simp: lo_def dest!: last_in_set set_takeWhileD)
    have vt: "last (p # lo (keyat h) (ch p) c) \<noteq> t" using v n(3) t p by auto
    consider "q = t" | "q = p" | "q \<in> N" "q \<noteq> p" "q \<noteq> t" using q by blast
    then show ?thesis
    proof cases
      case 1
      then show ?thesis using vt by (auto simp: link_leaf_def Let_def add_leaf_def)
    next
      case 2
      have "t \<notin> insert p (set (ch p))" using t n(3) p by blast
      from link_leaf_chain [OF n(2,1) this t(2) p(2), of c] show ?thesis
        using 2 t p by (auto simp: add_leaf_def)
    next
      case 3
      obtain nq where nq: "h q = Some nq" "chain (blink h) (tn_first nq) (ch q)" "set (ch q) \<subseteq> N"
        using trie_rep_node [OF rep 3(1)] by metis
      have dj: "set (ch q) \<inter> set (ch p) = {}" using sh 3 p unfolding trie_shape_def by blast
      have "blink h y = blink ?g y" if "y \<in> set (ch q)" for y
      proof -
        have "y \<noteq> t" "y \<notin> set (ch p)" using that dj nq(3) t by auto
        moreover have "last (lo (keyat h) (ch p) c) \<in> set (ch p)" if "lo (keyat h) (ch p) c \<noteq> []"
          using that by (metis last_in_set lo_def set_takeWhileD)
        ultimately show ?thesis using n(1) by (auto simp: link_leaf_def Let_def blink_def)
      qed
      then have "chain (blink ?g) (tn_first nq) (ch q)" using nq(2) chain_cong by metis
      moreover have "\<exists>n'. ?g q = Some n' \<and> tn_first n' = tn_first nq"
        using nq(1) 3 by (auto simp: link_leaf_def Let_def)
      ultimately show ?thesis using 3 by (auto simp: add_leaf_def)
    qed
  qed
  ultimately show ?thesis by (simp add: trie_rep_def)
qed

section \<open>The pool of spare nodes\<close>

text \<open>
  The spare nodes \<open>ps\<close>, from the head \<open>p\<close> of the list to \<open>z\<close>, the word that the head held
  before the first node was pushed: the list is not initialised, so \<open>z\<close> is anything.
\<close>

definition pool_rep :: "addr \<Rightarrow> node_heap \<Rightarrow> addr \<Rightarrow> addr list \<Rightarrow> bool" where
  "pool_rep z h p ps \<longleftrightarrow> seg (blink h) p ps z \<and> distinct ps \<and> (\<forall>x\<in>set ps. \<exists>n. h x = Some n \<and> tn_first n = NULL)"

lemma pool_rep_Cons:
  "pool_rep z h p (x # ps) \<longleftrightarrow>
     p = x \<and> x \<noteq> NULL \<and> x \<notin> set ps \<and> (\<exists>n. h x = Some n \<and> tn_first n = NULL \<and> pool_rep z h (tn_brother n) ps)"
  by (auto simp: pool_rep_def blink_def split: option.splits)

lemma pool_rep_Nil [simp]: "pool_rep z h p [] \<longleftrightarrow> p = z"
  by (simp add: pool_rep_def)

lemma pool_rep_frame:
  assumes "pool_rep z h p ps" and "\<And>x. x \<in> set ps \<Longrightarrow> h' x = h x"
  shows "pool_rep z h' p ps"
proof -
  have "seg (blink h') p ps z = seg (blink h) p ps z"
    by (rule seg_cong) (simp add: blink_def assms(2))
  then show ?thesis using assms by (simp add: pool_rep_def)
qed

lemma tnode_pop_empty:
  assumes "tr_lists m l = Some nl" and "nl_first nl = NULL" and "l \<noteq> NULL"
  shows "tnode_pop l m = Ok (0, NULL, m)"
proof -
  have "cloop (tnode_pop_body l) (nl_first nl, m) = Ok (None, m)"
    by (rule cloop_Done) (simp add: tnode_pop_body_def assms)
  then show ?thesis by (simp add: tnode_pop_def assms)
qed

lemma tnode_pop_node:
  assumes l: "tr_lists m l = Some nl" "nl_first nl = x" "l \<noteq> NULL" and x: "x \<noteq> NULL" "tr_nodes m x = Some n"
  shows "tnode_pop l m = Ok (1, x, set_tn x (n\<lparr>tn_brother := NULL\<rparr>)
    (set_nl l (nl\<lparr>nl_first := tn_brother n, nl_counter := nl_counter nl - 1\<rparr>) m))"
proof -
  have "cloop (tnode_pop_body l) (nl_first nl, m) = Ok (Some x, set_nl l (nl\<lparr>nl_first := tn_brother n\<rparr>) m)"
    by (rule cloop_Done) (simp add: tnode_pop_body_def assms abstraction_cas_def)
  then show ?thesis by (simp add: tnode_pop_def assms set_nl_def set_tn_def Let_def abstraction_sub_def)
qed

section \<open>Insertion\<close>

definition trie_at :: "addr \<Rightarrow> addr \<Rightarrow> addr \<Rightarrow> addr set \<Rightarrow> (addr \<Rightarrow> addr list) \<Rightarrow> addr list \<Rightarrow> 'a tr_mem_scheme \<Rightarrow> bool" where
  "trie_at z ts root N ch ps m \<longleftrightarrow>
     trie_rep (tr_nodes m) root N ch \<and> set ps \<inter> N = {} \<and>
     (\<exists>s t l. tr_states m ts = Some s \<and> tr_tries m (ts_entry s) = Some t \<and> tr_root t = root \<and>
        ts_list s \<noteq> NULL \<and> tr_lists m (ts_list s) = Some l \<and> pool_rep z (tr_nodes m) (nl_first l) ps)"

abbreviation trie_walk :: "'a tr_mem_scheme \<Rightarrow> addr \<Rightarrow> (addr \<Rightarrow> addr list) \<Rightarrow> u8 list \<Rightarrow> addr option" where
  "trie_walk m root ch \<equiv> walk ch (keyat (tr_nodes m)) root"

lemma place_ok_get:
  "place_ok ch ky p c (last (p # lo ky (ch p) c)) (head (hi ky (ch p) c))"
proof (cases "lo ky (ch p) c = []")
  case False
  then show ?thesis unfolding place_ok_def
    by (intro disjI2 exI [of _ "lo ky (ch p) c"] exI [of _ "hi ky (ch p) c"]) (auto dest: lo_less)
qed (simp add: place_ok_def)

lemma place_ok_cong:
  assumes "place_ok ch ky p c prev prev_next" and "\<And>x. x \<in> set (ch p) \<Longrightarrow> ky' x = ky x"
  shows "place_ok ch ky' p c prev prev_next"
  using assms(1) unfolding place_ok_def
proof (elim disjE exE conjE)
  fix us vs assume "ch p = us @ vs" "us \<noteq> []" "prev = last us" "prev_next = head vs" "\<forall>x\<in>set us. ky x < c"
  then show "prev = p \<or> (\<exists>us vs. ch p = us @ vs \<and> us \<noteq> [] \<and> prev = last us \<and> prev_next = head vs \<and> (\<forall>x\<in>set us. ky' x < c))"
    using assms(2) by (intro disjI2 exI [of _ us] exI [of _ vs]) simp
qed simp

lemma insert_node_body_links:
  assumes rep: "trie_rep (tr_nodes m) root N ch" and p: "p \<in> N" "p \<notin> set (ch p)"
    and no: "kid ch (keyat (tr_nodes m)) p c = None" and pl: "place_ok ch (keyat (tr_nodes m)) p c prev prev_next"
    and t: "t \<notin> N" "tr_nodes m t = Some n" "tn_first n = NULL" "tn_key n = c"
    and st: "tr_states m ts = Some s" "tr_tries m (ts_entry s) = Some tr"
  shows "trie_insert_node_body ts t p c (prev, prev_next, m) =
    Ok (Done (t, t, NULL, m\<lparr>tr_nodes := link_leaf p t c (ch p) (tr_nodes m),
      tr_tries := (tr_tries m)(ts_entry s \<mapsto> tr\<lparr>tr_counter := tr_counter tr + 1\<rparr>)\<rparr>))"
proof -
  let ?k = "keyat (tr_nodes m)" and ?h = "tr_nodes m"
  obtain ls hs where lh: "lo ?k (ch p) c = ls" "hi ?k (ch p) c = hs" and ch: "ch p = ls @ hs"
    by (metis lo_hi)
  obtain np where np: "?h p = Some np" "chain (blink ?h) (tn_first np) (ch p)" "p \<noteq> NULL" "set (ch p) \<subseteq> N"
    "tn_first np = head (ch p)"
    using trie_rep_node [OF rep p(1)] by metis
  note get = get_subnode_kid [OF rep p pl, unfolded no lh option.case]
  have n': "n\<lparr>tn_brother := head hs\<rparr> = \<lparr>tn_first = NULL, tn_brother = head hs, tn_key = c\<rparr>"
    using t by (cases n) simp
  have vN: "last (p # ls) \<in> N" using p np(4) ch by (auto dest: last_in_set)
  with t have vt: "last (p # ls) \<noteq> t" by blast
  have link: "link_leaf p t c (ch p) ?h = (?h(t \<mapsto> \<lparr>tn_first = NULL, tn_brother = head hs, tn_key = c\<rparr>))
      (last (p # ls) := map_option (\<lambda>n. if ls = [] then n\<lparr>tn_first := t\<rparr> else n\<lparr>tn_brother := t\<rparr>) (?h (last (p # ls))))"
    unfolding link_leaf_def Let_def lh using vt by simp
  show ?thesis
  proof (cases ls rule: rev_cases)
    case Nil
    then have "tn_first np = head hs" using np ch by simp
    then show ?thesis using Nil get t np vt st
      by (simp add: trie_insert_node_body_def link [folded n'] set_tn_def set_tr_def abstraction_cas_def
          abstraction_increment_def Let_def fun_upd_twist)
  next
    case (snoc us x)
    have xp: "x \<noteq> p" "x \<noteq> t" using snoc ch p vt by auto
    obtain nx where nx: "?h x = Some nx" "tn_brother nx = head hs"
      using np(2) by (auto simp: ch snoc chain_append blink_def split: option.splits dest: chain_head)
    then show ?thesis using snoc get t np xp st
      by (simp add: trie_insert_node_body_def link [folded n'] set_tn_def set_tr_def abstraction_cas_def
          abstraction_increment_def Let_def fun_upd_twist)
  qed
qed

lemma insert_node_links:
  assumes at: "trie_at z ts root N ch (t # ps) m" and w: "trie_walk m root ch u = Some p"
    and no: "kid ch (keyat (tr_nodes m)) p c = None" and pl: "place_ok ch (keyat (tr_nodes m)) p c prev prev_next"
  shows "\<exists>m'. lf_trie_insert_node ts p prev prev_next c m = Ok (t, t, NULL, m') \<and>
    trie_at z ts root (insert t N) (add_leaf p t c (keyat (tr_nodes m)) ch) ps m' \<and>
    (\<forall>v. trie_walk m' root (add_leaf p t c (keyat (tr_nodes m)) ch) v =
       (if v = u @ [c] then Some t else trie_walk m root ch v))"
proof -
  let ?h = "tr_nodes m"
  obtain s tr l where st: "tr_states m ts = Some s" "tr_tries m (ts_entry s) = Some tr" "tr_root tr = root"
    "ts_list s \<noteq> NULL" "tr_lists m (ts_list s) = Some l" and pool: "pool_rep z ?h (nl_first l) (t # ps)"
    and rep: "trie_rep ?h root N ch" and dj: "t \<notin> N" "set ps \<inter> N = {}"
    using at by (auto simp: trie_at_def)
  have sh: "trie_shape root N ch (keyat ?h)" using rep by (simp add: trie_rep_def)
  have p: "p \<in> N" "p \<notin> set (ch p)" by (rule walk_in [OF sh w], rule walk_not_own_kid [OF sh w])
  obtain n where n: "nl_first l = t" "t \<noteq> NULL" "?h t = Some n" "tn_first n = NULL" and tps: "t \<notin> set ps" and ps: "pool_rep z ?h (tn_brother n) ps"
    using pool unfolding pool_rep_Cons by blast
  let ?n = "n\<lparr>tn_brother := NULL, tn_key := c\<rparr>"
  let ?m = "m\<lparr>tr_lists := (tr_lists m)(ts_list s \<mapsto>
      l\<lparr>nl_first := tn_brother n, nl_counter := nl_counter l - 1\<rparr>), tr_nodes := ?h(t \<mapsto> ?n)\<rparr>"
  have k: "keyat (tr_nodes ?m) x = keyat ?h x" if "x \<in> N" for x using that dj by (auto simp: keyat_def)
  have kids: "set (ch p) \<subseteq> N" using trie_rep_node [OF rep p(1)] by metis
  have rep': "trie_rep (tr_nodes ?m) root N ch" by (rule trie_rep_frame [OF rep]) (use dj in auto)
  have no': "kid ch (keyat (tr_nodes ?m)) p c = None"
    using no kid_cong [of ch p ch "keyat (tr_nodes ?m)" "keyat ?h" c] k kids by auto
  have pl': "place_ok ch (keyat (tr_nodes ?m)) p c prev prev_next"
    by (rule place_ok_cong [OF pl]) (use k kids in auto)
  let ?g = "link_leaf p t c (ch p) (tr_nodes ?m)"
  let ?m' = "?m\<lparr>tr_nodes := ?g, tr_tries := (tr_tries m)(ts_entry s \<mapsto> tr\<lparr>tr_counter := tr_counter tr + 1\<rparr>)\<rparr>"
  have "trie_insert_node_body ts t p c (prev, prev_next, ?m) = Ok (Done (t, t, NULL, ?m'))"
    using insert_node_body_links [OF rep' p no' pl' dj(1), of ?n ts s tr] st n by simp
  then have "cloop (trie_insert_node_body ts t p c) (prev, prev_next, ?m) = Ok (t, t, NULL, ?m')"
    by (rule cloop_Done)
  then have run: "lf_trie_insert_node ts p prev prev_next c m = Ok (t, t, NULL, ?m')"
    using tnode_pop_node [OF st(5) n(1) st(4) n(2,3)] st(1)
    by (simp add: lf_trie_insert_node_def set_tn_def set_nl_def)
  have leq: "add_leaf p t c (keyat (tr_nodes ?m)) ch = add_leaf p t c (keyat ?h) ch"
  proof -
    have "lo (keyat (tr_nodes ?m)) (ch p) c = lo (keyat ?h) (ch p) c" "hi (keyat (tr_nodes ?m)) (ch p) c = hi (keyat ?h) (ch p) c"
      unfolding lo_def hi_def using k kids by (auto intro!: takeWhile_cong dropWhile_cong)
    then show ?thesis by (simp add: add_leaf_def)
  qed
  have grep: "trie_rep ?g root (insert t N) (add_leaf p t c (keyat ?h) ch)"
    using link_leaf_rep [OF rep' p no' dj(1) n(2)] leq by simp
  have "pool_rep z ?g (tn_brother n) ps"
  proof (rule pool_rep_frame [OF ps])
    fix x assume "x \<in> set ps"
    then have "x \<notin> N" "x \<noteq> t" using tps dj by auto
    then show "?g x = ?h x" by (simp add: link_leaf_frame [OF kids p(1)])
  qed
  then have "trie_at z ts root (insert t N) (add_leaf p t c (keyat ?h) ch) ps ?m'"
    using grep st dj tps by (auto simp: trie_at_def)
  moreover have "keyat ?g x = (if x = t then c else keyat ?h x)" for x
    using link_leaf_keyat [OF dj(1) kids p(1), of c "tr_nodes ?m" x] by (auto simp: keyat_def)
  then have "trie_walk ?m' root (add_leaf p t c (keyat ?h) ch) v = (if v = u @ [c] then Some t else trie_walk m root ch v)" for v
    using add_leaf_walk [OF sh w no dj(1), of "keyat ?g" v] dj(1) by auto
  ultimately show ?thesis using run by blast
qed

section \<open>Words\<close>

text \<open>
  What a client sees of a trie: the set of the words that lead to a node, which is closed
  under prefixes, and the number of spare nodes. \<open>grow\<close> adds the missing prefixes of a word
  one by one, starting after \<open>u\<close>, until the spare nodes are used up.
\<close>

fun grow :: "u8 list \<Rightarrow> u8 list \<Rightarrow> u8 list set \<Rightarrow> nat \<Rightarrow> u64 \<times> u8 list set \<times> nat" where
  "grow u [] S n = (TRIE_INSERT_SUCCESS, S, n)"
| "grow u (c # cs) S n =
     (if u @ [c] \<in> S then grow (u @ [c]) cs S n
      else if n = 0 then (TRIE_INSERT_ERROR, S, 0)
      else grow (u @ [c]) cs (insert (u @ [c]) S) (n - 1))"

definition spec_insert :: "u8 list \<Rightarrow> u8 list set \<Rightarrow> nat \<Rightarrow> u64 \<times> u8 list set \<times> nat" where
  "spec_insert w S n = (if w \<in> S then (TRIE_INSERT_DUPLICATION, S, n) else grow [] w S n)"

definition spec_search :: "u8 list \<Rightarrow> u8 list set \<Rightarrow> u64" where
  "spec_search w S = (if w \<in> S then TRIE_SEARCH_SUCCESS else TRIE_SEARCH_ERROR)"

definition trie_inv :: "addr \<Rightarrow> addr \<Rightarrow> u8 list set \<Rightarrow> nat \<Rightarrow> 'a tr_mem_scheme \<Rightarrow> bool" where
  "trie_inv z ts S n m \<longleftrightarrow> (\<exists>root N ch ps. trie_at z ts root N ch ps m \<and> length ps = n \<and>
     S = {w. trie_walk m root ch w \<noteq> None})"

lemma walk_append: "walk ch ky p (u @ v) = (case walk ch ky p u of None \<Rightarrow> None | Some q \<Rightarrow> walk ch ky q v)"
  by (induction u arbitrary: p) (auto split: option.splits)

lemma trie_at_shape: "trie_at z ts root N ch ps m \<Longrightarrow> trie_shape root N ch (keyat (tr_nodes m))"
  by (simp add: trie_at_def trie_rep_def)

lemma insert_node_no_spare:
  assumes "trie_at NULL ts root N ch [] m"
  shows "lf_trie_insert_node ts p prev prev_next c m = Ok (NULL, prev, prev_next, m)"
  using assms by (auto simp: trie_at_def lf_trie_insert_node_def tnode_pop_empty)

lemma insert_rest_grows:
  "trie_at z ts root N ch ps m \<Longrightarrow> trie_walk m root ch u = Some p \<Longrightarrow>
   (cs \<noteq> [] \<Longrightarrow> kid ch (keyat (tr_nodes m)) p (hd cs) = None \<and>
      place_ok ch (keyat (tr_nodes m)) p (hd cs) prev prev_next) \<Longrightarrow>
   fst (grow u cs {w. trie_walk m root ch w \<noteq> None} (length ps)) \<noteq> TRIE_INSERT_ERROR \<or> z = NULL \<Longrightarrow>
   \<exists>rv S' n' m'. trie_insert_rest ts p prev prev_next cs m = Ok (rv, m') \<and> trie_inv z ts S' n' m' \<and>
     grow u cs {w. trie_walk m root ch w \<noteq> None} (length ps) = (rv, S', n')"
proof (induction cs arbitrary: N ch ps m u p prev prev_next)
  case Nil
  then show ?case by (auto simp: trie_inv_def)
next
  case (Cons c cs)
  let ?S = "{w. trie_walk m root ch w \<noteq> None}"
  have no: "kid ch (keyat (tr_nodes m)) p c = None" and pl: "place_ok ch (keyat (tr_nodes m)) p c prev prev_next"
    using Cons.prems(3) by simp_all
  have new: "u @ [c] \<notin> ?S" using Cons.prems(2) no by (simp add: walk_snoc)
  show ?case
  proof (cases ps)
    case Nil
    then have z: "z = NULL" using Cons.prems(4) new by simp
    have "trie_inv z ts ?S 0 m" using Nil Cons.prems(1) by (auto simp: trie_inv_def)
    moreover have "trie_insert_rest ts p prev prev_next (c # cs) m = Ok (TRIE_INSERT_ERROR, m)"
      using insert_node_no_spare [OF Cons.prems(1) [unfolded Nil z]] by simp
    ultimately show ?thesis using Nil new by auto
  next
    case (Cons t ps')
    let ?ch = "add_leaf p t c (keyat (tr_nodes m)) ch"
    obtain m' where run: "lf_trie_insert_node ts p prev prev_next c m = Ok (t, t, NULL, m')"
      and at: "trie_at z ts root (insert t N) ?ch ps' m'"
      and wk: "\<And>v. trie_walk m' root ?ch v = (if v = u @ [c] then Some t else trie_walk m root ch v)"
      using insert_node_links [OF Cons.prems(1) [unfolded Cons] Cons.prems(2) no pl] by blast
    have t0: "t \<noteq> NULL" using trie_at_shape [OF at] by (auto simp: trie_shape_def)
    have "kid ?ch (keyat (tr_nodes m')) t d = None \<and> place_ok ?ch (keyat (tr_nodes m')) t d t NULL" for d
      by (simp add: kid_def add_leaf_def place_ok_def)
    moreover have S': "{w. trie_walk m' root ?ch w \<noteq> None} = insert (u @ [c]) ?S"
      by (auto simp: wk)
    ultimately have "\<exists>rv S' n' m''. trie_insert_rest ts t t NULL cs m' = Ok (rv, m'') \<and> trie_inv z ts S' n' m'' \<and>
        grow (u @ [c]) cs {w. trie_walk m' root ?ch w \<noteq> None} (length ps') = (rv, S', n')"
      using Cons.prems(4) new Cons by (intro Cons.IH [OF at]) (simp_all add: wk)
    then show ?thesis using run t0 new Cons unfolding S' by simp
  qed
qed

lemma descend_finds:
  assumes at: "trie_at z ts root N ch ps m"
  shows "trie_walk m root ch u = Some p \<Longrightarrow>
   (\<exists>q pa pr pn. trie_descend p par p prev_next w m = Ok (q, pa, pr, pn, []) \<and> q \<noteq> NULL \<and>
      trie_walk m root ch (u @ w) = Some q) \<or>
   (\<exists>v c cs q pr pn. trie_descend p par p prev_next w m = Ok (NULL, q, pr, pn, c # cs) \<and> w = v @ c # cs \<and>
      trie_walk m root ch (u @ v) = Some q \<and> kid ch (keyat (tr_nodes m)) q c = None \<and>
      place_ok ch (keyat (tr_nodes m)) q c pr pn)"
proof (induction w arbitrary: u p par prev_next)
  case Nil
  have sh: "trie_shape root N ch (keyat (tr_nodes m))" by (rule trie_at_shape [OF at])
  then have "p \<noteq> NULL" using walk_in [OF sh Nil] by (auto simp: trie_shape_def)
  then show ?case using Nil by simp
next
  case (Cons c w)
  have sh: "trie_shape root N ch (keyat (tr_nodes m))" by (rule trie_at_shape [OF at])
  have p: "p \<in> N" "p \<notin> set (ch p)" by (rule walk_in [OF sh Cons.prems], rule walk_not_own_kid [OF sh Cons.prems])
  have rep: "trie_rep (tr_nodes m) root N ch" using at by (simp add: trie_at_def)
  note get = get_subnode_kid [OF rep p, of c p prev_next]
  show ?case
  proof (cases "kid ch (keyat (tr_nodes m)) p c")
    case None
    let ?pr = "last (p # lo (keyat (tr_nodes m)) (ch p) c)" and ?pn = "head (hi (keyat (tr_nodes m)) (ch p) c)"
    have "trie_descend p par p prev_next (c # w) m = Ok (NULL, p, ?pr, ?pn, c # w)"
      using get None by (simp add: place_ok_def)
    then show ?thesis using None Cons.prems place_ok_get
      by (intro disjI2 exI [of _ "[]"] exI [of _ c] exI [of _ w] exI [of _ p] exI [of _ ?pr] exI [of _ ?pn]) auto
  next
    case (Some q)
    then have wq: "trie_walk m root ch (u @ [c]) = Some q" using Cons.prems by (simp add: walk_snoc)
    then have "q \<noteq> NULL" using walk_in [OF sh wq] sh by (auto simp: trie_shape_def)
    then have eq: "trie_descend p par p prev_next (c # w) m = trie_descend q p q (tn_first (the (tr_nodes m q))) w m"
      using get Some by (simp add: place_ok_def)
    from Cons.IH [OF wq, of p "tn_first (the (tr_nodes m q))", folded eq] show ?thesis
    proof (elim disjE exE conjE)
      fix v d cs q' pr pn
      assume "trie_descend p par p prev_next (c # w) m = Ok (NULL, q', pr, pn, d # cs)" "w = v @ d # cs"
        "trie_walk m root ch ((u @ [c]) @ v) = Some q'" "kid ch (keyat (tr_nodes m)) q' d = None"
        "place_ok ch (keyat (tr_nodes m)) q' d pr pn"
      then show ?thesis
        by (intro disjI2 exI [of _ "c # v"] exI [of _ d] exI [of _ cs] exI [of _ q'] exI [of _ pr] exI [of _ pn]) simp
    qed simp
  qed
qed

lemma grow_skip:
  "(\<And>v'. v' \<noteq> [] \<Longrightarrow> prefix v' v \<Longrightarrow> u @ v' \<in> S) \<Longrightarrow> grow u (v @ cs) S n = grow (u @ v) cs S n"
proof (induction v arbitrary: u)
  case (Cons d v)
  have "u @ [d] \<in> S" using Cons.prems [of "[d]"] by simp
  moreover have "grow (u @ [d]) (v @ cs) S n = grow ((u @ [d]) @ v) cs S n"
  proof (rule Cons.IH)
    fix v' assume "v' \<noteq> []" "prefix v' v"
    then show "(u @ [d]) @ v' \<in> S" using Cons.prems [of "d # v'"] by simp
  qed
  ultimately show ?case by simp
qed simp

lemma trie_insert_refines:
  assumes "trie_inv z ts S n m" "fst (spec_insert w S n) \<noteq> TRIE_INSERT_ERROR \<or> z = NULL"
  shows "\<exists>rv S' n' m'. lf_trie_insert_real_data ts w m = Ok (rv, m') \<and> trie_inv z ts S' n' m' \<and>
    spec_insert w S n = (rv, S', n')"
proof -
  obtain root N ch ps where at: "trie_at z ts root N ch ps m" and n: "length ps = n"
    and S: "S = {w. trie_walk m root ch w \<noteq> None}"
    using assms by (auto simp: trie_inv_def)
  obtain s t where st: "tr_states m ts = Some s" "tr_tries m (ts_entry s) = Some t" "tr_root t = root"
    using at by (auto simp: trie_at_def)
  have "trie_walk m root ch [] = Some root" by simp
  from descend_finds [OF at this, of NULL NULL w] show ?thesis
  proof (elim disjE exE conjE)
    fix q pa pr pn
    assume "trie_descend root NULL root NULL w m = Ok (q, pa, pr, pn, [])" "q \<noteq> NULL"
      "trie_walk m root ch ([] @ w) = Some q"
    then show ?thesis using st assms by (simp add: lf_trie_insert_real_data_def spec_insert_def S)
  next
    fix v c cs q pr pn
    assume d: "trie_descend root NULL root NULL w m = Ok (NULL, q, pr, pn, c # cs)" and w: "w = v @ c # cs"
      and q: "trie_walk m root ch ([] @ v) = Some q" and k: "kid ch (keyat (tr_nodes m)) q c = None"
      and pl: "place_ok ch (keyat (tr_nodes m)) q c pr pn"
    have closed: "trie_walk m root ch v' \<noteq> None" if "prefix v' v" for v'
      using that q by (auto simp: prefix_def walk_append split: option.splits)
    have "trie_walk m root ch w = None" using q k by (simp add: w walk_append)
    then have sp: "spec_insert w S n = grow v (c # cs) S n"
      using grow_skip [of v "[]" S "c # cs" n] closed by (simp add: spec_insert_def S w)
    have run: "lf_trie_insert_real_data ts w m = trie_insert_rest ts q pr pn (c # cs) m"
      using d st by (simp add: lf_trie_insert_real_data_def)
    have "trie_walk m root ch v = Some q" using q by simp
    then have "\<exists>rv S' n' m'. trie_insert_rest ts q pr pn (c # cs) m = Ok (rv, m') \<and> trie_inv z ts S' n' m' \<and>
        grow v (c # cs) S n = (rv, S', n')"
      unfolding S n [symmetric] by (rule insert_rest_grows [OF at]) (use k pl assms(2) sp in \<open>auto simp: S n\<close>)
    then show ?thesis unfolding sp run .
  qed
qed

lemma trie_search_refines:
  assumes "trie_inv z ts S n m"
  shows "lf_trie_search_real_data ts w m = Ok (spec_search w S)"
proof -
  obtain root N ch ps where at: "trie_at z ts root N ch ps m" and S: "S = {w. trie_walk m root ch w \<noteq> None}"
    using assms by (auto simp: trie_inv_def)
  obtain s t where st: "tr_states m ts = Some s" "tr_tries m (ts_entry s) = Some t" "tr_root t = root"
    and rep: "trie_rep (tr_nodes m) root N ch"
    using at by (auto simp: trie_at_def)
  have "root \<in> N" using rep by (simp add: trie_rep_def trie_shape_def)
  from trie_search_loop_walk [OF rep this, of w] obtain node rest
    where "trie_search_loop root w m = Ok (node, rest)" "node = NULL \<or> rest \<noteq> [] \<longleftrightarrow> w \<notin> S"
    by (auto simp: S)
  then show ?thesis using st by (simp add: lf_trie_search_real_data_def spec_search_def)
qed

section \<open>A new trie\<close>

lemma tr_c_more_eq:
  assumes "c_mem.more m' = c_mem.more m"
  shows "tr_nodes m' = tr_nodes m" "tr_tries m' = tr_tries m" "tr_lists m' = tr_lists m" "tr_states m' = tr_states m"
  using assms by (cases m, cases m', simp)+

lemma tr_set_simps [simp]:
  "tr_nodes (set_tn p n m) = (tr_nodes m)(p \<mapsto> n)" "tr_tries (set_tn p n m) = tr_tries m"
  "tr_lists (set_tn p n m) = tr_lists m" "tr_states (set_tn p n m) = tr_states m"
  "tr_nodes (set_nl p l m) = tr_nodes m" "tr_tries (set_nl p l m) = tr_tries m"
  "tr_lists (set_nl p l m) = (tr_lists m)(p \<mapsto> l)" "tr_states (set_nl p l m) = tr_states m"
  "tr_nodes (set_tr p t m) = tr_nodes m" "tr_tries (set_tr p t m) = (tr_tries m)(p \<mapsto> t)"
  "tr_lists (set_tr p t m) = tr_lists m" "tr_states (set_tr p t m) = tr_states m"
  "tr_nodes (set_ts p s m) = tr_nodes m" "tr_tries (set_ts p s m) = tr_tries m"
  "tr_lists (set_ts p s m) = tr_lists m" "tr_states (set_ts p s m) = (tr_states m)(p \<mapsto> s)"
  by (simp_all add: set_tn_def set_nl_def set_tr_def set_ts_def)

lemma tr_set_base [simp]:
  "m_script (set_tn p n m) = m_script m" "m_live (set_tn p n m) = m_live m" "m_junk (set_tn p n m) = m_junk m"
  "m_script (set_nl p l m) = m_script m" "m_live (set_nl p l m) = m_live m" "m_junk (set_nl p l m) = m_junk m"
  "m_script (set_tr p t m) = m_script m" "m_live (set_tr p t m) = m_live m" "m_junk (set_tr p t m) = m_junk m"
  "m_script (set_ts p s m) = m_script m" "m_live (set_ts p s m) = m_live m" "m_junk (set_ts p s m) = m_junk m"
  "allocated (set_tn p n m) = allocated m" "heap_ok (set_tn p n m) = heap_ok m"
  "allocated (set_nl p l m) = allocated m" "heap_ok (set_nl p l m) = heap_ok m"
  "allocated (set_tr p t m) = allocated m" "heap_ok (set_tr p t m) = heap_ok m"
  "allocated (set_ts p s m) = allocated m" "heap_ok (set_ts p s m) = heap_ok m"
  by (auto simp: set_tn_def set_nl_def set_tr_def set_ts_def allocated_def heap_ok_def fun_eq_iff)

text \<open>What a new block leaves alone.\<close>

definition tr_fresh :: "addr \<Rightarrow> 'a tr_mem_scheme \<Rightarrow> 'a tr_mem_scheme \<Rightarrow> bool" where
  "tr_fresh q m m' \<longleftrightarrow> q \<noteq> NULL \<and> \<not> allocated m q \<and> (\<forall>r. allocated m' r \<longleftrightarrow> allocated m r \<or> r = q) \<and>
     heap_ok m' \<and> m_junk m' = m_junk m \<and> tr_tries m' = tr_tries m \<and> tr_lists m' = tr_lists m \<and> tr_states m' = tr_states m"

lemma tr_malloc_enough:
  fixes m :: "'a tr_mem_scheme"
  assumes "heap_ok m" "enough_mem (Suc k) m"
  obtains q m' where "aligned_malloc sz LF_ALIGN_DOUBLE_POINTER m = (q, m')" "tr_fresh q m m'" "tr_nodes m' = tr_nodes m"
    "enough_mem k m'"
proof -
  obtain q m1 where al: "aligned_malloc sz LF_ALIGN_DOUBLE_POINTER m = (q, m1)" "fresh_block q m m1"
    "heap_ok m1" "enough_mem k m1"
    using aligned_malloc_enough [OF assms(1) _ assms(2), where al = LF_ALIGN_DOUBLE_POINTER and sz = sz] by auto
  have more: "c_mem.more m1 = c_mem.more m" and q: "q \<noteq> NULL" "\<not> allocated m q" "m_junk m1 = m_junk m"
    "\<forall>r. allocated m1 r \<longleftrightarrow> allocated m r \<or> r = q" using al(2) by (auto simp: fresh_block_def)
  note eqs = tr_c_more_eq [OF more]
  show ?thesis by (rule that [of q m1]) (use al q eqs in \<open>simp_all add: tr_fresh_def\<close>)
qed

lemma alloc_tn_enough:
  fixes m :: "'a tr_mem_scheme"
  assumes "heap_ok m" "enough_mem (Suc k) m"
  obtains q m' where "alloc_tn m = (q, m')" "tr_fresh q m m'" "enough_mem k m'"
    "tr_nodes m' = (tr_nodes m)(q \<mapsto> \<lparr>tn_first = NULL, tn_brother = NULL, tn_key = 0\<rparr>)"
proof -
  obtain q m1 where al: "aligned_malloc 24 LF_ALIGN_DOUBLE_POINTER m = (q, m1)" "tr_fresh q m m1"
    "tr_nodes m1 = tr_nodes m" "enough_mem k m1"
    by (rule tr_malloc_enough [OF assms])
  show ?thesis
    by (rule that [of q "set_tn q \<lparr>tn_first = NULL, tn_brother = NULL, tn_key = 0\<rparr> m1"])
      (use al in \<open>simp_all add: alloc_tn_def tr_fresh_def\<close>)
qed

lemma tnode_push_links:
  assumes "tr_lists m l = Some nl" and "tr_nodes m t = Some n"
  shows "tnode_push l t m = Ok (set_nl l (nl\<lparr>nl_first := t, nl_counter := nl_counter nl + 1\<rparr>)
    (set_tn t (n\<lparr>tn_brother := nl_first nl\<rparr>) m))"
proof -
  have "cloop (tnode_push_body l t) (nl_first nl, m) =
      Ok (set_nl l (nl\<lparr>nl_first := t\<rparr>) (set_tn t (n\<lparr>tn_brother := nl_first nl\<rparr>) m))"
    by (rule cloop_Done) (simp add: tnode_push_body_def assms abstraction_cas_def Let_def)
  then show ?thesis
    by (simp add: tnode_push_def assms abstraction_increment_def set_nl_def set_tn_def)
qed

text \<open>A list of spare nodes whose head was NULL at first, which \<open>trie_new\<close> does not ensure, is a pool.\<close>

definition tr_pool :: "addr \<Rightarrow> 'a tr_mem_scheme \<Rightarrow> addr list \<Rightarrow> bool" where
  "tr_pool l m ps \<longleftrightarrow> l \<noteq> NULL \<and> (\<exists>nl. tr_lists m l = Some nl \<and> pool_rep NULL (tr_nodes m) (nl_first nl) ps)"

definition tr_spare :: "'a tr_mem_scheme \<Rightarrow> addr \<Rightarrow> bool" where
  "tr_spare m x \<longleftrightarrow> x \<noteq> NULL \<and> (\<exists>n. tr_nodes m x = Some n \<and> tn_first n = NULL)"

interpretation tr: lifo_pool "tr_pool l" tr_spare "tnode_push l" "\<lambda>m. call (tnode_pop l m) (\<lambda>(_, x, m1). Ok (x, m1))" for l
proof
  fix m :: "'a tr_mem_scheme" and xs x
  assume pool: "tr_pool l m xs" and "tr_spare m x" and x: "x \<notin> set xs"
  then obtain n nl where n: "x \<noteq> NULL" "tr_nodes m x = Some n" "tn_first n = NULL"
    and nl: "l \<noteq> NULL" "tr_lists m l = Some nl" "pool_rep NULL (tr_nodes m) (nl_first nl) xs"
    by (auto simp: tr_pool_def tr_spare_def)
  let ?m = "set_nl l (nl\<lparr>nl_first := x, nl_counter := nl_counter nl + 1\<rparr>) (set_tn x (n\<lparr>tn_brother := nl_first nl\<rparr>) m)"
  have "pool_rep NULL (tr_nodes ?m) (nl_first nl) xs" by (rule pool_rep_frame [OF nl(3)]) (use x in auto)
  then have "tr_pool l ?m (x # xs)" using n x nl(1) by (simp add: tr_pool_def pool_rep_Cons)
  moreover have "tr_spare ?m = tr_spare m" using n by (auto simp: tr_spare_def fun_eq_iff)
  ultimately show "\<exists>m'. tnode_push l x m = Ok m' \<and> tr_pool l m' (x # xs) \<and> tr_spare m' = tr_spare m"
    using tnode_push_links [OF nl(2) n(2)] by blast
next
  fix m :: "'a tr_mem_scheme" and x xs
  assume "tr_pool l m (x # xs)"
  then obtain n nl where n: "x \<noteq> NULL" "tr_nodes m x = Some n" "tn_first n = NULL" "x \<notin> set xs"
    and nl: "l \<noteq> NULL" "tr_lists m l = Some nl" "nl_first nl = x" "pool_rep NULL (tr_nodes m) (tn_brother n) xs"
    by (auto simp: tr_pool_def pool_rep_Cons)
  let ?m = "set_tn x (n\<lparr>tn_brother := NULL\<rparr>) (set_nl l (nl\<lparr>nl_first := tn_brother n, nl_counter := nl_counter nl - 1\<rparr>) m)"
  have "pool_rep NULL (tr_nodes ?m) (tn_brother n) xs" by (rule pool_rep_frame [OF nl(4)]) (use n(4) in auto)
  then have "tr_pool l ?m xs" using nl(1) by (simp add: tr_pool_def)
  moreover have "tr_spare ?m = tr_spare m" using n by (auto simp: tr_spare_def fun_eq_iff)
  ultimately show "\<exists>m'. call (tnode_pop l m) (\<lambda>(_, x, m1). Ok (x, m1)) = Ok (x, m') \<and> tr_pool l m' xs \<and> tr_spare m' = tr_spare m"
    using tnode_pop_node [OF nl(2,3,1) n(1,2)] by (intro exI [of _ ?m]) simp
qed (auto simp: tr_pool_def tnode_pop_empty)

lemma new_elements_pool:
  fixes m :: "'a tr_mem_scheme"
  shows "heap_ok m \<Longrightarrow> enough_mem k m \<Longrightarrow> tr_lists m l = Some nl \<Longrightarrow> pool_rep z (tr_nodes m) (nl_first nl) ps \<Longrightarrow>
   \<forall>x\<in>set ps. allocated m x \<Longrightarrow>
   \<exists>m' nl' qs. trie_nodelist_new_elements_loop l k c m = Ok (c + of_nat k, m') \<and> tr_lists m' l = Some nl' \<and>
     pool_rep z (tr_nodes m') (nl_first nl') (qs @ ps) \<and> length qs = k \<and> (\<forall>x\<in>set qs. \<not> allocated m x) \<and>
     (\<forall>x. allocated m x \<longrightarrow> tr_nodes m' x = tr_nodes m x) \<and> tr_states m' = tr_states m \<and> tr_tries m' = tr_tries m"
proof (induction k arbitrary: m c nl ps)
  case 0
  then show ?case by (intro exI [of _ m] exI [of _ nl] exI [of _ "[]"]) simp
next
  case (Suc k)
  obtain q m1 where al: "alloc_tn m = (q, m1)" "tr_fresh q m m1" "enough_mem k m1"
    "tr_nodes m1 = (tr_nodes m)(q \<mapsto> \<lparr>tn_first = NULL, tn_brother = NULL, tn_key = 0\<rparr>)"
    by (rule alloc_tn_enough [OF Suc.prems(1,2)])
  have q: "q \<noteq> NULL" "\<not> allocated m q" "tr_lists m1 l = Some nl" using al(2) Suc.prems(3) by (auto simp: tr_fresh_def)
  let ?n = "\<lparr>tn_first = NULL, tn_brother = nl_first nl, tn_key = 0\<rparr>"
  let ?nl = "nl\<lparr>nl_first := q, nl_counter := nl_counter nl + 1\<rparr>"
  let ?m2 = "set_nl l ?nl (set_tn q ?n m1)"
  have push: "tnode_push l q m1 = Ok ?m2" using tnode_push_links [OF q(3), of q] al(4) by simp
  have al2: "allocated ?m2 x \<longleftrightarrow> allocated m x \<or> x = q" for x using al(2) by (simp add: tr_fresh_def)
  have qps: "q \<notin> set ps" using q Suc.prems(5) by blast
  then have "pool_rep z (tr_nodes ?m2) (nl_first nl) ps"
    by (intro pool_rep_frame [OF Suc.prems(4)]) (use al(4) in auto)
  then have pool: "pool_rep z (tr_nodes ?m2) (nl_first ?nl) (q # ps)"
    using q(1) qps by (simp add: pool_rep_Cons)
  have "\<exists>m' nl' qs. trie_nodelist_new_elements_loop l k (c + 1) ?m2 = Ok (c + 1 + of_nat k, m') \<and> tr_lists m' l = Some nl' \<and>
     pool_rep z (tr_nodes m') (nl_first nl') (qs @ q # ps) \<and> length qs = k \<and> (\<forall>x\<in>set qs. \<not> allocated ?m2 x) \<and>
     (\<forall>x. allocated ?m2 x \<longrightarrow> tr_nodes m' x = tr_nodes ?m2 x) \<and> tr_states m' = tr_states ?m2 \<and> tr_tries m' = tr_tries ?m2"
    by (rule Suc.IH [OF _ _ _ pool]) (use al Suc.prems(5) al2 in \<open>auto simp: tr_fresh_def\<close>)
  then obtain m' nl' qs where run: "trie_nodelist_new_elements_loop l k (c + 1) ?m2 = Ok (c + 1 + of_nat k, m')"
    and r: "tr_lists m' l = Some nl'" "pool_rep z (tr_nodes m') (nl_first nl') (qs @ q # ps)" "length qs = k"
      "\<forall>x\<in>set qs. \<not> allocated ?m2 x" "\<forall>x. allocated ?m2 x \<longrightarrow> tr_nodes m' x = tr_nodes ?m2 x"
      "tr_states m' = tr_states ?m2" "tr_tries m' = tr_tries ?m2"
    by blast
  have "trie_nodelist_new_elements_loop l (Suc k) c m = Ok (c + of_nat (Suc k), m')"
    using al(1) q(1) push run by (simp add: add.assoc add.commute)
  moreover have "\<forall>x. allocated m x \<longrightarrow> tr_nodes m' x = tr_nodes m x" using r(5) al2 al(4) q(2) by auto
  ultimately show ?case using r q(2) al(2) al2
    by (intro exI [of _ m'] exI [of _ nl'] exI [of _ "qs @ [q]"]) (simp add: tr_fresh_def)
qed

lemma trie_entry_new:
  fixes m :: "'a tr_mem_scheme"
  assumes "heap_ok m" "enough_mem (Suc (Suc k)) m"
  obtains e root m' where "trie_new_trie_entry m = Ok (1, e, m')" "e \<noteq> NULL" "root \<noteq> NULL" "heap_ok m'" "enough_mem k m'"
    "allocated m' root" "m_junk m' = m_junk m" "tr_tries m' e = Some \<lparr>tr_root = root, tr_counter = 0\<rparr>"
    "tr_nodes m' = (tr_nodes m)(root \<mapsto> \<lparr>tn_first = NULL, tn_brother = NULL, tn_key = 0\<rparr>)"
    "tr_states m' = tr_states m"
proof -
  obtain e m1 where e: "aligned_malloc 16 LF_ALIGN_DOUBLE_POINTER m = (e, m1)" "tr_fresh e m m1"
    "tr_nodes m1 = tr_nodes m" "enough_mem (Suc k) m1"
    by (rule tr_malloc_enough [OF assms])
  then have "heap_ok m1" by (simp add: tr_fresh_def)
  then obtain q m2 where q: "alloc_tn m1 = (q, m2)" "tr_fresh q m1 m2" "enough_mem k m2"
    "tr_nodes m2 = (tr_nodes m1)(q \<mapsto> \<lparr>tn_first = NULL, tn_brother = NULL, tn_key = 0\<rparr>)"
    by (rule alloc_tn_enough [OF _ e(4)])
  show ?thesis
    by (rule that [of e "set_tr e \<lparr>tr_root = q, tr_counter = 0\<rparr> m2" q])
      (use e q in \<open>simp_all add: trie_new_trie_entry_def tr_fresh_def\<close>)
qed

lemma trie_nodelist_new:
  fixes m :: "'a tr_mem_scheme"
  assumes "heap_ok m" "enough_mem (Suc (unat num)) m"
  obtains l nl qs m' where "trie_new_nodelist num m = Ok (1, l, m')" "l \<noteq> NULL" "tr_lists m' l = Some nl"
    "pool_rep (m_junk m l) (tr_nodes m') (nl_first nl) qs" "length qs = unat num" "\<forall>x\<in>set qs. \<not> allocated m x"
    "\<forall>x. allocated m x \<longrightarrow> tr_nodes m' x = tr_nodes m x" "tr_states m' = tr_states m" "tr_tries m' = tr_tries m"
proof -
  obtain l m1 where l: "aligned_malloc 16 LF_ALIGN_DOUBLE_POINTER m = (l, m1)" "tr_fresh l m m1"
    "tr_nodes m1 = tr_nodes m" "enough_mem (unat num) m1"
    by (rule tr_malloc_enough [OF assms(1,2)])
  let ?nl = "\<lparr>nl_first = m_junk m l, nl_counter = m_junk m (l + 8)\<rparr>" and ?m2 = "\<lambda>nl. set_nl l nl m1"
  have f: "l \<noteq> NULL" "heap_ok m1" "\<And>x. allocated m x \<Longrightarrow> allocated m1 x" "tr_states m1 = tr_states m" "tr_tries m1 = tr_tries m"
    using l(2) by (simp_all add: tr_fresh_def)
  have "\<exists>m' nl' qs. trie_nodelist_new_elements_loop l (unat num) 0 (?m2 ?nl) = Ok (0 + of_nat (unat num), m') \<and>
     tr_lists m' l = Some nl' \<and> pool_rep (m_junk m l) (tr_nodes m') (nl_first nl') (qs @ []) \<and> length qs = unat num \<and>
     (\<forall>x\<in>set qs. \<not> allocated (?m2 ?nl) x) \<and> (\<forall>x. allocated (?m2 ?nl) x \<longrightarrow> tr_nodes m' x = tr_nodes (?m2 ?nl) x) \<and>
     tr_states m' = tr_states (?m2 ?nl) \<and> tr_tries m' = tr_tries (?m2 ?nl)"
    by (rule new_elements_pool [where nl = ?nl and ps = "[]"]) (use l f in simp_all)
  then obtain m' nl' qs where r: "trie_nodelist_new_elements_loop l (unat num) 0 (?m2 ?nl) = Ok (num, m')"
     "tr_lists m' l = Some nl'" "pool_rep (m_junk m l) (tr_nodes m') (nl_first nl') qs" "length qs = unat num"
     "\<forall>x\<in>set qs. \<not> allocated m1 x" "\<forall>x. allocated m1 x \<longrightarrow> tr_nodes m' x = tr_nodes m x"
     "tr_states m' = tr_states m" "tr_tries m' = tr_tries m"
    using l(3) f(4,5) by auto
  show ?thesis
    by (rule that [of l m' nl' qs]) (use l r f in \<open>auto simp: trie_new_nodelist_def trie_nodelist_new_elements_def\<close>)
qed

lemma trie_new_inv:
  fixes m :: "'a tr_mem_scheme"
  assumes "heap_ok m" "enough_mem (unat num + 4) m"
  shows "\<exists>ts q m'. trie_new num m = Ok (1, ts, m') \<and> trie_inv (m_junk m q) ts {[]} (unat num) m'"
proof -
  have "enough_mem (Suc (unat num + 3)) m" using assms(2) by (simp add: numeral_eq_Suc)
  then obtain ts m1 where ts: "aligned_malloc 24 LF_ALIGN_DOUBLE_POINTER m = (ts, m1)" "tr_fresh ts m m1"
    "tr_nodes m1 = tr_nodes m" "enough_mem (unat num + 3) m1"
    by (rule tr_malloc_enough [OF assms(1)])
  define s where "s = \<lparr>ts_list = m_junk m ts, ts_entry = m_junk m (ts + 8), ts_init_counter = num\<rparr>"
  have "heap_ok (set_ts ts s m1)" "enough_mem (Suc (Suc (Suc (unat num)))) (set_ts ts s m1)"
    using ts by (simp_all add: tr_fresh_def numeral_eq_Suc)
  from trie_entry_new [OF this] obtain e root m2 where e: "trie_new_trie_entry (set_ts ts s m1) = Ok (1, e, m2)"
    "e \<noteq> NULL" "root \<noteq> NULL" "heap_ok m2" "enough_mem (Suc (unat num)) m2" "allocated m2 root" "m_junk m2 = m_junk m1"
    "tr_tries m2 e = Some \<lparr>tr_root = root, tr_counter = 0\<rparr>"
    "tr_nodes m2 = (tr_nodes m1)(root \<mapsto> \<lparr>tn_first = NULL, tn_brother = NULL, tn_key = 0\<rparr>)"
    "tr_states m2 = (tr_states m1)(ts \<mapsto> s)"
    by (metis tr_set_base(12) tr_set_simps(13,16))
  let ?m2 = "set_ts ts (s\<lparr>ts_entry := e\<rparr>) m2"
  have "heap_ok ?m2" "enough_mem (Suc (unat num)) ?m2" "m_junk ?m2 = m_junk m"
    using e ts by (simp_all add: tr_fresh_def)
  from trie_nodelist_new [OF this(1,2), unfolded this(3)] obtain l nl qs m3 where l: "trie_new_nodelist num ?m2 = Ok (1, l, m3)" "l \<noteq> NULL"
    "tr_lists m3 l = Some nl" "pool_rep (m_junk m l) (tr_nodes m3) (nl_first nl) qs" "length qs = unat num"
    "\<forall>x\<in>set qs. \<not> allocated ?m2 x" "\<forall>x. allocated ?m2 x \<longrightarrow> tr_nodes m3 x = tr_nodes ?m2 x"
    "tr_tries m3 = tr_tries ?m2" "tr_states m3 = tr_states ?m2"
    by metis
  let ?m3 = "set_ts ts (s\<lparr>ts_entry := e, ts_list := l\<rparr>) m3"
  have "ts \<noteq> NULL" using ts(2) by (simp add: tr_fresh_def)
  then have run: "trie_new num m = Ok (1, ts, ?m3)"
    using ts(1) e(1,2) l(1,2) by (simp add: trie_new_def Let_def flip: s_def)
  have root: "tr_nodes m3 root = Some \<lparr>tn_first = NULL, tn_brother = NULL, tn_key = 0\<rparr>" "root \<notin> set qs"
    using l(6,7) e(6,9) by auto
  have "trie_at (m_junk m l) ts root {root} (\<lambda>_. []) qs ?m3"
    using root e(3,8) l by (auto simp: trie_at_def trie_rep_def trie_shape_def)
  moreover have "{w. trie_walk ?m3 root (\<lambda>_. []) w \<noteq> None} = {[]}"
  proof -
    have "trie_walk ?m3 root (\<lambda>_. []) w = None" if "w \<noteq> []" for w using that by (cases w) (simp_all add: kid_def)
    then show ?thesis by (auto simp del: not_None_eq) (metis option.distinct(1) walk.simps(1))
  qed
  ultimately have "trie_inv (m_junk m l) ts {[]} (unat num) ?m3" using l(5) unfolding trie_inv_def by metis
  then show ?thesis using run by blast
qed

section \<open>Sequences of operations\<close>

datatype trie_op = TInsert "u8 list" | TSearch "u8 list"

fun trie_run :: "addr \<Rightarrow> trie_op list \<Rightarrow> 'a tr_mem_scheme \<Rightarrow> (u64 list \<times> 'a tr_mem_scheme) res" where
  "trie_run ts [] m = Ok ([], m)"
| "trie_run ts (TInsert w # ops) m =
     call (lf_trie_insert_real_data ts w m) (\<lambda>(rv, m1). call (trie_run ts ops m1) (\<lambda>(rvs, m2). Ok (rv # rvs, m2)))"
| "trie_run ts (TSearch w # ops) m =
     call (lf_trie_search_real_data ts w m) (\<lambda>rv. call (trie_run ts ops m) (\<lambda>(rvs, m2). Ok (rv # rvs, m2)))"

fun trie_spec :: "trie_op list \<Rightarrow> u8 list set \<Rightarrow> nat \<Rightarrow> u64 list" where
  "trie_spec [] S n = []"
| "trie_spec (TInsert w # ops) S n = (case spec_insert w S n of (rv, S', n') \<Rightarrow> rv # trie_spec ops S' n')"
| "trie_spec (TSearch w # ops) S n = spec_search w S # trie_spec ops S n"

lemma trie_run_refines:
  "trie_inv z ts S n m \<Longrightarrow> TRIE_INSERT_ERROR \<notin> set (trie_spec ops S n) \<or> z = NULL \<Longrightarrow> \<exists>m'. trie_run ts ops m = Ok (trie_spec ops S n, m')"
proof (induction ops arbitrary: S n m)
  case (Cons op ops)
  show ?case
  proof (cases op)
    case (TInsert w)
    have "fst (spec_insert w S n) \<noteq> TRIE_INSERT_ERROR \<or> z = NULL"
      using Cons.prems(2) TInsert by (cases "spec_insert w S n") auto
    from trie_insert_refines [OF Cons.prems(1) this] obtain rv S' n' m1
      where "lf_trie_insert_real_data ts w m = Ok (rv, m1)" "trie_inv z ts S' n' m1" "spec_insert w S n = (rv, S', n')"
      by blast
    with Cons.IH [of S' n' m1] Cons.prems(2) TInsert show ?thesis by auto
  next
    case (TSearch w)
    with Cons.IH [OF Cons.prems(1)] Cons.prems(2) trie_search_refines [OF Cons.prems(1), of w] show ?thesis by auto
  qed
qed simp

text \<open>A list whose head is not initialised: the first node taken is the word found in fresh memory.\<close>

lemma trie_insert_wild_head:
  assumes st: "tr_states m ts = Some s" "tr_tries m (ts_entry s) = Some t" "tr_nodes m (tr_root t) = Some n"
    and root: "tr_root t \<noteq> NULL" "tn_first n = NULL" and l: "ts_list s \<noteq> NULL" "tr_lists m (ts_list s) = Some nl"
    and j: "nl_first nl \<noteq> NULL" "tr_nodes m (nl_first nl) = None"
  shows "lf_trie_insert_real_data ts (c # w) m = Fault BadDeref"
proof -
  have "trie_descend (tr_root t) NULL (tr_root t) NULL (c # w) m = Ok (NULL, tr_root t, tr_root t, NULL, c # w)"
    using st root by (simp add: get_subnode_by_label_def)
  moreover have "tnode_pop (ts_list s) m = Fault BadDeref"
    using l j by (simp add: tnode_pop_def tnode_pop_body_def)
  ultimately show ?thesis using st by (simp add: lf_trie_insert_real_data_def lf_trie_insert_node_def)
qed

lemma trie_new_empty_list:
  fixes m :: "'a tr_mem_scheme"
  assumes "heap_ok m" "enough_mem 4 m" "\<not> good_block (j - 16)" "tr_nodes m j = None" "\<forall>q. m_junk m q = j"
  obtains ts s t n nl m' where "trie_new 0 m = Ok (1, ts, m')" "tr_states m' ts = Some s" "tr_tries m' (ts_entry s) = Some t"
    "tr_nodes m' (tr_root t) = Some n" "tr_root t \<noteq> NULL" "tn_first n = NULL" "ts_list s \<noteq> NULL"
    "tr_lists m' (ts_list s) = Some nl" "nl_first nl = j" "tr_nodes m' j = None"
proof -
  have "enough_mem (Suc 3) m" using assms(2) by (simp add: numeral_eq_Suc)
  then obtain ts m1 where ts: "aligned_malloc 24 LF_ALIGN_DOUBLE_POINTER m = (ts, m1)" "tr_fresh ts m m1"
    "tr_nodes m1 = tr_nodes m" "enough_mem 3 m1"
    by (rule tr_malloc_enough [OF assms(1)])
  define s where "s = \<lparr>ts_list = m_junk m ts, ts_entry = m_junk m (ts + 8), ts_init_counter = (0 :: u64)\<rparr>"
  have "heap_ok (set_ts ts s m1)" "enough_mem (Suc (Suc 1)) (set_ts ts s m1)"
    using ts by (simp_all add: tr_fresh_def numeral_eq_Suc)
  from trie_entry_new [OF this] obtain e root m2 where e: "trie_new_trie_entry (set_ts ts s m1) = Ok (1, e, m2)"
    "e \<noteq> NULL" "root \<noteq> NULL" "heap_ok m2" "enough_mem 1 m2" "allocated m2 root" "m_junk m2 = m_junk m1"
    "tr_tries m2 e = Some \<lparr>tr_root = root, tr_counter = 0\<rparr>"
    "tr_nodes m2 = (tr_nodes m1)(root \<mapsto> \<lparr>tn_first = NULL, tn_brother = NULL, tn_key = 0\<rparr>)"
    by (metis tr_set_base(12) tr_set_simps(13))
  let ?m2 = "set_ts ts (s\<lparr>ts_entry := e\<rparr>) m2"
  have "heap_ok ?m2" "enough_mem (Suc 0) ?m2" using e by simp_all
  then obtain l m3 where l: "aligned_malloc 16 LF_ALIGN_DOUBLE_POINTER ?m2 = (l, m3)" "tr_fresh l ?m2 m3"
    "tr_nodes m3 = tr_nodes ?m2" by (rule tr_malloc_enough)
  have nn: "ts \<noteq> NULL" "l \<noteq> NULL" "m_junk ?m2 l = j" using ts(2) l(2) e(7) assms(5) by (simp_all add: tr_fresh_def)
  have "trie_new_nodelist 0 ?m2 = Ok (1, l, set_nl l \<lparr>nl_first = m_junk ?m2 l, nl_counter = m_junk ?m2 (l + 8)\<rparr> m3)"
    using l(1) nn by (simp add: trie_new_nodelist_def trie_nodelist_new_elements_def Let_def)
  then have run: "trie_new 0 m = Ok (1, ts, set_ts ts (s\<lparr>ts_entry := e, ts_list := l\<rparr>)
      (set_nl l \<lparr>nl_first = m_junk ?m2 l, nl_counter = m_junk ?m2 (l + 8)\<rparr> m3))"
    using ts(1) nn e(1,2) by (simp add: trie_new_def Let_def flip: s_def)
  have "root \<noteq> j" using e(6) assms(3) by (auto simp: allocated_def)
  then show ?thesis using e l ts nn assms(4)
    by (intro that [OF run, of "s\<lparr>ts_entry := e, ts_list := l\<rparr>" "\<lparr>tr_root = root, tr_counter = 0\<rparr>"
          "\<lparr>tn_first = NULL, tn_brother = NULL, tn_key = 0\<rparr>"
          "\<lparr>nl_first = m_junk ?m2 l, nl_counter = m_junk ?m2 (l + 8)\<rparr>"])
      (simp_all add: tr_fresh_def)
qed

section \<open>Properties\<close>

definition tr_demo :: "u64 \<Rightarrow> tr_mem" where
  "tr_demo j = \<lparr>m_script = [64, 128, 192, 256, 320, 384, 448], m_live = [], m_hdr = (\<lambda>_. None), m_junk = (\<lambda>_. j),
     tr_nodes = (\<lambda>_. None), tr_tries = (\<lambda>_. None), tr_lists = (\<lambda>_. None), tr_states = (\<lambda>_. None)\<rparr>"

lemma tr_demo_enough: "heap_ok (tr_demo j) \<and> enough_mem 4 (tr_demo j) \<and> enough_mem 7 (tr_demo j)"
  by (simp add: tr_demo_def heap_ok_def good_block_def)

text \<open>
  C25. A trie made by \<open>trie_new\<close> behaves as a set of words under any sequence of
  \<open>lf_trie_insert_real_data\<close> and \<open>lf_trie_search_real_data\<close> whose insertions find enough
  spare nodes, whatever fresh memory contains: every call returns, and the values returned are
  those of the specification. Inserting a word adds all its prefixes, each new one at the cost
  of a spare node; it reports a duplicate exactly for a word in the set, so also for a prefix
  of a word that was inserted. The search succeeds exactly on the set. When fresh memory is
  zero, this also holds of insertions that run out of spare nodes: they report an error and keep
  the prefixes added so far.
\<close>

theorem trie_sequences:
  fixes m :: "'a tr_mem_scheme"
  assumes "heap_ok m" and "enough_mem (unat num + 4) m"
    and "TRIE_INSERT_ERROR \<notin> set (trie_spec ops {[]} (unat num)) \<or> (\<forall>q. m_junk m q = 0)"
  shows "\<exists>ts m1 m2. trie_new num m = Ok (1, ts, m1) \<and>
    trie_run ts ops m1 = Ok (trie_spec ops {[]} (unat num), m2)"
proof -
  obtain ts q m1 where new: "trie_new num m = Ok (1, ts, m1)" "trie_inv (m_junk m q) ts {[]} (unat num) m1"
    using trie_new_inv [OF assms(1,2)] by blast
  have "TRIE_INSERT_ERROR \<notin> set (trie_spec ops {[]} (unat num)) \<or> m_junk m q = NULL"
    using assms(3) by auto
  then show ?thesis using trie_run_refines [OF new(2)] new(1) by blast
qed

theorem trie_sequences_witness:
  "(\<exists>ts m1 m2. trie_new 3 (tr_demo 1) = Ok (1, ts, m1) \<and>
    trie_run ts [TInsert [7, 5], TSearch [7], TInsert [7, 2], TSearch [7, 2], TSearch [7, 2, 9], TInsert [7]] m1 =
      Ok ([1, 1, 1, 1, 2, 2], m2)) \<and>
   (\<exists>ts m1 m2. trie_new 3 (tr_demo 0) = Ok (1, ts, m1) \<and>
    trie_run ts [TInsert [7, 5], TInsert [7, 2, 9], TSearch [7, 2]] m1 = Ok ([1, 3, 1], m2))"
proof
  note specs = spec_insert_def spec_search_def TRIE_INSERT_SUCCESS_def TRIE_INSERT_ERROR_def
    TRIE_INSERT_DUPLICATION_def TRIE_SEARCH_SUCCESS_def TRIE_SEARCH_ERROR_def
  have mem: "heap_ok (tr_demo j)" "enough_mem (unat (3 :: u64) + 4) (tr_demo j)" for j
    using tr_demo_enough [of j] by simp_all
  let ?ops = "[TInsert [7, 5], TSearch [7], TInsert [7, 2], TSearch [7, 2], TSearch [7, 2, 9], TInsert [7]]"
  have "trie_spec ?ops {[]} (unat (3 :: u64)) = [1, 1, 1, 1, 2, 2]" by (simp add: specs)
  then show "\<exists>ts m1 m2. trie_new 3 (tr_demo 1) = Ok (1, ts, m1) \<and> trie_run ts ?ops m1 = Ok ([1, 1, 1, 1, 2, 2], m2)"
    using trie_sequences [OF mem, of ?ops 1] by (simp add: TRIE_INSERT_ERROR_def)
  let ?ops' = "[TInsert [7, 5], TInsert [7, 2, 9], TSearch [7, 2]]"
  have "trie_spec ?ops' {[]} (unat (3 :: u64)) = [1, 3, 1]" by (simp add: specs)
  moreover have "\<forall>q. m_junk (tr_demo 0) q = 0" by (simp add: tr_demo_def)
  ultimately show "\<exists>ts m1 m2. trie_new 3 (tr_demo 0) = Ok (1, ts, m1) \<and> trie_run ts ?ops' m1 = Ok ([1, 3, 1], m2)"
    using trie_sequences [OF mem, of ?ops' 0] by simp
qed

text \<open>
  C26. \<open>trie_new_nodelist\<close> does not initialise the head of the node list. When fresh memory
  holds a word \<open>j\<close> other than 0 that is not the address of a node, a trie without spare nodes
  does not report that it is full: the first insertion takes \<open>j\<close> for a node and dereferences it.
\<close>

theorem trie_wild_head:
  fixes m :: "'a tr_mem_scheme"
  assumes "heap_ok m" and "enough_mem 4 m" and "\<forall>q. m_junk m q = j" and "j \<noteq> 0"
    and "\<not> good_block (j - 16)" and "tr_nodes m j = None"
  shows "\<exists>ts m1. trie_new 0 m = Ok (1, ts, m1) \<and> lf_trie_insert_real_data ts (c # w) m1 = Fault BadDeref"
proof -
  obtain ts s t n nl m' where "trie_new 0 m = Ok (1, ts, m')" "tr_states m' ts = Some s" "tr_tries m' (ts_entry s) = Some t"
    "tr_nodes m' (tr_root t) = Some n" "tr_root t \<noteq> NULL" "tn_first n = NULL" "ts_list s \<noteq> NULL"
    "tr_lists m' (ts_list s) = Some nl" "nl_first nl = j" "tr_nodes m' j = None"
    by (rule trie_new_empty_list [OF assms(1,2,5,6,3)])
  then show ?thesis using trie_insert_wild_head assms(4) by blast
qed

theorem trie_wild_head_witness:
  "\<exists>ts m1. trie_new 0 (tr_demo 1) = Ok (1, ts, m1) \<and> lf_trie_insert_real_data ts [7, 5] m1 = Fault BadDeref"
  using trie_wild_head [of "tr_demo 1" 1 7 "[5]"] tr_demo_enough [of 1] by (simp add: tr_demo_def good_block_def)

end
