(* ===== verification/Hashmap.thy ===== *)
theory Hashmap
  imports CMem
begin

text \<open>
  advance/lf_hashmap.c and lf_hashmap.h: a hash map of fixed size. A bucket is a list of items
  between a head and an end item, in ascending order of the keys; an item points to its data.
  Spare items and spare data come from two lists made in advance. Every function of the file
  as it runs without interference; output to the terminal is left out.

  \<open>int\<close> values are 32-bit words, read as signed numbers with \<open>sint\<close> and widened with \<open>scast\<close>.
  A parameter that points to a local variable of the caller is passed by value and returned.
  A pointer to one of the functions of the file is the function itself, or \<open>None\<close> for NULL.
\<close>

section \<open>Data\<close>


record hash_data =
  hd_next :: addr
  hd_key :: u64
  hd_val :: u64

record hash_item =
  hi_next :: addr
  hi_data :: addr
  hi_type :: i32

record data_list =
  dl_hd :: addr
  dl_count :: u64

record hash =
  h_bucket_max :: i32
  h_bucket_mask :: u64
  h_table :: addr
  h_hl :: addr
  h_dl :: addr

record hash_list =
  hl_he :: addr
  hl_num :: u64

record hm_mem = c_mem +
  hm_items :: "addr \<Rightarrow> hash_item option"
  hm_datas :: "addr \<Rightarrow> hash_data option"
  hm_tables :: "addr \<Rightarrow> addr list option"
  hm_hashes :: "addr \<Rightarrow> hash option"
  hm_hls :: "addr \<Rightarrow> hash_list option"
  hm_dls :: "addr \<Rightarrow> data_list option"

definition MAX_HASH_LIST_NUM :: u64 where "MAX_HASH_LIST_NUM = 30000000"
definition MAX_HASH_DATA_NUM :: u64 where "MAX_HASH_DATA_NUM = 30000000"
definition HASH_MAP_NODE_EXIST :: u64 where "HASH_MAP_NODE_EXIST = 0"
definition HASH_MAP_NODE_ADD :: u64 where "HASH_MAP_NODE_ADD = 1"
definition HASH_MAP_NODE_REPLACE :: u64 where "HASH_MAP_NODE_REPLACE = 2"
definition HEAD_NODE :: i32 where "HEAD_NODE = 1"
definition I_NODE :: i32 where "I_NODE = 2"
definition END_NODE :: i32 where "END_NODE = 3"
definition HASH_MAP_SEARCH_FAIL :: i32 where "HASH_MAP_SEARCH_FAIL = 0"
definition HASH_MAP_SEARCH_SUCC :: i32 where "HASH_MAP_SEARCH_SUCC = 1"

definition set_hi :: "addr \<Rightarrow> hash_item \<Rightarrow> 'a hm_mem_scheme \<Rightarrow> 'a hm_mem_scheme" where
  "set_hi p x m = m\<lparr>hm_items := (hm_items m)(p \<mapsto> x)\<rparr>"

definition set_hd :: "addr \<Rightarrow> hash_data \<Rightarrow> 'a hm_mem_scheme \<Rightarrow> 'a hm_mem_scheme" where
  "set_hd p x m = m\<lparr>hm_datas := (hm_datas m)(p \<mapsto> x)\<rparr>"

definition set_tb :: "addr \<Rightarrow> addr list \<Rightarrow> 'a hm_mem_scheme \<Rightarrow> 'a hm_mem_scheme" where
  "set_tb p x m = m\<lparr>hm_tables := (hm_tables m)(p \<mapsto> x)\<rparr>"

definition set_ha :: "addr \<Rightarrow> hash \<Rightarrow> 'a hm_mem_scheme \<Rightarrow> 'a hm_mem_scheme" where
  "set_ha p x m = m\<lparr>hm_hashes := (hm_hashes m)(p \<mapsto> x)\<rparr>"

definition set_hl :: "addr \<Rightarrow> hash_list \<Rightarrow> 'a hm_mem_scheme \<Rightarrow> 'a hm_mem_scheme" where
  "set_hl p x m = m\<lparr>hm_hls := (hm_hls m)(p \<mapsto> x)\<rparr>"

definition set_dl :: "addr \<Rightarrow> data_list \<Rightarrow> 'a hm_mem_scheme \<Rightarrow> 'a hm_mem_scheme" where
  "set_dl p x m = m\<lparr>hm_dls := (hm_dls m)(p \<mapsto> x)\<rparr>"

definition free_hi :: "addr \<Rightarrow> 'a hm_mem_scheme \<Rightarrow> 'a hm_mem_scheme res" where
  "free_hi p m = call (aligned_free p m) (\<lambda>m'. Ok (m'\<lparr>hm_items := (hm_items m')(p := None)\<rparr>))"

definition free_hd :: "addr \<Rightarrow> 'a hm_mem_scheme \<Rightarrow> 'a hm_mem_scheme res" where
  "free_hd p m = call (aligned_free p m) (\<lambda>m'. Ok (m'\<lparr>hm_datas := (hm_datas m')(p := None)\<rparr>))"

definition free_ha :: "addr \<Rightarrow> 'a hm_mem_scheme \<Rightarrow> 'a hm_mem_scheme res" where
  "free_ha p m = call (aligned_free p m) (\<lambda>m'. Ok (m'\<lparr>hm_hashes := (hm_hashes m')(p := None)\<rparr>))"

definition free_hl :: "addr \<Rightarrow> 'a hm_mem_scheme \<Rightarrow> 'a hm_mem_scheme res" where
  "free_hl p m = call (aligned_free p m) (\<lambda>m'. Ok (m'\<lparr>hm_hls := (hm_hls m')(p := None)\<rparr>))"

definition free_dl :: "addr \<Rightarrow> 'a hm_mem_scheme \<Rightarrow> 'a hm_mem_scheme res" where
  "free_dl p m = call (aligned_free p m) (\<lambda>m'. Ok (m'\<lparr>hm_dls := (hm_dls m')(p := None)\<rparr>))"

text \<open>New structs, with indeterminate contents.\<close>

definition alloc_hi :: "'a hm_mem_scheme \<Rightarrow> addr \<times> 'a hm_mem_scheme" where
  "alloc_hi m = (case aligned_malloc 24 LF_ALIGN_DOUBLE_POINTER m of (q, m') \<Rightarrow>
     if q = NULL then (NULL, m')
     else (q, set_hi q \<lparr>hi_next = m_junk m q, hi_data = m_junk m (q + 8), hi_type = ucast (m_junk m (q + 16))\<rparr> m'))"

definition alloc_hd :: "'a hm_mem_scheme \<Rightarrow> addr \<times> 'a hm_mem_scheme" where
  "alloc_hd m = (case aligned_malloc 24 LF_ALIGN_DOUBLE_POINTER m of (q, m') \<Rightarrow>
     if q = NULL then (NULL, m')
     else (q, set_hd q \<lparr>hd_next = m_junk m q, hd_key = m_junk m (q + 8), hd_val = m_junk m (q + 16)\<rparr> m'))"

text \<open>\<open>h->table[i]\<close> for an \<open>int\<close> index.\<close>

definition table_at :: "addr \<Rightarrow> i32 \<Rightarrow> 'a hm_mem_scheme \<Rightarrow> (addr \<Rightarrow> 'b res) \<Rightarrow> 'b res" where
  "table_at t i m k = deref (hm_tables m) t (\<lambda>xs.
     if 0 \<le> sint i \<and> sint i < int (length xs) then k (xs ! nat (sint i)) else Fault BadDeref)"

section \<open>The list of spare items\<close>

definition init_hashlist :: "addr \<Rightarrow> 'a hm_mem_scheme \<Rightarrow> (u64 \<times> 'a hm_mem_scheme) res" where
  "init_hashlist hl m =
     c_assert (hl \<noteq> NULL)
       (case alloc_hi m of (he, m1) \<Rightarrow>
        deref (hm_hls m1) hl (\<lambda>l.
          if he \<noteq> NULL then Ok (1, set_hl hl (l\<lparr>hl_he := he, hl_num := 1\<rparr>) m1)
          else Ok (0, set_hl hl (l\<lparr>hl_he := NULL\<rparr>) m1)))"

definition hashlist_internal_new_element :: "addr \<Rightarrow> 'a hm_mem_scheme \<Rightarrow> (u64 \<times> addr \<times> 'a hm_mem_scheme) res" where
  "hashlist_internal_new_element hl m =
     c_assert (hl \<noteq> NULL)
       (case alloc_hi m of (he, m1) \<Rightarrow>
          if he \<noteq> NULL then
            deref (hm_hls m1) hl (\<lambda>l.
            let m2 = set_hl hl (l\<lparr>hl_num := abstraction_increment (hl_num l)\<rparr>) m1 in
            deref (hm_items m2) he (\<lambda>x. Ok (1, he, set_hi he (x\<lparr>hi_type := I_NODE\<rparr>) m2)))
          else Ok (0, NULL, m1))"

definition hashlist_push_body ::
  "addr \<Rightarrow> addr \<Rightarrow> addr \<times> 'a hm_mem_scheme \<Rightarrow> (addr \<times> 'a hm_mem_scheme, 'a hm_mem_scheme) ctl res" where
  "hashlist_push_body hl he = (\<lambda>(he_original, m).
     deref (hm_items m) he (\<lambda>x.
     let m1 = set_hi he (x\<lparr>hi_next := he_original\<rparr>) m in
     deref (hm_hls m1) hl (\<lambda>l.
       case abstraction_cas (hl_he l) he he_original of (rv, he') \<Rightarrow>
         let m2 = set_hl hl (l\<lparr>hl_he := he'\<rparr>) m1 in
         if he_original \<noteq> rv then Ok (Again (rv, m2)) else Ok (Done m2))))"

definition hashlist_push :: "addr \<Rightarrow> addr \<Rightarrow> 'a hm_mem_scheme \<Rightarrow> 'a hm_mem_scheme res" where
  "hashlist_push hl he m = deref (hm_hls m) hl (\<lambda>l. cloop (hashlist_push_body hl he) (hl_he l, m))"

text \<open>\<open>hashlist_pop\<close>: returns the item (also \<open>*he\<close>), \<open>*retry\<close> and the memory.\<close>

definition hashlist_pop_body ::
  "addr \<Rightarrow> addr \<times> u64 \<times> 'a hm_mem_scheme \<Rightarrow>
     (addr \<times> u64 \<times> 'a hm_mem_scheme, addr \<times> u64 \<times> 'a hm_mem_scheme) ctl res" where
  "hashlist_pop_body hl = (\<lambda>(he_local, retry, m).
     if he_local = NULL then Ok (Done (NULL, retry, m))
     else deref (hm_items m) he_local (\<lambda>x.
       if hi_next x = NULL then Ok (Done (NULL, retry, m))
       else deref (hm_hls m) hl (\<lambda>l.
         case abstraction_cas (hl_he l) (hi_next x) he_local of (rv, he') \<Rightarrow>
           let m1 = set_hl hl (l\<lparr>hl_he := he'\<rparr>) m in
           if he_local \<noteq> rv then Ok (Again (rv, retry + 1, m1)) else Ok (Done (rv, retry + 1, m1)))))"

definition hashlist_pop :: "addr \<Rightarrow> u64 \<Rightarrow> 'a hm_mem_scheme \<Rightarrow> (addr \<times> u64 \<times> 'a hm_mem_scheme) res" where
  "hashlist_pop hl retry m =
     c_assert (hl \<noteq> NULL)
       (deref (hm_hls m) hl (\<lambda>l.
        call (cloop (hashlist_pop_body hl) (hl_he l, retry, m)) (\<lambda>(he, retry1, m1).
          if he = NULL then Ok (NULL, retry1, m1)
          else deref (hm_hls m1) hl (\<lambda>l1.
            Ok (he, retry1, set_hl hl (l1\<lparr>hl_num := abstraction_sub (hl_num l1)\<rparr>) m1)))))"

text \<open>\<open>hash_new_element\<close>: returns \<open>(rv, *hl, m)\<close>.\<close>

fun hash_new_element_loop :: "addr \<Rightarrow> nat \<Rightarrow> u64 \<Rightarrow> 'a hm_mem_scheme \<Rightarrow> (u64 \<times> 'a hm_mem_scheme) res" where
  "hash_new_element_loop hl 0 count m = Ok (count, m)"
| "hash_new_element_loop hl (Suc n) count m =
     call (hashlist_internal_new_element hl m) (\<lambda>(rv, he, m1).
       if rv \<noteq> 0 then call (hashlist_push hl he m1) (\<lambda>m2. hash_new_element_loop hl n (count + 1) m2)
       else hash_new_element_loop hl n count m1)"

definition hash_new_element :: "u64 \<Rightarrow> 'a hm_mem_scheme \<Rightarrow> (u64 \<times> addr \<times> 'a hm_mem_scheme) res" where
  "hash_new_element number_elements m =
     (case aligned_malloc 16 LF_ALIGN_DOUBLE_POINTER m of (hl, m1) \<Rightarrow>
      let m2 = (if hl = NULL then m1 else set_hl hl \<lparr>hl_he = m_junk m hl, hl_num = m_junk m (hl + 8)\<rparr> m1) in
      call (init_hashlist hl m2) (\<lambda>(rv, m3).
        if rv = 0 then Ok (0, hl, m3)
        else
          call (hash_new_element_loop hl (unat number_elements) 0 m3) (\<lambda>(count, m4).
            if number_elements = count then Ok (1, hl, m4)
            else call (free_hl hl m4) (\<lambda>m5. Ok (0, NULL, m5)))))"

section \<open>The list of spare data\<close>

definition init_datalist :: "addr \<Rightarrow> 'a hm_mem_scheme \<Rightarrow> (u64 \<times> 'a hm_mem_scheme) res" where
  "init_datalist dl m =
     c_assert (dl \<noteq> NULL)
       (case alloc_hd m of (hdata, m1) \<Rightarrow>
        deref (hm_dls m1) dl (\<lambda>l.
          if hdata \<noteq> NULL then Ok (1, set_dl dl (l\<lparr>dl_hd := hdata, dl_count := 1\<rparr>) m1)
          else Ok (0, set_dl dl (l\<lparr>dl_hd := NULL\<rparr>) m1)))"

text \<open>The test after the allocation is on \<open>hd\<close>, not on \<open>*hd\<close>: it never fails.\<close>

definition hashlist_internal_new_data :: "addr \<Rightarrow> u64 \<Rightarrow> 'a hm_mem_scheme \<Rightarrow> (u64 \<times> addr \<times> 'a hm_mem_scheme) res" where
  "hashlist_internal_new_data dl count m =
     c_assert (dl \<noteq> NULL)
       (case alloc_hd m of (hdata, m1) \<Rightarrow>
        deref (hm_datas m1) hdata (\<lambda>x.
        let m2 = set_hd hdata (x\<lparr>hd_key := count, hd_val := count\<rparr>) m1 in
        deref (hm_dls m2) dl (\<lambda>l.
          Ok (1, hdata, set_dl dl (l\<lparr>dl_count := abstraction_increment (dl_count l)\<rparr>) m2))))"

definition datalist_push_body ::
  "addr \<Rightarrow> addr \<Rightarrow> addr \<times> 'a hm_mem_scheme \<Rightarrow> (addr \<times> 'a hm_mem_scheme, 'a hm_mem_scheme) ctl res" where
  "datalist_push_body dl hdata = (\<lambda>(hd_original, m).
     deref (hm_datas m) hdata (\<lambda>x.
     let m1 = set_hd hdata (x\<lparr>hd_next := hd_original\<rparr>) m in
     deref (hm_dls m1) dl (\<lambda>l.
       case abstraction_cas (dl_hd l) hdata hd_original of (rv, hdata') \<Rightarrow>
         let m2 = set_dl dl (l\<lparr>dl_hd := hdata'\<rparr>) m1 in
         if hd_original \<noteq> rv then Ok (Again (rv, m2)) else Ok (Done m2))))"

definition datalist_push :: "addr \<Rightarrow> addr \<Rightarrow> 'a hm_mem_scheme \<Rightarrow> 'a hm_mem_scheme res" where
  "datalist_push dl hdata m = deref (hm_dls m) dl (\<lambda>l. cloop (datalist_push_body dl hdata) (dl_hd l, m))"

definition datalist_pop_body ::
  "addr \<Rightarrow> addr \<times> u64 \<times> 'a hm_mem_scheme \<Rightarrow>
     (addr \<times> u64 \<times> 'a hm_mem_scheme, addr \<times> u64 \<times> 'a hm_mem_scheme) ctl res" where
  "datalist_pop_body dl = (\<lambda>(hd_local, retry, m).
     deref (hm_datas m) hd_local (\<lambda>x.
       if hd_next x = NULL then Ok (Done (NULL, retry, m))
       else deref (hm_dls m) dl (\<lambda>l.
         case abstraction_cas (dl_hd l) (hd_next x) hd_local of (rv, hdata') \<Rightarrow>
           let m1 = set_dl dl (l\<lparr>dl_hd := hdata'\<rparr>) m in
           if hd_local \<noteq> rv then Ok (Again (rv, retry + 1, m1)) else Ok (Done (rv, retry + 1, m1)))))"

definition datalist_pop :: "addr \<Rightarrow> u64 \<Rightarrow> 'a hm_mem_scheme \<Rightarrow> (addr \<times> u64 \<times> 'a hm_mem_scheme) res" where
  "datalist_pop dl retry m =
     c_assert (dl \<noteq> NULL)
       (deref (hm_dls m) dl (\<lambda>l.
        call (cloop (datalist_pop_body dl) (dl_hd l, retry, m)) (\<lambda>(hdata, retry1, m1).
          if hdata = NULL then Ok (NULL, retry1, m1)
          else deref (hm_dls m1) dl (\<lambda>l1.
            Ok (hdata, retry1, set_dl dl (l1\<lparr>dl_count := abstraction_sub (dl_count l1)\<rparr>) m1)))))"

fun hash_new_data_loop :: "addr \<Rightarrow> nat \<Rightarrow> u64 \<Rightarrow> 'a hm_mem_scheme \<Rightarrow> (u64 \<times> 'a hm_mem_scheme) res" where
  "hash_new_data_loop dl 0 count m = Ok (count, m)"
| "hash_new_data_loop dl (Suc n) count m =
     call (hashlist_internal_new_data dl count m) (\<lambda>(rv, hdata, m1).
       if rv \<noteq> 0 then
         deref (hm_datas m1) hdata (\<lambda>x.
         call (datalist_push dl hdata (set_hd hdata (x\<lparr>hd_val := count\<rparr>) m1)) (\<lambda>m2.
           hash_new_data_loop dl n (count + 1) m2))
       else hash_new_data_loop dl n count m1)"

definition hash_new_data_list :: "u64 \<Rightarrow> 'a hm_mem_scheme \<Rightarrow> (u64 \<times> addr \<times> 'a hm_mem_scheme) res" where
  "hash_new_data_list data_count m =
     (case aligned_malloc 16 LF_ALIGN_DOUBLE_POINTER m of (dl, m1) \<Rightarrow>
      let m2 = (if dl = NULL then m1 else set_dl dl \<lparr>dl_hd = m_junk m dl, dl_count = m_junk m (dl + 8)\<rparr> m1) in
      call (init_datalist dl m2) (\<lambda>(rv, m3).
        if rv = 0 then Ok (0, dl, m3)
        else
          call (hash_new_data_loop dl (unat data_count) 0 m3) (\<lambda>(count, m4).
            if data_count = count then Ok (1, dl, m4)
            else call (free_dl dl m4) (\<lambda>m5. Ok (0, NULL, m5)))))"

definition lf_hash_add_new_element_from_hashlist ::
  "addr \<Rightarrow> u64 \<Rightarrow> 'a hm_mem_scheme \<Rightarrow> (u64 \<times> addr \<times> u64 \<times> 'a hm_mem_scheme) res" where
  "lf_hash_add_new_element_from_hashlist h retry m =
     c_assert (h \<noteq> NULL)
       (deref (hm_hashes m) h (\<lambda>x.
        call (hashlist_pop (h_hl x) retry m) (\<lambda>(h_item, retry1, m1).
          Ok (if h_item \<noteq> NULL then 1 else 0, h_item, retry1, m1))))"

definition lf_hash_internal_new_data_from_datalist ::
  "addr \<Rightarrow> u64 \<Rightarrow> 'a hm_mem_scheme \<Rightarrow> (u64 \<times> addr \<times> u64 \<times> 'a hm_mem_scheme) res" where
  "lf_hash_internal_new_data_from_datalist h retry m =
     c_assert (h \<noteq> NULL)
       (deref (hm_hashes m) h (\<lambda>x.
        call (datalist_pop (h_dl x) retry m) (\<lambda>(data, retry1, m1).
          Ok (if data \<noteq> NULL then 1 else 0, data, retry1, m1))))"

definition hashmap_use :: "addr \<Rightarrow> 'a hm_mem_scheme \<Rightarrow> 'a hm_mem_scheme res" where
  "hashmap_use hs m = c_assert (hs \<noteq> NULL) (Ok m)"

section \<open>Deletion\<close>

definition hash_delete_item_func :: "addr \<Rightarrow> addr \<Rightarrow> 'a hm_mem_scheme \<Rightarrow> 'a hm_mem_scheme res" where
  "hash_delete_item_func bucket st m =
     c_assert (bucket \<noteq> NULL)
       (c_assert (st = NULL)
          (deref (hm_items m) bucket (\<lambda>x.
             call (if hi_data x \<noteq> NULL then free_hd (hi_data x) m else Ok m) (\<lambda>m1. free_hi bucket m1))))"

definition hash_delete_data_func :: "addr \<Rightarrow> addr \<Rightarrow> 'a hm_mem_scheme \<Rightarrow> 'a hm_mem_scheme res" where
  "hash_delete_data_func data st m = c_assert (data \<noteq> NULL) (c_assert (st = NULL) (free_hd data m))"

type_synonym 'a delete_func = "(addr \<Rightarrow> addr \<Rightarrow> 'a hm_mem_scheme \<Rightarrow> 'a hm_mem_scheme res) option"

text \<open>
  The variable \<open>retry\<close> of the two functions that empty a pool is an \<open>int\<close>, but its address is
  passed as an \<open>atom_t *\<close>. The eight bytes that are incremented there are \<open>retry\<close> itself, which
  starts as 0, and, in the upper half, four bytes of the stack beside it, here those that
  \<open>m_junk\<close> gives for the address 0.
\<close>

definition retry_cell :: "'a hm_mem_scheme \<Rightarrow> u64" where
  "retry_cell m = push_bit 32 (drop_bit 32 (m_junk m NULL))"

definition hashlist_delete_body ::
  "addr \<Rightarrow> 'a delete_func \<Rightarrow> addr \<Rightarrow> u64 \<times> 'a hm_mem_scheme \<Rightarrow> (u64 \<times> 'a hm_mem_scheme, 'a hm_mem_scheme) ctl res" where
  "hashlist_delete_body h delete_func st = (\<lambda>(retry, m).
     deref (hm_hashes m) h (\<lambda>x.
     call (hashlist_pop (h_hl x) retry m) (\<lambda>(ihash, retry1, m1).
       if ihash \<noteq> NULL then call (the delete_func ihash st m1) (\<lambda>m2. Ok (Again (retry1, m2)))
       else Ok (Done m1))))"

definition hashlist_delete :: "addr \<Rightarrow> 'a delete_func \<Rightarrow> addr \<Rightarrow> 'a hm_mem_scheme \<Rightarrow> 'a hm_mem_scheme res" where
  "hashlist_delete h delete_func st m =
     deref (hm_hashes m) h (\<lambda>x.
     c_assert (h_hl x \<noteq> NULL) (c_assert (st = NULL) (c_assert (delete_func \<noteq> None)
       (cloop (hashlist_delete_body h delete_func st) (retry_cell m, m)))))"

definition datalist_delete_body ::
  "addr \<Rightarrow> 'a delete_func \<Rightarrow> addr \<Rightarrow> u64 \<times> 'a hm_mem_scheme \<Rightarrow> (u64 \<times> 'a hm_mem_scheme, 'a hm_mem_scheme) ctl res" where
  "datalist_delete_body h delete_func st = (\<lambda>(retry, m).
     deref (hm_hashes m) h (\<lambda>x.
     call (datalist_pop (h_dl x) retry m) (\<lambda>(hdata, retry1, m1).
       if hdata \<noteq> NULL then call (the delete_func hdata st m1) (\<lambda>m2. Ok (Again (retry1, m2)))
       else Ok (Done m1))))"

definition datalist_delete :: "addr \<Rightarrow> 'a delete_func \<Rightarrow> addr \<Rightarrow> 'a hm_mem_scheme \<Rightarrow> 'a hm_mem_scheme res" where
  "datalist_delete h delete_func st m =
     deref (hm_hashes m) h (\<lambda>x.
     c_assert (h_dl x \<noteq> NULL) (c_assert (st = NULL) (c_assert (delete_func \<noteq> None)
       (cloop (datalist_delete_body h delete_func st) (retry_cell m, m)))))"

definition bucket_delete_body ::
  "'a delete_func \<Rightarrow> addr \<Rightarrow> addr \<times> 'a hm_mem_scheme \<Rightarrow> (addr \<times> 'a hm_mem_scheme, 'a hm_mem_scheme) ctl res" where
  "bucket_delete_body delete_func st = (\<lambda>(bucket, m).
     if bucket = NULL then Ok (Done m)
     else deref (hm_items m) bucket (\<lambda>x.
       call (the delete_func bucket st m) (\<lambda>m1. Ok (Again (hi_next x, m1)))))"

text \<open>The loop over the buckets: \<open>n\<close> of them are left, \<open>i\<close> is the next one.\<close>

fun hashtable_delete_loop ::
  "addr \<Rightarrow> 'a delete_func \<Rightarrow> addr \<Rightarrow> nat \<Rightarrow> i32 \<Rightarrow> 'a hm_mem_scheme \<Rightarrow> 'a hm_mem_scheme res" where
  "hashtable_delete_loop h delete_func st 0 i m = Ok m"
| "hashtable_delete_loop h delete_func st (Suc n) i m =
     deref (hm_hashes m) h (\<lambda>x.
     table_at (h_table x) i m (\<lambda>bucket.
     call (cloop (bucket_delete_body delete_func st) (bucket, m)) (\<lambda>m1.
       hashtable_delete_loop h delete_func st n (i + 1) m1)))"

definition hashtable_delete :: "addr \<Rightarrow> 'a delete_func \<Rightarrow> addr \<Rightarrow> 'a hm_mem_scheme \<Rightarrow> 'a hm_mem_scheme res" where
  "hashtable_delete h delete_func st m =
     c_assert (delete_func \<noteq> None) (c_assert (st = NULL)
       (deref (hm_hashes m) h (\<lambda>x.
          hashtable_delete_loop h delete_func st (nat (sint (h_bucket_max x))) 0 m)))"

text \<open>\<open>hash_free\<close> frees the first bucket, \<open>*(h->table)\<close>, where it means the table.\<close>

definition hash_free :: "addr \<Rightarrow> 'a hm_mem_scheme \<Rightarrow> 'a hm_mem_scheme res" where
  "hash_free h m =
     (if h = NULL then Ok m
      else
        deref (hm_hashes m) h (\<lambda>x.
        call (if h_hl x \<noteq> NULL
              then call (hashlist_delete h (Some hash_delete_item_func) NULL m) (\<lambda>m1. free_hl (h_hl x) m1)
              else Ok m) (\<lambda>m2.
        call (if h_dl x \<noteq> NULL
              then call (datalist_delete h (Some hash_delete_data_func) NULL m2) (\<lambda>m3. free_dl (h_dl x) m3)
              else Ok m2) (\<lambda>m4.
        call (if h_table x \<noteq> NULL
              then call (hashtable_delete h (Some hash_delete_item_func) NULL m4) (\<lambda>m5.
                     table_at (h_table x) 0 m5 (\<lambda>b. free_hi b m5))
              else Ok m4) (\<lambda>m6. free_ha h m6)))))"

section \<open>Creation\<close>

fun init_hash_table_loop :: "addr \<Rightarrow> nat \<Rightarrow> nat \<Rightarrow> 'a hm_mem_scheme \<Rightarrow> (i32 \<times> 'a hm_mem_scheme) res" where
  "init_hash_table_loop h 0 i m = Ok (1, m)"
| "init_hash_table_loop h (Suc n) i m =
     (case alloc_hi m of (head, m1) \<Rightarrow>
      case alloc_hi m1 of (end_item, m2) \<Rightarrow>
        if head \<noteq> NULL \<and> end_item \<noteq> NULL then
          deref (hm_items m2) head (\<lambda>x.
          let m3 = set_hi head (x\<lparr>hi_type := HEAD_NODE\<rparr>) m2 in
          deref (hm_items m3) end_item (\<lambda>y.
          let m4 = set_hi end_item (y\<lparr>hi_type := END_NODE\<rparr>) m3 in
          deref (hm_hashes m4) h (\<lambda>hh.
          deref (hm_tables m4) (h_table hh) (\<lambda>xs.
          if i < length xs then
            let m5 = set_tb (h_table hh) (xs[i := head]) m4 in
            deref (hm_items m5) head (\<lambda>x5.
              init_hash_table_loop h n (i + 1) (set_hi head (x5\<lparr>hi_next := end_item\<rparr>) m5))
          else Fault BadDeref))))
        else Ok (0, m2))"

text \<open>The array has as many cells as fit the \<open>sizeof(struct hash_item *) * bucket_max\<close> bytes asked for.\<close>

definition init_hash_table :: "addr \<Rightarrow> i32 \<Rightarrow> 'a hm_mem_scheme \<Rightarrow> (i32 \<times> 'a hm_mem_scheme) res" where
  "init_hash_table h bucket_max m =
     c_assert (h \<noteq> NULL)
       (let bytes = sizeof_ptr * scast bucket_max in
        case aligned_malloc bytes LF_ALIGN_DOUBLE_POINTER m of (t, m1) \<Rightarrow>
        let m2 = (if t = NULL then m1
                  else set_tb t (map (\<lambda>i. m_junk m (t + 8 * of_nat i)) [0..<unat bytes div 8]) m1) in
        deref (hm_hashes m2) h (\<lambda>x.
          init_hash_table_loop h (unat (scast bucket_max :: u64)) 0 (set_ha h (x\<lparr>h_table := t\<rparr>) m2)))"

text \<open>
  \<open>hash_new\<close>, for any numbers of spare items and data in place of \<open>MAX_HASH_LIST_NUM\<close> and
  \<open>MAX_HASH_DATA_NUM\<close>: returns \<open>(rv, *h, m)\<close>.
\<close>

definition hash_new_sized :: "u64 \<Rightarrow> u64 \<Rightarrow> nat \<Rightarrow> 'a hm_mem_scheme \<Rightarrow> (u64 \<times> addr \<times> 'a hm_mem_scheme) res" where
  "hash_new_sized list_num data_num nbpow m =
     (if 64 \<le> nbpow then Fault BadShift
      else
        let bucket_max = ucast (push_bit nbpow 1 :: u64) :: i32;
            bucket_mask = scast bucket_max - 1 :: u64 in
        case aligned_malloc 40 LF_ALIGN_DOUBLE_POINTER m of (h, m1) \<Rightarrow>
        if h = NULL then Ok (0, NULL, m1)
        else
          let m2 = set_ha h \<lparr>h_bucket_max = ucast (m_junk m h), h_bucket_mask = m_junk m (h + 8),
                h_table = m_junk m (h + 16), h_hl = m_junk m (h + 24), h_dl = m_junk m (h + 32)\<rparr> m1 in
          call (init_hash_table h bucket_max m2) (\<lambda>(ok, m3).
          if ok = 0 then Ok (0, h, m3)
          else
            call (hash_new_element list_num m3) (\<lambda>(_, hl, m4).
            deref (hm_hashes m4) h (\<lambda>x4.
            call (hash_new_data_list data_num (set_ha h (x4\<lparr>h_hl := hl\<rparr>) m4)) (\<lambda>(_, dl, m5).
            deref (hm_hashes m5) h (\<lambda>x5.
            let x6 = x5\<lparr>h_dl := dl\<rparr>; m6 = set_ha h x6 m5 in
            if \<not> (h_table x6 \<noteq> NULL \<and> h_hl x6 \<noteq> NULL \<and> h_dl x6 \<noteq> NULL) then
              call (if h_hl x6 \<noteq> NULL
                    then call (hashlist_delete h (Some hash_delete_item_func) NULL m6) (\<lambda>m7. free_hl (h_hl x6) m7)
                    else Ok m6) (\<lambda>m8.
              call (if h_dl x6 \<noteq> NULL
                    then call (datalist_delete h (Some hash_delete_data_func) NULL m8) (\<lambda>m9. free_dl (h_dl x6) m9)
                    else Ok m8) (\<lambda>m10.
              call (free_ha h m10) (\<lambda>m11. Ok (0, h, m11))))
            else
              Ok (1, h, set_ha h (x6\<lparr>h_bucket_max := bucket_max, h_bucket_mask := bucket_mask\<rparr>) m6)))))))"

definition hash_new :: "nat \<Rightarrow> 'a hm_mem_scheme \<Rightarrow> (u64 \<times> addr \<times> 'a hm_mem_scheme) res" where
  "hash_new nbpow m = hash_new_sized MAX_HASH_LIST_NUM MAX_HASH_DATA_NUM nbpow m"

section \<open>Operations\<close>

definition hash_lookup_body :: "u64 \<Rightarrow> 'a hm_mem_scheme \<Rightarrow> addr \<Rightarrow> (addr, u64) ctl res" where
  "hash_lookup_body key m bucket =
     (if bucket = NULL then Ok (Done 0)
      else deref (hm_items m) bucket (\<lambda>x.
        deref (hm_datas m) (hi_data x) (\<lambda>d.
          if hd_key d = key then Ok (Done (hd_val d)) else Ok (Again (hi_next x)))))"

text \<open>\<open>hash_lookup\<close> masks the key with the number of buckets, not with the mask.\<close>

definition hash_lookup :: "addr \<Rightarrow> u64 \<Rightarrow> 'a hm_mem_scheme \<Rightarrow> u64 res" where
  "hash_lookup h key m =
     deref (hm_hashes m) h (\<lambda>x.
     let bucket_mask = scast (h_bucket_max x) :: u64;
         bucket_index = ucast (key AND bucket_mask) :: i32 in
     table_at (h_table x) bucket_index m (\<lambda>bucket. cloop (hash_lookup_body key m) bucket))"

definition hash_replace_body ::
  "addr \<Rightarrow> addr \<Rightarrow> addr \<times> 'a hm_mem_scheme \<Rightarrow> (addr \<times> 'a hm_mem_scheme, addr \<times> 'a hm_mem_scheme) ctl res" where
  "hash_replace_body item hdata = (\<lambda>(hd_cmp, m).
     deref (hm_items m) item (\<lambda>x.
       case abstraction_cas (hi_data x) hdata hd_cmp of (rv, d) \<Rightarrow>
         let m1 = set_hi item (x\<lparr>hi_data := d\<rparr>) m in
         if hd_cmp \<noteq> rv then Ok (Again (rv, m1)) else Ok (Done (hd_cmp, m1))))"

text \<open>One round of \<open>lf_hash_add\<close>: the state is \<open>h_prev\<close>, \<open>prev_next\<close>, \<open>*add_retry\<close> and the memory.\<close>

definition hash_add_body ::
  "addr \<Rightarrow> addr \<Rightarrow> addr \<times> addr \<times> u64 \<times> 'a hm_mem_scheme \<Rightarrow>
     (addr \<times> addr \<times> u64 \<times> 'a hm_mem_scheme, u64 \<times> u64 \<times> 'a hm_mem_scheme) ctl res" where
  "hash_add_body hdata h_item = (\<lambda>(h_prev, prev_next, add_retry, m).
     deref (hm_items m) prev_next (\<lambda>x.
     let insert_here =
       deref (hm_items m) h_item (\<lambda>it.
       let m1 = set_hi h_item (it\<lparr>hi_next := prev_next\<rparr>) m in
       deref (hm_items m1) h_prev (\<lambda>p.
         case abstraction_cas (hi_next p) h_item prev_next of (rv, n) \<Rightarrow>
           let m2 = set_hi h_prev (p\<lparr>hi_next := n\<rparr>) m1 in
           if rv = prev_next then Ok (Done (HASH_MAP_NODE_ADD, add_retry + 1, m2))
           else Ok (Again (h_prev, rv, add_retry + 1, m2)))) in
     if hi_type x = END_NODE then insert_here
     else
       deref (hm_datas m) (hi_data x) (\<lambda>xd.
       deref (hm_datas m) hdata (\<lambda>d.
         if hd_key xd > hd_key d then insert_here
         else if hd_key xd < hd_key d then Ok (Again (prev_next, hi_next x, add_retry + 1, m))
         else if hd_val d = hd_val xd then
           call (free_hd hdata m) (\<lambda>m1. Ok (Done (HASH_MAP_NODE_EXIST, add_retry + 1, m1)))
         else
           call (cloop (hash_replace_body prev_next hdata) (hi_data x, m)) (\<lambda>(h_data, m1).
           call (free_hd h_data m1) (\<lambda>m2. Ok (Done (HASH_MAP_NODE_REPLACE, add_retry + 1, m2))))))))"

definition hash_take_body ::
  "addr \<Rightarrow> u64 \<times> 'a hm_mem_scheme \<Rightarrow> (u64 \<times> 'a hm_mem_scheme, addr \<times> u64 \<times> 'a hm_mem_scheme) ctl res" where
  "hash_take_body h = (\<lambda>(retry, m).
     call (lf_hash_add_new_element_from_hashlist h retry m) (\<lambda>(rv, h_item, retry1, m1).
       if rv = 0 then Ok (Again (retry1, m1)) else Ok (Done (h_item, retry1, m1))))"

text \<open>\<open>lf_hash_add\<close>: returns the operation, \<open>*retry\<close>, \<open>*add_retry\<close> and the memory.\<close>

definition lf_hash_add ::
  "addr \<Rightarrow> addr \<Rightarrow> u64 \<Rightarrow> u64 \<Rightarrow> 'a hm_mem_scheme \<Rightarrow> (u64 \<times> u64 \<times> u64 \<times> 'a hm_mem_scheme) res" where
  "lf_hash_add h hdata retry add_retry m =
     c_assert (h \<noteq> NULL)
       (deref (hm_hashes m) h (\<lambda>x.
        deref (hm_datas m) hdata (\<lambda>d.
        let bucket_index = ucast (hd_key d AND h_bucket_mask x) :: i32 in
        call (cloop (hash_take_body h) (retry, m)) (\<lambda>(h_item, retry1, m1).
        deref (hm_hashes m1) h (\<lambda>x1.
        table_at (h_table x1) bucket_index m1 (\<lambda>h_prev.
        deref (hm_items m1) h_prev (\<lambda>p.
        deref (hm_items m1) h_item (\<lambda>it.
        let m2 = set_hi h_item (it\<lparr>hi_data := hdata\<rparr>) m1 in
        c_assert (h_item \<noteq> NULL)
          (call (cloop (hash_add_body hdata h_item) (h_prev, hi_next p, add_retry, m2)) (\<lambda>(operation, add_retry1, m3).
             if operation = HASH_MAP_NODE_EXIST \<or> operation = HASH_MAP_NODE_REPLACE
             then call (free_hi h_item m3) (\<lambda>m4. Ok (operation, retry1, add_retry1, m4))
             else Ok (operation, retry1, add_retry1, m3)))))))))))"

definition hash_search_body :: "addr \<Rightarrow> 'a hm_mem_scheme \<Rightarrow> addr \<Rightarrow> (addr, i32) ctl res" where
  "hash_search_body hdata m bucket =
     deref (hm_items m) bucket (\<lambda>x.
       if hi_type x = END_NODE then Ok (Done HASH_MAP_SEARCH_FAIL)
       else
         deref (hm_datas m) (hi_data x) (\<lambda>xd.
         deref (hm_datas m) hdata (\<lambda>d.
           if hd_key xd > hd_key d then Ok (Done HASH_MAP_SEARCH_FAIL)
           else if hd_key xd < hd_key d then Ok (Again (hi_next x))
           else Ok (Done HASH_MAP_SEARCH_SUCC))))"

definition lf_hash_search :: "addr \<Rightarrow> addr \<Rightarrow> 'a hm_mem_scheme \<Rightarrow> i32 res" where
  "lf_hash_search hs hdata m =
     c_assert (hs \<noteq> NULL) (c_assert (hdata \<noteq> NULL)
       (deref (hm_hashes m) hs (\<lambda>x.
        deref (hm_datas m) hdata (\<lambda>d.
        let bucket_index = ucast (hd_key d AND h_bucket_mask x) :: i32 in
        table_at (h_table x) bucket_index m (\<lambda>h_prev.
        deref (hm_items m) h_prev (\<lambda>p.
          cloop (hash_search_body hdata m) (hi_next p)))))))"

text \<open>
  \<open>lf_hash_delete\<close> has an empty body: it changes nothing and returns whatever the register
  for results holds, here \<open>junk\<close>.
\<close>

definition lf_hash_delete :: "addr \<Rightarrow> u64 \<Rightarrow> u64 \<Rightarrow> 'a hm_mem_scheme \<Rightarrow> (u64 \<times> 'a hm_mem_scheme) res" where
  "lf_hash_delete h key junk m = Ok (junk, m)"

section \<open>Buckets\<close>

text \<open>
  A bucket as the list of its entries, each an item and its data, between the head and the end
  item: the items are linked in this order, the keys ascend.
\<close>

definition ilink :: "'a hm_mem_scheme \<Rightarrow> addr \<Rightarrow> addr option" where
  "ilink m p = map_option hi_next (hm_items m p)"

definition dlink :: "'a hm_mem_scheme \<Rightarrow> addr \<Rightarrow> addr option" where
  "dlink m p = map_option hd_next (hm_datas m p)"

definition bkey :: "'a hm_mem_scheme \<Rightarrow> addr \<times> addr \<Rightarrow> u64" where
  "bkey m a = (case hm_datas m (snd a) of None \<Rightarrow> 0 | Some d \<Rightarrow> hd_key d)"

definition bval :: "'a hm_mem_scheme \<Rightarrow> addr \<times> addr \<Rightarrow> u64" where
  "bval m a = (case hm_datas m (snd a) of None \<Rightarrow> 0 | Some d \<Rightarrow> hd_val d)"

definition bmap :: "'a hm_mem_scheme \<Rightarrow> (addr \<times> addr) list \<Rightarrow> u64 \<Rightarrow> u64 option" where
  "bmap m bs = map_of (map (\<lambda>a. (bkey m a, bval m a)) bs)"

definition entry_ok :: "'a hm_mem_scheme \<Rightarrow> addr \<times> addr \<Rightarrow> bool" where
  "entry_ok m a \<longleftrightarrow> fst a \<noteq> NULL \<and>
     (\<exists>x. hm_items m (fst a) = Some x \<and> hi_type x \<noteq> END_NODE \<and> hi_data x = snd a) \<and> hm_datas m (snd a) \<noteq> None"

definition bucket_ok :: "'a hm_mem_scheme \<Rightarrow> addr \<Rightarrow> (addr \<times> addr) list \<Rightarrow> addr \<Rightarrow> bool" where
  "bucket_ok m b bs e \<longleftrightarrow>
     (\<exists>x. hm_items m b = Some x \<and> seg (ilink m) (hi_next x) (map fst bs) e) \<and>
     (\<exists>y. hm_items m e = Some y \<and> hi_type y = END_NODE) \<and>
     (\<forall>a\<in>set bs. entry_ok m a) \<and> sorted_wrt (\<lambda>a c. bkey m a < bkey m c) bs"

lemma bucket_ok_frame:
  assumes "bucket_ok m b bs e"
    and "\<And>x. x \<in> insert b (insert e (fst ` set bs)) \<Longrightarrow> hm_items m' x = hm_items m x"
    and "\<And>x. x \<in> snd ` set bs \<Longrightarrow> hm_datas m' x = hm_datas m x"
  shows "bucket_ok m' b bs e" and "bmap m' bs = bmap m bs"
proof -
  have k: "bkey m' a = bkey m a" "bval m' a = bval m a" if "a \<in> set bs" for a
    using assms(3) [of "snd a"] that by (simp_all add: bkey_def bval_def)
  have "seg (ilink m') q (map fst bs) e = seg (ilink m) q (map fst bs) e" for q
    by (rule seg_cong) (use assms(2) in \<open>auto simp: ilink_def\<close>)
  moreover have "sorted_wrt (\<lambda>a c. bkey m' a < bkey m' c) bs"
    by (rule sorted_wrt_mono_rel [of _ "\<lambda>a c. bkey m a < bkey m c"])
      (use assms(1) k in \<open>auto simp: bucket_ok_def\<close>)
  moreover have "entry_ok m' a" if "a \<in> set bs" for a
    using assms that by (auto simp: entry_ok_def bucket_ok_def)
  ultimately show "bucket_ok m' b bs e" using assms(1,2) by (auto simp: bucket_ok_def)
  show "bmap m' bs = bmap m bs"
    unfolding bmap_def by (rule arg_cong [where f = map_of]) (simp add: k)
qed

abbreviation blo :: "'a hm_mem_scheme \<Rightarrow> (addr \<times> addr) list \<Rightarrow> u64 \<Rightarrow> (addr \<times> addr) list" where
  "blo m bs k \<equiv> takeWhile (\<lambda>a. bkey m a < k) bs"

abbreviation bhi :: "'a hm_mem_scheme \<Rightarrow> (addr \<times> addr) list \<Rightarrow> u64 \<Rightarrow> (addr \<times> addr) list" where
  "bhi m bs k \<equiv> dropWhile (\<lambda>a. bkey m a < k) bs"

lemma bmap_None: "bmap m bs k = None \<longleftrightarrow> (\<forall>a\<in>set bs. bkey m a \<noteq> k)"
  unfolding bmap_def map_of_eq_None_iff by (auto simp: image_iff)

lemma bmap_split:
  assumes "sorted_wrt (\<lambda>a c. bkey m a < bkey m c) bs"
  shows "bmap m bs k = (case bhi m bs k of [] \<Rightarrow> None | a # _ \<Rightarrow> if bkey m a = k then Some (bval m a) else None)"
proof -
  have bs: "bs = blo m bs k @ bhi m bs k" by simp
  have lo: "bmap m (blo m bs k) k = None" unfolding bmap_None by (auto dest: set_takeWhileD)
  have sum: "bmap m bs k = bmap m (bhi m bs k) k"
    using lo by (subst bs) (simp add: bmap_def map_add_def del: takeWhile_dropWhile_id)
  show ?thesis
  proof (cases "bhi m bs k")
    case Nil
    then show ?thesis unfolding sum by (simp add: bmap_def del: dropWhile_eq_Nil_conv)
  next
    case (Cons a as)
    have "\<not> bkey m a < k" using Cons by (metis dropWhile_eq_Cons_conv)
    moreover have "sorted_wrt (\<lambda>a c. bkey m a < bkey m c) (blo m bs k @ a # as)" using assms bs Cons by simp
    then have "\<forall>c\<in>set as. bkey m a < bkey m c" by (simp add: sorted_wrt_append)
    ultimately have "bkey m a = k \<or> bmap m (a # as) k = None" unfolding bmap_None by force
    then show ?thesis unfolding sum Cons by (auto simp: bmap_def)
  qed
qed

text \<open>Where the walk of an insertion or a search stops.\<close>

definition first_of :: "(addr \<times> addr) list \<Rightarrow> addr \<Rightarrow> addr" where
  "first_of bs e = (case bs of [] \<Rightarrow> e | a # _ \<Rightarrow> fst a)"

lemma seg_first: "seg h p (map fst bs) e \<Longrightarrow> p = first_of bs e"
  by (cases bs) (auto simp: first_of_def)

lemma ilink_seg_Cons:
  "seg (ilink m) p (x # xs) e \<longleftrightarrow> p = x \<and> x \<noteq> NULL \<and> (\<exists>y. hm_items m x = Some y \<and> seg (ilink m) (hi_next y) xs e)"
  by (auto simp: ilink_def split: option.splits)

lemma bucket_split:
  assumes "bucket_ok m b (us @ vs) e"
  obtains x where "hm_items m (last (b # map fst us)) = Some x" "hi_next x = first_of vs e"
    "seg (ilink m) (first_of vs e) (map fst vs) e"
proof -
  obtain y where y: "hm_items m b = Some y" "seg (ilink m) (hi_next y) (map fst us @ map fst vs) e"
    using assms by (auto simp: bucket_ok_def)
  then obtain r where r: "seg (ilink m) (hi_next y) (map fst us) r" "seg (ilink m) r (map fst vs) e"
    by (auto simp: seg_append)
  have rf: "r = first_of vs e" by (rule seg_first [OF r(2)])
  show ?thesis
  proof (cases us rule: rev_cases)
    case Nil
    then show ?thesis using that [of y] y r rf by simp
  next
    case (snoc us' a)
    then have "\<exists>x. hm_items m (fst a) = Some x \<and> hi_next x = r"
      using r(1) by (auto simp: seg_append ilink_def split: option.splits)
    then show ?thesis using that r(2) rf snoc by auto
  qed
qed

lemma add_walk:
  assumes d: "hm_datas m hdata = Some d" "hd_key d = k"
  shows "seg (ilink m) p (map fst us) q \<Longrightarrow> \<forall>a\<in>set us. entry_ok m a \<and> bkey m a < k \<Longrightarrow>
   cloop (hash_add_body hdata t) (pr, p, r, m) =
   cloop (hash_add_body hdata t) (last (pr # map fst us), q, r + of_nat (length us), m)"
proof (induction us arbitrary: p pr r)
  case (Cons a us)
  obtain x where x: "p = fst a" "hm_items m p = Some x" "seg (ilink m) (hi_next x) (map fst us) q"
    using Cons.prems(1) unfolding list.map ilink_seg_Cons by auto
  obtain dd where dd: "hi_type x \<noteq> END_NODE" "hi_data x = snd a" "hm_datas m (snd a) = Some dd" "hd_key dd < k"
    using Cons.prems(2) x by (auto simp: entry_ok_def bkey_def)
  then have "\<not> k < hd_key dd" by auto
  then have "hash_add_body hdata t (pr, p, r, m) = Ok (Again (p, hi_next x, r + 1, m))"
    using x dd d by (simp add: hash_add_body_def Let_def)
  then have "cloop (hash_add_body hdata t) (pr, p, r, m) = cloop (hash_add_body hdata t) (p, hi_next x, r + 1, m)"
    by (rule cloop_Again)
  also have "\<dots> = cloop (hash_add_body hdata t) (last (p # map fst us), q, r + 1 + of_nat (length us), m)"
    by (rule Cons.IH [OF x(3)]) (use Cons.prems(2) in simp)
  finally show ?case using x(1) by (simp add: add.assoc)
qed simp

lemma search_walk:
  assumes d: "hm_datas m hdata = Some d" "hd_key d = k"
  shows "seg (ilink m) p (map fst us) q \<Longrightarrow> \<forall>a\<in>set us. entry_ok m a \<and> bkey m a < k \<Longrightarrow>
   cloop (hash_search_body hdata m) p = cloop (hash_search_body hdata m) q"
proof (induction us arbitrary: p)
  case (Cons a us)
  obtain x where x: "p = fst a" "hm_items m p = Some x" "seg (ilink m) (hi_next x) (map fst us) q"
    using Cons.prems(1) unfolding list.map ilink_seg_Cons by auto
  obtain dd where dd: "hi_type x \<noteq> END_NODE" "hi_data x = snd a" "hm_datas m (snd a) = Some dd" "hd_key dd < k"
    using Cons.prems(2) x by (auto simp: entry_ok_def bkey_def)
  then have "\<not> k < hd_key dd" by auto
  then have "hash_search_body hdata m p = Ok (Again (hi_next x))"
    using x dd d by (simp add: hash_search_body_def)
  then show ?case using Cons.IH [OF x(3)] Cons.prems(2) by (simp add: cloop_Again)
qed simp

section \<open>The three outcomes of an insertion\<close>

lemma bucket_sorted_split:
  assumes "bucket_ok m b bs e"
  shows "\<forall>a\<in>set (blo m bs k). entry_ok m a \<and> bkey m a < k" and "\<forall>a\<in>set (bhi m bs k). entry_ok m a"
    and "a \<in> set (tl (bhi m bs k)) \<Longrightarrow> k < bkey m a"
proof -
  show "\<forall>a\<in>set (blo m bs k). entry_ok m a \<and> bkey m a < k" "\<forall>a\<in>set (bhi m bs k). entry_ok m a"
    using assms by (auto simp: bucket_ok_def dest: set_takeWhileD set_dropWhileD)
  assume a: "a \<in> set (tl (bhi m bs k))"
  then obtain c cs where c: "bhi m bs k = c # cs" by (cases "bhi m bs k") auto
  then have "\<not> bkey m c < k" by (metis dropWhile_eq_Cons_conv)
  moreover have "sorted_wrt (\<lambda>a c. bkey m a < bkey m c) (blo m bs k @ c # cs)"
    using assms takeWhile_dropWhile_id [of "\<lambda>a. bkey m a < k" bs] c by (simp add: bucket_ok_def)
  then have "\<forall>d\<in>set cs. bkey m c < bkey m d" by (simp add: sorted_wrt_append)
  ultimately show "k < bkey m a" using a c by fastforce
qed

lemma bucket_start:
  assumes "bucket_ok m b bs e"
  obtains x where "hm_items m b = Some x" "hi_next x = first_of bs e"
    "seg (ilink m) (first_of bs e) (map fst (blo m bs k)) (first_of (bhi m bs k) e)"
proof -
  obtain x where x: "hm_items m b = Some x" "seg (ilink m) (hi_next x) (map fst (blo m bs k) @ map fst (bhi m bs k)) e"
    using assms by (auto simp: bucket_ok_def simp flip: map_append)
  then obtain r where r: "seg (ilink m) (hi_next x) (map fst (blo m bs k)) r" "seg (ilink m) r (map fst (bhi m bs k)) e"
    by (auto simp: seg_append simp del: map_append)
  have "hi_next x = first_of bs e" using x(2) seg_first [of "ilink m" "hi_next x" bs e] by (simp flip: map_append)
  then show ?thesis using that x(1) r seg_first [OF r(2)] by metis
qed

lemma add_reaches:
  assumes ok: "bucket_ok m b bs e" and d: "hm_datas m hdata = Some d" "hd_key d = k"
  shows "\<exists>r'. cloop (hash_add_body hdata t) (b, first_of bs e, r, m) =
    cloop (hash_add_body hdata t) (last (b # map fst (blo m bs k)), first_of (bhi m bs k) e, r', m)"
proof -
  obtain x where "seg (ilink m) (first_of bs e) (map fst (blo m bs k)) (first_of (bhi m bs k) e)"
    by (rule bucket_start [OF ok])
  from add_walk [OF d this bucket_sorted_split(1) [OF ok]] show ?thesis by blast
qed

lemma search_result:
  assumes ok: "bucket_ok m b bs e" and d: "hm_datas m hdata = Some d" "hd_key d = k"
  shows "cloop (hash_search_body hdata m) (first_of bs e) =
    Ok (if bmap m bs k = None then HASH_MAP_SEARCH_FAIL else HASH_MAP_SEARCH_SUCC)"
proof -
  obtain x where "seg (ilink m) (first_of bs e) (map fst (blo m bs k)) (first_of (bhi m bs k) e)"
    by (rule bucket_start [OF ok])
  note walk = search_walk [OF d this bucket_sorted_split(1) [OF ok]]
  have sp: "bmap m bs k = (case bhi m bs k of [] \<Rightarrow> None | a # _ \<Rightarrow> if bkey m a = k then Some (bval m a) else None)"
    by (rule bmap_split) (use ok in \<open>simp add: bucket_ok_def\<close>)
  show ?thesis
  proof (cases "bhi m bs k")
    case Nil
    obtain y where "hm_items m e = Some y" "hi_type y = END_NODE" using ok by (auto simp: bucket_ok_def)
    then have "hash_search_body hdata m e = Ok (Done HASH_MAP_SEARCH_FAIL)" by (simp add: hash_search_body_def)
    then show ?thesis unfolding walk sp Nil by (simp add: first_of_def)
  next
    case (Cons a as)
    have "entry_ok m a" using bucket_sorted_split(2) [OF ok, of k] Cons by simp
    then obtain x dd where x: "hm_items m (fst a) = Some x" "hi_type x \<noteq> END_NODE" "hi_data x = snd a" "hm_datas m (snd a) = Some dd"
      by (auto simp: entry_ok_def)
    have "\<not> bkey m a < k" using Cons by (metis dropWhile_eq_Cons_conv)
    then have "hash_search_body hdata m (fst a) =
        Ok (Done (if bkey m a = k then HASH_MAP_SEARCH_SUCC else HASH_MAP_SEARCH_FAIL))"
      using x d by (auto simp: hash_search_body_def bkey_def)
    then show ?thesis unfolding walk sp Cons by (simp add: first_of_def)
  qed
qed

text \<open>The bucket after a new entry has been linked, and after the data of an entry has been replaced.\<close>

lemma bmap_append: "bmap m (us @ vs) = bmap m vs ++ bmap m us"
  by (simp add: bmap_def)

lemma bmap_Cons: "bmap m (a # us) = (bmap m us)(bkey m a \<mapsto> bval m a)"
  by (simp add: bmap_def)

lemma bmap_cong: "(\<And>a. a \<in> set us \<Longrightarrow> bkey m' a = bkey m a \<and> bval m' a = bval m a) \<Longrightarrow> bmap m' us = bmap m us"
  unfolding bmap_def by (rule arg_cong [where f = map_of]) simp

lemma bmap_insert:
  assumes "bmap m (us @ vs) k = None" and "bkey m a = k"
  shows "bmap m (us @ a # vs) = (bmap m (us @ vs))(k \<mapsto> bval m a)"
proof
  fix j
  have "\<forall>c\<in>set us. bkey m c \<noteq> k" using assms(1) by (auto simp: bmap_None)
  then have "bmap m us k = None" by (simp add: bmap_None)
  then show "bmap m (us @ a # vs) j = ((bmap m (us @ vs))(k \<mapsto> bval m a)) j"
    using assms(2) by (simp add: bmap_def map_add_def split: option.split)
qed

lemma bmap_replace:
  assumes "\<forall>c\<in>set us. bkey m c \<noteq> k" and "\<forall>c\<in>set vs. bkey m c \<noteq> k" and "bkey m a = k" "bkey m' a' = k"
    and "\<forall>c\<in>set (us @ vs). bkey m' c = bkey m c \<and> bval m' c = bval m c"
  shows "bmap m' (us @ a' # vs) = (bmap m (us @ a # vs))(k \<mapsto> bval m' a')"
proof
  fix j
  have "bmap m us k = None" using assms(1) by (simp add: bmap_None)
  moreover have "bmap m' us = bmap m us" "bmap m' vs = bmap m vs" using assms(5) by (auto intro: bmap_cong)
  ultimately show "bmap m' (us @ a' # vs) j = ((bmap m (us @ a # vs))(k \<mapsto> bval m' a')) j"
    using assms(3,4) by (simp add: bmap_append bmap_Cons map_add_def split: option.split)
qed

lemma bucket_distinct:
  assumes "bucket_ok m b bs e"
  shows "distinct (map fst bs)"
proof -
  have "sorted_wrt (\<lambda>a c. bkey m a < bkey m c) bs" and ok: "\<forall>a\<in>set bs. entry_ok m a"
    using assms by (simp_all add: bucket_ok_def)
  then show ?thesis
  proof (induction bs)
    case (Cons a bs)
    have "fst c \<noteq> fst a" if c: "c \<in> set bs" for c
    proof
      assume eq: "fst c = fst a"
      have "entry_ok m a" "entry_ok m c" using Cons.prems(2) c by simp_all
      then have "snd c = snd a" using eq by (auto simp: entry_ok_def)
      then have "bkey m c = bkey m a" by (simp add: bkey_def)
      then show False using Cons.prems(1) c by auto
    qed
    then have "fst a \<notin> fst ` set bs" by fastforce
    then show ?case using Cons by simp
  qed simp
qed

lemma bucket_link:
  assumes ok: "bucket_ok m b (us @ vs) e" and lo: "\<forall>a\<in>set us. bkey m a < k" and hi: "\<forall>a\<in>set vs. k < bkey m a"
    and own: "t \<notin> insert b (insert e (fst ` set (us @ vs)))" "b \<notin> insert e (fst ` set (us @ vs))" "e \<notin> fst ` set (us @ vs)"
    and t: "t \<noteq> NULL" "hi_type it \<noteq> END_NODE" "hi_data it = d" and d: "hm_datas m d = Some dd" "hd_key dd = k"
    and x: "hm_items m (last (b # map fst us)) = Some x"
    and m': "hm_items m' = (hm_items m)(t \<mapsto> it\<lparr>hi_next := first_of vs e\<rparr>, last (b # map fst us) \<mapsto> x\<lparr>hi_next := t\<rparr>)"
      "hm_datas m' = hm_datas m"
  shows "bucket_ok m' b (us @ (t, d) # vs) e"
proof -
  let ?p = "last (b # map fst us)"
  have dis: "distinct (map fst (us @ vs))" by (rule bucket_distinct [OF ok])
  have pin: "?p \<in> insert b (fst ` set us)" by (cases us rule: rev_cases) auto
  have pt: "?p \<noteq> t" using pin own unfolding set_append image_Un by blast
  have keys: "bkey m' a = bkey m a" for a by (simp add: bkey_def m')
  have at: "ilink m' t = Some (first_of vs e)" using pt by (auto simp: ilink_def m')
  have ent: "\<forall>a\<in>set (us @ vs). entry_ok m a" using ok by (simp add: bucket_ok_def)
  have ent': "entry_ok m' a" if "a \<in> set (us @ vs)" for a
  proof -
    have "fst a \<noteq> t" using own(1) that by blast
    moreover have "entry_ok m a" using ent that by blast
    ultimately show ?thesis using x by (cases "fst a = ?p") (auto simp: entry_ok_def m')
  qed
  have "entry_ok m' (t, d)" using t d pt by (auto simp: entry_ok_def m')
  obtain y where y: "seg (ilink m) (first_of vs e) (map fst vs) e" using bucket_split [OF ok] by blast
  have "ilink m z = ilink m' z" if "z \<in> set (map fst vs)" for z
  proof -
    have "z \<notin> insert b (fst ` set us)" using that own(2) dis by (auto simp: image_Un)
    then have "z \<noteq> ?p" using pin by blast
    moreover have "z \<noteq> t" using that own(1) by (auto simp: image_Un)
    ultimately show ?thesis by (simp add: ilink_def m')
  qed
  from seg_cong [of "map fst vs", OF this] y have "seg (ilink m') (first_of vs e) (map fst vs) e" by simp
  then have tail: "seg (ilink m') t (map fst ((t, d) # vs)) e" using at t by simp
  have "\<exists>z. hm_items m' b = Some z \<and> seg (ilink m') (hi_next z) (map fst (us @ (t, d) # vs)) e"
  proof (cases us rule: rev_cases)
    case Nil
    then show ?thesis using tail by (intro exI [of _ "x\<lparr>hi_next := t\<rparr>"]) (simp add: m')
  next
    case (snoc us' a)
    have p: "?p = fst a" using snoc by simp
    obtain z where z: "hm_items m b = Some z" "seg (ilink m) (hi_next z) (map fst us' @ fst a # map fst vs) e"
      using ok snoc by (auto simp: bucket_ok_def)
    then have s: "seg (ilink m) (hi_next z) (map fst us') (fst a)" "fst a \<noteq> NULL" by (auto simp: seg_append)
    have "ilink m w = ilink m' w" if "w \<in> set (map fst us')" for w
    proof -
      have "fst a \<notin> set (map fst us')" using dis snoc by simp
      then have "w \<noteq> ?p" using that p by metis
      moreover have "w \<noteq> t" using that own(1) snoc by (auto simp: image_Un)
      ultimately show ?thesis by (simp add: ilink_def m')
    qed
    from seg_cong [of "map fst us'", OF this] s(1) have "seg (ilink m') (hi_next z) (map fst us') (fst a)" by simp
    moreover have "ilink m' (fst a) = Some t" using p by (simp add: ilink_def m')
    ultimately have "seg (ilink m') (hi_next z) (map fst (us @ (t, d) # vs)) e"
      using tail s(2) snoc by (auto simp: seg_append)
    moreover have "hm_items m' b = Some z" using z(1) own(1,2) snoc p by (auto simp: m' image_Un)
    ultimately show ?thesis by blast
  qed
  moreover have "\<exists>y. hm_items m' e = Some y \<and> hi_type y = END_NODE"
  proof -
    have "e \<notin> insert b (fst ` set us)" using own(2,3) unfolding set_append image_Un by blast
    then have "e \<noteq> ?p" using pin by metis
    moreover have "e \<noteq> t" using own(1) by blast
    ultimately show ?thesis using ok by (simp add: bucket_ok_def m')
  qed
  moreover have "sorted_wrt (\<lambda>a c. bkey m' a < bkey m' c) (us @ (t, d) # vs)"
  proof -
    have "bkey m (t, d) = k" using d by (simp add: bkey_def)
    then show ?thesis using ok lo hi unfolding keys by (fastforce simp: bucket_ok_def sorted_wrt_append)
  qed
  ultimately show ?thesis using ent' \<open>entry_ok m' (t, d)\<close> by (auto simp: bucket_ok_def)
qed

lemma bucket_replace:
  assumes ok: "bucket_ok m b (us @ a # vs) e" and k: "bkey m a = k"
    and own: "fst a \<notin> {b, e}" and x: "hm_items m (fst a) = Some x"
    and m': "hm_items m' = (hm_items m)(fst a \<mapsto> x\<lparr>hi_data := d\<rparr>)"
      "\<forall>c\<in>set (us @ vs). hm_datas m' (snd c) = hm_datas m (snd c)"
    and d: "hm_datas m' d = Some dd" "hd_key dd = k"
  shows "bucket_ok m' b (us @ (fst a, d) # vs) e"
proof -
  have dis: "distinct (map fst (us @ a # vs))" by (rule bucket_distinct [OF ok])
  have keys: "bkey m' c = bkey m c" if "c \<in> set (us @ vs)" for c using m'(2) that by (simp add: bkey_def)
  have key: "bkey m' (fst a, d) = bkey m a" using d k by (simp add: bkey_def)
  have link: "ilink m' = ilink m" using x by (auto simp: ilink_def m' fun_eq_iff)
  have xa: "hi_type x \<noteq> END_NODE" "fst a \<noteq> NULL" using ok x by (auto simp: bucket_ok_def entry_ok_def)
  have "entry_ok m' c" if "c \<in> set (us @ vs)" for c
  proof -
    have "fst c \<noteq> fst a" using that dis by (metis (no_types, lifting) Un_iff distinct.simps(2) distinct_append disjoint_insert(1) image_eqI list.simps(15) list.simps(9) map_append set_append set_map)
    moreover have "entry_ok m c" using ok that by (auto simp: bucket_ok_def)
    ultimately show ?thesis using m'(2) that by (simp add: entry_ok_def m'(1))
  qed
  moreover have "entry_ok m' (fst a, d)" using xa d by (simp add: entry_ok_def m'(1))
  moreover have "sorted_wrt (\<lambda>a c. bkey m' a < bkey m' c) (us @ (fst a, d) # vs)"
  proof -
    have so: "sorted_wrt (\<lambda>a c. bkey m a < bkey m c) (us @ a # vs)" using ok by (simp add: bucket_ok_def)
    have "sorted_wrt (\<lambda>a c. bkey m' a < bkey m' c) us" "sorted_wrt (\<lambda>a c. bkey m' a < bkey m' c) vs"
      by (rule sorted_wrt_mono_rel [of _ "\<lambda>a c. bkey m a < bkey m c"]; use so keys in \<open>simp add: sorted_wrt_append\<close>)+
    then show ?thesis using so keys key by (auto simp: sorted_wrt_append)
  qed
  ultimately show ?thesis using ok own by (auto simp: bucket_ok_def link m'(1))
qed

section \<open>The pools\<close>

text \<open>
  A pool that starts at \<open>p\<close>: nodes linked one after the other, the last of which is the sentinel.
  The link of the sentinel is not initialised; only with \<open>Z\<close> is it known to be NULL.
\<close>

definition spare :: "bool \<Rightarrow> (addr \<Rightarrow> addr option) \<Rightarrow> addr \<Rightarrow> addr list \<Rightarrow> bool" where
  "spare Z lk p xs \<longleftrightarrow> xs \<noteq> [] \<and> distinct xs \<and> NULL \<notin> set xs \<and> seg lk p (butlast xs) (last xs) \<and>
     (Z \<longrightarrow> lk (last xs) = Some NULL)"

lemma spare_single: "spare Z lk p [x] \<longleftrightarrow> p = x \<and> x \<noteq> NULL \<and> (Z \<longrightarrow> lk x = Some NULL)"
  by (auto simp: spare_def)

lemma spare_first: "spare Z lk p (x # xs) \<Longrightarrow> p = x"
  by (cases xs) (simp_all add: spare_def)

lemma spare_Cons2:
  "spare Z lk p (x # y # ys) \<longleftrightarrow> p = x \<and> x \<noteq> NULL \<and> x \<notin> set (y # ys) \<and> lk x = Some y \<and> spare Z lk y (y # ys)"
  by (cases ys) (auto simp: spare_def split: option.splits)

lemma spare_push:
  assumes "spare Z lk p xs" "lk x = Some p" "x \<noteq> NULL" "x \<notin> set xs"
  shows "spare Z lk x (x # xs)"
  using assms spare_first [of Z lk p "hd xs" "tl xs"] by (cases xs) (auto simp: spare_Cons2 spare_def)

lemma spare_frame:
  assumes "spare Z lk p xs" "\<And>x. x \<in> set xs \<Longrightarrow> lk' x = lk x"
  shows "spare Z lk' p xs"
proof -
  have "seg lk' p (butlast xs) (last xs) = seg lk p (butlast xs) (last xs)"
    by (rule seg_cong) (simp add: assms(2) in_set_butlastD)
  then show ?thesis using assms by (simp add: spare_def)
qed

lemma spare_nodes: "spare Z lk p xs \<Longrightarrow> distinct xs" "spare Z lk p xs \<Longrightarrow> x \<in> set xs \<Longrightarrow> x \<noteq> NULL"
  by (auto simp: spare_def)

section \<open>The whole map\<close>

text \<open>
  What every block of the map is used for, so that no block is used twice: \<open>RHead i\<close>,
  \<open>RItem i\<close>, \<open>REnd i\<close> and \<open>RData i\<close> belong to bucket \<open>i\<close>, \<open>RPool\<close> and \<open>RSpare\<close> are spare items
  and spare data, \<open>RClient\<close> is data in the hands of the client.
\<close>

datatype role = RHead nat | RItem nat | REnd nat | RData nat | RPool | RSpare | RClient | RNone

definition bidx :: "nat \<Rightarrow> u64 \<Rightarrow> nat" where
  "bidx n k = unat k mod 2 ^ n"

definition hash_at :: "bool \<Rightarrow> addr \<Rightarrow> nat \<Rightarrow> (addr \<Rightarrow> role) \<Rightarrow> addr list \<Rightarrow> (nat \<Rightarrow> (addr \<times> addr) list) \<Rightarrow> (nat \<Rightarrow> addr) \<Rightarrow>
    addr list \<Rightarrow> addr list \<Rightarrow> 'a hm_mem_scheme \<Rightarrow> bool" where
  "hash_at Z h n own T B es pool dpool m \<longleftrightarrow>
     heap_ok m \<and> h \<noteq> NULL \<and> n \<le> 30 \<and> (\<forall>x. own x \<noteq> RNone \<longrightarrow> allocated m x) \<and>
     (\<exists>x l dl. hm_hashes m h = Some x \<and> h_bucket_mask x = mask n \<and> hm_tables m (h_table x) = Some T \<and> length T = 2 ^ n \<and>
        h_hl x \<noteq> NULL \<and> hm_hls m (h_hl x) = Some l \<and> spare False (ilink m) (hl_he l) pool \<and>
        h_dl x \<noteq> NULL \<and> hm_dls m (h_dl x) = Some dl \<and> spare Z (dlink m) (dl_hd dl) dpool) \<and>
     (\<forall>p\<in>set pool. own p = RPool) \<and> (\<forall>p\<in>set (butlast pool). \<exists>it. hm_items m p = Some it \<and> hi_type it \<noteq> END_NODE) \<and>
     (\<forall>p\<in>set dpool. own p = RSpare) \<and>
     (\<forall>i<2 ^ n. own (T ! i) = RHead i \<and> own (es i) = REnd i \<and> bucket_ok m (T ! i) (B i) (es i) \<and>
        (\<forall>a\<in>set (B i). own (fst a) = RItem i \<and> own (snd a) = RData i \<and> bidx n (bkey m a) = i))"

definition hmap :: "nat \<Rightarrow> (nat \<Rightarrow> (addr \<times> addr) list) \<Rightarrow> 'a hm_mem_scheme \<Rightarrow> u64 \<Rightarrow> u64 option" where
  "hmap n B m k = bmap m (B (bidx n k)) k"

lemma bidx_less [simp]: "bidx n k < 2 ^ n"
  by (simp add: bidx_def)

lemma bucket_index:
  assumes "n \<le> 30"
  shows "sint (ucast (k AND mask n) :: i32) = int (bidx n k)"
proof -
  have "k AND mask n = take_bit n k" by (simp add: take_bit_eq_mask)
  then have u: "unat (k AND mask n) = bidx n k"
    unfolding bidx_def take_bit_eq_mod [symmetric, where 'a = nat] by (simp only: unsigned_take_bit_eq)
  have "(2::nat) ^ n \<le> 2 ^ 30" using assms by (intro power_increasing) auto
  with bidx_less [of n k] have lt: "bidx n k < 2 ^ 30" by (rule less_le_trans)
  have "unat (ucast (k AND mask n) :: i32) = bidx n k"
    using lt by (simp add: unsigned_ucast_eq u take_bit_nat_eq_self)
  then have "uint (ucast (k AND mask n) :: i32) = int (bidx n k)" by (metis of_nat_unat)
  then show ?thesis using lt by (simp add: sint_uint signed_take_bit_int_eq_self)
qed

lemma hm_c_more_eq:
  assumes "c_mem.more m' = c_mem.more m"
  shows "hm_items m' = hm_items m" "hm_datas m' = hm_datas m" "hm_tables m' = hm_tables m" "hm_hashes m' = hm_hashes m"
    "hm_hls m' = hm_hls m" "hm_dls m' = hm_dls m"
  using assms by (cases m, cases m', simp)+

lemma free_hi_allocated:
  fixes m :: "'a hm_mem_scheme"
  assumes "heap_ok m" "allocated m p"
  obtains m' where "free_hi p m = Ok m'" "heap_ok m'" "\<forall>r. allocated m' r \<longleftrightarrow> allocated m r \<and> r \<noteq> p"
    "hm_items m' = (hm_items m)(p := None)" "hm_datas m' = hm_datas m" "hm_tables m' = hm_tables m"
    "hm_hashes m' = hm_hashes m" "hm_hls m' = hm_hls m" "hm_dls m' = hm_dls m"
proof -
  obtain m1 where m1: "aligned_free p m = Ok m1" "heap_ok m1" "\<forall>r. allocated m1 r \<longleftrightarrow> allocated m r \<and> r \<noteq> p"
    and more: "c_mem.more m1 = c_mem.more m"
    using aligned_free_allocated [OF assms] by (elim exE conjE) (rule that)
  note eqs = hm_c_more_eq [OF more]
  show ?thesis
    by (rule that [of "m1\<lparr>hm_items := (hm_items m1)(p := None)\<rparr>"])
      (use m1 eqs in \<open>simp_all add: free_hi_def allocated_def heap_ok_def\<close>)
qed

lemma free_hd_allocated:
  fixes m :: "'a hm_mem_scheme"
  assumes "heap_ok m" "allocated m p"
  obtains m' where "free_hd p m = Ok m'" "heap_ok m'" "\<forall>r. allocated m' r \<longleftrightarrow> allocated m r \<and> r \<noteq> p"
    "hm_datas m' = (hm_datas m)(p := None)" "hm_items m' = hm_items m" "hm_tables m' = hm_tables m"
    "hm_hashes m' = hm_hashes m" "hm_hls m' = hm_hls m" "hm_dls m' = hm_dls m"
proof -
  obtain m1 where m1: "aligned_free p m = Ok m1" "heap_ok m1" "\<forall>r. allocated m1 r \<longleftrightarrow> allocated m r \<and> r \<noteq> p"
    and more: "c_mem.more m1 = c_mem.more m"
    using aligned_free_allocated [OF assms] by (elim exE conjE) (rule that)
  note eqs = hm_c_more_eq [OF more]
  show ?thesis
    by (rule that [of "m1\<lparr>hm_datas := (hm_datas m1)(p := None)\<rparr>"])
      (use m1 eqs in \<open>simp_all add: free_hd_def allocated_def heap_ok_def\<close>)
qed

lemma hashlist_pop_item:
  assumes "hm_hls m l = Some hl" "l \<noteq> NULL" "spare False (ilink m) (hl_he hl) (t # q # pool)"
  shows "hashlist_pop l r m = Ok (t, r + 1, set_hl l (hl\<lparr>hl_he := q, hl_num := hl_num hl - 1\<rparr>) m)"
proof -
  obtain it where it: "hl_he hl = t" "t \<noteq> NULL" "hm_items m t = Some it" "hi_next it = q" "q \<noteq> NULL"
    using assms(3) by (auto simp: spare_Cons2 ilink_def dest: spare_nodes(2))
  have "cloop (hashlist_pop_body l) (hl_he hl, r, m) = Ok (t, r + 1, set_hl l (hl\<lparr>hl_he := q\<rparr>) m)"
    by (rule cloop_Done) (simp add: hashlist_pop_body_def it assms abstraction_cas_def)
  then show ?thesis using it by (simp add: hashlist_pop_def assms set_hl_def abstraction_sub_def)
qed

lemma hashlist_pop_none:
  assumes "hm_hls m l = Some hl" "l \<noteq> NULL" "chain (ilink m) (hl_he hl) [s]"
  shows "hashlist_pop l r m = Ok (NULL, r, m)"
proof -
  obtain it where it: "hl_he hl = s" "hm_items m s = Some it" "hi_next it = NULL"
    using assms(3) by (auto simp: ilink_def split: option.splits)
  have "cloop (hashlist_pop_body l) (hl_he hl, r, m) = Ok (NULL, r, m)"
    by (rule cloop_Done) (simp add: hashlist_pop_body_def it)
  then show ?thesis by (simp add: hashlist_pop_def assms)
qed

text \<open>A step that changes bucket \<open>j\<close> and takes an item from the pool.\<close>

lemma hash_at_step:
  assumes at: "hash_at Z h n own T B es (t # q # pool) dpool m" and j: "j < 2 ^ n"
    and base: "heap_ok m'" "\<forall>x. own' x \<noteq> RNone \<longrightarrow> allocated m' x"
    and eqs: "hm_hashes m' = hm_hashes m" "hm_tables m' = hm_tables m" "hm_dls m' = hm_dls m"
    and hl: "hm_hashes m h = Some x" "hm_hls m' (h_hl x) = Some l'" "hl_he l' = q"
    and items: "\<And>p. p \<noteq> t \<Longrightarrow> own p \<noteq> RHead j \<Longrightarrow> own p \<noteq> RItem j \<Longrightarrow> hm_items m' p = hm_items m p"
    and datas: "\<And>p. p \<noteq> d \<Longrightarrow> own p \<noteq> RData j \<Longrightarrow> hm_datas m' p = hm_datas m p"
    and own: "\<And>p. p \<noteq> t \<Longrightarrow> p \<noteq> d \<Longrightarrow> own p \<noteq> RData j \<Longrightarrow> own' p = own p" and d: "own d = RClient"
    and bs: "bucket_ok m' (T ! j) bs (es j)"
      "\<forall>a\<in>set bs. own' (fst a) = RItem j \<and> own' (snd a) = RData j \<and> bidx n (bkey m' a) = j"
  shows "hash_at Z h n own' T (B(j := bs)) es (q # pool) dpool m'"
    and "\<And>k. bidx n k \<noteq> j \<Longrightarrow> hmap n (B(j := bs)) m' k = hmap n B m k"
proof -
  obtain l dl where x: "h_bucket_mask x = mask n" "hm_tables m (h_table x) = Some T" "length T = 2 ^ n"
      "h_hl x \<noteq> NULL" "hm_hls m (h_hl x) = Some l" "spare False (ilink m) (hl_he l) (t # q # pool)"
      "h_dl x \<noteq> NULL" "hm_dls m (h_dl x) = Some dl" "spare Z (dlink m) (dl_hd dl) dpool"
    and n: "n \<le> 30" "h \<noteq> NULL"
    and pl: "\<forall>p\<in>set (t # q # pool). own p = RPool" "\<forall>p\<in>set (butlast (t # q # pool)). \<exists>it. hm_items m p = Some it \<and> hi_type it \<noteq> END_NODE"
      "\<forall>p\<in>set dpool. own p = RSpare"
    and bk: "\<And>i. i < 2 ^ n \<Longrightarrow> own (T ! i) = RHead i \<and> own (es i) = REnd i \<and> bucket_ok m (T ! i) (B i) (es i) \<and>
        (\<forall>a\<in>set (B i). own (fst a) = RItem i \<and> own (snd a) = RData i \<and> bidx n (bkey m a) = i)"
    using at hl(1) unfolding hash_at_def by auto
  have tq: "distinct (t # q # pool)" by (rule spare_nodes(1) [OF x(6)])
  have ipool: "hm_items m' p = hm_items m p" "own' p = RPool" if "p \<in> set (q # pool)" for p
  proof -
    have p: "p \<noteq> t" "own p = RPool" using that tq pl(1) by auto
    then show "hm_items m' p = hm_items m p" by (intro items) auto
    have "own' p = own p" by (rule own) (use p d in auto)
    then show "own' p = RPool" using p by simp
  qed
  have dpl: "hm_datas m' p = hm_datas m p" "own' p = RSpare" if "p \<in> set dpool" for p
  proof -
    have p: "p \<noteq> t" "p \<noteq> d" "own p = RSpare" using that pl d by auto
    then show "hm_datas m' p = hm_datas m p" by (intro datas) auto
    show "own' p = RSpare" using own [of p] p by simp
  qed
  have "spare False (ilink m) q (q # pool)" using x(6) by (simp add: spare_Cons2)
  then have "spare False (ilink m') q (q # pool)" by (rule spare_frame) (use ipool in \<open>simp add: ilink_def\<close>)
  then have pool: "spare False (ilink m') (hl_he l') (q # pool)" unfolding hl(3) .
  have dpool: "spare Z (dlink m') (dl_hd dl) dpool"
    by (rule spare_frame [OF x(9)]) (use dpl in \<open>simp add: dlink_def\<close>)
  have pl': "\<forall>p\<in>set (butlast (q # pool)). \<exists>it. hm_items m' p = Some it \<and> hi_type it \<noteq> END_NODE"
  proof
    fix p assume p: "p \<in> set (butlast (q # pool))"
    have "hm_items m' p = hm_items m p" by (rule ipool(1) [OF in_set_butlastD [OF p]])
    then show "\<exists>it. hm_items m' p = Some it \<and> hi_type it \<noteq> END_NODE" using pl(2) p by auto
  qed
  have other: "bucket_ok m' (T ! i) (B i) (es i)" "bmap m' (B i) = bmap m (B i)"
      "\<forall>a\<in>set (B i). own' (fst a) = RItem i \<and> own' (snd a) = RData i \<and> bidx n (bkey m' a) = i"
      if i: "i < 2 ^ n" "i \<noteq> j" for i
  proof -
    note b = bk [OF i(1)]
    have ti: "own t = RPool" using pl(1) by simp
    have it: "hm_items m' p = hm_items m p" if "p \<in> insert (T ! i) (insert (es i) (fst ` set (B i)))" for p
      using that b i(2) ti by (intro items) auto
    have da: "hm_datas m' p = hm_datas m p" if "p \<in> snd ` set (B i)" for p
      using that b i(2) d by (intro datas) auto
    have ok: "bucket_ok m (T ! i) (B i) (es i)" using b by blast
    show "bucket_ok m' (T ! i) (B i) (es i)" "bmap m' (B i) = bmap m (B i)"
      by (rule bucket_ok_frame [OF ok it da], assumption+)+
    show "\<forall>a\<in>set (B i). own' (fst a) = RItem i \<and> own' (snd a) = RData i \<and> bidx n (bkey m' a) = i"
    proof
      fix a assume a: "a \<in> set (B i)"
      then have "own (fst a) = RItem i" "own (snd a) = RData i" "bidx n (bkey m a) = i" using b by auto
      moreover have "bkey m' a = bkey m a" using da [of "snd a"] a by (simp add: bkey_def)
      moreover have "own' (fst a) = own (fst a)" "own' (snd a) = own (snd a)"
        by (rule own; use calculation ti d i(2) in auto)+
      ultimately show "own' (fst a) = RItem i \<and> own' (snd a) = RData i \<and> bidx n (bkey m' a) = i" by simp
    qed
  qed
  have keep: "own' p = own p" if "own p \<notin> {RPool, RClient, RData j}" for p
    using that own [of p] pl(1) d by (metis insertCI list.set_intros(1))
  have heads: "own' (T ! i) = RHead i \<and> own' (es i) = REnd i" if "i < 2 ^ n" for i
    using keep [of "T ! i"] keep [of "es i"] bk [OF that] by auto
  have "\<forall>i<2 ^ n. own' (T ! i) = RHead i \<and> own' (es i) = REnd i \<and> bucket_ok m' (T ! i) ((B(j := bs)) i) (es i) \<and>
        (\<forall>a\<in>set ((B(j := bs)) i). own' (fst a) = RItem i \<and> own' (snd a) = RData i \<and> bidx n (bkey m' a) = i)"
    using heads other bs by (metis fun_upd_other fun_upd_same)
  moreover have "\<forall>p\<in>set (q # pool). own' p = RPool" "\<forall>p\<in>set dpool. own' p = RSpare"
    using ipool(2) dpl(2) by blast+
  ultimately show "hash_at Z h n own' T (B(j := bs)) es (q # pool) dpool m'"
    unfolding hash_at_def using base n x eqs hl pool dpool pl' by auto
  show "\<And>k. bidx n k \<noteq> j \<Longrightarrow> hmap n (B(j := bs)) m' k = hmap n B m k"
    using other(2) by (simp add: hmap_def)
qed

section \<open>Insertion\<close>

lemma hm_set_simps [simp]:
  "hm_items (set_hi p x m) = (hm_items m)(p \<mapsto> x)" "hm_datas (set_hi p x m) = hm_datas m" "hm_tables (set_hi p x m) = hm_tables m"
  "hm_hashes (set_hi p x m) = hm_hashes m" "hm_hls (set_hi p x m) = hm_hls m" "hm_dls (set_hi p x m) = hm_dls m"
  "hm_items (set_hd p d m) = hm_items m" "hm_datas (set_hd p d m) = (hm_datas m)(p \<mapsto> d)" "hm_tables (set_hd p d m) = hm_tables m"
  "hm_hashes (set_hd p d m) = hm_hashes m" "hm_hls (set_hd p d m) = hm_hls m" "hm_dls (set_hd p d m) = hm_dls m"
  "hm_items (set_hl p l m) = hm_items m" "hm_datas (set_hl p l m) = hm_datas m" "hm_tables (set_hl p l m) = hm_tables m"
  "hm_hashes (set_hl p l m) = hm_hashes m" "hm_hls (set_hl p l m) = (hm_hls m)(p \<mapsto> l)" "hm_dls (set_hl p l m) = hm_dls m"
  by (simp_all add: set_hi_def set_hd_def set_hl_def)

lemma hm_set_base [simp]:
  "allocated (set_hi p x m) = allocated m" "heap_ok (set_hi p x m) = heap_ok m"
  "allocated (set_hd p d m) = allocated m" "heap_ok (set_hd p d m) = heap_ok m"
  "allocated (set_hl p l m) = allocated m" "heap_ok (set_hl p l m) = heap_ok m"
  by (auto simp: set_hi_def set_hd_def set_hl_def allocated_def heap_ok_def fun_eq_iff)

lemma add_new:
  assumes ok: "bucket_ok m b bs e" and d: "hm_datas m hdata = Some d" and no: "bmap m bs (hd_key d) = None"
    and t: "hm_items m t = Some it" "t \<notin> insert b (insert e (fst ` set bs))"
  shows "\<exists>r' x. cloop (hash_add_body hdata t) (b, first_of bs e, r, m) = Ok (HASH_MAP_NODE_ADD, r',
      set_hi (last (b # map fst (blo m bs (hd_key d)))) (x\<lparr>hi_next := t\<rparr>)
        (set_hi t (it\<lparr>hi_next := first_of (bhi m bs (hd_key d)) e\<rparr>) m)) \<and>
    hm_items m (last (b # map fst (blo m bs (hd_key d)))) = Some x"
proof -
  let ?k = "hd_key d" and ?f = "first_of (bhi m bs (hd_key d)) e"
  let ?p = "last (b # map fst (blo m bs ?k))"
  have so: "sorted_wrt (\<lambda>a c. bkey m a < bkey m c) bs" using ok by (simp add: bucket_ok_def)
  obtain r' where reach: "cloop (hash_add_body hdata t) (b, first_of bs e, r, m) = cloop (hash_add_body hdata t) (?p, ?f, r', m)"
    using add_reaches [OF ok d refl] by blast
  obtain x where x: "hm_items m ?p = Some x" "hi_next x = ?f"
    using bucket_split [of m b "blo m bs ?k" "bhi m bs ?k" e] ok by auto
  have "?p \<in> insert b (fst ` set bs)" by (cases "blo m bs ?k" rule: rev_cases) (auto dest!: arg_cong [where f = set] set_takeWhileD)
  then have pt: "?p \<noteq> t" using t(2) by (metis insert_iff)
  have "hash_add_body hdata t (?p, ?f, r', m) = Ok (Done (HASH_MAP_NODE_ADD, r' + 1,
      set_hi ?p (x\<lparr>hi_next := t\<rparr>) (set_hi t (it\<lparr>hi_next := ?f\<rparr>) m)))"
  proof (cases "bhi m bs ?k")
    case Nil
    obtain y where "hm_items m e = Some y" "hi_type y = END_NODE" using ok by (auto simp: bucket_ok_def)
    then show ?thesis using x pt t(1) unfolding Nil
      by (simp add: hash_add_body_def first_of_def abstraction_cas_def)
  next
    case (Cons a as)
    have "entry_ok m a" using bucket_sorted_split(2) [OF ok, of ?k] Cons by simp
    then obtain y dd where y: "hm_items m (fst a) = Some y" "hi_type y \<noteq> END_NODE" "hi_data y = snd a" "hm_datas m (snd a) = Some dd"
      by (auto simp: entry_ok_def)
    have "\<not> bkey m a < ?k" using Cons by (metis dropWhile_eq_Cons_conv)
    moreover have "bkey m a \<noteq> ?k" using no Cons unfolding bmap_split [OF so] by (auto split: if_splits)
    ultimately have "?k < hd_key dd" using y by (auto simp: bkey_def)
    then show ?thesis using x pt t(1) y d unfolding Cons
      by (simp add: hash_add_body_def first_of_def abstraction_cas_def)
  qed
  then show ?thesis using reach x(1) by (intro exI [of _ "r' + 1"] exI [of _ x]) (simp only: cloop_Done)
qed

lemma bhi_greater:
  assumes ok: "bucket_ok m b bs e" and no: "bmap m bs k = None" and a: "a \<in> set (bhi m bs k)"
  shows "k < bkey m a"
proof -
  have "a \<in> set bs" using a by (rule set_dropWhileD)
  then have "bkey m a \<noteq> k" using no by (auto simp: bmap_None)
  moreover have "\<not> bkey m (hd (bhi m bs k)) < k" using a by (metis empty_iff empty_set hd_dropWhile)
  moreover have "a \<in> set (tl (bhi m bs k)) \<or> a = hd (bhi m bs k)" using a by (cases "bhi m bs k") auto
  ultimately show ?thesis using bucket_sorted_split(3) [OF ok, of a k] by auto
qed

lemma add_new_bucket:
  fixes m :: "'a hm_mem_scheme"
  assumes ok: "bucket_ok m b bs e" and d: "hm_datas m hdata = Some d" and no: "bmap m bs (hd_key d) = None"
    and t: "hm_items m t = Some it" "t \<notin> insert b (insert e (fst ` set bs))" "t \<noteq> NULL" "hi_type it \<noteq> END_NODE" "hi_data it = hdata"
    and own: "b \<notin> insert e (fst ` set bs)" "e \<notin> fst ` set bs"
  obtains r' bs' m' where "cloop (hash_add_body hdata t) (b, first_of bs e, r, m) = Ok (HASH_MAP_NODE_ADD, r', m')"
    "bucket_ok m' b bs' e" "set bs' = insert (t, hdata) (set bs)" "bmap m' bs' = (bmap m bs)(hd_key d \<mapsto> hd_val d)"
    "\<forall>p. p \<notin> insert t (insert b (fst ` set bs)) \<longrightarrow> hm_items m' p = hm_items m p" "hm_datas m' = hm_datas m"
    "hm_tables m' = hm_tables m" "hm_hashes m' = hm_hashes m" "hm_hls m' = hm_hls m" "hm_dls m' = hm_dls m"
    "allocated m' = allocated m" "heap_ok m' = heap_ok m"
proof -
  let ?k = "hd_key d"
  obtain us vs where uv: "blo m bs ?k = us" "bhi m bs ?k = vs" and bs: "bs = us @ vs"
    by (metis takeWhile_dropWhile_id)
  obtain r' x where run: "cloop (hash_add_body hdata t) (b, first_of bs e, r, m) = Ok (HASH_MAP_NODE_ADD, r',
      set_hi (last (b # map fst us)) (x\<lparr>hi_next := t\<rparr>) (set_hi t (it\<lparr>hi_next := first_of vs e\<rparr>) m))"
    and x: "hm_items m (last (b # map fst us)) = Some x"
    using add_new [OF ok d no t(1,2), of r] unfolding uv by blast
  let ?m' = "set_hi (last (b # map fst us)) (x\<lparr>hi_next := t\<rparr>) (set_hi t (it\<lparr>hi_next := first_of vs e\<rparr>) m)"
  have lo: "\<forall>a\<in>set us. bkey m a < ?k" unfolding uv(1) [symmetric] by (auto dest: set_takeWhileD)
  have hi: "\<forall>a\<in>set vs. ?k < bkey m a" using bhi_greater [OF ok no] uv(2) by blast
  have ok': "bucket_ok ?m' b (us @ (t, hdata) # vs) e"
    by (rule bucket_link [OF ok [unfolded bs] lo hi t(2) [unfolded bs] own [unfolded bs] t(3,4,5) d refl x]) simp_all
  have key: "bkey ?m' (t, hdata) = ?k" "bval ?m' (t, hdata) = hd_val d" using d by (simp_all add: bkey_def bval_def)
  have eq: "bmap ?m' cs = bmap m cs" for cs by (rule bmap_cong) (simp add: bkey_def bval_def)
  have "bmap ?m' (us @ vs) ?k = None" using no eq bs by metis
  from bmap_insert [OF this key(1)] have map: "bmap ?m' (us @ (t, hdata) # vs) = (bmap m bs)(?k \<mapsto> hd_val d)"
    unfolding key(2) eq bs .
  have pin: "last (b # map fst us) \<in> insert b (fst ` set bs)"
    unfolding bs by (cases us rule: rev_cases) auto
  have fr: "hm_items ?m' p = hm_items m p" if "p \<notin> insert t (insert b (fst ` set bs))" for p
  proof -
    have "p \<noteq> last (b # map fst us)" "p \<noteq> t" using that pin by (metis insert_iff)+
    then show ?thesis by simp
  qed
  show ?thesis
    by (rule that [OF run ok' _ map]) (use fr in \<open>auto simp: bs\<close>)
qed

lemma add_present:
  assumes ok: "bucket_ok m b bs e" and d: "hm_datas m hdata = Some d" and v: "bmap m bs (hd_key d) = Some v"
  obtains us a vs y dd r' where "bs = us @ a # vs" "hm_items m (fst a) = Some y" "hi_data y = snd a" "hm_datas m (snd a) = Some dd"
    "hd_key dd = hd_key d" "hd_val dd = v" "bkey m a = hd_key d" "\<forall>c\<in>set (us @ vs). bkey m c \<noteq> hd_key d"
    "cloop (hash_add_body hdata t) (b, first_of bs e, r, m) =
       (if hd_val d = v then call (free_hd hdata m) (\<lambda>m1. Ok (HASH_MAP_NODE_EXIST, r', m1))
        else call (free_hd (snd a) (set_hi (fst a) (y\<lparr>hi_data := hdata\<rparr>) m)) (\<lambda>m1. Ok (HASH_MAP_NODE_REPLACE, r', m1)))"
proof -
  let ?k = "hd_key d"
  have so: "sorted_wrt (\<lambda>a c. bkey m a < bkey m c) bs" using ok by (simp add: bucket_ok_def)
  obtain a vs where hi: "bhi m bs ?k = a # vs" and a: "bkey m a = ?k" "bval m a = v"
    using v unfolding bmap_split [OF so] by (auto split: list.splits if_splits)
  have bs: "bs = blo m bs ?k @ a # vs" using takeWhile_dropWhile_id [of "\<lambda>a. bkey m a < ?k" bs] hi by simp
  have "entry_ok m a" using bucket_sorted_split(2) [OF ok, of ?k] hi by simp
  then obtain y dd where y: "hm_items m (fst a) = Some y" "hi_type y \<noteq> END_NODE" "hi_data y = snd a" "hm_datas m (snd a) = Some dd"
    by (auto simp: entry_ok_def)
  have dd: "hd_key dd = ?k" "hd_val dd = v" using a y by (auto simp: bkey_def bval_def)
  obtain r1 where reach: "cloop (hash_add_body hdata t) (b, first_of bs e, r, m) =
      cloop (hash_add_body hdata t) (last (b # map fst (blo m bs ?k)), fst a, r1, m)"
    using add_reaches [OF ok d refl, of t r] hi by (auto simp: first_of_def)
  have rep: "cloop (hash_replace_body (fst a) hdata) (snd a, m) = Ok (snd a, set_hi (fst a) (y\<lparr>hi_data := hdata\<rparr>) m)"
    using y by (intro cloop_Done) (simp add: hash_replace_body_def abstraction_cas_def)
  have "hash_add_body hdata t (p, fst a, r1, m) =
      (if hd_val d = v then call (free_hd hdata m) (\<lambda>m1. Ok (Done (HASH_MAP_NODE_EXIST, r1 + 1, m1)))
       else call (free_hd (snd a) (set_hi (fst a) (y\<lparr>hi_data := hdata\<rparr>) m)) (\<lambda>m1. Ok (Done (HASH_MAP_NODE_REPLACE, r1 + 1, m1))))" for p
    using y dd d rep by (simp add: hash_add_body_def Let_def)
  then have run: "cloop (hash_add_body hdata t) (b, first_of bs e, r, m) =
       (if hd_val d = v then call (free_hd hdata m) (\<lambda>m1. Ok (HASH_MAP_NODE_EXIST, r1 + 1, m1))
        else call (free_hd (snd a) (set_hi (fst a) (y\<lparr>hi_data := hdata\<rparr>) m)) (\<lambda>m1. Ok (HASH_MAP_NODE_REPLACE, r1 + 1, m1)))"
    unfolding reach by (subst cloop_unfold) (auto simp: call_def split: res.split)
  have "\<forall>c\<in>set (blo m bs ?k @ vs). bkey m c \<noteq> ?k"
    using bucket_sorted_split(3) [OF ok, of _ ?k, unfolded hi] by (fastforce dest: set_takeWhileD)
  from that [OF bs y(1,3,4) dd a(1) this run] show ?thesis .
qed

text \<open>What \<open>lf_hash_add\<close> does before it walks along the bucket: it takes an item and stores the data in it.\<close>

lemma add_start:
  assumes at: "hash_at Z h n own T B es (t # q # pool) dpool m" and d: "hm_datas m hdata = Some d"
    and j: "j = bidx n (hd_key d)"
  obtains x l it m2 where "hm_hashes m h = Some x" "hm_items m2 = (hm_items m)(t \<mapsto> it)" "hi_data it = hdata"
    "hi_type it \<noteq> END_NODE" "hm_datas m2 = hm_datas m" "hm_tables m2 = hm_tables m" "hm_hashes m2 = hm_hashes m"
    "hm_dls m2 = hm_dls m" "hm_hls m2 (h_hl x) = Some l" "hl_he l = q" "allocated m2 = allocated m" "heap_ok m2"
    "bucket_ok m2 (T ! j) (B j) (es j)" "bmap m2 (B j) = bmap m (B j)"
    "t \<notin> insert (T ! j) (insert (es j) (fst ` set (B j)))"
    "lf_hash_add h hdata r ar m =
       call (cloop (hash_add_body hdata t) (T ! j, first_of (B j) (es j), ar, m2)) (\<lambda>(operation, ar', m3).
         if operation = HASH_MAP_NODE_EXIST \<or> operation = HASH_MAP_NODE_REPLACE
         then call (free_hi t m3) (\<lambda>m4. Ok (operation, r + 1, ar', m4)) else Ok (operation, r + 1, ar', m3))"
proof -
  obtain x l where x: "hm_hashes m h = Some x" "h_bucket_mask x = mask n" "hm_tables m (h_table x) = Some T" "length T = 2 ^ n"
      "h_hl x \<noteq> NULL" "hm_hls m (h_hl x) = Some l" "spare False (ilink m) (hl_he l) (t # q # pool)"
    and n: "n \<le> 30" "h \<noteq> NULL" and ok: "heap_ok m"
    and pl: "own t = RPool" "\<exists>it. hm_items m t = Some it \<and> hi_type it \<noteq> END_NODE"
    and bk: "own (T ! j) = RHead j \<and> own (es j) = REnd j \<and> bucket_ok m (T ! j) (B j) (es j) \<and>
        (\<forall>a\<in>set (B j). own (fst a) = RItem j \<and> own (snd a) = RData j \<and> bidx n (bkey m a) = j)"
    using at j unfolding hash_at_def by auto
  obtain it where it: "hm_items m t = Some it" "hi_type it \<noteq> END_NODE" using pl by blast
  let ?m1 = "set_hl (h_hl x) (l\<lparr>hl_he := q, hl_num := hl_num l - 1\<rparr>) m"
  let ?m2 = "set_hi t (it\<lparr>hi_data := hdata\<rparr>) ?m1"
  have t0: "t \<noteq> NULL" using x(7) by (simp add: spare_Cons2)
  have foot: "t \<notin> insert (T ! j) (insert (es j) (fst ` set (B j)))" using bk pl(1) by auto
  have ok2: "bucket_ok m (T ! j) (B j) (es j)" using bk by blast
  have b: "bucket_ok ?m2 (T ! j) (B j) (es j)" "bmap ?m2 (B j) = bmap m (B j)"
    by (rule bucket_ok_frame [OF ok2]; use foot in auto)+
  have tb: "T ! j \<noteq> t" using foot by blast
  obtain y where y: "hm_items m (T ! j) = Some y" "hi_next y = first_of (B j) (es j)"
    using bucket_start [OF ok2] by blast
  have take: "cloop (hash_take_body h) (r, m) = Ok (t, r + 1, ?m1)"
    using hashlist_pop_item [OF x(6,5,7)] x(1) n t0
    by (intro cloop_Done) (simp add: hash_take_body_def lf_hash_add_new_element_from_hashlist_def)
  have idx: "sint (ucast (hd_key d AND h_bucket_mask x) :: i32) = int j"
    using bucket_index [OF n(1)] x(2) j by simp
  have jl: "j < length T" using j x(4) by simp
  have "lf_hash_add h hdata r ar m =
       call (cloop (hash_add_body hdata t) (T ! j, first_of (B j) (es j), ar, ?m2)) (\<lambda>(operation, ar', m3).
         if operation = HASH_MAP_NODE_EXIST \<or> operation = HASH_MAP_NODE_REPLACE
         then call (free_hi t m3) (\<lambda>m4. Ok (operation, r + 1, ar', m4)) else Ok (operation, r + 1, ar', m3))"
    unfolding lf_hash_add_def using n x d take idx jl y it t0 by (simp add: table_at_def Let_def)
  then show ?thesis
    by (intro that [of x ?m2 "it\<lparr>hi_data := hdata\<rparr>" "l\<lparr>hl_he := q, hl_num := hl_num l - 1\<rparr>"])
      (use x b foot it ok in simp_all)
qed

definition spec_add :: "u64 \<Rightarrow> u64 \<Rightarrow> (u64 \<Rightarrow> u64 option) \<Rightarrow> u64 \<times> (u64 \<Rightarrow> u64 option)" where
  "spec_add k v M = (case M k of
       None \<Rightarrow> (HASH_MAP_NODE_ADD, M(k \<mapsto> v))
     | Some w \<Rightarrow> if v = w then (HASH_MAP_NODE_EXIST, M) else (HASH_MAP_NODE_REPLACE, M(k \<mapsto> v)))"

lemma hash_at_own:
  assumes "hash_at Z h n own T B es pool dpool m" and "j < 2 ^ n"
  shows "\<forall>x. own x \<noteq> RNone \<longrightarrow> allocated m x" "own (T ! j) = RHead j" "own (es j) = REnd j" "bucket_ok m (T ! j) (B j) (es j)"
    "\<And>a. a \<in> set (B j) \<Longrightarrow> own (fst a) = RItem j \<and> own (snd a) = RData j \<and> bidx n (bkey m a) = j"
    "\<forall>p\<in>set pool. own p = RPool \<and> p \<noteq> NULL" "T ! j \<notin> insert (es j) (fst ` set (B j))" "es j \<notin> fst ` set (B j)"
proof -
  show all: "\<forall>x. own x \<noteq> RNone \<longrightarrow> allocated m x" "own (T ! j) = RHead j" "own (es j) = REnd j" "bucket_ok m (T ! j) (B j) (es j)"
    "\<And>a. a \<in> set (B j) \<Longrightarrow> own (fst a) = RItem j \<and> own (snd a) = RData j \<and> bidx n (bkey m a) = j"
    "\<forall>p\<in>set pool. own p = RPool \<and> p \<noteq> NULL"
    using assms unfolding hash_at_def by (auto dest: spare_nodes(2))
  show "T ! j \<notin> insert (es j) (fst ` set (B j))" "es j \<notin> fst ` set (B j)"
    using all(2,3) all(5) by force+
qed

lemma hmap_step:
  assumes "\<And>k. bidx n k \<noteq> j \<Longrightarrow> hmap n (B(j := bs)) m' k = hmap n B m k" and "bidx n k0 = j"
    and "bmap m' bs = (bmap m (B j))(k0 \<mapsto> v)"
  shows "hmap n (B(j := bs)) m' = (hmap n B m)(k0 \<mapsto> v)"
proof
  fix k show "hmap n (B(j := bs)) m' k = ((hmap n B m)(k0 \<mapsto> v)) k"
    using assms by (cases "bidx n k = j") (auto simp: hmap_def)
qed

lemma hash_add_new:
  assumes at: "hash_at Z h n own T B es (t # q # pool) dpool m" and d: "hm_datas m hdata = Some d" "own hdata = RClient"
    and no: "hmap n B m (hd_key d) = None"
  shows "\<exists>r' ar' m' own' B'. lf_hash_add h hdata r ar m = Ok (HASH_MAP_NODE_ADD, r', ar', m') \<and>
    hash_at Z h n own' T B' es (q # pool) dpool m' \<and> hmap n B' m' = (hmap n B m)(hd_key d \<mapsto> hd_val d) \<and>
    (\<forall>p. own p = RNone \<longrightarrow> own' p = RNone \<and> hm_datas m' p = hm_datas m p)"
proof -
  define j where "j = bidx n (hd_key d)"
  have j: "j < 2 ^ n" by (simp add: j_def)
  obtain x l it m2 where m2: "hm_hashes m h = Some x" "hm_items m2 = (hm_items m)(t \<mapsto> it)" "hi_data it = hdata"
    "hi_type it \<noteq> END_NODE" "hm_datas m2 = hm_datas m" "hm_tables m2 = hm_tables m" "hm_hashes m2 = hm_hashes m"
    "hm_dls m2 = hm_dls m" "hm_hls m2 (h_hl x) = Some l" "hl_he l = q" "allocated m2 = allocated m" "heap_ok m2"
    and bk: "bucket_ok m2 (T ! j) (B j) (es j)" "bmap m2 (B j) = bmap m (B j)"
    "t \<notin> insert (T ! j) (insert (es j) (fst ` set (B j)))"
    and run: "lf_hash_add h hdata r ar m =
       call (cloop (hash_add_body hdata t) (T ! j, first_of (B j) (es j), ar, m2)) (\<lambda>(operation, ar', m3).
         if operation = HASH_MAP_NODE_EXIST \<or> operation = HASH_MAP_NODE_REPLACE
         then call (free_hi t m3) (\<lambda>m4. Ok (operation, r + 1, ar', m4)) else Ok (operation, r + 1, ar', m3))"
    by (rule add_start [OF at d(1) j_def])
  note own = hash_at_own [OF at j]
  have d2: "hm_datas m2 hdata = Some d" and t2: "hm_items m2 t = Some it" and tN: "t \<noteq> NULL" "own t = RPool"
    using d m2 own(6) by auto
  have no2: "bmap m2 (B j) (hd_key d) = None" using no bk(2) by (simp add: hmap_def j_def)
  obtain ar' bs m' where loop: "cloop (hash_add_body hdata t) (T ! j, first_of (B j) (es j), ar, m2) = Ok (HASH_MAP_NODE_ADD, ar', m')"
    and m': "bucket_ok m' (T ! j) bs (es j)" "set bs = insert (t, hdata) (set (B j))"
      "bmap m' bs = (bmap m2 (B j))(hd_key d \<mapsto> hd_val d)"
      "\<forall>p. p \<notin> insert t (insert (T ! j) (fst ` set (B j))) \<longrightarrow> hm_items m' p = hm_items m2 p" "hm_datas m' = hm_datas m2"
      "hm_tables m' = hm_tables m2" "hm_hashes m' = hm_hashes m2" "hm_hls m' = hm_hls m2" "hm_dls m' = hm_dls m2"
      "allocated m' = allocated m2" "heap_ok m' = heap_ok m2"
    by (rule add_new_bucket [OF bk(1) d2 no2 t2 bk(3) tN(1) m2(4,3) own(7,8)])
  let ?own = "own(t := RItem j, hdata := RData j)"
  have th: "t \<noteq> hdata" using tN(2) d(2) by auto
  have it: "hm_items m' p = hm_items m p" if "p \<noteq> t" "own p \<noteq> RHead j" "own p \<noteq> RItem j" for p
  proof -
    have "p \<notin> insert t (insert (T ! j) (fst ` set (B j)))" using that own(2,5) by auto
    then show ?thesis using m'(4) m2(2) that(1) by simp
  qed
  have bs: "\<forall>a\<in>set bs. ?own (fst a) = RItem j \<and> ?own (snd a) = RData j \<and> bidx n (bkey m' a) = j"
  proof
    fix a assume "a \<in> set bs"
    then consider "a = (t, hdata)" | "a \<in> set (B j)" unfolding m'(2) by auto
    then show "?own (fst a) = RItem j \<and> ?own (snd a) = RData j \<and> bidx n (bkey m' a) = j"
    proof cases
      case 1
      then show ?thesis using th d2 m'(5) by (simp add: bkey_def j_def)
    next
      case 2
      have "bkey m' a = bkey m a" using m'(5) m2(5) by (simp add: bkey_def)
      then show ?thesis using own(5) [OF 2] tN(2) d(2) by auto
    qed
  qed
  have base: "heap_ok m'" "\<forall>x. ?own x \<noteq> RNone \<longrightarrow> allocated m' x"
    using m' m2 own(1) tN(2) d(2) by auto
  have st: "hash_at Z h n ?own T (B(j := bs)) es (q # pool) dpool m'"
    "\<And>k. bidx n k \<noteq> j \<Longrightarrow> hmap n (B(j := bs)) m' k = hmap n B m k"
    by (rule hash_at_step [where d = hdata and j = j and bs = bs, OF at j base _ _ _ m2(1) _ m2(10) it _ _ d(2) m'(1) bs];
        use m' m2 in simp)+
  have map: "hmap n (B(j := bs)) m' = (hmap n B m)(hd_key d \<mapsto> hd_val d)"
    by (rule hmap_step [OF st(2) j_def [symmetric]]) (use m'(3) bk(2) in simp_all)
  have "lf_hash_add h hdata r ar m = Ok (HASH_MAP_NODE_ADD, r + 1, ar', m')"
    using run loop by (simp add: HASH_MAP_NODE_ADD_def HASH_MAP_NODE_EXIST_def HASH_MAP_NODE_REPLACE_def)
  moreover have "\<forall>p. own p = RNone \<longrightarrow> ?own p = RNone \<and> hm_datas m' p = hm_datas m p"
    using tN(2) d(2) m'(5) m2(5) by auto
  ultimately show ?thesis using st(1) map by blast
qed

text \<open>
  The key is present: the data that is no longer needed, \<open>gone\<close>, is freed, which is the new
  data when the value is the same and the old data otherwise.
\<close>

lemma add_present_bucket:
  fixes m :: "'a hm_mem_scheme"
  assumes ok: "bucket_ok m b bs e" and d: "hm_datas m hdata = Some d" and v: "bmap m bs (hd_key d) = Some v"
    and own: "b \<notin> fst ` set bs" "e \<notin> fst ` set bs" "hdata \<notin> snd ` set bs"
    and al: "heap_ok m" "\<forall>p\<in>insert hdata (snd ` set bs). allocated m p"
  obtains r' bs' gone m' where "cloop (hash_add_body hdata t) (b, first_of bs e, r, m) =
      Ok (if hd_val d = v then HASH_MAP_NODE_EXIST else HASH_MAP_NODE_REPLACE, r', m')"
    "bucket_ok m' b bs' e" "fst ` set bs' = fst ` set bs" "snd ` set bs' \<subseteq> insert hdata (snd ` set bs) - {gone}"
    "bmap m' bs' = (bmap m bs)(hd_key d \<mapsto> hd_val d)" "gone \<in> insert hdata (snd ` set bs)"
    "\<forall>p. p \<notin> fst ` set bs \<longrightarrow> hm_items m' p = hm_items m p" "hm_datas m' = (hm_datas m)(gone := None)"
    "hm_tables m' = hm_tables m" "hm_hashes m' = hm_hashes m" "hm_hls m' = hm_hls m" "hm_dls m' = hm_dls m"
    "\<forall>r. allocated m' r \<longleftrightarrow> allocated m r \<and> r \<noteq> gone" "heap_ok m'"
proof -
  obtain us a vs y dd r' where bs: "bs = us @ a # vs" and a: "hm_items m (fst a) = Some y" "hi_data y = snd a"
      "hm_datas m (snd a) = Some dd" "hd_key dd = hd_key d" "hd_val dd = v" "bkey m a = hd_key d"
      "\<forall>c\<in>set (us @ vs). bkey m c \<noteq> hd_key d"
    and loop: "cloop (hash_add_body hdata t) (b, first_of bs e, r, m) =
       (if hd_val d = v then call (free_hd hdata m) (\<lambda>m1. Ok (HASH_MAP_NODE_EXIST, r', m1))
        else call (free_hd (snd a) (set_hi (fst a) (y\<lparr>hi_data := hdata\<rparr>) m)) (\<lambda>m1. Ok (HASH_MAP_NODE_REPLACE, r', m1)))"
    by (rule add_present [OF ok d v])
  define gone where "gone = (if hd_val d = v then hdata else snd a)"
  define kept where "kept = (if hd_val d = v then snd a else hdata)"
  define m3 where "m3 = (if hd_val d = v then m else set_hi (fst a) (y\<lparr>hi_data := hdata\<rparr>) m)"
  have ha: "hdata \<noteq> snd a" using own(3) bs by auto
  have gk: "gone \<noteq> kept" "gone \<in> insert hdata (snd ` set bs)" "kept \<in> insert hdata (snd ` set bs)"
    using ha bs unfolding gone_def kept_def by auto
  have ya: "hm_items m = (hm_items m)(fst a \<mapsto> y\<lparr>hi_data := snd a\<rparr>)" using a(1,2) by (auto simp: fun_eq_iff)
  have m3: "hm_items m3 = (hm_items m)(fst a \<mapsto> y\<lparr>hi_data := kept\<rparr>)" "hm_datas m3 = hm_datas m" "hm_tables m3 = hm_tables m"
    "hm_hashes m3 = hm_hashes m" "hm_hls m3 = hm_hls m" "hm_dls m3 = hm_dls m" "allocated m3 = allocated m" "heap_ok m3"
    using ya al(1) unfolding m3_def kept_def by simp_all
  obtain m4 where m4: "free_hd gone m3 = Ok m4" "heap_ok m4" "\<forall>r. allocated m4 r \<longleftrightarrow> allocated m3 r \<and> r \<noteq> gone"
    "hm_datas m4 = (hm_datas m3)(gone := None)" "hm_items m4 = hm_items m3" "hm_tables m4 = hm_tables m3"
    "hm_hashes m4 = hm_hashes m3" "hm_hls m4 = hm_hls m3" "hm_dls m4 = hm_dls m3"
    by (rule free_hd_allocated [OF m3(8), of gone]) (use gk(2) al(2) m3(7) in auto)
  have run: "cloop (hash_add_body hdata t) (b, first_of bs e, r, m) =
      Ok (if hd_val d = v then HASH_MAP_NODE_EXIST else HASH_MAP_NODE_REPLACE, r', m4)"
    using loop m4(1) unfolding gone_def m3_def by (simp split: if_splits)
  have cg: "snd c \<noteq> gone" "snd c \<noteq> hdata" if "c \<in> set (us @ vs)" for c
  proof -
    show ch: "snd c \<noteq> hdata" using own(3) that bs by auto
    have "bkey m c \<noteq> bkey m a" using a(6,7) that by simp
    then have "snd c \<noteq> snd a" by (metis bkey_def)
    then show "snd c \<noteq> gone" using ch unfolding gone_def by simp
  qed
  obtain dk where dk: "hm_datas m4 kept = Some dk" "hd_key dk = hd_key d" "hd_val dk = hd_val d"
    using m4(4) m3(2) gk(1) a(3-5) d unfolding kept_def by (auto split: if_splits)
  have ok4: "bucket_ok m4 b (us @ (fst a, kept) # vs) e"
    by (rule bucket_replace [OF ok [unfolded bs] a(6) _ a(1) _ _ dk(1,2)])
      (use own(1,2) m4(4,5) m3(1,2) cg in \<open>auto simp: bs\<close>)
  have key: "bkey m4 (fst a, kept) = hd_key d" "bval m4 (fst a, kept) = hd_val d" using dk by (simp_all add: bkey_def bval_def)
  have cs: "bkey m4 c = bkey m c \<and> bval m4 c = bval m c" if "c \<in> set (us @ vs)" for c
    using cg [OF that] m4(4) m3(2) by (simp add: bkey_def bval_def)
  have "bmap m4 (us @ (fst a, kept) # vs) = (bmap m (us @ a # vs))(hd_key d \<mapsto> bval m4 (fst a, kept))"
    by (rule bmap_replace) (use a(6,7) key cs in auto)
  then have map: "bmap m4 (us @ (fst a, kept) # vs) = (bmap m bs)(hd_key d \<mapsto> hd_val d)" using key bs by simp
  have "snd ` set (us @ (fst a, kept) # vs) \<subseteq> insert hdata (snd ` set bs) - {gone}"
    using gk(1,3) cg(1) by (auto simp: bs)
  from that [OF run ok4 _ this map gk(2)] show ?thesis using m4 m3 by (auto simp: bs)
qed

lemma hash_add_present:
  assumes at: "hash_at Z h n own T B es (t # q # pool) dpool m" and d: "hm_datas m hdata = Some d" "own hdata = RClient"
    and v: "hmap n B m (hd_key d) = Some v"
  shows "\<exists>r' ar' m' own' B'. lf_hash_add h hdata r ar m =
      Ok (if hd_val d = v then HASH_MAP_NODE_EXIST else HASH_MAP_NODE_REPLACE, r', ar', m') \<and>
    hash_at Z h n own' T B' es (q # pool) dpool m' \<and> hmap n B' m' = (hmap n B m)(hd_key d \<mapsto> hd_val d) \<and>
    (\<forall>p. own p = RNone \<longrightarrow> own' p = RNone \<and> hm_datas m' p = hm_datas m p)"
proof -
  define j where "j = bidx n (hd_key d)"
  have j: "j < 2 ^ n" by (simp add: j_def)
  obtain x l it m2 where m2: "hm_hashes m h = Some x" "hm_items m2 = (hm_items m)(t \<mapsto> it)" "hi_data it = hdata"
    "hi_type it \<noteq> END_NODE" "hm_datas m2 = hm_datas m" "hm_tables m2 = hm_tables m" "hm_hashes m2 = hm_hashes m"
    "hm_dls m2 = hm_dls m" "hm_hls m2 (h_hl x) = Some l" "hl_he l = q" "allocated m2 = allocated m" "heap_ok m2"
    and bk: "bucket_ok m2 (T ! j) (B j) (es j)" "bmap m2 (B j) = bmap m (B j)"
    "t \<notin> insert (T ! j) (insert (es j) (fst ` set (B j)))"
    and run: "lf_hash_add h hdata r ar m =
       call (cloop (hash_add_body hdata t) (T ! j, first_of (B j) (es j), ar, m2)) (\<lambda>(operation, ar', m3).
         if operation = HASH_MAP_NODE_EXIST \<or> operation = HASH_MAP_NODE_REPLACE
         then call (free_hi t m3) (\<lambda>m4. Ok (operation, r + 1, ar', m4)) else Ok (operation, r + 1, ar', m3))"
    by (rule add_start [OF at d(1) j_def])
  note own = hash_at_own [OF at j]
  have d2: "hm_datas m2 hdata = Some d" and tN: "own t = RPool" "allocated m t" using d m2 own(1,6) by auto
  have v2: "bmap m2 (B j) (hd_key d) = Some v" using v bk(2) by (simp add: hmap_def j_def)
  have hN: "T ! j \<notin> fst ` set (B j)" "hdata \<notin> snd ` set (B j)" using own(7) own(5) d(2) by auto
  have al: "\<forall>p\<in>insert hdata (snd ` set (B j)). allocated m2 p" using own(1) own(5) d(2) m2(11) by auto
  obtain ar' bs gone m3 where loop: "cloop (hash_add_body hdata t) (T ! j, first_of (B j) (es j), ar, m2) =
      Ok (if hd_val d = v then HASH_MAP_NODE_EXIST else HASH_MAP_NODE_REPLACE, ar', m3)"
    and bs: "bucket_ok m3 (T ! j) bs (es j)" "fst ` set bs = fst ` set (B j)" "snd ` set bs \<subseteq> insert hdata (snd ` set (B j)) - {gone}"
    "bmap m3 bs = (bmap m2 (B j))(hd_key d \<mapsto> hd_val d)" "gone \<in> insert hdata (snd ` set (B j))"
    and m3: "\<forall>p. p \<notin> fst ` set (B j) \<longrightarrow> hm_items m3 p = hm_items m2 p" "hm_datas m3 = (hm_datas m2)(gone := None)"
    "hm_tables m3 = hm_tables m2" "hm_hashes m3 = hm_hashes m2" "hm_hls m3 = hm_hls m2" "hm_dls m3 = hm_dls m2"
    "\<forall>r. allocated m3 r \<longleftrightarrow> allocated m2 r \<and> r \<noteq> gone" "heap_ok m3"
    by (rule add_present_bucket [OF bk(1) d2 v2 hN(1) own(8) hN(2) m2(12) al])
  have go: "own gone \<in> {RClient, RData j}" "gone \<noteq> t" using bs(5) own(5) d(2) tN(1) by auto
  have "allocated m3 t" using m3(7) m2(11) tN(2) go(2) by auto
  then obtain m5 where m5: "free_hi t m3 = Ok m5" "heap_ok m5" "\<forall>r. allocated m5 r \<longleftrightarrow> allocated m3 r \<and> r \<noteq> t"
    "hm_items m5 = (hm_items m3)(t := None)" "hm_datas m5 = hm_datas m3" "hm_tables m5 = hm_tables m3"
    "hm_hashes m5 = hm_hashes m3" "hm_hls m5 = hm_hls m3" "hm_dls m5 = hm_dls m3"
    by (rule free_hi_allocated [OF m3(8)])
  have res: "lf_hash_add h hdata r ar m = Ok (if hd_val d = v then HASH_MAP_NODE_EXIST else HASH_MAP_NODE_REPLACE, r + 1, ar', m5)"
    using run loop m5(1) by simp
  have b5: "bucket_ok m5 (T ! j) bs (es j)" "bmap m5 bs = bmap m3 bs"
    by (rule bucket_ok_frame [OF bs(1)]; use bk(3) m5(4,5) bs(2) in auto)+
  let ?own = "\<lambda>p. if p = t \<or> p = gone then RNone else if p = hdata then RData j else own p"
  have ob: "\<forall>c\<in>set bs. ?own (fst c) = RItem j \<and> ?own (snd c) = RData j \<and> bidx n (bkey m5 c) = j"
  proof
    fix c assume c: "c \<in> set bs"
    have "fst c \<in> fst ` set (B j)" "snd c \<in> insert hdata (snd ` set (B j)) - {gone}" using c bs(2,3) by blast+
    then have "own (fst c) = RItem j" "snd c \<noteq> gone" "snd c = hdata \<or> own (snd c) = RData j" using own(5) by auto
    moreover have "bkey m5 c = bkey m3 c" using m5(5) by (simp add: bkey_def)
    moreover have "bidx n (bkey m3 c) = j"
    proof (cases "bkey m3 c = hd_key d")
      case False
      have "bmap m3 bs (bkey m3 c) \<noteq> None" using c bmap_None by blast
      then have "bmap m (B j) (bkey m3 c) \<noteq> None" using False bs(4) bk(2) by simp
      then obtain c' where "c' \<in> set (B j)" "bkey m c' = bkey m3 c" unfolding bmap_None by blast
      then show ?thesis using own(5) [of c'] by simp
    qed (simp add: j_def)
    ultimately show "?own (fst c) = RItem j \<and> ?own (snd c) = RData j \<and> bidx n (bkey m5 c) = j"
      using tN(1) go(1) d(2) by auto
  qed
  have it: "hm_items m5 p = hm_items m p" if "p \<noteq> t" "own p \<noteq> RHead j" "own p \<noteq> RItem j" for p
  proof -
    have "p \<notin> fst ` set (B j)" using that(3) own(5) by auto
    then show ?thesis using that(1) m5(4) m3(1) m2(2) by simp
  qed
  have da: "hm_datas m5 p = hm_datas m p" if "p \<noteq> hdata" "own p \<noteq> RData j" for p
    using that bs(5) own(5) m5(5) m3(2) m2(5) by auto
  have ow: "?own p = own p" if "p \<noteq> t" "p \<noteq> hdata" "own p \<noteq> RData j" for p
    using that bs(5) own(5) by auto
  have base: "heap_ok m5" "\<forall>x. ?own x \<noteq> RNone \<longrightarrow> allocated m5 x"
    using m5(2,3) m3(7) m2(11) own(1) d(2) by (auto split: if_splits)
  have st: "hash_at Z h n ?own T (B(j := bs)) es (q # pool) dpool m5"
    "\<And>k. bidx n k \<noteq> j \<Longrightarrow> hmap n (B(j := bs)) m5 k = hmap n B m k"
    by (rule hash_at_step [where d = hdata and j = j, OF at j base _ _ _ m2(1) _ m2(10) it da ow d(2) b5(1) ob];
        use m5 m3 m2 in simp)+
  have "hmap n (B(j := bs)) m5 = (hmap n B m)(hd_key d \<mapsto> hd_val d)"
    by (rule hmap_step [OF st(2) j_def [symmetric]]) (use b5(2) bs(4) bk(2) in simp_all)
  moreover have "?own p = RNone \<and> hm_datas m5 p = hm_datas m p" if "own p = RNone" for p
    using ow [of p] da [of p] that d(2) tN(1) by force
  ultimately show ?thesis using res st(1) by blast
qed

section \<open>Sequences of operations\<close>

lemma hm_set_dl [simp]:
  "hm_items (set_dl p l m) = hm_items m" "hm_datas (set_dl p l m) = hm_datas m" "hm_tables (set_dl p l m) = hm_tables m"
  "hm_hashes (set_dl p l m) = hm_hashes m" "hm_hls (set_dl p l m) = hm_hls m" "hm_dls (set_dl p l m) = (hm_dls m)(p \<mapsto> l)"
  "allocated (set_dl p l m) = allocated m" "heap_ok (set_dl p l m) = heap_ok m"
  by (auto simp: set_dl_def allocated_def heap_ok_def fun_eq_iff)

text \<open>A change to data \<open>d\<close> that is in no bucket, possibly taking it from the list of spare data.\<close>

lemma hash_at_data:
  assumes at: "hash_at Z h n own T B es pool dpool m" and d: "own d \<in> {RSpare, RNone}" "r \<noteq> RNone \<longrightarrow> allocated m d"
    and eqs: "heap_ok m'" "allocated m' = allocated m" "hm_items m' = hm_items m" "hm_tables m' = hm_tables m"
      "hm_hashes m' = hm_hashes m" "hm_hls m' = hm_hls m" "\<And>p. p \<noteq> d \<Longrightarrow> hm_datas m' p = hm_datas m p"
    and dl: "hm_hashes m h = Some x" "hm_dls m' (h_dl x) = Some dl" "spare Z (dlink m) (dl_hd dl) dpool'"
      "set dpool' \<subseteq> set dpool" "d \<notin> set dpool'"
  shows "hash_at Z h n (own(d := r)) T B es pool dpool' m'" and "hmap n B m' = hmap n B m"
proof -
  have n: "n \<le> 30" and pl: "\<forall>p\<in>set pool. own p = RPool" "\<forall>p\<in>set dpool. own p = RSpare"
    and bk: "\<And>i. i < 2 ^ n \<Longrightarrow> own (T ! i) = RHead i \<and> own (es i) = REnd i \<and> bucket_ok m (T ! i) (B i) (es i) \<and>
        (\<forall>a\<in>set (B i). own (fst a) = RItem i \<and> own (snd a) = RData i \<and> bidx n (bkey m a) = i)"
    using at unfolding hash_at_def by auto
  have "ilink m' = ilink m" by (simp add: ilink_def fun_eq_iff eqs(3))
  moreover have "spare Z (dlink m') (dl_hd dl) dpool'"
  proof (rule spare_frame [OF dl(3)])
    fix p assume "p \<in> set dpool'"
    then have "p \<noteq> d" using dl(5) by blast
    then show "dlink m' p = dlink m p" using eqs(7) by (simp add: dlink_def)
  qed
  moreover have b: "bucket_ok m' (T ! i) (B i) (es i)" "bmap m' (B i) = bmap m (B i)"
      "\<forall>a\<in>set (B i). (own(d := r)) (fst a) = RItem i \<and> (own(d := r)) (snd a) = RData i \<and> bidx n (bkey m' a) = i"
      "(own(d := r)) (T ! i) = RHead i" "(own(d := r)) (es i) = REnd i" if i: "i < 2 ^ n" for i
  proof -
    note b = bk [OF i]
    have ok: "bucket_ok m (T ! i) (B i) (es i)" using b by blast
    have nd: "d \<notin> snd ` set (B i)" "d \<notin> fst ` set (B i)" "d \<noteq> T ! i" "d \<noteq> es i" using b d(1) by auto
    have da: "hm_datas m' p = hm_datas m p" if "p \<in> snd ` set (B i)" for p
      using that nd(1) by (intro eqs(7)) blast
    show "bucket_ok m' (T ! i) (B i) (es i)" "bmap m' (B i) = bmap m (B i)"
      by (rule bucket_ok_frame [OF ok _ da]; simp add: eqs(3))+
    have "bkey m' a = bkey m a" if "a \<in> set (B i)" for a using that da by (simp add: bkey_def)
    then show "\<forall>a\<in>set (B i). (own(d := r)) (fst a) = RItem i \<and> (own(d := r)) (snd a) = RData i \<and> bidx n (bkey m' a) = i"
      using b nd by auto
    show "(own(d := r)) (T ! i) = RHead i" "(own(d := r)) (es i) = REnd i" using b nd by auto
  qed
  moreover have "\<forall>p\<in>set pool. (own(d := r)) p = RPool" using pl(1) d(1) by auto
  moreover have "\<forall>p\<in>set dpool'. (own(d := r)) p = RSpare" using pl(2) dl(4,5) by auto
  ultimately show "hash_at Z h n (own(d := r)) T B es pool dpool' m'"
    using at eqs dl(1,2) d(2) unfolding hash_at_def by auto
  show "hmap n B m' = hmap n B m"
    by (rule ext) (simp add: hmap_def b(2))
qed

lemma datalist_pop_data:
  assumes "hm_dls m l = Some dl" "l \<noteq> NULL" "spare Z (dlink m) (dl_hd dl) (t # q # pool)"
  shows "datalist_pop l r m = Ok (t, r + 1, set_dl l (dl\<lparr>dl_hd := q, dl_count := dl_count dl - 1\<rparr>) m)"
proof -
  obtain it where it: "dl_hd dl = t" "t \<noteq> NULL" "hm_datas m t = Some it" "hd_next it = q" "q \<noteq> NULL"
    using assms(3) by (auto simp: spare_Cons2 dlink_def dest: spare_nodes(2))
  have "cloop (datalist_pop_body l) (dl_hd dl, r, m) = Ok (t, r + 1, set_dl l (dl\<lparr>dl_hd := q\<rparr>) m)"
    by (rule cloop_Done) (simp add: datalist_pop_body_def it assms abstraction_cas_def)
  then show ?thesis using it by (simp add: datalist_pop_def assms set_dl_def abstraction_sub_def)
qed

lemma datalist_pop_none:
  assumes "hm_dls m l = Some dl" "l \<noteq> NULL" "spare True (dlink m) (dl_hd dl) [s]"
  shows "datalist_pop l r m = Ok (NULL, r, m)"
proof -
  obtain it where it: "dl_hd dl = s" "hm_datas m s = Some it" "hd_next it = NULL"
    using assms(3) by (auto simp: spare_single dlink_def)
  have "cloop (datalist_pop_body l) (dl_hd dl, r, m) = Ok (NULL, r, m)"
    by (rule cloop_Done) (simp add: datalist_pop_body_def it)
  then show ?thesis by (simp add: datalist_pop_def assms)
qed

text \<open>
  A client: \<open>HAdd k v\<close> takes data from the list of spare data, sets its key and value and adds
  it; the result is \<open>None\<close> when there is none left. \<open>HSearch k\<close> sets the key of the client's own
  data at \<open>probe\<close> and searches for it.
\<close>

datatype hash_op = HAdd u64 u64 | HSearch u64

fun hash_run :: "addr \<Rightarrow> addr \<Rightarrow> hash_op list \<Rightarrow> 'a hm_mem_scheme \<Rightarrow> (u64 option list \<times> 'a hm_mem_scheme) res" where
  "hash_run h probe [] m = Ok ([], m)"
| "hash_run h probe (HAdd k v # ops) m =
     call (lf_hash_internal_new_data_from_datalist h 0 m) (\<lambda>(rv, data, _, m1).
       if rv = 0 then call (hash_run h probe ops m1) (\<lambda>(rs, m2). Ok (None # rs, m2))
       else
         deref (hm_datas m1) data (\<lambda>d.
         call (lf_hash_add h data 0 0 (set_hd data (d\<lparr>hd_key := k, hd_val := v\<rparr>) m1)) (\<lambda>(op, _, _, m2).
         call (hash_run h probe ops m2) (\<lambda>(rs, m3). Ok (Some op # rs, m3)))))"
| "hash_run h probe (HSearch k # ops) m =
     deref (hm_datas m) probe (\<lambda>d.
     let m1 = set_hd probe (d\<lparr>hd_key := k\<rparr>) m in
     call (lf_hash_search h probe m1) (\<lambda>rv.
     call (hash_run h probe ops m1) (\<lambda>(rs, m2). Ok (Some (scast rv) # rs, m2))))"

fun hash_adds :: "hash_op list \<Rightarrow> nat" where
  "hash_adds [] = 0"
| "hash_adds (HAdd k v # ops) = Suc (hash_adds ops)"
| "hash_adds (HSearch k # ops) = hash_adds ops"

fun hash_spec :: "hash_op list \<Rightarrow> (u64 \<Rightarrow> u64 option) \<Rightarrow> nat \<Rightarrow> u64 option list" where
  "hash_spec [] M n = []"
| "hash_spec (HAdd k v # ops) M n =
     (if n = 0 then None # hash_spec ops M 0
      else case spec_add k v M of (op, M') \<Rightarrow> Some op # hash_spec ops M' (n - 1))"
| "hash_spec (HSearch k # ops) M n = Some (if M k = None then 0 else 1) # hash_spec ops M n"

definition hash_inv ::
  "bool \<Rightarrow> addr \<Rightarrow> addr \<Rightarrow> (u64 \<Rightarrow> u64 option) \<Rightarrow> nat \<Rightarrow> nat \<Rightarrow> 'a hm_mem_scheme \<Rightarrow> bool" where
  "hash_inv Z h probe M c k m \<longleftrightarrow> (\<exists>n own T B es pool dpool. hash_at Z h n own T B es pool dpool m \<and> M = hmap n B m \<and>
     length dpool = Suc c \<and> length pool = Suc k \<and> own probe = RNone \<and> probe \<noteq> NULL \<and> hm_datas m probe \<noteq> None)"

lemma hash_search_refines:
  assumes at: "hash_at Z h n own T B es pool dpool m" and p: "hm_datas m probe = Some d" "probe \<noteq> NULL"
  shows "lf_hash_search h probe m = Ok (if hmap n B m (hd_key d) = None then HASH_MAP_SEARCH_FAIL else HASH_MAP_SEARCH_SUCC)"
proof -
  define j where "j = bidx n (hd_key d)"
  obtain x where x: "hm_hashes m h = Some x" "h_bucket_mask x = mask n" "hm_tables m (h_table x) = Some T" "length T = 2 ^ n"
    and n: "n \<le> 30" "h \<noteq> NULL"
    using at unfolding hash_at_def by auto
  have ok: "bucket_ok m (T ! j) (B j) (es j)" by (rule hash_at_own(4) [OF at]) (simp add: j_def)
  obtain y where y: "hm_items m (T ! j) = Some y" "hi_next y = first_of (B j) (es j)"
    using bucket_start [OF ok] by blast
  have idx: "sint (ucast (hd_key d AND h_bucket_mask x) :: i32) = int j"
    using bucket_index [OF n(1)] x(2) by (simp add: j_def)
  have "j < length T" using x(4) by (simp add: j_def)
  then have "lf_hash_search h probe m = cloop (hash_search_body probe m) (first_of (B j) (es j))"
    using n p x y idx by (simp add: lf_hash_search_def table_at_def)
  then show ?thesis using search_result [OF ok p(1) refl] by (simp add: hmap_def j_def)
qed

lemma hash_no_data:
  assumes "hash_inv True h probe M 0 k m"
  shows "lf_hash_internal_new_data_from_datalist h r m = Ok (0, NULL, r, m)"
proof -
  obtain n own T B es pool dpool where at: "hash_at True h n own T B es pool dpool m" "length dpool = Suc 0"
    using assms unfolding hash_inv_def by blast
  then obtain x dl s where x: "hm_hashes m h = Some x" "h_dl x \<noteq> NULL" "hm_dls m (h_dl x) = Some dl" "spare True (dlink m) (dl_hd dl) [s]" "h \<noteq> NULL"
    unfolding hash_at_def by (auto simp: length_Suc_conv)
  then show ?thesis using datalist_pop_none [OF x(3,2,4)] by (simp add: lf_hash_internal_new_data_from_datalist_def)
qed

lemma hash_add_step:
  assumes at: "hash_at Z h n own T B es (t # q # pool) dpool m" and d: "hm_datas m hdata = Some d" "own hdata = RClient"
    and kv: "hd_key d = k" "hd_val d = v"
  shows "\<exists>op r' ar' m' own' B'. lf_hash_add h hdata r ar m = Ok (op, r', ar', m') \<and>
    hash_at Z h n own' T B' es (q # pool) dpool m' \<and> spec_add k v (hmap n B m) = (op, hmap n B' m') \<and>
    (\<forall>p. own p = RNone \<longrightarrow> own' p = RNone \<and> hm_datas m' p = hm_datas m p)"
proof (cases "hmap n B m k")
  case None
  then have "spec_add k v (hmap n B m) = (HASH_MAP_NODE_ADD, (hmap n B m)(k \<mapsto> v))" by (simp add: spec_add_def)
  then show ?thesis using hash_add_new [OF at d, of r ar] None kv by metis
next
  case (Some w)
  have "spec_add k v (hmap n B m) = (if v = w then HASH_MAP_NODE_EXIST else HASH_MAP_NODE_REPLACE, (hmap n B m)(k \<mapsto> v))"
    using Some by (auto simp: spec_add_def)
  then show ?thesis using hash_add_present [OF at d, of w r ar] Some kv by metis
qed

lemma hash_add_refines:
  assumes inv: "hash_inv Z h probe M (Suc c) (Suc j) m"
  obtains data r d op r1 r2 m1 m2 M' where "lf_hash_internal_new_data_from_datalist h 0 m = Ok (1, data, r, m1)"
    "hm_datas m1 data = Some d" "lf_hash_add h data 0 0 (set_hd data (d\<lparr>hd_key := k, hd_val := v\<rparr>) m1) = Ok (op, r1, r2, m2)"
    "spec_add k v M = (op, M')" "hash_inv Z h probe M' c j m2"
proof -
  obtain n own T B es pool dpool where at: "hash_at Z h n own T B es pool dpool m" and M: "M = hmap n B m"
    and len: "length dpool = Suc (Suc c)" "length pool = Suc (Suc j)"
    and pr: "own probe = RNone" "probe \<noteq> NULL" "hm_datas m probe \<noteq> None"
    using inv unfolding hash_inv_def by blast
  obtain data q ds where dp: "dpool = data # q # ds" using len(1) by (auto simp: length_Suc_conv)
  obtain t u us where po: "pool = t # u # us" using len(2) by (auto simp: length_Suc_conv)
  obtain x dl where x: "hm_hashes m h = Some x" "h_dl x \<noteq> NULL" "hm_dls m (h_dl x) = Some dl"
      "spare Z (dlink m) (dl_hd dl) (data # q # ds)" and hN: "h \<noteq> NULL" "heap_ok m"
    and sp: "\<forall>p\<in>set (data # q # ds). own p = RSpare" "\<forall>x. own x \<noteq> RNone \<longrightarrow> allocated m x"
    using at unfolding hash_at_def dp by blast
  have dis: "distinct (data # q # ds)" by (rule spare_nodes(1) [OF x(4)])
  have dN: "data \<noteq> NULL" using x(4) by (simp add: spare_Cons2)
  obtain d where d: "hm_datas m data = Some d" "spare Z (dlink m) q (q # ds)"
    using x(4) by (auto simp: spare_Cons2 dlink_def)
  let ?m1 = "set_dl (h_dl x) (dl\<lparr>dl_hd := q, dl_count := dl_count dl - 1\<rparr>) m"
  let ?m1' = "set_hd data (d\<lparr>hd_key := k, hd_val := v\<rparr>) ?m1"
  have get: "lf_hash_internal_new_data_from_datalist h 0 m = Ok (1, data, 1, ?m1)"
    using datalist_pop_data [OF x(3,2,4)] x(1) hN(1) dN by (simp add: lf_hash_internal_new_data_from_datalist_def)
  have at1: "hash_at Z h n (own(data := RClient)) T B es pool (q # ds) ?m1'" and M1: "hmap n B ?m1' = M"
    unfolding M by (rule hash_at_data [where d = data and r = RClient and x = x and dpool' = "q # ds" and
        dl = "dl\<lparr>dl_hd := q, dl_count := dl_count dl - 1\<rparr>", OF at];
        use sp x hN dis d dp in \<open>(simp; fail) | fastforce\<close>)+
  have d1: "hm_datas ?m1' data = Some (d\<lparr>hd_key := k, hd_val := v\<rparr>)" "(own(data := RClient)) data = RClient" by simp_all
  have "\<exists>op r' ar' m' own' B'. lf_hash_add h data 0 0 ?m1' = Ok (op, r', ar', m') \<and>
    hash_at Z h n own' T B' es (u # us) (q # ds) m' \<and> spec_add k v M = (op, hmap n B' m') \<and>
    (\<forall>p. (own(data := RClient)) p = RNone \<longrightarrow> own' p = RNone \<and> hm_datas m' p = hm_datas ?m1' p)"
    unfolding M1 [symmetric] by (rule hash_add_step [OF at1 [unfolded po] d1]) simp_all
  then obtain op r' ar' m' own' B' where add: "lf_hash_add h data 0 0 ?m1' = Ok (op, r', ar', m')"
    "hash_at Z h n own' T B' es (u # us) (q # ds) m'" "spec_add k v M = (op, hmap n B' m')"
    and fr: "\<forall>p. (own(data := RClient)) p = RNone \<longrightarrow> own' p = RNone \<and> hm_datas m' p = hm_datas ?m1' p"
    by blast
  have "probe \<noteq> data" using pr(1) sp(1) by auto
  then have "own' probe = RNone" "hm_datas m' probe \<noteq> None" using fr pr by auto
  then have "hash_inv Z h probe (hmap n B' m') c j m'"
    using add(2) pr(2) len dp po unfolding hash_inv_def by (intro exI conjI) (assumption | simp)+
  moreover have "hm_datas ?m1 data = Some d" by (simp add: d)
  ultimately show ?thesis by (intro that [OF get _ add(1,3)])
qed

lemma hash_run_refines:
  "hash_inv Z h probe M c j m \<Longrightarrow> hash_adds ops \<le> min c j \<or> (Z \<and> c \<le> j) \<Longrightarrow>
   \<exists>m'. hash_run h probe ops m = Ok (hash_spec ops M c, m')"
proof (induction ops arbitrary: M c j m)
  case (Cons op ops)
  show ?case
  proof (cases op)
    case (HAdd k v)
    show ?thesis
    proof (cases c)
      case 0
      then have z: "Z" using Cons.prems(2) HAdd by auto
      have "lf_hash_internal_new_data_from_datalist h 0 m = Ok (0, NULL, 0, m)"
        by (rule hash_no_data) (use Cons.prems(1) 0 z in simp)
      then show ?thesis using Cons.IH [OF Cons.prems(1)] z 0 HAdd by auto
    next
      case (Suc c')
      then obtain j' where j: "j = Suc j'" using Cons.prems(2) HAdd by (cases j) auto
      have "hash_inv Z h probe M (Suc c') (Suc j') m" using Cons.prems(1) Suc j by simp
      then obtain data r d op' r1 r2 m1 m2 M' where "lf_hash_internal_new_data_from_datalist h 0 m = Ok (1, data, r, m1)"
        "hm_datas m1 data = Some d" "lf_hash_add h data 0 0 (set_hd data (d\<lparr>hd_key := k, hd_val := v\<rparr>) m1) = Ok (op', r1, r2, m2)"
        "spec_add k v M = (op', M')" "hash_inv Z h probe M' c' j' m2"
        by (rule hash_add_refines)
      moreover from this(5) have "\<exists>m'. hash_run h probe ops m2 = Ok (hash_spec ops M' c', m')"
        by (rule Cons.IH) (use Cons.prems(2) HAdd Suc j in auto)
      ultimately show ?thesis using HAdd Suc by auto
    qed
  next
    case (HSearch k)
    obtain n own T B es pool dpool where at: "hash_at Z h n own T B es pool dpool m" and M: "M = hmap n B m"
      and len: "length dpool = Suc c" "length pool = Suc j"
      and pr: "own probe = RNone" "probe \<noteq> NULL" "hm_datas m probe \<noteq> None"
      using Cons.prems(1) unfolding hash_inv_def by blast
    obtain d where d: "hm_datas m probe = Some d" using pr(3) by blast
    obtain x dl where x: "hm_hashes m h = Some x" "hm_dls m (h_dl x) = Some dl" "spare Z (dlink m) (dl_hd dl) dpool"
      "heap_ok m" "\<forall>p\<in>set dpool. own p = RSpare"
      using at unfolding hash_at_def by blast
    let ?m1 = "set_hd probe (d\<lparr>hd_key := k\<rparr>) m"
    have at1: "hash_at Z h n (own(probe := RNone)) T B es pool dpool ?m1" and M1: "hmap n B ?m1 = M"
      unfolding M by (rule hash_at_data [where d = probe and r = RNone and x = x and dpool' = dpool and dl = dl, OF at]; use pr(1) x in auto)+
    have "lf_hash_search h probe ?m1 = Ok (if M k = None then HASH_MAP_SEARCH_FAIL else HASH_MAP_SEARCH_SUCC)"
      using hash_search_refines [OF at1, of probe "d\<lparr>hd_key := k\<rparr>"] pr(2) M1 by simp
    moreover have "hash_inv Z h probe M c j ?m1"
      unfolding hash_inv_def using at1 M1 [symmetric] len pr(2) by (intro exI conjI) (assumption | simp)+
    moreover have "scast (if M k = None then HASH_MAP_SEARCH_FAIL else HASH_MAP_SEARCH_SUCC) = (if M k = None then 0 else 1 :: u64)"
      by (simp add: HASH_MAP_SEARCH_FAIL_def HASH_MAP_SEARCH_SUCC_def)
    ultimately show ?thesis using Cons.IH [of M c j ?m1] Cons.prems(2) HSearch d by auto
  qed
qed simp

section \<open>A new map\<close>

text \<open>
  \<open>grown own m m'\<close>: from \<open>m\<close> to \<open>m'\<close> blocks have been allocated; \<open>own\<close> is what the new ones are
  used for, and items and data outside them are as before.
\<close>

definition grown :: "(addr \<Rightarrow> role) \<Rightarrow> 'a hm_mem_scheme \<Rightarrow> 'a hm_mem_scheme \<Rightarrow> bool" where
  "grown own m m' \<longleftrightarrow> heap_ok m' \<and> m_junk m' = m_junk m \<and> (\<forall>x. allocated m x \<longrightarrow> allocated m' x) \<and>
     (\<forall>x. own x \<noteq> RNone \<longrightarrow> allocated m' x \<and> \<not> allocated m x) \<and>
     (\<forall>x. allocated m x \<or> \<not> allocated m' x \<longrightarrow> hm_items m' x = hm_items m x \<and> hm_datas m' x = hm_datas m x)"

definition join :: "(addr \<Rightarrow> role) \<Rightarrow> (addr \<Rightarrow> role) \<Rightarrow> addr \<Rightarrow> role" where
  "join o1 o2 x = (if o1 x \<noteq> RNone then o1 x else o2 x)"

lemma grown_refl: "heap_ok m \<Longrightarrow> grown (\<lambda>_. RNone) m m"
  by (simp add: grown_def)

lemma grown_join:
  assumes "grown o1 m m1" and "grown o2 m1 m2"
  shows "grown (join o1 o2) m m2" and "o2 x \<noteq> RNone \<Longrightarrow> join o1 o2 x = o2 x" and "o1 x \<noteq> RNone \<Longrightarrow> join o1 o2 x = o1 x"
  using assms by (auto simp: grown_def join_def)

lemma join_cases: "join o1 o2 x \<noteq> RNone \<longleftrightarrow> o1 x \<noteq> RNone \<or> o2 x \<noteq> RNone"
  by (simp add: join_def)

definition same_rest :: "'a hm_mem_scheme \<Rightarrow> 'a hm_mem_scheme \<Rightarrow> bool" where
  "same_rest m m' \<longleftrightarrow> hm_hashes m' = hm_hashes m \<and> hm_tables m' = hm_tables m \<and> hm_hls m' = hm_hls m \<and> hm_dls m' = hm_dls m"

lemma hm_malloc_enough:
  fixes m :: "'a hm_mem_scheme"
  assumes "heap_ok m" "enough_mem (Suc k) m"
  obtains q m' where "aligned_malloc sz LF_ALIGN_DOUBLE_POINTER m = (q, m')" "q \<noteq> NULL" "\<not> allocated m q"
    "grown ((\<lambda>_. RNone)(q := R)) m m'" "same_rest m m'" "hm_items m' = hm_items m" "hm_datas m' = hm_datas m" "enough_mem k m'" "allocated m' q"
proof -
  obtain q m1 where al: "aligned_malloc sz LF_ALIGN_DOUBLE_POINTER m = (q, m1)" "fresh_block q m m1"
    "heap_ok m1" "enough_mem k m1"
    using aligned_malloc_enough [OF assms(1) _ assms(2), where al = LF_ALIGN_DOUBLE_POINTER and sz = sz] by auto
  have q: "q \<noteq> NULL" "\<not> allocated m q" "\<forall>r. allocated m1 r \<longleftrightarrow> allocated m r \<or> r = q" "m_junk m1 = m_junk m"
    and more: "c_mem.more m1 = c_mem.more m" using al(2) by (auto simp: fresh_block_def)
  note eqs = hm_c_more_eq [OF more]
  show ?thesis
    by (rule that [OF al(1) q(1,2) _ _ _ _ al(4)]) (use al(3) q eqs in \<open>simp_all add: grown_def same_rest_def\<close>)
qed

lemma m_junk_set [simp]:
  "m_junk (set_hi p x m) = m_junk m" "m_junk (set_hd p d m) = m_junk m" "m_junk (set_hl p l m) = m_junk m"
  "m_junk (set_dl p dl m) = m_junk m" "m_junk (set_tb p t m) = m_junk m" "m_junk (set_ha p h m) = m_junk m"
  by (simp_all add: set_hi_def set_hd_def set_hl_def set_dl_def set_tb_def set_ha_def)

lemma hm_set_script [simp]:
  "m_script (set_hi p x m) = m_script m" "m_live (set_hi p x m) = m_live m"
  "m_script (set_hd p d m) = m_script m" "m_live (set_hd p d m) = m_live m"
  "m_script (set_hl p l m) = m_script m" "m_live (set_hl p l m) = m_live m"
  "m_script (set_dl p dl m) = m_script m" "m_live (set_dl p dl m) = m_live m"
  "m_script (set_tb p t m) = m_script m" "m_live (set_tb p t m) = m_live m"
  "m_script (set_ha p h m) = m_script m" "m_live (set_ha p h m) = m_live m"
  by (simp_all add: set_hi_def set_hd_def set_hl_def set_dl_def set_tb_def set_ha_def)

lemma hm_set_tb_ha [simp]:
  "hm_items (set_tb p t m) = hm_items m" "hm_datas (set_tb p t m) = hm_datas m" "hm_tables (set_tb p t m) = (hm_tables m)(p \<mapsto> t)"
  "hm_hashes (set_tb p t m) = hm_hashes m" "hm_hls (set_tb p t m) = hm_hls m" "hm_dls (set_tb p t m) = hm_dls m"
  "hm_items (set_ha p h m) = hm_items m" "hm_datas (set_ha p h m) = hm_datas m" "hm_tables (set_ha p h m) = hm_tables m"
  "hm_hashes (set_ha p h m) = (hm_hashes m)(p \<mapsto> h)" "hm_hls (set_ha p h m) = hm_hls m" "hm_dls (set_ha p h m) = hm_dls m"
  "allocated (set_tb p t m) = allocated m" "heap_ok (set_tb p t m) = heap_ok m"
  "allocated (set_ha p h m) = allocated m" "heap_ok (set_ha p h m) = heap_ok m"
  by (auto simp: set_tb_def set_ha_def allocated_def heap_ok_def fun_eq_iff)

lemma alloc_hi_enough:
  fixes m :: "'a hm_mem_scheme"
  assumes "heap_ok m" "enough_mem (Suc k) m"
  obtains q x m' where "alloc_hi m = (q, m')" "q \<noteq> NULL" "\<not> allocated m q" "grown ((\<lambda>_. RNone)(q := R)) m m'" "same_rest m m'"
    "hm_items m' = (hm_items m)(q \<mapsto> x)" "hi_next x = m_junk m q" "hm_datas m' = hm_datas m" "enough_mem k m'"
proof -
  obtain q m1 where q: "aligned_malloc 24 LF_ALIGN_DOUBLE_POINTER m = (q, m1)" "q \<noteq> NULL" "\<not> allocated m q"
    "grown ((\<lambda>_. RNone)(q := R)) m m1" "same_rest m m1" "hm_items m1 = hm_items m" "hm_datas m1 = hm_datas m" "enough_mem k m1"
    "allocated m1 q"
    by (rule hm_malloc_enough [OF assms])
  let ?x = "\<lparr>hi_next = m_junk m q, hi_data = m_junk m (q + 8), hi_type = ucast (m_junk m (q + 16))\<rparr>"
  show ?thesis
    by (rule that [of q "set_hi q ?x m1" ?x]) (use q in \<open>auto simp: alloc_hi_def grown_def same_rest_def\<close>)
qed

lemma alloc_hd_enough:
  fixes m :: "'a hm_mem_scheme"
  assumes "heap_ok m" "enough_mem (Suc k) m"
  obtains q x m' where "alloc_hd m = (q, m')" "q \<noteq> NULL" "\<not> allocated m q" "grown ((\<lambda>_. RNone)(q := R)) m m'" "same_rest m m'"
    "hm_datas m' = (hm_datas m)(q \<mapsto> x)" "hd_next x = m_junk m q" "hm_items m' = hm_items m" "enough_mem k m'"
proof -
  obtain q m1 where q: "aligned_malloc 24 LF_ALIGN_DOUBLE_POINTER m = (q, m1)" "q \<noteq> NULL" "\<not> allocated m q"
    "grown ((\<lambda>_. RNone)(q := R)) m m1" "same_rest m m1" "hm_items m1 = hm_items m" "hm_datas m1 = hm_datas m" "enough_mem k m1"
    "allocated m1 q"
    by (rule hm_malloc_enough [OF assms])
  let ?x = "\<lparr>hd_next = m_junk m q, hd_key = m_junk m (q + 8), hd_val = m_junk m (q + 16)\<rparr>"
  show ?thesis
    by (rule that [of q "set_hd q ?x m1" ?x]) (use q in \<open>auto simp: alloc_hd_def grown_def same_rest_def\<close>)
qed

text \<open>The buckets: \<open>i\<close> of them are there, \<open>r\<close> are to come.\<close>

lemma init_table_buckets:
  fixes m :: "'a hm_mem_scheme"
  shows "heap_ok m \<Longrightarrow> enough_mem (2 * r + k) m \<Longrightarrow> hm_hashes m h = Some hh \<Longrightarrow> hm_tables m (h_table hh) = Some T \<Longrightarrow>
    i + r \<le> length T \<Longrightarrow>
    \<exists>own T' es m'. init_hash_table_loop h r i m = Ok (1, m') \<and> grown own m m' \<and> enough_mem k m' \<and> length T' = length T \<and>
      (\<forall>j<i. T' ! j = T ! j) \<and> hm_tables m' = (hm_tables m)(h_table hh \<mapsto> T') \<and> hm_hashes m' = hm_hashes m \<and>
      (\<forall>j. i \<le> j \<and> j < i + r \<longrightarrow> own (T' ! j) = RHead j \<and> own (es j) = REnd j \<and> bucket_ok m' (T' ! j) [] (es j))"
proof (induction r arbitrary: i m T)
  case 0
  then show ?case
    by (intro exI [of _ "\<lambda>_. RNone"] exI [of _ T] exI [of _ "\<lambda>_. NULL"] exI [of _ m])
      (simp add: grown_refl fun_upd_idem)
next
  case (Suc r)
  have en: "enough_mem (Suc (Suc (2 * r + k))) m" using Suc.prems(2) by simp
  obtain a x m1 where a: "alloc_hi m = (a, m1)" "a \<noteq> NULL" "\<not> allocated m a" "grown ((\<lambda>_. RNone)(a := RHead i)) m m1" "same_rest m m1"
    "hm_items m1 = (hm_items m)(a \<mapsto> x)" "hm_datas m1 = hm_datas m" "enough_mem (Suc (2 * r + k)) m1"
    by (rule alloc_hi_enough [OF Suc.prems(1) en])
  have "heap_ok m1" using a(4) by (simp add: grown_def)
  then obtain e y m2 where e: "alloc_hi m1 = (e, m2)" "e \<noteq> NULL" "\<not> allocated m1 e" "grown ((\<lambda>_. RNone)(e := REnd i)) m1 m2" "same_rest m1 m2"
    "hm_items m2 = (hm_items m1)(e \<mapsto> y)" "hm_datas m2 = hm_datas m1" "enough_mem (2 * r + k) m2"
    by (rule alloc_hi_enough [OF _ a(8)])
  have ae: "a \<noteq> e" using a(4) e(3) by (auto simp: grown_def)
  let ?m3 = "set_hi a (x\<lparr>hi_type := HEAD_NODE, hi_next := e\<rparr>) (set_tb (h_table hh) (T[i := a]) (set_hi e (y\<lparr>hi_type := END_NODE\<rparr>)
      (set_hi a (x\<lparr>hi_type := HEAD_NODE\<rparr>) m2)))"
  have step: "init_hash_table_loop h (Suc r) i m = init_hash_table_loop h r (i + 1) ?m3"
    using a(1,2,5,6) e(1,2,5,6) ae Suc.prems(3-5) by (simp add: same_rest_def)
  let ?own = "(\<lambda>_. RNone)(a := RHead i, e := REnd i)"
  have gr: "grown ?own m ?m3"
    using grown_join(1) [OF a(4) e(4)] a(3,4,6) e(3,6) ae by (auto simp: grown_def join_def)
  have "\<exists>own T' es m'. init_hash_table_loop h r (i + 1) ?m3 = Ok (1, m') \<and> grown own ?m3 m' \<and> enough_mem k m' \<and> length T' = length (T[i := a]) \<and>
      (\<forall>j<i + 1. T' ! j = T[i := a] ! j) \<and> hm_tables m' = (hm_tables ?m3)(h_table hh \<mapsto> T') \<and> hm_hashes m' = hm_hashes ?m3 \<and>
      (\<forall>j. i + 1 \<le> j \<and> j < i + 1 + r \<longrightarrow> own (T' ! j) = RHead j \<and> own (es j) = REnd j \<and> bucket_ok m' (T' ! j) [] (es j))"
    by (rule Suc.IH) (use a(5) e(5,8) gr Suc.prems(3-5) in \<open>auto simp: same_rest_def grown_def\<close>)
  then obtain own T' es m' where r: "init_hash_table_loop h r (i + 1) ?m3 = Ok (1, m')" "grown own ?m3 m'" "enough_mem k m'"
      "length T' = length T" "\<forall>j<i + 1. T' ! j = T[i := a] ! j" "hm_tables m' = (hm_tables ?m3)(h_table hh \<mapsto> T')" "hm_hashes m' = hm_hashes ?m3"
    and b: "\<forall>j. i + 1 \<le> j \<and> j < i + 1 + r \<longrightarrow> own (T' ! j) = RHead j \<and> own (es j) = REnd j \<and> bucket_ok m' (T' ! j) [] (es j)"
    by auto
  note jo = grown_join [OF gr r(2)]
  have Ti: "T' ! i = a" using r(5) Suc.prems(5) by simp
  have "bucket_ok m' a [] e"
    using r(2) gr ae by (auto simp: bucket_ok_def grown_def)
  then have new: "join ?own own (T' ! i) = RHead i \<and> join ?own own e = REnd i \<and> bucket_ok m' (T' ! i) [] e"
    using jo(3) [of a] jo(3) [of e] ae Ti by simp
  have old: "join ?own own (T' ! j) = RHead j \<and> join ?own own (es j) = REnd j \<and> bucket_ok m' (T' ! j) [] (es j)"
    if "i + 1 \<le> j" "j < i + 1 + r" for j
    using b that jo(2) [of "T' ! j"] jo(2) [of "es j"] by auto
  have "\<forall>j. i \<le> j \<and> j < i + Suc r \<longrightarrow> join ?own own (T' ! j) = RHead j \<and> join ?own own ((es(i := e)) j) = REnd j \<and>
      bucket_ok m' (T' ! j) [] ((es(i := e)) j)"
  proof (intro allI impI)
    fix j assume "i \<le> j \<and> j < i + Suc r"
    then show "join ?own own (T' ! j) = RHead j \<and> join ?own own ((es(i := e)) j) = REnd j \<and> bucket_ok m' (T' ! j) [] ((es(i := e)) j)"
      using new old [of j] by (cases "j = i") auto
  qed
  then show ?case
    using step r jo(1) a(5) e(5) by (intro exI [of _ "join ?own own"] exI [of _ T'] exI [of _ "es(i := e)"] exI [of _ m'])
      (auto simp: same_rest_def)
qed

lemma hashlist_push_links:
  assumes "hm_hls m l = Some hl" and "hm_items m t = Some x"
  shows "hashlist_push l t m = Ok (set_hl l (hl\<lparr>hl_he := t\<rparr>) (set_hi t (x\<lparr>hi_next := hl_he hl\<rparr>) m))"
proof -
  have "cloop (hashlist_push_body l t) (hl_he hl, m) = Ok (set_hl l (hl\<lparr>hl_he := t\<rparr>) (set_hi t (x\<lparr>hi_next := hl_he hl\<rparr>) m))"
    by (rule cloop_Done) (simp add: hashlist_push_body_def assms abstraction_cas_def Let_def)
  then show ?thesis by (simp add: hashlist_push_def assms(1))
qed

lemma new_items_pool:
  fixes m :: "'a hm_mem_scheme"
  shows "heap_ok m \<Longrightarrow> enough_mem (r + k) m \<Longrightarrow> l \<noteq> NULL \<Longrightarrow> hm_hls m l = Some hl \<Longrightarrow> spare False (ilink m) (hl_he hl) ps \<Longrightarrow>
    \<forall>p\<in>set ps. allocated m p \<Longrightarrow>
    \<exists>own qs hl' m'. hash_new_element_loop l r c m = Ok (c + of_nat r, m') \<and> grown own m m' \<and> enough_mem k m' \<and>
      hm_hls m' l = Some hl' \<and> spare False (ilink m') (hl_he hl') (qs @ ps) \<and> length qs = r \<and>
      (\<forall>p\<in>set qs. own p = RPool \<and> (\<exists>it. hm_items m' p = Some it \<and> hi_type it \<noteq> END_NODE)) \<and>
      hm_hashes m' = hm_hashes m \<and> hm_tables m' = hm_tables m \<and> hm_dls m' = hm_dls m"
proof (induction r arbitrary: m c hl ps)
  case 0
  then show ?case
    by (intro exI [of _ "\<lambda>_. RNone"] exI [of _ "[]"] exI [of _ hl] exI [of _ m]) (simp add: grown_refl)
next
  case (Suc r)
  have en: "enough_mem (Suc (r + k)) m" using Suc.prems(2) by simp
  obtain q x m1 where q: "alloc_hi m = (q, m1)" "q \<noteq> NULL" "\<not> allocated m q" "grown ((\<lambda>_. RNone)(q := RPool)) m m1" "same_rest m m1"
    "hm_items m1 = (hm_items m)(q \<mapsto> x)" "hm_datas m1 = hm_datas m" "enough_mem (r + k) m1"
    by (rule alloc_hi_enough [OF Suc.prems(1) en])
  have hl1: "hm_hls m1 l = Some hl" using q(5) Suc.prems(4) by (simp add: same_rest_def)
  let ?hl = "hl\<lparr>hl_num := hl_num hl + 1\<rparr>" and ?x = "x\<lparr>hi_type := I_NODE\<rparr>"
  let ?m2 = "set_hi q ?x (set_hl l ?hl m1)"
  have new: "hashlist_internal_new_element l m = Ok (1, q, ?m2)"
    using Suc.prems(3) q(1,2,6) hl1 by (simp add: hashlist_internal_new_element_def abstraction_increment_def)
  let ?m3 = "set_hl l (?hl\<lparr>hl_he := q\<rparr>) (set_hi q (?x\<lparr>hi_next := hl_he hl\<rparr>) ?m2)"
  have push: "hashlist_push l q ?m2 = Ok ?m3" using hashlist_push_links [of ?m2 l ?hl q ?x] by simp
  have step: "hash_new_element_loop l (Suc r) c m = hash_new_element_loop l r (c + 1) ?m3"
    using new push by simp
  have gr: "grown ((\<lambda>_. RNone)(q := RPool)) m ?m3" using q(3,4,6) by (auto simp: grown_def)
  have qps: "q \<notin> set ps" using q(3) Suc.prems(6) by blast
  have "spare False (ilink ?m3) (hl_he hl) ps"
  proof (rule spare_frame [OF Suc.prems(5)])
    fix p assume "p \<in> set ps"
    then have "allocated m p" "p \<noteq> q" using Suc.prems(6) qps by auto
    then show "ilink ?m3 p = ilink m p" using q(6) by (simp add: ilink_def)
  qed
  then have ch: "spare False (ilink ?m3) q (q # ps)" by (rule spare_push) (use q(2) qps in \<open>simp_all add: ilink_def\<close>)
  have al: "\<forall>p\<in>set (q # ps). allocated ?m3 p" using gr Suc.prems(6) by (auto simp: grown_def)
  have "\<exists>own qs hl' m'. hash_new_element_loop l r (c + 1) ?m3 = Ok (c + 1 + of_nat r, m') \<and> grown own ?m3 m' \<and> enough_mem k m' \<and>
      hm_hls m' l = Some hl' \<and> spare False (ilink m') (hl_he hl') (qs @ q # ps) \<and> length qs = r \<and>
      (\<forall>p\<in>set qs. own p = RPool \<and> (\<exists>it. hm_items m' p = Some it \<and> hi_type it \<noteq> END_NODE)) \<and>
      hm_hashes m' = hm_hashes ?m3 \<and> hm_tables m' = hm_tables ?m3 \<and> hm_dls m' = hm_dls ?m3"
    by (rule Suc.IH [where hl = "?hl\<lparr>hl_he := q\<rparr>"]) (use gr q(8) Suc.prems(3) ch al in \<open>simp_all add: grown_def\<close>)
  then obtain own qs hl' m' where r: "hash_new_element_loop l r (c + 1) ?m3 = Ok (c + 1 + of_nat r, m')" "grown own ?m3 m'" "enough_mem k m'"
      "hm_hls m' l = Some hl'" "spare False (ilink m') (hl_he hl') (qs @ q # ps)" "length qs = r"
      "hm_hashes m' = hm_hashes m" "hm_tables m' = hm_tables m" "hm_dls m' = hm_dls m"
    and o: "\<forall>p\<in>set qs. own p = RPool \<and> (\<exists>it. hm_items m' p = Some it \<and> hi_type it \<noteq> END_NODE)"
    using q(5) by (auto simp: same_rest_def)
  note jo = grown_join [OF gr r(2)]
  have "hm_items m' q = hm_items ?m3 q" using r(2) al by (simp add: grown_def)
  then have "\<exists>it. hm_items m' q = Some it \<and> hi_type it \<noteq> END_NODE" by (simp add: I_NODE_def END_NODE_def)
  then have "\<forall>p\<in>set (qs @ [q]). join ((\<lambda>_. RNone)(q := RPool)) own p = RPool \<and> (\<exists>it. hm_items m' p = Some it \<and> hi_type it \<noteq> END_NODE)"
    using o jo(2) jo(3) [of q] by auto
  then show ?case using step r jo(1)
    by (intro exI [of _ "join ((\<lambda>_. RNone)(q := RPool)) own"] exI [of _ "qs @ [q]"] exI [of _ hl'] exI [of _ m'])
      (simp add: add.assoc add.commute)
qed

lemma new_item_list:
  fixes m :: "'a hm_mem_scheme"
  assumes "heap_ok m" "enough_mem (Suc (Suc (unat ln + k))) m"
  obtains own ps l hl m' where "hash_new_element ln m = Ok (1, l, m')" "l \<noteq> NULL" "grown own m m'" "enough_mem k m'"
    "hm_hls m' l = Some hl" "spare False (ilink m') (hl_he hl) ps" "length ps = Suc (unat ln)" "\<forall>p\<in>set ps. own p = RPool"
    "\<forall>p\<in>set (butlast ps). \<exists>it. hm_items m' p = Some it \<and> hi_type it \<noteq> END_NODE"
    "hm_hashes m' = hm_hashes m" "hm_tables m' = hm_tables m" "hm_dls m' = hm_dls m"
proof -
  obtain l m1 where l: "aligned_malloc 16 LF_ALIGN_DOUBLE_POINTER m = (l, m1)" "l \<noteq> NULL" "grown ((\<lambda>_. RNone)(l := RNone)) m m1" "same_rest m m1"
    "enough_mem (Suc (unat ln + k)) m1"
    by (rule hm_malloc_enough [OF assms(1,2)])
  let ?m2 = "set_hl l \<lparr>hl_he = m_junk m l, hl_num = m_junk m (l + 8)\<rparr> m1"
  have "heap_ok ?m2" "enough_mem (Suc (unat ln + k)) ?m2" using l by (simp_all add: grown_def)
  then obtain s x m3 where s: "alloc_hi ?m2 = (s, m3)" "s \<noteq> NULL" "\<not> allocated ?m2 s" "grown ((\<lambda>_. RNone)(s := RPool)) ?m2 m3" "same_rest ?m2 m3"
    "hm_items m3 = (hm_items ?m2)(s \<mapsto> x)" "hi_next x = m_junk ?m2 s" "enough_mem (unat ln + k) m3"
    by (rule alloc_hi_enough)
  let ?hl = "\<lparr>hl_he = s, hl_num = 1\<rparr>" and ?m4 = "set_hl l \<lparr>hl_he = s, hl_num = 1\<rparr> m3"
  have init: "init_hashlist l ?m2 = Ok (1, ?m4)"
    using l(2) s(1,2,5) by (simp add: init_hashlist_def same_rest_def)
  have gr: "grown ((\<lambda>_. RNone)(s := RPool)) m ?m4" using l(3) s(3,4) by (auto simp: grown_def)
  have "\<exists>own qs hl' m'. hash_new_element_loop l (unat ln) 0 ?m4 = Ok (0 + of_nat (unat ln), m') \<and> grown own ?m4 m' \<and> enough_mem k m' \<and>
      hm_hls m' l = Some hl' \<and> spare False (ilink m') (hl_he hl') (qs @ [s]) \<and> length qs = unat ln \<and>
      (\<forall>p\<in>set qs. own p = RPool \<and> (\<exists>it. hm_items m' p = Some it \<and> hi_type it \<noteq> END_NODE)) \<and>
      hm_hashes m' = hm_hashes ?m4 \<and> hm_tables m' = hm_tables ?m4 \<and> hm_dls m' = hm_dls ?m4"
    by (rule new_items_pool [where hl = ?hl]) (use gr s l(2) in \<open>simp_all add: grown_def spare_single\<close>)
  then obtain own qs hl' m' where r: "hash_new_element_loop l (unat ln) 0 ?m4 = Ok (ln, m')" "grown own ?m4 m'" "enough_mem k m'"
      "hm_hls m' l = Some hl'" "spare False (ilink m') (hl_he hl') (qs @ [s])" "length qs = unat ln"
      "hm_hashes m' = hm_hashes m" "hm_tables m' = hm_tables m" "hm_dls m' = hm_dls m"
    and o: "\<forall>p\<in>set qs. own p = RPool \<and> (\<exists>it. hm_items m' p = Some it \<and> hi_type it \<noteq> END_NODE)"
    using l(4) s(5) by (auto simp: same_rest_def)
  note jo = grown_join [OF gr r(2)]
  have "hash_new_element ln m = Ok (1, l, m')"
    using l(1,2) init r(1) by (simp add: hash_new_element_def)
  moreover have "\<forall>p\<in>set (qs @ [s]). join ((\<lambda>_. RNone)(s := RPool)) own p = RPool" using o jo(2) jo(3) [of s] by auto
  ultimately show ?thesis using that l(2) jo(1) r o by auto
qed

lemma datalist_push_links:
  assumes "hm_dls m l = Some dl" and "hm_datas m t = Some x"
  shows "datalist_push l t m = Ok (set_dl l (dl\<lparr>dl_hd := t\<rparr>) (set_hd t (x\<lparr>hd_next := dl_hd dl\<rparr>) m))"
proof -
  have "cloop (datalist_push_body l t) (dl_hd dl, m) = Ok (set_dl l (dl\<lparr>dl_hd := t\<rparr>) (set_hd t (x\<lparr>hd_next := dl_hd dl\<rparr>) m))"
    by (rule cloop_Done) (simp add: datalist_push_body_def assms abstraction_cas_def Let_def)
  then show ?thesis by (simp add: datalist_push_def assms(1))
qed

lemma new_datas_pool:
  fixes m :: "'a hm_mem_scheme"
  shows "heap_ok m \<Longrightarrow> enough_mem (r + k) m \<Longrightarrow> l \<noteq> NULL \<Longrightarrow> hm_dls m l = Some dl \<Longrightarrow> spare Z (dlink m) (dl_hd dl) ps \<Longrightarrow>
    \<forall>p\<in>set ps. allocated m p \<Longrightarrow>
    \<exists>own qs dl' m'. hash_new_data_loop l r c m = Ok (c + of_nat r, m') \<and> grown own m m' \<and> enough_mem k m' \<and>
      hm_dls m' l = Some dl' \<and> spare Z (dlink m') (dl_hd dl') (qs @ ps) \<and> length qs = r \<and> (\<forall>p\<in>set qs. own p = RSpare) \<and>
      hm_hashes m' = hm_hashes m \<and> hm_tables m' = hm_tables m \<and> hm_hls m' = hm_hls m"
proof (induction r arbitrary: m c dl ps)
  case 0
  then show ?case
    by (intro exI [of _ "\<lambda>_. RNone"] exI [of _ "[]"] exI [of _ dl] exI [of _ m]) (simp add: grown_refl)
next
  case (Suc r)
  have en: "enough_mem (Suc (r + k)) m" using Suc.prems(2) by simp
  obtain q x m1 where q: "alloc_hd m = (q, m1)" "q \<noteq> NULL" "\<not> allocated m q" "grown ((\<lambda>_. RNone)(q := RSpare)) m m1" "same_rest m m1"
    "hm_datas m1 = (hm_datas m)(q \<mapsto> x)" "hm_items m1 = hm_items m" "enough_mem (r + k) m1"
    by (rule alloc_hd_enough [OF Suc.prems(1) en])
  have dl1: "hm_dls m1 l = Some dl" using q(5) Suc.prems(4) by (simp add: same_rest_def)
  let ?dl = "dl\<lparr>dl_count := dl_count dl + 1\<rparr>" and ?x = "x\<lparr>hd_key := c, hd_val := c\<rparr>"
  let ?m2 = "set_dl l ?dl (set_hd q ?x m1)"
  have new: "hashlist_internal_new_data l c m = Ok (1, q, ?m2)"
    using Suc.prems(3) q(1,2,6) dl1 by (simp add: hashlist_internal_new_data_def abstraction_increment_def)
  let ?m3 = "set_dl l (?dl\<lparr>dl_hd := q\<rparr>) (set_hd q (?x\<lparr>hd_next := dl_hd dl\<rparr>) (set_hd q (?x\<lparr>hd_val := c\<rparr>) ?m2))"
  have push: "datalist_push l q (set_hd q (?x\<lparr>hd_val := c\<rparr>) ?m2) = Ok ?m3"
    using datalist_push_links [of "set_hd q (?x\<lparr>hd_val := c\<rparr>) ?m2" l ?dl q "?x\<lparr>hd_val := c\<rparr>"] by simp
  have step: "hash_new_data_loop l (Suc r) c m = hash_new_data_loop l r (c + 1) ?m3"
    using new push by simp
  have gr: "grown ((\<lambda>_. RNone)(q := RSpare)) m ?m3" using q(3,4,6) by (auto simp: grown_def)
  have qps: "q \<notin> set ps" using q(3) Suc.prems(6) by blast
  have "spare Z (dlink ?m3) (dl_hd dl) ps"
  proof (rule spare_frame [OF Suc.prems(5)])
    fix p assume "p \<in> set ps"
    then have "allocated m p" "p \<noteq> q" using Suc.prems(6) qps by auto
    then show "dlink ?m3 p = dlink m p" using q(6) by (simp add: dlink_def)
  qed
  then have ch: "spare Z (dlink ?m3) q (q # ps)" by (rule spare_push) (use q(2) qps in \<open>simp_all add: dlink_def\<close>)
  have al: "\<forall>p\<in>set (q # ps). allocated ?m3 p" using gr Suc.prems(6) by (auto simp: grown_def)
  have "\<exists>own qs dl' m'. hash_new_data_loop l r (c + 1) ?m3 = Ok (c + 1 + of_nat r, m') \<and> grown own ?m3 m' \<and> enough_mem k m' \<and>
      hm_dls m' l = Some dl' \<and> spare Z (dlink m') (dl_hd dl') (qs @ q # ps) \<and> length qs = r \<and> (\<forall>p\<in>set qs. own p = RSpare) \<and>
      hm_hashes m' = hm_hashes ?m3 \<and> hm_tables m' = hm_tables ?m3 \<and> hm_hls m' = hm_hls ?m3"
    by (rule Suc.IH [where dl = "?dl\<lparr>dl_hd := q\<rparr>"]) (use gr q(8) Suc.prems(3) ch al in \<open>simp_all add: grown_def\<close>)
  then obtain own qs dl' m' where r: "hash_new_data_loop l r (c + 1) ?m3 = Ok (c + 1 + of_nat r, m')" "grown own ?m3 m'" "enough_mem k m'"
      "hm_dls m' l = Some dl'" "spare Z (dlink m') (dl_hd dl') (qs @ q # ps)" "length qs = r"
      "hm_hashes m' = hm_hashes m" "hm_tables m' = hm_tables m" "hm_hls m' = hm_hls m"
    and o: "\<forall>p\<in>set qs. own p = RSpare"
    using q(5) by (auto simp: same_rest_def)
  note jo = grown_join [OF gr r(2)]
  have "\<forall>p\<in>set (qs @ [q]). join ((\<lambda>_. RNone)(q := RSpare)) own p = RSpare"
    using o jo(2) jo(3) [of q] by auto
  then show ?case using step r jo(1)
    by (intro exI [of _ "join ((\<lambda>_. RNone)(q := RSpare)) own"] exI [of _ "qs @ [q]"] exI [of _ dl'] exI [of _ m'])
      (simp add: add.assoc add.commute)
qed

lemma new_data_list:
  fixes m :: "'a hm_mem_scheme"
  assumes "heap_ok m" "enough_mem (Suc (Suc (unat dn + k))) m" "Z \<longrightarrow> (\<forall>q. m_junk m q = 0)"
  obtains own ps l dl m' where "hash_new_data_list dn m = Ok (1, l, m')" "l \<noteq> NULL" "grown own m m'"
    "hm_dls m' l = Some dl" "spare Z (dlink m') (dl_hd dl) ps" "length ps = Suc (unat dn)" "\<forall>p\<in>set ps. own p = RSpare"
    "hm_hashes m' = hm_hashes m" "hm_tables m' = hm_tables m" "hm_hls m' = hm_hls m"
proof -
  obtain l m1 where l: "aligned_malloc 16 LF_ALIGN_DOUBLE_POINTER m = (l, m1)" "l \<noteq> NULL" "grown ((\<lambda>_. RNone)(l := RNone)) m m1" "same_rest m m1"
    "enough_mem (Suc (unat dn + k)) m1"
    by (rule hm_malloc_enough [OF assms(1,2)])
  let ?m2 = "set_dl l \<lparr>dl_hd = m_junk m l, dl_count = m_junk m (l + 8)\<rparr> m1"
  have "heap_ok ?m2" "enough_mem (Suc (unat dn + k)) ?m2" using l by (simp_all add: grown_def)
  then obtain s x m3 where s: "alloc_hd ?m2 = (s, m3)" "s \<noteq> NULL" "\<not> allocated ?m2 s" "grown ((\<lambda>_. RNone)(s := RSpare)) ?m2 m3" "same_rest ?m2 m3"
    "hm_datas m3 = (hm_datas ?m2)(s \<mapsto> x)" "hd_next x = m_junk ?m2 s" "enough_mem (unat dn + k) m3"
    by (rule alloc_hd_enough)
  let ?dl = "\<lparr>dl_hd = s, dl_count = 1\<rparr>" and ?m4 = "set_dl l \<lparr>dl_hd = s, dl_count = 1\<rparr> m3"
  have init: "init_datalist l ?m2 = Ok (1, ?m4)"
    using l(2) s(1,2,5) by (simp add: init_datalist_def same_rest_def)
  have x0: "Z \<longrightarrow> hd_next x = NULL" using s(7) l(3) assms(3) by (simp add: grown_def)
  have gr: "grown ((\<lambda>_. RNone)(s := RSpare)) m ?m4" using l(3) s(3,4) by (auto simp: grown_def)
  have "\<exists>own qs dl' m'. hash_new_data_loop l (unat dn) 0 ?m4 = Ok (0 + of_nat (unat dn), m') \<and> grown own ?m4 m' \<and> enough_mem k m' \<and>
      hm_dls m' l = Some dl' \<and> spare Z (dlink m') (dl_hd dl') (qs @ [s]) \<and> length qs = unat dn \<and> (\<forall>p\<in>set qs. own p = RSpare) \<and>
      hm_hashes m' = hm_hashes ?m4 \<and> hm_tables m' = hm_tables ?m4 \<and> hm_hls m' = hm_hls ?m4"
    by (rule new_datas_pool [where dl = ?dl]) (use gr s l(2) x0 in \<open>simp_all add: grown_def spare_single dlink_def\<close>)
  then obtain own qs dl' m' where r: "hash_new_data_loop l (unat dn) 0 ?m4 = Ok (dn, m')" "grown own ?m4 m'"
      "hm_dls m' l = Some dl'" "spare Z (dlink m') (dl_hd dl') (qs @ [s])" "length qs = unat dn"
      "hm_hashes m' = hm_hashes m" "hm_tables m' = hm_tables m" "hm_hls m' = hm_hls m"
    and o: "\<forall>p\<in>set qs. own p = RSpare"
    using l(4) s(5) by (auto simp: same_rest_def)
  note jo = grown_join [OF gr r(2)]
  have "hash_new_data_list dn m = Ok (1, l, m')"
    using l(1,2) init r(1) by (simp add: hash_new_data_list_def)
  moreover have "\<forall>p\<in>set (qs @ [s]). join ((\<lambda>_. RNone)(s := RSpare)) own p = RSpare" using o jo(2) jo(3) [of s] by auto
  ultimately show ?thesis using that l(2) jo(1) r o by auto
qed

lemma bucket_max_value:
  assumes "n \<le> 30"
  shows "scast (ucast (push_bit n 1 :: u64) :: i32) = (2 ^ n :: u64)"
proof -
  have "\<forall>n\<in>set [0..<31]. scast (ucast (push_bit n 1 :: u64) :: i32) = (2 ^ n :: u64)" by code_simp
  then show ?thesis using assms by simp
qed

lemma bucket_max_sizes:
  assumes "n \<le> 30"
  shows "unat (2 ^ n :: u64) = 2 ^ n" "unat (8 * 2 ^ n :: u64) div 8 = 2 ^ n" "(2 ^ n - 1 :: u64) = mask n"
proof -
  have le: "(2 :: nat) ^ n \<le> 2 ^ 30" using assms by (intro power_increasing) auto
  have "unat (of_nat (2 ^ n) :: u64) = 2 ^ n" using le by (simp only: unat_of_nat) (simp add: take_bit_nat_eq_self)
  then show "unat (2 ^ n :: u64) = 2 ^ n" by simp
  have "unat (of_nat (8 * 2 ^ n) :: u64) = 8 * 2 ^ n" using le by (simp only: unat_of_nat) (simp add: take_bit_nat_eq_self)
  then show "unat (8 * 2 ^ n :: u64) div 8 = 2 ^ n" by simp
  show "(2 ^ n - 1 :: u64) = mask n" by (simp add: mask_eq_exp_minus_1)
qed

lemma init_hash_table_new:
  fixes m :: "'a hm_mem_scheme"
  assumes "heap_ok m" "enough_mem (Suc (2 * 2 ^ n + k)) m" "n \<le> 30" "h \<noteq> NULL" "hm_hashes m h = Some hh"
  obtains own T es t m' where "init_hash_table h (ucast (push_bit n 1 :: u64)) m = Ok (1, m')" "grown own m m'" "enough_mem k m'"
    "t \<noteq> NULL" "hm_hashes m' = (hm_hashes m)(h \<mapsto> hh\<lparr>h_table := t\<rparr>)" "hm_tables m' t = Some T" "length T = 2 ^ n"
    "\<forall>j<2 ^ n. own (T ! j) = RHead j \<and> own (es j) = REnd j \<and> bucket_ok m' (T ! j) [] (es j)"
proof -
  let ?bm = "ucast (push_bit n 1 :: u64) :: i32"
  note bm = bucket_max_value [OF assms(3)] bucket_max_sizes [OF assms(3)]
  obtain t m1 where t: "aligned_malloc (8 * 2 ^ n) LF_ALIGN_DOUBLE_POINTER m = (t, m1)" "t \<noteq> NULL"
    "grown ((\<lambda>_. RNone)(t := RNone)) m m1" "same_rest m m1" "enough_mem (2 * 2 ^ n + k) m1"
    by (rule hm_malloc_enough [OF assms(1,2)])
  define T0 where "T0 = map (\<lambda>i. m_junk m (t + 8 * of_nat i)) [0..<2 ^ n]"
  let ?m2 = "set_ha h (hh\<lparr>h_table := t\<rparr>) (set_tb t T0 m1)"
  have init: "init_hash_table h ?bm m = init_hash_table_loop h (2 ^ n) 0 ?m2"
    using t(1,2,4) assms(4,5) bm unfolding init_hash_table_def sizeof_ptr_def by (simp add: same_rest_def T0_def)
  have gr: "grown (\<lambda>_. RNone) m ?m2" using t(3) by (simp add: grown_def)
  have "\<exists>own T' es m'. init_hash_table_loop h (2 ^ n) 0 ?m2 = Ok (1, m') \<and> grown own ?m2 m' \<and> enough_mem k m' \<and> length T' = length T0 \<and>
      (\<forall>j<0. T' ! j = T0 ! j) \<and> hm_tables m' = (hm_tables ?m2)(h_table (hh\<lparr>h_table := t\<rparr>) \<mapsto> T') \<and> hm_hashes m' = hm_hashes ?m2 \<and>
      (\<forall>j. 0 \<le> j \<and> j < 0 + 2 ^ n \<longrightarrow> own (T' ! j) = RHead j \<and> own (es j) = REnd j \<and> bucket_ok m' (T' ! j) [] (es j))"
    by (rule init_table_buckets) (use t gr in \<open>simp_all add: T0_def grown_def\<close>)
  then obtain own T' es m' where r: "init_hash_table_loop h (2 ^ n) 0 ?m2 = Ok (1, m')" "grown own ?m2 m'" "enough_mem k m'" "length T' = length T0"
      "hm_tables m' = (hm_tables ?m2)(t \<mapsto> T')" "hm_hashes m' = hm_hashes ?m2"
      "\<forall>j<2 ^ n. own (T' ! j) = RHead j \<and> own (es j) = REnd j \<and> bucket_ok m' (T' ! j) [] (es j)"
    by auto
  have "grown own m m'" using gr r(2) by (auto simp: grown_def)
  then show ?thesis using that [where own = own and m' = m' and t = t and T = T' and es = es] init r t(2,4)
    by (simp add: T0_def same_rest_def)
qed

lemma hash_new_inv:
  fixes m :: "'a hm_mem_scheme"
  assumes ok: "heap_ok m" and en: "enough_mem (2 * 2 ^ n + unat ln + unat dn + 6) m" and j0: "Z \<longrightarrow> (\<forall>q. m_junk m q = 0)"
    and n: "n \<le> 30" and pr: "probe \<noteq> NULL" "\<not> good_block (probe - 16)" "hm_datas m probe \<noteq> None"
  shows "\<exists>h m'. hash_new_sized ln dn n m = Ok (1, h, m') \<and> hash_inv Z h probe (\<lambda>_. None) (unat dn) (unat ln) m'"
proof -
  let ?bm = "ucast (push_bit n 1 :: u64) :: i32"
  have "2 * 2 ^ n + unat ln + unat dn + 6 = Suc (Suc (2 * 2 ^ n + Suc (Suc (unat ln + Suc (Suc (unat dn))))))" by simp
  then have "enough_mem (Suc (Suc (2 * 2 ^ n + Suc (Suc (unat ln + Suc (Suc (unat dn))))))) m" using en by (simp only:)
  then obtain h m1 where h: "aligned_malloc 40 LF_ALIGN_DOUBLE_POINTER m = (h, m1)" "h \<noteq> NULL" "grown ((\<lambda>_. RNone)(h := RNone)) m m1"
    "enough_mem (Suc (2 * 2 ^ n + Suc (Suc (unat ln + Suc (Suc (unat dn)))))) m1"
    by (rule hm_malloc_enough [OF ok])
  define hh where "hh = \<lparr>h_bucket_max = ucast (m_junk m h), h_bucket_mask = m_junk m (h + 8),
                h_table = m_junk m (h + 16), h_hl = m_junk m (h + 24), h_dl = m_junk m (h + 32)\<rparr>"
  let ?m2 = "set_ha h hh m1"
  have m2: "heap_ok ?m2" "enough_mem (Suc (2 * 2 ^ n + Suc (Suc (unat ln + Suc (Suc (unat dn)))))) ?m2" "hm_hashes ?m2 h = Some hh"
    and g2: "grown (\<lambda>_. RNone) m ?m2" using h by (simp_all add: grown_def)
  obtain o3 T es t m3 where tb: "init_hash_table h ?bm ?m2 = Ok (1, m3)" "grown o3 ?m2 m3" "enough_mem (Suc (Suc (unat ln + Suc (Suc (unat dn))))) m3"
    "t \<noteq> NULL" "hm_hashes m3 = (hm_hashes ?m2)(h \<mapsto> hh\<lparr>h_table := t\<rparr>)" "hm_tables m3 t = Some T" "length T = 2 ^ n"
    "\<forall>j<2 ^ n. o3 (T ! j) = RHead j \<and> o3 (es j) = REnd j \<and> bucket_ok m3 (T ! j) [] (es j)"
    by (rule init_hash_table_new [OF m2(1,2) n h(2) m2(3)])
  have m3: "heap_ok m3" "Z \<longrightarrow> (\<forall>q. m_junk m3 q = 0)" using tb(2) g2 j0 by (simp_all add: grown_def)
  obtain o4 ps l hl m4 where it: "hash_new_element ln m3 = Ok (1, l, m4)" "l \<noteq> NULL" "grown o4 m3 m4" "enough_mem (Suc (Suc (unat dn))) m4"
    "hm_hls m4 l = Some hl" "spare False (ilink m4) (hl_he hl) ps" "length ps = Suc (unat ln)" "\<forall>p\<in>set ps. o4 p = RPool"
    "\<forall>p\<in>set (butlast ps). \<exists>it. hm_items m4 p = Some it \<and> hi_type it \<noteq> END_NODE"
    "hm_hashes m4 = hm_hashes m3" "hm_tables m4 = hm_tables m3" "hm_dls m4 = hm_dls m3"
    by (rule new_item_list [OF m3(1) tb(3)])
  let ?h4 = "hh\<lparr>h_table := t, h_hl := l\<rparr>" and ?m4 = "set_ha h (hh\<lparr>h_table := t, h_hl := l\<rparr>) m4"
  have m4: "heap_ok ?m4" "enough_mem (Suc (Suc (unat dn + 0))) ?m4" "Z \<longrightarrow> (\<forall>q. m_junk ?m4 q = 0)" using it(3,4) m3(2) by (simp_all add: grown_def)
  obtain o5 ds d dl m5 where da: "hash_new_data_list dn ?m4 = Ok (1, d, m5)" "d \<noteq> NULL" "grown o5 ?m4 m5"
    "hm_dls m5 d = Some dl" "spare Z (dlink m5) (dl_hd dl) ds" "length ds = Suc (unat dn)" "\<forall>p\<in>set ds. o5 p = RSpare"
    "hm_hashes m5 = hm_hashes ?m4" "hm_tables m5 = hm_tables ?m4" "hm_hls m5 = hm_hls ?m4"
    by (rule new_data_list [OF m4])
  let ?x = "?h4\<lparr>h_dl := d, h_bucket_max := ?bm, h_bucket_mask := 2 ^ n - 1\<rparr>"
  let ?m6 = "set_ha h ?x (set_ha h (?h4\<lparr>h_dl := d\<rparr>) m5)"
  have run: "hash_new_sized ln dn n m = Ok (1, h, ?m6)"
    using n h(1,2) tb(1,4,5) it(1,2,10) da(1,2,8) bucket_max_value [OF n] unfolding hash_new_sized_def
    by (simp add: Let_def flip: hh_def)
  define own where "own = join o3 (join o4 o5)"
  have g4: "grown o4 m3 ?m4" using it(3) by (simp add: grown_def)
  have g5: "grown (join o4 o5) m3 m5" by (rule grown_join(1) [OF g4 da(3)])
  have g: "grown own m ?m6" using grown_join(1) [OF tb(2) g5] g2 unfolding own_def by (auto simp: grown_def)
  have ow: "own x = o3 x" if "o3 x \<noteq> RNone" for x using that by (simp add: own_def join_def)
  have ow4: "own x = o4 x" if "o4 x \<noteq> RNone" for x
    using that grown_join(2) [OF tb(2) g5, of x] grown_join(3) [OF g4 da(3), of x] by (auto simp: own_def join_cases)
  have ow5: "own x = o5 x" if "o5 x \<noteq> RNone" for x
    using that grown_join(2) [OF tb(2) g5, of x] grown_join(2) [OF g4 da(3), of x] by (auto simp: own_def join_cases)
  have keep3: "hm_items m5 x = hm_items m3 x" if "allocated m3 x" for x using g5 that by (simp add: grown_def)
  have keep4: "hm_items m5 x = hm_items m4 x" if "allocated m4 x" for x using da(3) that by (simp add: grown_def)
  have bk: "\<forall>i<2 ^ n. own (T ! i) = RHead i \<and> own (es i) = REnd i \<and> bucket_ok ?m6 (T ! i) [] (es i)"
  proof (intro allI impI)
    fix i :: nat assume "i < 2 ^ n"
    then have o3: "o3 (T ! i) = RHead i" "o3 (es i) = REnd i" and b: "bucket_ok m3 (T ! i) [] (es i)" using tb(8) by auto
    then have "allocated m3 (T ! i)" "allocated m3 (es i)" using tb(2) by (simp_all add: grown_def)
    then have "bucket_ok ?m6 (T ! i) [] (es i)" by (intro bucket_ok_frame(1) [OF b]) (auto simp: keep3)
    then show "own (T ! i) = RHead i \<and> own (es i) = REnd i \<and> bucket_ok ?m6 (T ! i) [] (es i)" using ow o3 by auto
  qed
  have pa: "allocated m4 p" if "p \<in> set ps" for p using it(3,8) that by (simp add: grown_def)
  have pool: "spare False (ilink ?m6) (hl_he hl) ps"
    by (rule spare_frame [OF it(6)]) (simp add: ilink_def keep4 [OF pa])
  have "\<forall>p\<in>set (butlast ps). \<exists>it. hm_items ?m6 p = Some it \<and> hi_type it \<noteq> END_NODE"
    using it(9) by (auto simp: keep4 [OF pa [OF in_set_butlastD]])
  moreover have "spare Z (dlink ?m6) (dl_hd dl) ds" by (rule spare_frame [OF da(5)]) (simp add: dlink_def)
  moreover have "\<forall>p\<in>set ps. own p = RPool" "\<forall>p\<in>set ds. own p = RSpare" using it(8) da(7) ow4 ow5 by auto
  ultimately have "hash_at Z h n own T (\<lambda>_. []) es ps ds ?m6"
    unfolding hash_at_def using g n h(2) bk pool it(2,5,11) tb(6,7) da(2,4,9,10) bucket_max_sizes(3) [OF n]
    by (simp add: grown_def)
  moreover have "own probe = RNone" "hm_datas ?m6 probe \<noteq> None"
  proof -
    have "\<not> allocated ?m6 probe" using pr(2) by (simp add: allocated_def)
    then have "own probe = RNone" "hm_datas ?m6 probe = hm_datas m probe" using g unfolding grown_def by blast+
    then show "own probe = RNone" "hm_datas ?m6 probe \<noteq> None" using pr(3) by simp_all
  qed
  moreover have "hmap n (\<lambda>_. []) ?m6 = (\<lambda>_. None)" by (simp add: hmap_def bmap_def fun_eq_iff)
  ultimately have "hash_inv Z h probe (\<lambda>_. None) (unat dn) (unat ln) ?m6"
    using pr(1) it(7) da(6) unfolding hash_inv_def
    by (intro exI [of _ n] exI [of _ own] exI [of _ T] exI [of _ "\<lambda>_. []"] exI [of _ es] exI [of _ ps] exI [of _ ds])
      simp
  then show ?thesis using run by blast
qed

section \<open>The cell of the retry counters\<close>

text \<open>
  Less than 2^32 increments leave the bytes beside \<open>retry\<close> as they were, and a pool of
  \<open>hash_new\<close> is emptied by at most 30000000 of them.
\<close>

lemma retry_cell_low: "take_bit 32 (retry_cell m) = 0"
  by (simp add: retry_cell_def take_bit_push_bit)

lemma retry_cell_neighbour:
  assumes "k < 2 ^ 32"
  shows "drop_bit 32 (retry_cell m + of_nat k) = drop_bit 32 (m_junk m NULL)"
    and "take_bit 32 (retry_cell m + of_nat k) = of_nat k"
proof -
  have k: "of_nat k = take_bit 32 (of_nat k :: u64)"
    using assms by (simp add: word_unat_eq_iff unsigned_take_bit_eq unat_of_nat take_bit_nat_eq_self)
  have or: "retry_cell m + of_nat k = retry_cell m OR of_nat k"
  proof -
    have "retry_cell m AND of_nat k = 0"
      by (subst k) (rule bit_word_eqI, auto simp: retry_cell_def bit_simps)
    then show ?thesis by (rule disjunctive_add_eq_or)
  qed
  have high: "drop_bit 32 (of_nat k :: u64) = 0"
    by (subst k) (rule bit_word_eqI, simp add: bit_simps)
  show "drop_bit 32 (retry_cell m + of_nat k) = drop_bit 32 (m_junk m NULL)"
    unfolding or drop_bit_or high by (rule bit_word_eqI) (auto simp: retry_cell_def bit_simps dest: bit_imp_le_length)
  show "take_bit 32 (retry_cell m + of_nat k) = of_nat k"
    unfolding or take_bit_or retry_cell_low using k by simp
qed

section \<open>Deletion frees the first bucket twice\<close>

text \<open>What the deletion functions leave alone: the map, its table, and headers that are gone.\<close>

definition only_frees :: "'a hm_mem_scheme \<Rightarrow> 'a hm_mem_scheme \<Rightarrow> bool" where
  "only_frees m m' \<longleftrightarrow> hm_tables m' = hm_tables m \<and> hm_hashes m' = hm_hashes m \<and> (\<forall>q. m_hdr m q = None \<longrightarrow> m_hdr m' q = None)"

lemma only_frees_refl: "only_frees m m"
  by (simp add: only_frees_def)

lemma only_frees_trans: "only_frees m m1 \<Longrightarrow> only_frees m1 m2 \<Longrightarrow> only_frees m m2"
  by (auto simp: only_frees_def)

lemma only_frees_set [simp]:
  "only_frees m (set_hl l x n) = only_frees m n" "only_frees m (set_dl l y n) = only_frees m n"
  by (simp_all add: only_frees_def set_hl_def set_dl_def)

lemma aligned_free_only:
  fixes m :: "'a hm_mem_scheme"
  shows "ok_post (\<lambda>m'. only_frees m m' \<and> m_hdr m (p - 8) \<noteq> None \<and> m_hdr m' (p - 8) = None) (aligned_free p m)"
  unfolding aligned_free_def abstraction_free_def free_def sizeof_ptr_def
  by (intro ok_rules ok_post_call) (auto simp: only_frees_def)

lemma free_only:
  fixes m :: "'a hm_mem_scheme"
  shows "only_frees m0 m \<Longrightarrow> ok_post (\<lambda>m'. only_frees m0 m' \<and> m_hdr m (p - 8) \<noteq> None \<and> m_hdr m' (p - 8) = None) (free_hi p m)"
    and "only_frees m0 m \<Longrightarrow> ok_post (\<lambda>m'. only_frees m0 m') (free_hd p m)"
    and "only_frees m0 m \<Longrightarrow> ok_post (\<lambda>m'. only_frees m0 m') (free_hl p m)"
    and "only_frees m0 m \<Longrightarrow> ok_post (\<lambda>m'. only_frees m0 m') (free_dl p m)"
  unfolding free_hi_def free_hd_def free_hl_def free_dl_def
  by (intro ok_post_call ok_post_mono [OF aligned_free_only] ok_post_Ok; auto simp: only_frees_def)+

lemma delete_item_only:
  fixes m :: "'a hm_mem_scheme"
  assumes "only_frees m0 m"
  shows "ok_post (\<lambda>m'. only_frees m0 m' \<and> m_hdr m' (b - 8) = None) (hash_delete_item_func b st m)"
proof -
  have "ok_post (\<lambda>m1. only_frees m0 m1) (if hi_data x \<noteq> NULL then free_hd (hi_data x) m else Ok m)" for x
    by (intro ok_rules free_only assms)
  note data = ok_post_mono [OF this]
  show ?thesis
    unfolding hash_delete_item_func_def
    by (intro ok_rules ok_post_call data) (auto intro: ok_post_mono [OF free_only(1)])
qed

lemma bucket_delete_only:
  fixes m :: "'a hm_mem_scheme"
  assumes "only_frees m0 m"
  shows "ok_post (\<lambda>m'. only_frees m0 m' \<and> (b \<noteq> NULL \<longrightarrow> m_hdr m' (b - 8) = None))
    (cloop (bucket_delete_body (Some hash_delete_item_func) st) (b, m))"
proof (rule ok_post_cloop [where I = "\<lambda>(c, n). only_frees m0 n \<and> (b \<noteq> NULL \<longrightarrow> (c = b \<and> n = m) \<or> m_hdr n (b - 8) = None)"])
  fix s
  assume I: "case s of (c, n) \<Rightarrow> only_frees m0 n \<and> (b \<noteq> NULL \<longrightarrow> (c = b \<and> n = m) \<or> m_hdr n (b - 8) = None)"
  obtain c n where s: "s = (c, n)" by fastforce
  have "ok_post (\<lambda>n1. only_frees m0 n1 \<and> only_frees n n1 \<and> m_hdr n1 (c - 8) = None) (hash_delete_item_func c st n)"
    using delete_item_only [of m0 n c st] delete_item_only [of n n c st] I s by (auto simp: ok_post_def only_frees_refl)
  then show "ok_post (\<lambda>x. case x of Again t \<Rightarrow> case t of (c, n) \<Rightarrow> only_frees m0 n \<and> (b \<noteq> NULL \<longrightarrow> (c = b \<and> n = m) \<or> m_hdr n (b - 8) = None)
      | Done m' \<Rightarrow> only_frees m0 m' \<and> (b \<noteq> NULL \<longrightarrow> m_hdr m' (b - 8) = None)) (bucket_delete_body (Some hash_delete_item_func) st s)"
    using I unfolding bucket_delete_body_def s
    by (auto intro!: ok_rules ok_post_call elim!: ok_post_mono simp: only_frees_def)
qed (use assms in simp)

lemma hashtable_delete_only:
  fixes m :: "'a hm_mem_scheme"
  shows "only_frees m0 m \<Longrightarrow> ok_post (\<lambda>m'. only_frees m0 m') (hashtable_delete_loop h (Some hash_delete_item_func) st n i m)"
proof (induction n arbitrary: i m)
  case (Suc n)
  show ?case unfolding hashtable_delete_loop.simps table_at_def
    by (intro ok_rules ok_post_call ok_post_mono [OF bucket_delete_only [OF Suc.prems]] Suc.IH) simp
qed (simp add: ok_post_def)

lemma pop_only:
  fixes m :: "'a hm_mem_scheme"
  assumes "only_frees m0 m"
  shows "ok_post (\<lambda>(_, _, m'). only_frees m0 m') (hashlist_pop l r m)"
    and "ok_post (\<lambda>(_, _, m'). only_frees m0 m') (datalist_pop l r m)"
proof -
  have "ok_post (\<lambda>(_, _, m'). only_frees m0 m') (cloop (hashlist_pop_body l) (p, r, m))" for p
    by (rule ok_post_cloop [where I = "\<lambda>(_, _, n). only_frees m0 n"])
      (use assms in \<open>auto simp: hashlist_pop_body_def abstraction_cas_def Let_def intro!: ok_rules\<close>)
  note pop = ok_post_mono [OF this]
  show "ok_post (\<lambda>(_, _, m'). only_frees m0 m') (hashlist_pop l r m)"
    unfolding hashlist_pop_def by (intro ok_rules ok_post_call pop) auto
  have "ok_post (\<lambda>(_, _, m'). only_frees m0 m') (cloop (datalist_pop_body l) (p, r, m))" for p
    by (rule ok_post_cloop [where I = "\<lambda>(_, _, n). only_frees m0 n"])
      (use assms in \<open>auto simp: datalist_pop_body_def abstraction_cas_def Let_def intro!: ok_rules\<close>)
  note pop = ok_post_mono [OF this]
  show "ok_post (\<lambda>(_, _, m'). only_frees m0 m') (datalist_pop l r m)"
    unfolding datalist_pop_def by (intro ok_rules ok_post_call pop) auto
qed

lemma pool_delete_only:
  fixes m :: "'a hm_mem_scheme"
  assumes "only_frees m0 m"
  shows "ok_post (\<lambda>m'. only_frees m0 m') (hashlist_delete h (Some hash_delete_item_func) NULL m)"
    and "ok_post (\<lambda>m'. only_frees m0 m') (datalist_delete h (Some hash_delete_data_func) NULL m)"
proof -
  note item = ok_post_mono [OF pop_only(1)] ok_post_mono [OF delete_item_only]
  show "ok_post (\<lambda>m'. only_frees m0 m') (hashlist_delete h (Some hash_delete_item_func) NULL m)"
    unfolding hashlist_delete_def
    by (intro ok_rules ok_post_cloop [where I = "\<lambda>(_, n). only_frees m0 n"])
      (use assms in \<open>auto simp: hashlist_delete_body_def intro!: ok_rules ok_post_call item\<close>)
  have "ok_post (\<lambda>m'. only_frees m0 m') (hash_delete_data_func p NULL n)" if "only_frees m0 n" for p and n :: "'a hm_mem_scheme"
    unfolding hash_delete_data_func_def by (intro ok_rules free_only that)
  note data = ok_post_mono [OF pop_only(2)] ok_post_mono [OF this]
  show "ok_post (\<lambda>m'. only_frees m0 m') (datalist_delete h (Some hash_delete_data_func) NULL m)"
    unfolding datalist_delete_def
    by (intro ok_rules ok_post_cloop [where I = "\<lambda>(_, n). only_frees m0 n"])
      (use assms in \<open>auto simp: datalist_delete_body_def intro!: ok_rules ok_post_call data\<close>)
qed

lemma first_bucket_gone:
  fixes m :: "'a hm_mem_scheme"
  assumes fr: "only_frees m0 m" and x: "hm_hashes m0 h = Some x" "hm_tables m0 (h_table x) = Some (b # T)" "b \<noteq> NULL"
    "0 < sint (h_bucket_max x)"
  shows "ok_post (\<lambda>m'. only_frees m0 m' \<and> m_hdr m' (b - 8) = None) (hashtable_delete h (Some hash_delete_item_func) NULL m)"
proof -
  obtain k where k: "nat (sint (h_bucket_max x)) = Suc k" using x(4) by (metis gr0_implies_Suc zero_less_nat_eq)
  have m: "hm_hashes m h = Some x" "hm_tables m (h_table x) = Some (b # T)" using fr x by (simp_all add: only_frees_def)
  have rest: "ok_post (\<lambda>m'. only_frees m0 m' \<and> m_hdr m' (b - 8) = None) (hashtable_delete_loop h (Some hash_delete_item_func) NULL k i n)"
    if "only_frees m0 n" "m_hdr n (b - 8) = None" for i and n :: "'a hm_mem_scheme"
    using hashtable_delete_only [OF that(1), of h NULL k i] hashtable_delete_only [OF only_frees_refl [of n], of h NULL k i] that(2)
    by (auto simp: ok_post_def only_frees_def)
  show ?thesis unfolding hashtable_delete_def
    by (simp add: k m table_at_def) (intro ok_post_call ok_post_mono [OF bucket_delete_only [OF fr]], use x(3) rest in blast)
qed

text \<open>The frees at the end of \<open>hash_free\<close> need the header of the first bucket, and find it gone.\<close>

lemma delete_item_had:
  fixes m :: "'a hm_mem_scheme"
  shows "ok_post (\<lambda>_. m_hdr m (b - 8) \<noteq> None) (hash_delete_item_func b st m)"
proof -
  have "ok_post (\<lambda>m1. only_frees m m1) (if hi_data x \<noteq> NULL then free_hd (hi_data x) m else Ok m)" for x
    by (intro ok_rules free_only only_frees_refl)
  note data = ok_post_mono [OF this]
  show ?thesis
    unfolding hash_delete_item_func_def
    by (intro ok_rules ok_post_call data ok_post_mono [OF free_only(1) [OF only_frees_refl]]) (auto simp: only_frees_def)
qed

lemma bucket_delete_had:
  fixes m :: "'a hm_mem_scheme"
  assumes "b \<noteq> NULL"
  shows "ok_post (\<lambda>_. m_hdr m (b - 8) \<noteq> None) (cloop (bucket_delete_body (Some hash_delete_item_func) st) (b, m))"
proof (rule ok_post_cloop [where I = "\<lambda>s. s = (b, m) \<or> m_hdr m (b - 8) \<noteq> None"])
  fix s :: "addr \<times> 'a hm_mem_scheme"
  assume I: "s = (b, m) \<or> m_hdr m (b - 8) \<noteq> None"
  show "ok_post (\<lambda>r. case r of Again t \<Rightarrow> t = (b, m) \<or> m_hdr m (b - 8) \<noteq> None | Done _ \<Rightarrow> m_hdr m (b - 8) \<noteq> None)
      (bucket_delete_body (Some hash_delete_item_func) st s)"
  proof (cases "m_hdr m (b - 8) \<noteq> None")
    case True
    then show ?thesis by (auto simp: ok_post_def split: res.splits ctl.splits)
  next
    case False
    then show ?thesis using I assms unfolding bucket_delete_body_def
      by (auto intro!: ok_rules ok_post_call ok_post_mono [OF delete_item_had])
  qed
qed simp

lemma first_bucket_had:
  fixes m :: "'a hm_mem_scheme"
  assumes x: "hm_hashes m h = Some x" "hm_tables m (h_table x) = Some (b # T)" "b \<noteq> NULL" "0 < sint (h_bucket_max x)"
    and ok: "hashtable_delete h (Some hash_delete_item_func) NULL m = Ok m'"
  shows "m_hdr m (b - 8) \<noteq> None"
proof -
  obtain k where k: "nat (sint (h_bucket_max x)) = Suc k" using x(4) by (metis gr0_implies_Suc zero_less_nat_eq)
  obtain m1 where "cloop (bucket_delete_body (Some hash_delete_item_func) NULL) (b, m) = Ok m1"
    using ok x k by (auto simp: hashtable_delete_def table_at_def call_eq_Ok)
  then show ?thesis using bucket_delete_had [OF x(3), of m NULL] by (simp add: ok_post_def)
qed

lemma hash_delete_keeps:
  fixes m :: "'a hm_mem_scheme"
  assumes "hashlist_delete h (Some hash_delete_item_func) NULL m = Ok m1" "free_hl l m1 = Ok m2"
    and "datalist_delete h (Some hash_delete_data_func) NULL m2 = Ok m3" "free_dl d m3 = Ok m4"
  shows "only_frees m m4"
proof -
  have "only_frees m m1" using pool_delete_only(1) [OF only_frees_refl [of m], of h] assms(1) by (simp add: ok_post_def)
  then have "only_frees m m2" using free_only(3) [of m m1 l] assms(2) by (simp add: ok_post_def)
  then have "only_frees m m3" using pool_delete_only(2) [of m m2 h] assms(3) by (simp add: ok_post_def)
  then show ?thesis using free_only(4) [of m m3 d] assms(4) by (simp add: ok_post_def)
qed

lemma hash_free_never_returns:
  fixes m :: "'a hm_mem_scheme"
  assumes h: "h \<noteq> NULL" "hm_hashes m h = Some x" and t: "h_table x \<noteq> NULL" "hm_tables m (h_table x) = Some (b # T)" "b \<noteq> NULL"
    and max: "0 < sint (h_bucket_max x)"
  shows "\<exists>e. hash_free h m = Fault e"
proof -
  have pools: "ok_post (\<lambda>m2. only_frees m m2) (if h_hl x \<noteq> NULL
      then call (hashlist_delete h (Some hash_delete_item_func) NULL m) (\<lambda>m1. free_hl (h_hl x) m1) else Ok m)"
    "ok_post (\<lambda>m4. only_frees m m4) (if h_dl x \<noteq> NULL
      then call (datalist_delete h (Some hash_delete_data_func) NULL m2) (\<lambda>m3. free_dl (h_dl x) m3) else Ok m2)"
    if "only_frees m m2" for m2
    using that by (intro ok_rules ok_post_call ok_post_mono [OF pool_delete_only(1)] ok_post_mono [OF pool_delete_only(2)] free_only;
      simp add: only_frees_refl)+
  have again: "ok_post (\<lambda>_. False) (free_hi b n)" if "m_hdr n (b - 8) = None" for n :: "'a hm_mem_scheme"
    by (rule ok_post_mono [OF free_only(1) [OF only_frees_refl]]) (simp add: that)
  have table: "ok_post (\<lambda>_. False) (if h_table x \<noteq> NULL then call (hashtable_delete h (Some hash_delete_item_func) NULL m4) (\<lambda>m5.
      table_at (h_table x) 0 m5 (\<lambda>b. free_hi b m5)) else Ok m4)" if "only_frees m m4" for m4
    unfolding if_P [OF t(1)]
  proof (intro ok_post_call ok_post_mono [OF first_bucket_gone [OF that h(2) t(2,3) max]])
    fix m5 assume "only_frees m m5 \<and> m_hdr m5 (b - 8) = None"
    then show "ok_post (\<lambda>_. False) (table_at (h_table x) 0 m5 (\<lambda>b. free_hi b m5))"
      using again t(2) by (simp add: table_at_def only_frees_def)
  qed
  have "ok_post (\<lambda>_. False) (hash_free h m)"
    unfolding hash_free_def using h
    by (simp only: if_False deref_Some) (intro ok_post_call ok_post_mono [OF pools(1) [OF only_frees_refl]] ok_post_mono [OF pools(2)]
        ok_post_mono [OF table]; simp)
  then show ?thesis by (cases "hash_free h m") (auto simp: ok_post_def)
qed

definition hm_demo :: hm_mem where
  "hm_demo = \<lparr>m_script = [64, 128, 192, 256, 320, 384, 448, 512, 576, 640, 704, 768, 832, 896], m_live = [], m_hdr = (\<lambda>_. None),
     m_junk = (\<lambda>_. 0), hm_items = (\<lambda>_. None), hm_datas = [8 \<mapsto> \<lparr>hd_next = 0, hd_key = 0, hd_val = 0\<rparr>],
     hm_tables = (\<lambda>_. None), hm_hashes = (\<lambda>_. None), hm_hls = (\<lambda>_. None), hm_dls = (\<lambda>_. None)\<rparr>"

text \<open>A map with one bucket and the two pools empty, as \<open>hash_new\<close> builds them.\<close>

definition hm_one :: hm_mem where
  "hm_one = hm_demo\<lparr>
     hm_items := [128 \<mapsto> \<lparr>hi_next = 144, hi_data = 0, hi_type = HEAD_NODE\<rparr>, 144 \<mapsto> \<lparr>hi_next = 0, hi_data = 0, hi_type = END_NODE\<rparr>,
       160 \<mapsto> \<lparr>hi_next = 0, hi_data = 0, hi_type = I_NODE\<rparr>],
     hm_tables := [176 \<mapsto> [128]],
     hm_hashes := [192 \<mapsto> \<lparr>h_bucket_max = 1, h_bucket_mask = 0, h_table = 176, h_hl = 208, h_dl = 224\<rparr>],
     hm_hls := [208 \<mapsto> \<lparr>hl_he = 160, hl_num = 0\<rparr>]\<rparr>"

text \<open>
  The same map in memory where its blocks are allocated, with the sentinels of both pools: the
  head of the bucket is 208.
\<close>

definition hm_live :: hm_mem where
  "hm_live = hm_demo\<lparr>m_live := [64, 128, 192, 256, 320, 384, 448, 512],
     m_hdr := [72 \<mapsto> 64, 136 \<mapsto> 128, 200 \<mapsto> 192, 264 \<mapsto> 256, 328 \<mapsto> 320, 392 \<mapsto> 384, 456 \<mapsto> 448, 520 \<mapsto> 512],
     hm_hashes := [80 \<mapsto> \<lparr>h_bucket_max = 1, h_bucket_mask = 0, h_table = 144, h_hl = 336, h_dl = 464\<rparr>],
     hm_tables := [144 \<mapsto> [208]],
     hm_items := [208 \<mapsto> \<lparr>hi_next = 272, hi_data = 0, hi_type = HEAD_NODE\<rparr>, 272 \<mapsto> \<lparr>hi_next = 0, hi_data = 0, hi_type = END_NODE\<rparr>,
       400 \<mapsto> \<lparr>hi_next = 0, hi_data = 0, hi_type = I_NODE\<rparr>],
     hm_hls := [336 \<mapsto> \<lparr>hl_he = 400, hl_num = 1\<rparr>], hm_dls := [464 \<mapsto> \<lparr>dl_hd = 528, dl_count = 1\<rparr>],
     hm_datas := [528 \<mapsto> \<lparr>hd_next = 0, hd_key = 0, hd_val = 0\<rparr>]\<rparr>"

lemma hm_live_pools:
  "hashlist_delete 80 (Some hash_delete_item_func) NULL hm_live = Ok hm_live"
  "\<exists>m2. free_hl 336 hm_live = Ok m2 \<and> datalist_delete 80 (Some hash_delete_data_func) NULL m2 = Ok m2 \<and>
    (\<exists>m4. free_dl 464 m2 = Ok m4 \<and> (\<exists>m5. hashtable_delete 80 (Some hash_delete_item_func) NULL m4 = Ok m5))"
proof -
  note frees = aligned_free_def abstraction_free_def free_def sizeof_ptr_def
  show "hashlist_delete 80 (Some hash_delete_item_func) NULL hm_live = Ok hm_live"
    by (simp add: hashlist_delete_def hashlist_delete_body_def hashlist_pop_def hashlist_pop_body_def hm_live_def)
  show "\<exists>m2. free_hl 336 hm_live = Ok m2 \<and> datalist_delete 80 (Some hash_delete_data_func) NULL m2 = Ok m2 \<and>
    (\<exists>m4. free_dl 464 m2 = Ok m4 \<and> (\<exists>m5. hashtable_delete 80 (Some hash_delete_item_func) NULL m4 = Ok m5))"
    by (simp add: hm_live_def hm_demo_def free_hl_def free_dl_def frees
          datalist_delete_def datalist_delete_body_def datalist_pop_def datalist_pop_body_def)
      (simp add: hashtable_delete_def table_at_def,
        (subst cloop_unfold, simp add: bucket_delete_body_def hash_delete_item_func_def free_hi_def frees)+)
qed

text \<open>
  C28. \<open>hash_free\<close> frees the head of the first bucket twice, on every map that has a bucket. It
  never returns: when emptying the pools and the buckets returns at all, in \<open>m5\<close>, the head of the
  first bucket was allocated before \<open>hashtable_delete\<close> and is freed after it, and what
  \<open>hash_free\<close> does next is to free that block again, \<open>aligned_free(*(h->table))\<close>, which reads the
  header of a block that is gone. (What it means to free is the table itself.)
\<close>

theorem hash_free_double:
  fixes m :: "'a hm_mem_scheme"
  assumes h: "h \<noteq> NULL" "hm_hashes m h = Some x" and t: "h_table x \<noteq> NULL" "hm_tables m (h_table x) = Some (b # T)" "b \<noteq> NULL"
    and max: "0 < sint (h_bucket_max x)" and pools: "h_hl x \<noteq> NULL" "h_dl x \<noteq> NULL"
  shows "(\<exists>e. hash_free h m = Fault e) \<and>
    (\<forall>m1 m2 m3 m4 m5.
       hashlist_delete h (Some hash_delete_item_func) NULL m = Ok m1 \<and> free_hl (h_hl x) m1 = Ok m2 \<and>
       datalist_delete h (Some hash_delete_data_func) NULL m2 = Ok m3 \<and> free_dl (h_dl x) m3 = Ok m4 \<and>
       hashtable_delete h (Some hash_delete_item_func) NULL m4 = Ok m5 \<longrightarrow>
       m_hdr m4 (b - sizeof_ptr) \<noteq> None \<and> m_hdr m5 (b - sizeof_ptr) = None \<and>
       hash_free h m = free_hi b m5 \<and> hash_free h m = Fault BadDeref)"
proof (intro conjI allI impI; (elim conjE)?)
  show "\<exists>e. hash_free h m = Fault e" by (rule hash_free_never_returns [OF h t max])
next
  fix m1 m2 m3 m4 m5
  assume r: "hashlist_delete h (Some hash_delete_item_func) NULL m = Ok m1" "free_hl (h_hl x) m1 = Ok m2"
    "datalist_delete h (Some hash_delete_data_func) NULL m2 = Ok m3" "free_dl (h_dl x) m3 = Ok m4"
    "hashtable_delete h (Some hash_delete_item_func) NULL m4 = Ok m5"
  have m4: "only_frees m m4" by (rule hash_delete_keeps [OF r(1-4)])
  then have x4: "hm_hashes m4 h = Some x" "hm_tables m4 (h_table x) = Some (b # T)" using h(2) t(2) by (simp_all add: only_frees_def)
  show "m_hdr m4 (b - sizeof_ptr) \<noteq> None"
    unfolding sizeof_ptr_def by (rule first_bucket_had [OF x4 t(3) max r(5)])
  have m5: "only_frees m m5" "m_hdr m5 (b - 8) = None"
    using first_bucket_gone [OF m4 h(2) t(2,3) max] r(5) by (simp_all add: ok_post_def)
  then show "m_hdr m5 (b - sizeof_ptr) = None" by (simp add: sizeof_ptr_def)
  have again: "free_hi b m5 = Fault BadDeref"
    using m5(2) t(3) by (simp add: free_hi_def aligned_free_def sizeof_ptr_def)
  have tb: "hm_tables m5 (h_table x) = Some (b # T)" using m5(1) t(2) by (simp add: only_frees_def)
  have "hash_free h m = call (free_hi b m5) (free_ha h)"
    using h t(1) pools r tb by (simp add: hash_free_def table_at_def)
  then show "hash_free h m = free_hi b m5" "hash_free h m = Fault BadDeref" using again by simp_all
qed

theorem hash_free_double_witness:
  "\<exists>m2 m4 m5. free_hl 336 hm_live = Ok m2 \<and> datalist_delete 80 (Some hash_delete_data_func) NULL m2 = Ok m2 \<and>
     free_dl 464 m2 = Ok m4 \<and> hashtable_delete 80 (Some hash_delete_item_func) NULL m4 = Ok m5 \<and>
     m_hdr m4 200 \<noteq> None \<and> m_hdr m5 200 = None \<and> hash_free 80 hm_live = free_hi 208 m5 \<and>
     hash_free 80 hm_live = Fault BadDeref"
proof -
  obtain m2 m4 m5 where r: "free_hl 336 hm_live = Ok m2" "datalist_delete 80 (Some hash_delete_data_func) NULL m2 = Ok m2"
    "free_dl 464 m2 = Ok m4" "hashtable_delete 80 (Some hash_delete_item_func) NULL m4 = Ok m5"
    using hm_live_pools(2) by blast
  have "hm_hashes hm_live 80 = Some \<lparr>h_bucket_max = 1, h_bucket_mask = 0, h_table = 144, h_hl = 336, h_dl = 464\<rparr>"
    "hm_tables hm_live 144 = Some [208]" by (simp_all add: hm_live_def)
  then have "m_hdr m4 200 \<noteq> None \<and> m_hdr m5 200 = None \<and> hash_free 80 hm_live = free_hi 208 m5 \<and>
      hash_free 80 hm_live = Fault BadDeref"
    using hash_free_double [of 80 hm_live _ 208 "[]"] hm_live_pools(1) r by (simp add: sizeof_ptr_def) metis
  then show ?thesis using r by blast
qed

text \<open>
  C27. A map made by \<open>hash_new\<close> (with its two pool sizes \<open>ln\<close> and \<open>dn\<close> as parameters) with at
  most \<open>2 ^ 30\<close> buckets behaves as a finite map under any sequence of additions and searches made
  by one thread, where an addition first takes its data block from the map's own pool, as long as
  there are no more additions than items and data blocks in the pools; fresh memory may contain
  anything. Every call returns. An addition says ADD for a new key, EXIST for a key present with the
  same value, and REPLACE for a key present with another value, which it replaces. The search says 1
  exactly for the keys of the map. When fresh memory is zero and \<open>dn\<close> is at most \<open>ln\<close>, this also
  holds beyond that number of additions: no block can be had and nothing is added.
\<close>

theorem hash_sequences:
  fixes m :: "'a hm_mem_scheme"
  assumes "heap_ok m" "enough_mem (2 * 2 ^ n + unat ln + unat dn + 6) m" "n \<le> 30"
    and "probe \<noteq> NULL" "\<not> good_block (probe - 16)" "hm_datas m probe \<noteq> None"
    and "hash_adds ops \<le> min (unat dn) (unat ln) \<or> ((\<forall>q. m_junk m q = 0) \<and> dn \<le> ln)"
  shows "\<exists>h m1 m2. hash_new_sized ln dn n m = Ok (1, h, m1) \<and>
    hash_run h probe ops m1 = Ok (hash_spec ops (\<lambda>_. None) (unat dn), m2)"
proof -
  let ?Z = "\<forall>q. m_junk m q = 0"
  obtain h m1 where new: "hash_new_sized ln dn n m = Ok (1, h, m1)" "hash_inv ?Z h probe (\<lambda>_. None) (unat dn) (unat ln) m1"
    using hash_new_inv [OF assms(1,2) _ assms(3-6), of ?Z] by blast
  have "hash_adds ops \<le> min (unat dn) (unat ln) \<or> (?Z \<and> unat dn \<le> unat ln)" using assms(7) by (simp only: word_le_nat_alt)
  then show ?thesis using hash_run_refines [OF new(2)] new(1) by blast
qed

theorem hash_sequences_witness:
  "(\<exists>h m1 m2. hash_new_sized 2 2 1 hm_demo = Ok (1, h, m1) \<and>
    hash_run h 8 [HAdd 5 50, HAdd 5 51, HSearch 5, HAdd 7 1, HSearch 4] m1 =
      Ok ([Some HASH_MAP_NODE_ADD, Some HASH_MAP_NODE_REPLACE, Some 1, None, Some 0], m2)) \<and>
   (\<exists>h m1 m2. hash_new_sized 2 2 1 (hm_demo\<lparr>m_junk := \<lambda>_. 7\<rparr>) = Ok (1, h, m1) \<and>
    hash_run h 8 [HAdd 5 50, HAdd 5 51, HSearch 5, HSearch 4] m1 =
      Ok ([Some HASH_MAP_NODE_ADD, Some HASH_MAP_NODE_REPLACE, Some 1, Some 0], m2))"
proof
  have mem: "heap_ok (hm_demo\<lparr>m_junk := j\<rparr>)" "enough_mem (2 * 2 ^ 1 + unat (2 :: u64) + unat (2 :: u64) + 6) (hm_demo\<lparr>m_junk := j\<rparr>)"
    "(1 :: nat) \<le> 30" "(8 :: addr) \<noteq> NULL" "\<not> good_block (8 - 16)" "hm_datas (hm_demo\<lparr>m_junk := j\<rparr>) 8 \<noteq> None" for j
    by (simp_all add: hm_demo_def heap_ok_def good_block_def)
  have junk: "hm_demo\<lparr>m_junk := \<lambda>_. 0\<rparr> = hm_demo" by (simp add: hm_demo_def)
  let ?ops = "[HAdd 5 50, HAdd 5 51, HSearch 5, HAdd 7 1, HSearch 4]"
  have "hash_spec ?ops (\<lambda>_. None) (unat (2 :: u64)) = [Some HASH_MAP_NODE_ADD, Some HASH_MAP_NODE_REPLACE, Some 1, None, Some 0]"
    by (simp add: spec_add_def)
  then show "\<exists>h m1 m2. hash_new_sized 2 2 1 hm_demo = Ok (1, h, m1) \<and> hash_run h 8 ?ops m1 =
      Ok ([Some HASH_MAP_NODE_ADD, Some HASH_MAP_NODE_REPLACE, Some 1, None, Some 0], m2)"
    using hash_sequences [OF mem, of ?ops "\<lambda>_. 0"] unfolding junk by (simp add: hm_demo_def)
  let ?ops' = "[HAdd 5 50, HAdd 5 51, HSearch 5, HSearch 4]"
  have "hash_spec ?ops' (\<lambda>_. None) (unat (2 :: u64)) = [Some HASH_MAP_NODE_ADD, Some HASH_MAP_NODE_REPLACE, Some 1, Some 0]"
    by (simp add: spec_add_def)
  then show "\<exists>h m1 m2. hash_new_sized 2 2 1 (hm_demo\<lparr>m_junk := \<lambda>_. 7\<rparr>) = Ok (1, h, m1) \<and> hash_run h 8 ?ops' m1 =
      Ok ([Some HASH_MAP_NODE_ADD, Some HASH_MAP_NODE_REPLACE, Some 1, Some 0], m2)"
    using hash_sequences [OF mem, of ?ops' "\<lambda>_. 7"] by simp
qed

text \<open>
  C29. \<open>hash_lookup\<close> masks the key with the number of buckets where it means that number minus one.
  On a table of \<open>2 ^ n\<close> buckets it reads past the end of the table for every key with bit \<open>n\<close>
  set, and walks the first bucket for every other key.
\<close>

theorem hash_lookup_mask:
  fixes m :: "'a hm_mem_scheme"
  assumes x: "hm_hashes m h = Some x" "h_bucket_max x = push_bit n 1" and n: "n \<le> 30"
    and t: "hm_tables m (h_table x) = Some T" "length T = 2 ^ n"
  shows "hash_lookup h key m = (if bit key n then Fault BadDeref else cloop (hash_lookup_body key m) (T ! 0))"
proof -
  have "key AND scast (push_bit n 1 :: i32) = (if bit key n then push_bit n 1 else 0)"
  proof (rule bit_word_eqI)
    fix i assume "i < LENGTH(64)"
    then show "bit (key AND scast (push_bit n 1 :: i32)) i = bit (if bit key n then push_bit n 1 else 0 :: u64) i"
      using n by (auto simp: bit_simps)
  qed
  moreover have "sint (ucast (push_bit n 1 :: u64) :: i32) = 2 ^ n"
  proof -
    have "\<forall>n\<in>set [0..<31]. sint (ucast (push_bit n 1 :: u64) :: i32) = 2 ^ n" by code_simp
    then show ?thesis using n by simp
  qed
  ultimately show ?thesis using x t by (simp add: hash_lookup_def table_at_def)
qed

theorem hash_lookup_mask_witness: "hash_lookup 192 3 hm_one = Fault BadDeref \<and> hash_lookup 192 2 hm_one = Fault BadDeref"
proof -
  have "hm_hashes hm_one 192 = Some \<lparr>h_bucket_max = 1, h_bucket_mask = 0, h_table = 176, h_hl = 208, h_dl = 224\<rparr>"
    "hm_tables hm_one 176 = Some [128]" by (simp_all add: hm_one_def)
  note look = hash_lookup_mask [OF this(1), of 0 "[128]"]
  have "cloop (hash_lookup_body 2 hm_one) 128 = Fault BadDeref"
    unfolding cloop_unfold [of _ 128] by (simp add: hash_lookup_body_def hm_one_def hm_demo_def)
  then show ?thesis using look [of 3] look [of 2] by (simp add: hm_one_def)
qed

text \<open>
  C30. When the pool of items is empty \<open>lf_hash_add\<close> does not fail: the loop that takes an item, which has
  no exit but success, runs forever in a thread that is alone.
\<close>

theorem lf_hash_add_spins:
  fixes m :: "'a hm_mem_scheme"
  assumes h: "h \<noteq> NULL" "hm_hashes m h = Some x" and l: "h_hl x \<noteq> NULL" "hm_hls m (h_hl x) = Some l"
    and s: "chain (ilink m) (hl_he l) [s]" and d: "hm_datas m hdata \<noteq> None"
  shows "lf_hash_add h hdata retry add_retry m = Fault Diverge"
proof -
  have "hash_take_body h (r, m) = Ok (Again (r, m))" for r
    using hashlist_pop_none [OF l(2,1) s] h by (simp add: hash_take_body_def lf_hash_add_new_element_from_hashlist_def)
  then have "cloop (hash_take_body h) (retry, m) = Fault Diverge"
    by (intro cloop_diverges [where I = "\<lambda>t. snd t = m"]) auto
  then show ?thesis using h d by (auto simp: lf_hash_add_def)
qed

theorem lf_hash_add_spins_witness: "lf_hash_add 192 8 0 0 hm_one = Fault Diverge"
proof -
  have "hm_hashes hm_one 192 = Some \<lparr>h_bucket_max = 1, h_bucket_mask = 0, h_table = 176, h_hl = 208, h_dl = 224\<rparr>"
    "hm_hls hm_one 208 = Some \<lparr>hl_he = 160, hl_num = 0\<rparr>" "hm_datas hm_one 8 \<noteq> None" "chain (ilink hm_one) 160 [160]"
    by (simp_all add: hm_one_def hm_demo_def ilink_def)
  then show ?thesis using lf_hash_add_spins [of 192 hm_one _ _ 160 8] by simp
qed

end
