(* ===== verification/Sizeclass.thy ===== *)
theory Sizeclass
  imports Prelude
begin

text \<open>
  The size classes of the SuperMalloc allocator: the address arithmetic of memory/malloc_internal.h
  (chunks of 2 MiB, pages of 4 KiB), the table of memory/generated_constants.cpp with one row per
  class ("bin"), the functions of generated_constants.h that go from a size to a bin and divide by
  the size of an object or of a folio by multiplying and shifting, and from memory/malloc.cpp the
  coding of a bin and a size in one word, \<open>object_base\<close> and \<open>malloc_usable_size\<close>.

  A bin of small objects has folios of \<open>objects_per_folio\<close> objects each; a chunk starts with
  \<open>overhead_pages_per_chunk\<close> pages of headers followed by \<open>folios_per_chunk\<close> folios.
  \<open>bassert\<close> is \<open>c_assert\<close>. The gcc builtins \<open>__builtin_clzl\<close> and \<open>__builtin_ctzl\<close> count leading and
  trailing zeros; a shift by 64 is the fault \<open>BadShift\<close>.
\<close>

section \<open>malloc_internal.h\<close>

type_synonym binnumber_t = u32
type_synonym chunknumber_t = u32
type_synonym bin_and_size_t = u32
type_synonym chunk_infos = "chunknumber_t \<Rightarrow> u32"

definition pagesize :: u64 where "pagesize = 4096"
definition log_chunksize :: u64 where "log_chunksize = 21"
definition chunksize :: u64 where "chunksize = push_bit (unat log_chunksize) 1"
definition cacheline_size :: u64 where "cacheline_size = 64"
definition max_objects_per_folio :: u32 where "max_objects_per_folio = 2048"
definition folio_bitmap_n_words :: u32 where "folio_bitmap_n_words = max_objects_per_folio div 64"

text \<open>\<open>sizeof(per_folio)\<close>: two pointers and the bitmap, padded to the alignment of 64 bytes.\<close>

definition sizeof_per_folio :: nat where
  "sizeof_per_folio = 64 * ((8 + 8 + 8 * unat folio_bitmap_n_words + 63) div 64)"

definition builtin_clzl :: "u64 \<Rightarrow> nat" where
  "builtin_clzl x = length (takeWhile (\<lambda>i. \<not> bit x i) (rev [0..<64]))"

definition builtin_ctzl :: "u64 \<Rightarrow> nat" where
  "builtin_ctzl x = length (takeWhile (\<lambda>i. \<not> bit x i) [0..<64])"

definition bin_from_bin_and_size :: "bin_and_size_t \<Rightarrow> binnumber_t res" where
  "bin_from_bin_and_size bnt = c_assert (bnt AND 127 \<noteq> 0) (Ok ((bnt AND 127) - 1))"

definition ceil :: "u64 \<Rightarrow> u64 \<Rightarrow> u64" where
  "ceil a b = (a + b - 1) div b"

definition shl1 :: "nat \<Rightarrow> u64 res" where
  "shl1 n = (if n < 64 then Ok (push_bit n 1) else Fault BadShift)"

definition hyperceil :: "u64 \<Rightarrow> u64 res" where
  "hyperceil a = (if a \<le> 1 then Ok 1 else shl1 (64 - builtin_clzl (a - 1)))"

definition lg_of_power_of_two :: "u64 \<Rightarrow> u32" where
  "lg_of_power_of_two a = of_nat (builtin_ctzl a)"

definition address_2_chunknumber :: "addr \<Rightarrow> chunknumber_t" where
  "address_2_chunknumber a = (let am = a div chunksize; result = am mod push_bit 27 1 in ucast result)"

definition address_2_chunkaddress :: "addr \<Rightarrow> addr" where
  "address_2_chunkaddress a = a AND NOT (chunksize - 1)"

definition offset_in_chunk :: "addr \<Rightarrow> u64" where
  "offset_in_chunk a = a mod chunksize"

definition pagenum_in_chunk :: "addr \<Rightarrow> u64" where
  "pagenum_in_chunk a = offset_in_chunk a div pagesize"

definition offset_in_page :: "addr \<Rightarrow> u64" where
  "offset_in_page a = a mod pagesize"

definition is_power_of_two :: "u64 \<Rightarrow> bool" where
  "is_power_of_two x \<longleftrightarrow> x AND (x - 1) = 0"

section \<open>generated_constants\<close>

definition Ki :: u64 where "Ki = 1024"

record static_bin_s =
  object_size :: u64
  folio_size :: u64
  objects_per_folio :: u16
  folios_per_chunk :: u16
  overhead_pages_per_chunk :: u8
  object_division_shift_magic :: u8
  folio_division_shift_magic :: u8
  object_division_multiply_magic :: u64
  folio_division_multiply_magic :: u64

definition bin_number_limit :: binnumber_t where "bin_number_limit = 74"
definition largest_small :: u64 where "largest_small = 14272"
definition offset_of_first_object_in_large_chunk :: u64 where "offset_of_first_object_in_large_chunk = 4096"
definition largest_large :: u64 where "largest_large = 1044480"
definition first_large_bin_number :: binnumber_t where "first_large_bin_number = 40"
definition first_huge_bin_number :: binnumber_t where "first_huge_bin_number = 47"

text \<open>One row of the table, its fields in the order of the initialiser.\<close>

definition static_bin :: "u64 \<Rightarrow> u64 \<Rightarrow> u16 \<Rightarrow> u16 \<Rightarrow> u8 \<Rightarrow> u8 \<Rightarrow> u8 \<Rightarrow> u64 \<Rightarrow> u64 \<Rightarrow> static_bin_s" where
  "static_bin os fs opf fpc ov osh fsh om fm = \<lparr>object_size = os, folio_size = fs, objects_per_folio = opf, folios_per_chunk = fpc,
     overhead_pages_per_chunk = ov, object_division_shift_magic = osh, folio_division_shift_magic = fsh,
     object_division_multiply_magic = om, folio_division_multiply_magic = fm\<rparr>"

definition static_bin_info :: "static_bin_s list" where
  "static_bin_info = [
     static_bin 8 (4 * Ki) 512 472 40 3 12 1 1,
     static_bin 10 (20 * Ki) 2048 100 8 36 47 6871947674 6871947674,
     static_bin 12 (12 * Ki) 1024 166 14 36 46 5726623062 5726623062,
     static_bin 14 (28 * Ki) 2048 72 6 36 47 4908534053 4908534053,
     static_bin 16 (4 * Ki) 256 472 40 4 12 1 1,
     static_bin 20 (20 * Ki) 1024 100 8 37 47 6871947674 6871947674,
     static_bin 24 (12 * Ki) 512 166 14 37 46 5726623062 5726623062,
     static_bin 28 (28 * Ki) 1024 72 6 37 47 4908534053 4908534053,
     static_bin 32 (4 * Ki) 128 472 40 5 12 1 1,
     static_bin 40 (20 * Ki) 512 100 8 38 47 6871947674 6871947674,
     static_bin 48 (12 * Ki) 256 166 14 38 46 5726623062 5726623062,
     static_bin 56 (28 * Ki) 512 72 6 38 47 4908534053 4908534053,
     static_bin 64 (4 * Ki) 64 472 40 6 12 1 1,
     static_bin 80 (20 * Ki) 256 100 8 39 47 6871947674 6871947674,
     static_bin 96 (12 * Ki) 128 166 14 39 46 5726623062 5726623062,
     static_bin 112 (28 * Ki) 256 72 6 39 47 4908534053 4908534053,
     static_bin 128 (4 * Ki) 32 472 40 7 12 1 1,
     static_bin 160 (20 * Ki) 128 100 8 40 47 6871947674 6871947674,
     static_bin 192 (12 * Ki) 64 166 14 40 46 5726623062 5726623062,
     static_bin 224 (28 * Ki) 128 72 6 40 47 4908534053 4908534053,
     static_bin 256 (4 * Ki) 16 472 40 8 12 1 1,
     static_bin 320 (20 * Ki) 64 100 8 41 47 6871947674 6871947674,
     static_bin 448 (28 * Ki) 64 72 6 41 47 4908534053 4908534053,
     static_bin 512 (4 * Ki) 8 472 40 9 12 1 1,
     static_bin 576 (36 * Ki) 64 56 5 42 48 7635497416 7635497416,
     static_bin 704 (44 * Ki) 64 46 4 42 48 6247225158 6247225158,
     static_bin 960 (60 * Ki) 64 33 3 42 48 4581298450 4581298450,
     static_bin 1024 (4 * Ki) 4 472 40 10 12 1 1,
     static_bin 1216 (76 * Ki) 64 26 3 43 49 7233629131 7233629131,
     static_bin 1472 (92 * Ki) 64 22 2 43 49 5975606673 5975606673,
     static_bin 1984 (124 * Ki) 64 16 2 43 49 4433514629 4433514629,
     static_bin (2 * Ki) (4 * Ki) 2 472 40 11 12 1 1,
     static_bin 2752 (172 * Ki) 64 11 1 44 50 6392509464 6392509464,
     static_bin 3904 (244 * Ki) 64 8 1 44 50 4506195196 4506195196,
     static_bin (4 * Ki) (4 * Ki) 1 472 40 12 12 1 1,
     static_bin 5312 (332 * Ki) 64 6 1 45 51 6623564023 6623564023,
     static_bin 7232 (452 * Ki) 64 4 1 45 51 4865095699 4865095699,
     static_bin (8 * Ki) (8 * Ki) 1 246 20 13 13 1 1,
     static_bin 10048 (628 * Ki) 64 3 1 46 52 7003258776 7003258776,
     static_bin 14272 (892 * Ki) 64 2 1 46 52 4930545417 4930545417,
     static_bin (16 * Ki) (16 * Ki) 1 127 1 14 14 1 1,
     static_bin (32 * Ki) (32 * Ki) 1 63 1 15 15 1 1,
     static_bin (64 * Ki) (64 * Ki) 1 31 1 16 16 1 1,
     static_bin (128 * Ki) (128 * Ki) 1 15 1 17 17 1 1,
     static_bin (252 * Ki) (252 * Ki) 1 8 1 50 50 4363141381 4363141381,
     static_bin (508 * Ki) (508 * Ki) 1 4 1 51 51 4328785937 4328785937,
     static_bin (1020 * Ki) (1020 * Ki) 1 2 1 52 52 4311810306 4311810306,
     static_bin (push_bit 21 1) (push_bit 21 1) 1 1 0 21 21 1 1,
     static_bin (push_bit 22 1) (push_bit 22 1) 1 1 0 1 1 1 1,
     static_bin (push_bit 23 1) (push_bit 23 1) 1 1 0 1 1 1 1,
     static_bin (push_bit 24 1) (push_bit 24 1) 1 1 0 1 1 1 1,
     static_bin (push_bit 25 1) (push_bit 25 1) 1 1 0 1 1 1 1,
     static_bin (push_bit 26 1) (push_bit 26 1) 1 1 0 1 1 1 1,
     static_bin (push_bit 27 1) (push_bit 27 1) 1 1 0 1 1 1 1,
     static_bin (push_bit 28 1) (push_bit 28 1) 1 1 0 1 1 1 1,
     static_bin (push_bit 29 1) (push_bit 29 1) 1 1 0 1 1 1 1,
     static_bin (push_bit 30 1) (push_bit 30 1) 1 1 0 1 1 1 1,
     static_bin (push_bit 31 1) (push_bit 31 1) 1 1 0 1 1 1 1,
     static_bin (push_bit 32 1) (push_bit 32 1) 1 1 0 1 1 1 1,
     static_bin (push_bit 33 1) (push_bit 33 1) 1 1 0 1 1 1 1,
     static_bin (push_bit 34 1) (push_bit 34 1) 1 1 0 1 1 1 1,
     static_bin (push_bit 35 1) (push_bit 35 1) 1 1 0 1 1 1 1,
     static_bin (push_bit 36 1) (push_bit 36 1) 1 1 0 1 1 1 1,
     static_bin (push_bit 37 1) (push_bit 37 1) 1 1 0 1 1 1 1,
     static_bin (push_bit 38 1) (push_bit 38 1) 1 1 0 1 1 1 1,
     static_bin (push_bit 39 1) (push_bit 39 1) 1 1 0 1 1 1 1,
     static_bin (push_bit 40 1) (push_bit 40 1) 1 1 0 1 1 1 1,
     static_bin (push_bit 41 1) (push_bit 41 1) 1 1 0 1 1 1 1,
     static_bin (push_bit 42 1) (push_bit 42 1) 1 1 0 1 1 1 1,
     static_bin (push_bit 43 1) (push_bit 43 1) 1 1 0 1 1 1 1,
     static_bin (push_bit 44 1) (push_bit 44 1) 1 1 0 1 1 1 1,
     static_bin (push_bit 45 1) (push_bit 45 1) 1 1 0 1 1 1 1,
     static_bin (push_bit 46 1) (push_bit 46 1) 1 1 0 1 1 1 1,
     static_bin (push_bit 47 1) (push_bit 47 1) 1 1 0 1 1 1 1]"

text \<open>\<open>static_bin_info[bin]\<close>\<close>

definition bin_info :: "binnumber_t \<Rightarrow> (static_bin_s \<Rightarrow> 'a res) \<Rightarrow> 'a res" where
  "bin_info bin k = (if unat bin < length static_bin_info then k (static_bin_info ! unat bin) else Fault BadDeref)"

text \<open>The sizes of the arrays \<open>b0\<close>, ..., \<open>b39\<close> of \<open>dynamic_small_bin_info\<close>, and of the array \<open>b\<close> that overlays them.\<close>

definition dynamic_small_bin_info :: "nat list" where
  "dynamic_small_bin_info = [
     514, 2050, 1026, 2050, 258, 1026, 514, 1026, 130, 514, 258, 514, 66, 258, 130, 258, 34, 130, 66, 130,
     18, 66, 66, 10, 66, 66, 66, 6, 66, 66, 66, 4, 66, 66, 3, 66, 66, 3, 66, 66]"

definition dynamic_small_bin_info_b :: nat where
  "dynamic_small_bin_info_b = 11920"

text \<open>The two implementations of \<open>dynamic_small_bin_offset\<close>: a switch, compiled out by \<open>if (0)\<close>, and an array.\<close>

definition dynamic_small_bin_switch :: "binnumber_t \<Rightarrow> u32 res" where
  "dynamic_small_bin_switch bin =
     (if bin = 0 then Ok 0
      else if bin = 1 then Ok 514
      else if bin = 2 then Ok 2564
      else if bin = 3 then Ok 3590
      else if bin = 4 then Ok 5640
      else if bin = 5 then Ok 5898
      else if bin = 6 then Ok 6924
      else if bin = 7 then Ok 7438
      else if bin = 8 then Ok 8464
      else if bin = 9 then Ok 8594
      else if bin = 10 then Ok 9108
      else if bin = 11 then Ok 9366
      else if bin = 12 then Ok 9880
      else if bin = 13 then Ok 9946
      else if bin = 14 then Ok 10204
      else if bin = 15 then Ok 10334
      else if bin = 16 then Ok 10592
      else if bin = 17 then Ok 10626
      else if bin = 18 then Ok 10756
      else if bin = 19 then Ok 10822
      else if bin = 20 then Ok 10952
      else if bin = 21 then Ok 10970
      else if bin = 22 then Ok 11036
      else if bin = 23 then Ok 11102
      else if bin = 24 then Ok 11112
      else if bin = 25 then Ok 11178
      else if bin = 26 then Ok 11244
      else if bin = 27 then Ok 11310
      else if bin = 28 then Ok 11316
      else if bin = 29 then Ok 11382
      else if bin = 30 then Ok 11448
      else if bin = 31 then Ok 11514
      else if bin = 32 then Ok 11518
      else if bin = 33 then Ok 11584
      else if bin = 34 then Ok 11650
      else if bin = 35 then Ok 11653
      else if bin = 36 then Ok 11719
      else if bin = 37 then Ok 11785
      else if bin = 38 then Ok 11788
      else if bin = 39 then Ok 11854
      else Fault AssertFail)"

definition dynamic_small_bin_offs :: "u32 list" where
  "dynamic_small_bin_offs = [
     0, 514, 2564, 3590, 5640, 5898, 6924, 7438, 8464, 8594, 9108, 9366, 9880, 9946, 10204, 10334, 10592,
     10626, 10756, 10822, 10952, 10970, 11036, 11102, 11112, 11178, 11244, 11310, 11316, 11382, 11448, 11514,
     11518, 11584, 11650, 11653, 11719, 11785, 11788, 11854]"

definition dynamic_small_bin_offset :: "binnumber_t \<Rightarrow> u32 res" where
  "dynamic_small_bin_offset bin =
     (if (0 :: u32) \<noteq> 0 then dynamic_small_bin_switch bin
      else if unat bin < length dynamic_small_bin_offs then Ok (dynamic_small_bin_offs ! unat bin) else Fault BadDeref)"

definition size_2_bin :: "u64 \<Rightarrow> binnumber_t res" where
  "size_2_bin sz =
     (if sz \<le> 8 then Ok 0
      else if sz \<le> 320 then
        let nzeros = builtin_clzl sz;
            roundup = sz + push_bit (61 - nzeros) 1 - 1;
            nzeros2 = builtin_clzl roundup
        in Ok (ucast (of_nat (4 * (60 - nzeros2)) + (drop_bit (61 - nzeros2) roundup AND 3)))
      else if sz \<le> 448 then Ok 22
      else if sz \<le> 512 then Ok 23
      else if sz \<le> 576 then Ok 24
      else if sz \<le> 704 then Ok 25
      else if sz \<le> 960 then Ok 26
      else if sz \<le> 1024 then Ok 27
      else if sz \<le> 1216 then Ok 28
      else if sz \<le> 1472 then Ok 29
      else if sz \<le> 1984 then Ok 30
      else if sz \<le> 2048 then Ok 31
      else if sz \<le> 2752 then Ok 32
      else if sz \<le> 3904 then Ok 33
      else if sz \<le> 4096 then Ok 34
      else if sz \<le> 5312 then Ok 35
      else if sz \<le> 7232 then Ok 36
      else if sz \<le> 8192 then Ok 37
      else if sz \<le> 10048 then Ok 38
      else if sz \<le> 14272 then Ok 39
      else if sz \<le> 16384 then Ok 40
      else if sz \<le> 32768 then Ok 41
      else if sz \<le> 65536 then Ok 42
      else if sz \<le> 131072 then Ok 43
      else if sz \<le> 258048 then Ok 44
      else if sz \<le> 520192 then Ok 45
      else if sz \<le> 1044480 then Ok 46
      else if sz \<le> 2097152 then Ok 47
      else call (hyperceil sz) (\<lambda>c. Ok (ucast (47 + ucast (lg_of_power_of_two c) - log_chunksize))))"

definition bin_2_size :: "binnumber_t \<Rightarrow> u64 res" where
  "bin_2_size bin = c_assert (bin < bin_number_limit) (bin_info bin (\<lambda>s. Ok (object_size s)))"

definition divide_offset_by_objsize :: "u32 \<Rightarrow> binnumber_t \<Rightarrow> u32 res" where
  "divide_offset_by_objsize off bin = bin_info bin (\<lambda>s.
     Ok (ucast (drop_bit (unat (object_division_shift_magic s)) (ucast off * object_division_multiply_magic s))))"

definition divide_offset_by_foliosize :: "u32 \<Rightarrow> binnumber_t \<Rightarrow> u32 res" where
  "divide_offset_by_foliosize off bin = bin_info bin (\<lambda>s.
     Ok (ucast (drop_bit (unat (folio_division_shift_magic s)) (ucast off * folio_division_multiply_magic s))))"

section \<open>malloc.cpp: the bin of a chunk and the base of an object\<close>

definition bin_and_size_to_bin_and_size :: "binnumber_t \<Rightarrow> u64 \<Rightarrow> bin_and_size_t res" where
  "bin_and_size_to_bin_and_size bin sz =
     c_assert (bin < 127)
       (let n_pages = ucast (ceil sz pagesize) :: u32 in
        if n_pages < push_bit 24 1 then Ok (1 + bin + push_bit 7 1 + push_bit 8 n_pages)
        else Ok (ucast (ucast (1 + bin) + push_bit 8 (ceil sz chunksize))))"

definition object_base :: "chunk_infos \<Rightarrow> addr \<Rightarrow> addr res" where
  "object_base infos p =
     (let cn = address_2_chunknumber p; b_and_s = infos cn in
      c_assert (b_and_s \<noteq> 0)
        (call (bin_from_bin_and_size b_and_s) (\<lambda>bin.
         if bin \<ge> first_huge_bin_number then Ok (address_2_chunkaddress p)
         else bin_info bin (\<lambda>s.
           let wasted_offset = ucast (overhead_pages_per_chunk s) * pagesize in
           c_assert (offset_in_chunk p \<ge> wasted_offset)
             (let useful_offset = offset_in_chunk p - wasted_offset in
              call (divide_offset_by_foliosize (ucast useful_offset) bin) (\<lambda>folio_number.
              let folio_mul = ucast folio_number * folio_size s;
                  offset_in_folio = ucast (useful_offset - folio_mul) :: u32 in
              call (divide_offset_by_objsize offset_in_folio bin) (\<lambda>object_number.
              Ok (ucast cn * chunksize + wasted_offset + folio_mul + ucast object_number * object_size s))))))))"

definition malloc_usable_size :: "chunk_infos \<Rightarrow> addr \<Rightarrow> u64 res" where
  "malloc_usable_size infos p =
     (let cn = address_2_chunknumber p; b_and_s = infos cn in
      c_assert (b_and_s \<noteq> 0)
        (call (bin_from_bin_and_size b_and_s) (\<lambda>bin.
         call (object_base infos p) (\<lambda>base.
         c_assert (address_2_chunknumber base = cn)
           (call (bin_2_size bin) (\<lambda>base_size.
            c_assert (base \<le> p)
              (c_assert (sint base_size \<ge> sint (p - base))
                 (Ok (base_size - (p - base))))))))))"

section \<open>The table\<close>

lemma chunksize_value: "chunksize = 2097152"
  by (simp add: chunksize_def log_chunksize_def)

text \<open>What a row of the table must satisfy for the layout of a chunk to make sense.\<close>

definition row_ok :: "static_bin_s \<Rightarrow> bool" where
  "row_ok s \<longleftrightarrow>
     0 < unat (object_size s) \<and> 0 < unat (folio_size s) \<and>
     unat (objects_per_folio s) * unat (object_size s) \<le> unat (folio_size s) \<and>
     unat (overhead_pages_per_chunk s) * unat pagesize + unat (folios_per_chunk s) * unat (folio_size s) \<le> unat chunksize"

definition headers_ok :: "static_bin_s \<Rightarrow> bool" where
  "headers_ok s \<longleftrightarrow> unat (folios_per_chunk s) * sizeof_per_folio \<le> unat (overhead_pages_per_chunk s) * unat pagesize \<and>
     unat (objects_per_folio s) \<le> unat max_objects_per_folio \<and> unat (folios_per_chunk s) \<le> 512"

definition magic_ok :: "u64 \<Rightarrow> u64 \<Rightarrow> u8 \<Rightarrow> bool" where
  "magic_ok d k sh \<longleftrightarrow> 0 < unat d \<and> unat sh < 64 \<and> unat k < 2 ^ 33 \<and> 2 ^ unat sh \<le> unat d * unat k \<and>
     (unat d * unat k - 2 ^ unat sh) * 2 ^ 21 \<le> 2 ^ unat sh"

lemmas table_eval = static_bin_info_def static_bin_def Ki_def pagesize_def chunksize_value max_objects_per_folio_def
  folio_bitmap_n_words_def sizeof_per_folio_def row_ok_def headers_ok_def magic_ok_def

lemma rows_ok: "list_all row_ok (take 47 static_bin_info)"
  by (simp add: table_eval)

lemma headers_ok: "list_all headers_ok (take 40 static_bin_info)"
  by (simp add: table_eval)

lemma magics_ok:
  "list_all (\<lambda>s. magic_ok (object_size s) (object_division_multiply_magic s) (object_division_shift_magic s)) (take 48 static_bin_info)"
  "list_all (\<lambda>s. magic_ok (folio_size s) (folio_division_multiply_magic s) (folio_division_shift_magic s)) (take 48 static_bin_info)"
  by (simp_all add: table_eval)

lemma static_sizes: "map object_size static_bin_info = [8, 10, 12, 14, 16, 20, 24, 28, 32, 40, 48, 56, 64, 80, 96, 112, 128, 160, 192, 224, 256,
   320, 448, 512, 576, 704, 960, 1024, 1216, 1472, 1984, 2048, 2752, 3904, 4096, 5312, 7232, 8192, 10048, 14272,
   16384, 32768, 65536, 131072, 258048, 520192, 1044480] @ map (\<lambda>i. push_bit i 1) [21..<48]"
  by (simp add: table_eval upt_rec)

lemma sizes_sorted: "sorted_wrt (<) (map object_size static_bin_info)"
proof -
  have "list_all (\<lambda>(a, b). a < b) (zip (map object_size static_bin_info) (tl (map object_size static_bin_info)))"
    unfolding static_sizes by (simp add: upt_rec)
  then have "map object_size static_bin_info ! i < map object_size static_bin_info ! Suc i"
    if "Suc i < length (map object_size static_bin_info)" for i
    using that unfolding list_all_length by (simp add: nth_tl)
  then show ?thesis unfolding sorted_wrt_iff_nth_Suc_transp [OF transp_on_less] by blast
qed

section \<open>Counting zeros\<close>

lemma clz_bits:
  fixes x :: "'a :: len word"
  defines "l n \<equiv> length (takeWhile (\<lambda>i. \<not> bit x i) (rev [0..<n]))"
  shows "l n \<le> n \<and> (\<forall>i. n - l n \<le> i \<longrightarrow> i < n \<longrightarrow> \<not> bit x i) \<and> (l n < n \<longrightarrow> bit x (n - l n - 1))"
proof (induction n)
  case (Suc n)
  show ?case
  proof (cases "bit x n")
    case False
    then have "l (Suc n) = Suc (l n)" by (simp add: l_def)
    moreover have "\<not> bit x i" if "n - l n \<le> i" "i < Suc n" for i using that Suc False by (cases "i = n") auto
    ultimately show ?thesis using Suc by auto
  qed (simp add: l_def)
qed (simp add: l_def)

lemma clzl_eq:
  assumes lo: "2 ^ k \<le> unat x" and hi: "unat x < 2 ^ Suc k" and k: "k < 64"
  shows "builtin_clzl x = 63 - k"
proof -
  let ?l = "builtin_clzl x"
  have l: "?l \<le> 64" "\<And>i. 64 - ?l \<le> i \<Longrightarrow> i < 64 \<Longrightarrow> \<not> bit x i" "?l < 64 \<Longrightarrow> bit x (64 - ?l - 1)"
    using clz_bits [of x 64] unfolding builtin_clzl_def by blast+
  have b: "bit x i \<longleftrightarrow> bit (unat x) i" for i by (simp add: bit_unsigned_iff)
  have above: "\<not> bit x i" if "k < i" for i
  proof -
    have "unat x < 2 ^ i" using hi that by (meson Suc_leI less_le_trans one_le_numeral power_increasing)
    then show ?thesis unfolding b by (simp add: bit_iff_odd)
  qed
  have "unat x div 2 ^ k = 1" using lo hi by (simp add: div_nat_eqI)
  then have "bit x k" unfolding b by (simp add: bit_iff_odd)
  then have "k < 64 - ?l" using l(2) [of k] k by linarith
  moreover have "64 - ?l - 1 \<le> k" using l(3) above [of "64 - ?l - 1"] \<open>k < 64 - ?l\<close> by linarith
  ultimately show ?thesis using l(1) by linarith
qed

lemma log_ex:
  assumes "0 < (n :: nat)"
  shows "\<exists>k. 2 ^ k \<le> n \<and> n < 2 ^ Suc k"
  using ex_power_ivl1 [of 2 n] assms by (simp add: Suc_le_eq)

lemma hyperceil_eq:
  assumes "2 ^ k < unat a" "unat a \<le> 2 ^ Suc k" "k < 63"
  shows "hyperceil a = Ok (2 ^ Suc k)"
proof -
  have "(1 :: nat) \<le> 2 ^ k" by simp
  then have "1 < unat a" using assms(1) by linarith
  then have "a \<noteq> 0" by auto
  then have a: "\<not> a \<le> 1" "unat (a - 1) = unat a - 1" using \<open>1 < unat a\<close> by (auto simp: word_le_nat_alt unat_minus_one)
  then have "builtin_clzl (a - 1) = 63 - k" using assms by (intro clzl_eq) auto
  then show ?thesis using a(1) assms(3) by (simp add: hyperceil_def shl1_def Suc_diff_Suc)
qed

lemma ctz_power:
  assumes "k < n" "\<And>i. i < n \<Longrightarrow> P i \<longleftrightarrow> i \<noteq> k"
  shows "takeWhile P [0..<n] = [0..<k]"
proof -
  have "[0..<n] = [0..<k] @ [k..<n]" using upt_add_eq_append [of 0 k "n - k"] assms(1) by simp
  also have "[k..<n] = k # [Suc k..<n]" using assms(1) by (simp add: upt_conv_Cons)
  finally show ?thesis using assms by (simp only:) (subst takeWhile_append2, auto)
qed

lemma ctzl_power:
  assumes "k < 64"
  shows "builtin_ctzl (2 ^ k) = k"
proof -
  have "takeWhile (\<lambda>i. \<not> bit (2 ^ k :: u64) i) [0..<64] = [0..<k]"
    using assms by (rule ctz_power) (auto simp: bit_exp_iff)
  then show ?thesis unfolding builtin_ctzl_def by (simp only: length_upt)
qed

lemma lg_power: "k < 64 \<Longrightarrow> lg_of_power_of_two (2 ^ k) = of_nat k"
  by (simp add: lg_of_power_of_two_def ctzl_power)

section \<open>From a size to a bin\<close>

abbreviation bin_size :: "nat \<Rightarrow> u64" where
  "bin_size b \<equiv> object_size (static_bin_info ! b)"

text \<open>\<open>b\<close> is the first bin whose objects have room for \<open>s\<close> bytes.\<close>

definition first_fit :: "u64 \<Rightarrow> nat \<Rightarrow> bool" where
  "first_fit s b \<longleftrightarrow> b < length static_bin_info \<and> s \<le> bin_size b \<and> (\<forall>c<b. bin_size c < s)"

lemma length_info: "length static_bin_info = 74"
  using arg_cong [OF static_sizes, of length] by simp

lemma first_fitI:
  assumes "b < 74" "s \<le> bin_size b" "0 < b \<Longrightarrow> bin_size (b - 1) < s"
  shows "first_fit s b"
proof -
  have "bin_size c < s" if "c < b" for c
  proof -
    have "bin_size c \<le> bin_size (b - 1)"
      using sizes_sorted that assms(1) by (cases "c = b - 1") (auto simp: sorted_wrt_iff_nth_less length_info less_imp_le)
    then show ?thesis using assms(3) that by (meson le_less_trans le_less_trans [OF le0])
  qed
  then show ?thesis using assms by (simp add: first_fit_def length_info)
qed

lemma bin_sizeE: "b < 74 \<Longrightarrow> bin_size b = map object_size static_bin_info ! b"
  by (simp add: length_info)

lemma first_fit_tab:
  assumes "b < 74" "s \<le> map object_size static_bin_info ! b" "0 < b \<Longrightarrow> map object_size static_bin_info ! (b - 1) < s"
  shows "first_fit s b"
  using assms by (intro first_fitI) (auto simp: length_info)

lemma unat_small: "n < 2 ^ 32 \<Longrightarrow> unat (of_nat n :: u32) = n" "n < 2 ^ 64 \<Longrightarrow> unat (of_nat n :: u64) = n"
  by (simp_all add: unat_of_nat)

lemma power_unat:
  assumes "k < 64"
  shows "unat (2 ^ k :: u64) = 2 ^ k"
proof -
  have "(2 :: nat) ^ k < 2 ^ 64" using assms by (intro power_strict_increasing) auto
  then show ?thesis using unat_small(2) [of "2 ^ k"] by simp
qed

lemma ucast_small: "n < 2 ^ 32 \<Longrightarrow> ucast (of_nat n :: u32) = (of_nat n :: u64)" "n < 2 ^ 32 \<Longrightarrow> ucast (of_nat n :: u64) = (of_nat n :: u32)"
  by (subst of_nat_unat [symmetric], simp add: unat_small)+

definition fits :: "u64 \<Rightarrow> u32 res \<Rightarrow> bool" where
  "fits s r \<longleftrightarrow> (\<exists>b. r = Ok b \<and> first_fit s (unat b))"

lemma fits_if: "(c \<Longrightarrow> fits s a) \<Longrightarrow> (\<not> c \<Longrightarrow> fits s b) \<Longrightarrow> fits s (if c then a else b)"
  by simp

lemma fits_Ok:
  assumes "b < 74" "s \<le> map object_size static_bin_info ! unat b" "\<not> s \<le> map object_size static_bin_info ! (unat b - 1)"
  shows "fits s (Ok b)"
  using assms by (auto simp: fits_def word_less_nat_alt not_le intro: first_fit_tab)

lemma huge_sizes:
  assumes "47 \<le> b" "b < 74"
  shows "map object_size static_bin_info ! b = 2 ^ (b - 26)"
proof -
  obtain xs where xs: "map object_size static_bin_info = xs @ map (\<lambda>i. push_bit i 1) [21..<48]" "length xs = 47"
    by (rule that [OF static_sizes]) simp
  then have "map object_size static_bin_info ! b = map (\<lambda>i. push_bit i 1) [21..<48] ! (b - 47)"
    using assms(1) by (simp only: nth_append) simp
  also have "\<dots> = push_bit (21 + (b - 47)) 1" using assms by (intro nth_map_upt) linarith
  also have "\<dots> = 2 ^ (b - 26)" using assms(1) by (simp add: push_bit_of_1)
  finally show ?thesis .
qed

lemma huge_bin:
  assumes "2097152 < s" "s \<le> 2 ^ 47"
  shows "fits s (size_2_bin s)"
proof -
  have no: "(s \<le> c) = False" if "c \<le> 2097152" for c using assms(1) that by simp
  have n: "2 ^ 21 < unat s" "unat s \<le> 2 ^ 47" using assms by (auto simp: word_less_nat_alt word_le_nat_alt)
  obtain k where k: "2 ^ k \<le> unat s - 1" "unat s - 1 < 2 ^ Suc k" using log_ex [of "unat s - 1"] n by auto
  have "(2 :: nat) ^ 21 < 2 ^ Suc k" "(2 :: nat) ^ k < 2 ^ 47" using n k by linarith+
  then have kb: "21 \<le> k" "k < 47" using power_less_imp_less_exp [of "2 :: nat" 21 "Suc k"] power_less_imp_less_exp [of "2 :: nat" k 47] by auto
  have h: "hyperceil s = Ok (2 ^ Suc k)" using k n kb by (intro hyperceil_eq) auto
  have lg: "lg_of_power_of_two (2 ^ Suc k) = of_nat (Suc k)" using kb by (intro lg_power) simp
  have "ucast (of_nat (Suc k) :: u32) = (of_nat (Suc k) :: u64)" using kb by (intro ucast_small) simp
  moreover have "ucast (47 + of_nat (Suc k) - 21 :: u64) = (of_nat (k + 27) :: u32)"
  proof -
    have "47 + of_nat (Suc k) - 21 = (of_nat (k + 27) :: u64)" by simp
    moreover have "ucast (of_nat (k + 27) :: u64) = (of_nat (k + 27) :: u32)"
      using kb by (intro ucast_small) simp
    ultimately show ?thesis by (simp only:)
  qed
  ultimately have "size_2_bin s = Ok (of_nat (k + 27))"
    unfolding size_2_bin_def by (simp add: no h lg log_chunksize_def del: power_Suc of_nat_Suc of_nat_add)
  moreover have "first_fit s (k + 27)"
  proof (rule first_fit_tab)
    have p: "unat (2 ^ Suc k :: u64) = 2 ^ Suc k" "unat (2 ^ k :: u64) = 2 ^ k"
      using kb power_unat [of k] power_unat [of "Suc k"] by auto
    have "map object_size static_bin_info ! (k + 27) = 2 ^ Suc k" "map object_size static_bin_info ! (k + 27 - 1) = 2 ^ k"
      using huge_sizes [of "k + 27"] huge_sizes [of "26 + k"] kb by simp_all
    note t = this
    show "s \<le> map object_size static_bin_info ! (k + 27)" unfolding word_le_nat_alt t p using k n by linarith
    show "map object_size static_bin_info ! (k + 27 - 1) < s" unfolding word_less_nat_alt t p using k n by linarith
  qed (use kb in simp)
  moreover have "unat (of_nat (k + 27) :: u32) = k + 27" using kb by (intro unat_small) simp
  ultimately show ?thesis by (simp add: fits_def del: of_nat_add)
qed


lemma mid_bin:
  assumes "320 < s" "s \<le> 2097152"
  shows "fits s (size_2_bin s)"
proof -
  have no: "(s \<le> c) = False" if "c \<le> 320" for c using assms(1) that by simp
  have gt: "\<not> s \<le> 320" using assms(1) by simp
  show ?thesis
    unfolding size_2_bin_def if_P [OF assms(2)]
    by (simp only: no [of 8, simplified] gt if_False simp_thms) (intro fits_if fits_Ok; simp add: static_sizes gt assms(2))
qed


section \<open>The bit hacking for sizes up to 320\<close>

lemma unat_and3: "unat (x AND 3 :: u64) = unat x mod 4"
proof -
  have "x AND 3 = take_bit 2 x" by (simp add: take_bit_eq_mask mask_eq_exp_minus_1)
  then have "unat (x AND 3) = take_bit 2 (unat x)" by (simp only: unsigned_take_bit_eq)
  then show ?thesis by (simp add: take_bit_eq_mod)
qed

lemma unat_drop: "unat (drop_bit n x :: u64) = unat x div 2 ^ n"
  by (rule trans [OF _ drop_bit_eq_div]) (simp only: unat_drop_bit_eq)

lemma small_bin:
  assumes k: "k \<in> {3, 4, 5, 6, 7, 8}" and s: "2 ^ k \<le> unat s" "unat s < 2 ^ Suc k" "8 < unat s" "unat s \<le> 320"
  shows "size_2_bin s = Ok (of_nat (4 * (k - 3) + ((unat s + 2 ^ (k - 2) - 1) div 2 ^ (k - 2) - 4)))"
proof -
  define r where "r = s + push_bit (k - 2) 1 - 1"
  let ?R = "unat s + 2 ^ (k - 2) - 1"
  have z: "builtin_clzl s = 63 - k" using s k by (intro clzl_eq) auto
  have r: "unat r = ?R"
  proof -
    have "of_nat ?R = (of_nat (unat s) + 2 ^ (k - 2) - 1 :: u64)" using s(3) by (subst of_nat_diff) (linarith, simp)
    then have "r = of_nat ?R" by (simp add: r_def push_bit_of_1)
    moreover have "?R < 2 ^ 64" using s k by auto
    ultimately show ?thesis by (simp only: unat_small)
  qed
  have "\<not> s \<le> 8" "s \<le> 320" using s by (auto simp: word_le_nat_alt)
  then have run: "size_2_bin s = Ok (ucast (of_nat (4 * (60 - builtin_clzl r)) + (drop_bit (61 - builtin_clzl r) r AND 3)))"
    using k unfolding size_2_bin_def by (auto simp: z r_def Let_def)
  define j where "j = (if ?R < 2 ^ Suc k then k else Suc k)"
  have z2: "builtin_clzl r = 63 - j" unfolding j_def using s k r by (intro clzl_eq) (auto split: if_splits)
  have "drop_bit (j - 2) r AND 3 = of_nat (?R div 2 ^ (j - 2) mod 4)"
    by (metis of_nat_unat r ucast_id unat_and3 unat_drop)
  moreover have "60 - (63 - j) = j - 3" "61 - (63 - j) = j - 2" using k unfolding j_def by auto
  ultimately have "size_2_bin s = Ok (ucast (of_nat (4 * (j - 3) + ?R div 2 ^ (j - 2) mod 4) :: u64))"
    unfolding run z2 by (simp only: of_nat_add)
  also have "\<dots> = Ok (of_nat (4 * (j - 3) + ?R div 2 ^ (j - 2) mod 4))"
    using k by (subst ucast_small) (auto simp: j_def intro: le_less_trans)
  also have "4 * (j - 3) + ?R div 2 ^ (j - 2) mod 4 = 4 * (k - 3) + (?R div 2 ^ (k - 2) - 4)"
  proof -
    define d :: nat where "d = 2 ^ (k - 2)"
    have d: "0 < d" "2 ^ k = 4 * d" "2 ^ (k - 1) = 2 * d" using k by (auto simp: d_def)
    define R where "R = ?R"
    have R: "4 * d \<le> R" "R < 9 * d" using s d unfolding R_def d_def [symmetric] by auto
    have "4 * (j - 3) + R div 2 ^ (j - 2) mod 4 = 4 * (k - 3) + (R div d - 4)"
    proof (cases "R < 8 * d")
      case True
      then have j: "j = k" using d(2) by (simp add: j_def R_def)
      have "4 \<le> R div d" "R div d < 8" using R True d(1) by (auto simp: less_eq_div_iff_mult_less_eq div_less_iff_less_mult)
      then have "R div d mod 4 = R div d - 4" by (metis add_diff_inverse_nat le_iff_add mod_add_self1 mod_less nat_add_left_cancel_less not_less numeral_Bit0)
      then show ?thesis by (simp add: j d_def)
    next
      case False
      then have j: "j = Suc k" using d(2) by (simp add: j_def R_def)
      have "R div (2 * d) = 4" "R div d = 8" using R False by (auto intro!: div_nat_eqI)
      moreover have "2 ^ (Suc k - 2) = 2 * d" "Suc k - 3 = Suc (k - 3)" using k d(3) by auto
      ultimately show ?thesis by (simp only: j) simp
    qed
    then show ?thesis by (simp only: R_def d_def)
  qed
  finally show ?thesis .
qed

lemma small_table:
  assumes "k \<in> {3, 4, 5, 6, 7, 8}" "q \<in> {4, 5, 6, 7, 8}" "k = 8 \<Longrightarrow> q \<le> 5"
  shows "unat (map object_size static_bin_info ! (4 * (k - 3) + (q - 4))) = q * 2 ^ (k - 2)"
proof -
  have "4 * (k - 3) + (q - 4) < 22" using assms by auto
  then have "map object_size static_bin_info ! (4 * (k - 3) + (q - 4)) =
    [8, 10, 12, 14, 16, 20, 24, 28, 32, 40, 48, 56, 64, 80, 96, 112, 128, 160, 192, 224, 256, 320] ! (4 * (k - 3) + (q - 4))"
    unfolding static_sizes by (subst nth_take [symmetric, where n = 22]) (assumption, simp)
  then show ?thesis using assms by (elim insertE emptyE) simp_all
qed

lemma low_bin:
  assumes "8 < s" "s \<le> 320"
  shows "fits s (size_2_bin s)"
proof -
  define n where "n = unat s"
  have n: "8 < n" "n \<le> 320" using assms by (auto simp: n_def word_less_nat_alt word_le_nat_alt)
  obtain k where lo: "2 ^ k \<le> n" and hi: "n < 2 ^ Suc k" using log_ex [of n] n by auto
  have "(2 :: nat) ^ 3 < 2 ^ Suc k" "(2 :: nat) ^ k < 2 ^ 9" using n lo hi by auto
  then have kk: "3 \<le> k" "k < 9"
    using power_less_imp_less_exp [of "2 :: nat" 3 "Suc k"] power_less_imp_less_exp [of "2 :: nat" k 9] by auto
  then have k: "k \<in> {3, 4, 5, 6, 7, 8}" by auto
  define d :: nat where "d = 2 ^ (k - 2)"
  have d: "0 < d" "2 ^ k = 4 * d" using k by (auto simp: d_def)
  define q where "q = (n + d - 1) div d"
  have up: "n \<le> q * d" "(q - 1) * d < n"
  proof -
    have "n + d - 1 = q * d + (n + d - 1) mod d" "(n + d - 1) mod d < d" unfolding q_def using d(1) by simp_all
    moreover have "(q - 1) * d = q * d - d" by (simp add: diff_mult_distrib)
    ultimately show "n \<le> q * d" "(q - 1) * d < n" using d(1) n(1) by linarith+
  qed
  have "4 * d \<le> n" "n < 8 * d" using lo hi d(2) by auto
  then have "4 * d \<le> q * d" "(q - 1) * d < 8 * d" using up by linarith+
  then have "4 \<le> q" "q \<le> 8" using d(1) by simp_all
  then have q: "q \<in> {4, 5, 6, 7, 8}" by auto
  have q8: "q \<le> 5" if "k = 8"
  proof -
    have "d = 64" using that by (simp add: d_def)
    then show ?thesis using up(2) n(2) by simp
  qed
  let ?b = "4 * (k - 3) + (q - 4)"
  have run: "size_2_bin s = Ok (of_nat ?b)" using small_bin [OF k] lo hi n by (simp add: n_def q_def d_def)
  have b: "unat (of_nat ?b :: u32) = ?b" using k q by (intro unat_small) auto
  have "first_fit s ?b"
  proof (rule first_fit_tab)
    show "?b < 74" using k q by auto
    show "s \<le> map object_size static_bin_info ! ?b"
      unfolding word_le_nat_alt using small_table [OF k q] q8 up(1) by (simp only: n_def d_def)
    assume "0 < ?b"
    show "map object_size static_bin_info ! (?b - 1) < s"
    proof (cases "q = 4")
      case False
      then have "q - 1 \<in> {4, 5, 6, 7, 8}" "k = 8 \<Longrightarrow> q - 1 \<le> 5" "?b - 1 = 4 * (k - 3) + (q - 1 - 4)" using q q8 by auto
      then show ?thesis using small_table [OF k, of "q - 1"] up(2) by (simp add: word_less_nat_alt n_def d_def)
    next
      case True
      then have "k - 1 \<in> {3, 4, 5, 6, 7, 8}" "?b - 1 = 4 * (k - 1 - 3) + (7 - 4)" "k - 1 \<noteq> 8" using \<open>0 < ?b\<close> k by auto
      then have "unat (map object_size static_bin_info ! (?b - 1)) = 7 * 2 ^ (k - 1 - 2)"
        using small_table [of "k - 1" 7] by (simp only:) auto
      also have "\<dots> < n" using True lo k by auto
      finally show ?thesis by (simp add: word_less_nat_alt n_def)
    qed
  qed
  then show ?thesis unfolding run fits_def using b by auto
qed

lemma first_bin:
  assumes "s \<le> 8"
  shows "fits s (size_2_bin s)"
proof -
  have "first_fit s 0" using assms by (intro first_fit_tab) (simp_all add: static_sizes)
  then show ?thesis using assms by (simp add: size_2_bin_def fits_def)
qed

lemma size_2_bin_fits: "s \<le> 2 ^ 47 \<Longrightarrow> fits s (size_2_bin s)"
  using first_bin [of s] low_bin [of s] mid_bin [of s] huge_bin [of s] by (meson not_le)

lemma bin_2_size_eq: "unat b < 74 \<Longrightarrow> bin_2_size b = Ok (bin_size (unat b))"
  by (simp add: bin_2_size_def bin_info_def length_info bin_number_limit_def word_less_nat_alt)

text \<open>
  C31. The bit hacking and the chain of comparisons of \<open>size_2_bin\<close> agree with the table: for every size up to
  \<open>2 ^ 47\<close> bytes the function returns the first bin whose objects are large enough, the objects of every
  earlier bin being too small.
\<close>

theorem size_2_bin_first_fit:
  assumes "s \<le> 2 ^ 47"
  shows "\<exists>b z. size_2_bin s = Ok b \<and> bin_2_size b = Ok z \<and> s \<le> z \<and> (\<forall>c<b. \<exists>y. bin_2_size c = Ok y \<and> y < s)"
proof -
  obtain b where b: "size_2_bin s = Ok b" "first_fit s (unat b)" using size_2_bin_fits [OF assms] by (auto simp: fits_def)
  then show ?thesis by (auto simp: bin_2_size_eq first_fit_def length_info word_less_nat_alt)
qed

theorem size_2_bin_first_fit_witness: "\<exists>b z. size_2_bin 4097 = Ok b \<and> bin_2_size b = Ok z \<and> 4097 \<le> z"
  using size_2_bin_first_fit [of 4097] by (auto simp: word_le_nat_alt)

section \<open>Division by multiplication\<close>

lemma magic_nat:
  fixes d k x :: nat
  assumes d: "0 < d" and lo: "2 ^ sh \<le> d * k" and err: "x * (d * k - 2 ^ sh) < 2 ^ sh"
  shows "x * k div 2 ^ sh = x div d"
proof -
  define q r e where "q = x div d" and "r = x mod d" and "e = d * k - 2 ^ sh"
  have x: "x = q * d + r" "r < d" and dk: "d * k = 2 ^ sh + e" using d lo by (simp_all add: q_def r_def e_def)
  have eq: "x * k = q * 2 ^ sh + (q * e + r * k)" unfolding x(1) by (simp add: algebra_simps dk flip: mult.assoc)
  have "d * (q * e + r * k) = x * e + r * 2 ^ sh"
  proof -
    have "d * (r * k) = r * (2 ^ sh + e)" using dk by (metis mult.left_commute)
    then show ?thesis unfolding x(1) by (simp add: algebra_simps)
  qed
  also have "\<dots> < 2 ^ sh + r * 2 ^ sh" using err by (simp add: e_def)
  also have "\<dots> = Suc r * 2 ^ sh" by simp
  also have "\<dots> \<le> d * 2 ^ sh" using x(2) by (intro mult_le_mono1) simp
  finally have "q * e + r * k < 2 ^ sh" by simp
  then show ?thesis unfolding eq by (simp add: q_def)
qed

lemma unat_down: "unat (w :: u64) < 2 ^ 32 \<Longrightarrow> unat (ucast w :: u32) = unat w"
  by (simp add: unsigned_ucast_eq take_bit_nat_eq_self)

lemma magic_word:
  assumes ok: "magic_ok d k sh" and x: "unat (x :: u32) < 2 ^ 21"
  shows "unat (ucast (drop_bit (unat sh) (ucast x * k :: u64)) :: u32) = unat x div unat d"
proof -
  let ?e = "unat d * unat k - 2 ^ unat sh"
  have m: "0 < unat d" "unat k < 2 ^ 33" "2 ^ unat sh \<le> unat d * unat k" "?e * 2 ^ 21 \<le> 2 ^ unat sh"
    using ok by (simp_all add: magic_ok_def)
  have "unat x * unat k < 2 ^ 21 * 2 ^ 33" using x m(2) by (intro mult_strict_mono) auto
  moreover have "(ucast x * k :: u64) = of_nat (unat x * unat k)" by simp
  ultimately have p: "unat (ucast x * k :: u64) = unat x * unat k" by (simp only: unat_of_nat) (simp add: take_bit_nat_eq_self)
  have "unat x * ?e < 2 ^ unat sh"
  proof (cases "?e = 0")
    case False
    then have "unat x * ?e < 2 ^ 21 * ?e" using x by simp
    also have "2 ^ 21 * ?e \<le> 2 ^ unat sh" using m(4) by (simp only: mult.commute)
    finally show ?thesis .
  qed simp
  then have "unat (drop_bit (unat sh) (ucast x * k :: u64)) = unat x div unat d"
    unfolding unat_drop p by (rule magic_nat [OF m(1,3)])
  moreover have "unat x < 2 ^ 32" using x by simp
  then have "unat x div unat d < 2 ^ 32" by (rule le_less_trans [OF div_le_dividend])
  ultimately show ?thesis by (simp only: unat_down)
qed

lemma bin_row: "unat bin < 74 \<Longrightarrow> bin_info bin k = k (static_bin_info ! unat bin)"
  by (simp add: bin_info_def length_info)

lemma divide_exact:
  assumes "unat bin < 48" "unat x < 2 ^ 21"
  shows "divide_offset_by_objsize x bin = Ok (of_nat (unat x div unat (object_size (static_bin_info ! unat bin))))"
    and "divide_offset_by_foliosize x bin = Ok (of_nat (unat x div unat (folio_size (static_bin_info ! unat bin))))"
proof -
  let ?s = "static_bin_info ! unat bin"
  have s: "take 48 static_bin_info ! unat bin = ?s" "unat bin < length (take 48 static_bin_info)" using assms(1) by (simp_all add: length_info)
  have m: "magic_ok (object_size ?s) (object_division_multiply_magic ?s) (object_division_shift_magic ?s)"
    "magic_ok (folio_size ?s) (folio_division_multiply_magic ?s) (folio_division_shift_magic ?s)"
    using magics_ok s unfolding list_all_length by metis+
  show "divide_offset_by_objsize x bin = Ok (of_nat (unat x div unat (object_size ?s)))"
    using assms(1) magic_word [OF m(1) assms(2)] by (simp add: divide_offset_by_objsize_def bin_row) (metis of_nat_unat ucast_id)
  show "divide_offset_by_foliosize x bin = Ok (of_nat (unat x div unat (folio_size ?s)))"
    using assms(1) magic_word [OF m(2) assms(2)] by (simp add: divide_offset_by_foliosize_def bin_row) (metis of_nat_unat ucast_id)
qed

text \<open>
  C34. For offsets within a chunk the multiplications and shifts by magic constants are exact divisions, in every
  bin of small and large objects and in the first bin of huge objects.
\<close>

theorem divide_offset_exact:
  assumes "bin \<le> first_huge_bin_number" "unat off < unat chunksize"
  shows "divide_offset_by_objsize off bin = Ok (of_nat (unat off div unat (object_size (static_bin_info ! unat bin)))) \<and>
    divide_offset_by_foliosize off bin = Ok (of_nat (unat off div unat (folio_size (static_bin_info ! unat bin))))"
  using divide_exact [of bin off] assms by (simp_all add: first_huge_bin_number_def chunksize_value word_le_nat_alt)

theorem divide_offset_exact_witness: "divide_offset_by_objsize 2097151 46 = Ok 2"
  using divide_offset_exact [of 46 2097151] by (simp add: first_huge_bin_number_def chunksize_value table_eval)

section \<open>The code of a chunk\<close>

lemma unat_and127: "unat (x AND 127 :: u32) = unat x mod 128"
proof -
  have "x AND 127 = take_bit 7 x" by (simp add: take_bit_eq_mask mask_eq_exp_minus_1)
  then have "unat (x AND 127) = take_bit 7 (unat x)" by (simp only: unsigned_take_bit_eq)
  then show ?thesis by (simp add: take_bit_eq_mod)
qed

lemma mod128: "unat (of_nat a :: u32) mod 128 = a mod 128" "unat (of_nat a :: u64) mod 128 = a mod 128"
proof -
  have "(128 :: nat) dvd 2 ^ 32" "(128 :: nat) dvd 2 ^ 64" by simp_all
  note m = this [THEN mod_mod_cancel]
  have u: "unat (of_nat b :: u32) = b mod 2 ^ 32" "unat (of_nat b :: u64) = b mod 2 ^ 64" for b
    by (simp_all add: unat_of_nat take_bit_eq_mod)
  show "unat (of_nat a :: u32) mod 128 = a mod 128" "unat (of_nat a :: u64) mod 128 = a mod 128"
    by (simp_all only: u m)
qed

lemma bin_code:
  assumes "bin < 127"
  shows "\<exists>w. bin_and_size_to_bin_and_size bin sz = Ok w \<and> w \<noteq> 0 \<and> bin_from_bin_and_size w = Ok bin"
proof -
  have lt: "unat bin < 127" using assms by (simp add: word_less_nat_alt)
  have code: "w \<noteq> 0 \<and> bin_from_bin_and_size w = Ok bin" if "unat w mod 128 = 1 + unat bin" for w :: u32
  proof -
    have "unat (w AND 127) = Suc (unat bin)" using that by (simp add: unat_and127)
    then have w: "w AND 127 = of_nat (Suc (unat bin))" by (metis of_nat_unat ucast_id)
    moreover have "of_nat (Suc (unat bin)) \<noteq> (0 :: u32)" using \<open>unat (w AND 127) = _\<close> w by auto
    moreover have "w \<noteq> 0" using that by auto
    ultimately show ?thesis by (simp add: bin_from_bin_and_size_def)
  qed
  have "unat (1 + bin + push_bit 7 1 + push_bit 8 n :: u32) mod 128 = 1 + unat bin" for n
  proof -
    have "1 + bin + push_bit 7 1 + push_bit 8 n = of_nat (1 + unat bin + 128 * (1 + 2 * unat n))" by (simp add: push_bit_eq_mult)
    then have "unat (1 + bin + push_bit 7 1 + push_bit 8 n) mod 128 = (1 + unat bin + 128 * (1 + 2 * unat n)) mod 128" by (simp only: mod128)
    also have "\<dots> = 1 + unat bin" using lt by (simp only: mod_mult_self2 mod_less)
    finally show ?thesis .
  qed
  moreover have "unat (ucast (ucast (1 + bin) + push_bit 8 y :: u64) :: u32) mod 128 = 1 + unat bin" for y
  proof -
    have one: "unat (1 + bin) = 1 + unat bin" using lt by (simp add: unat_word_ariths)
    then have "ucast (1 + bin) = (of_nat (1 + unat bin) :: u64)" by (metis of_nat_unat)
    then have "ucast (1 + bin) + push_bit 8 y = (of_nat (1 + unat bin + 128 * (2 * unat y)) :: u64)" by (simp add: push_bit_eq_mult)
    then have "(ucast (ucast (1 + bin) + push_bit 8 y :: u64) :: u32) = of_nat (unat (of_nat (1 + unat bin + 128 * (2 * unat y)) :: u64))"
      by (simp only: of_nat_unat)
    then have "unat (ucast (ucast (1 + bin) + push_bit 8 y :: u64) :: u32) mod 128 = (1 + unat bin + 128 * (2 * unat y)) mod 128" by (simp only: mod128)
    also have "\<dots> = 1 + unat bin" using lt by (simp only: mod_mult_self2 mod_less)
    finally show ?thesis .
  qed
  ultimately have "\<exists>w. bin_and_size_to_bin_and_size bin sz = Ok w \<and> unat w mod 128 = 1 + unat bin"
    unfolding bin_and_size_to_bin_and_size_def using assms by (cases "ucast (ceil sz pagesize) < (push_bit 24 1 :: u32)")
      (simp_all only: c_assert_simps Let_def if_True if_False res.inject, blast+)
  then show ?thesis using code by blast
qed

section \<open>The base of an object\<close>

text \<open>The address of object \<open>ob\<close> of folio \<open>f\<close> in chunk \<open>cn\<close> of a bin.\<close>

definition object_address :: "chunknumber_t \<Rightarrow> static_bin_s \<Rightarrow> nat \<Rightarrow> nat \<Rightarrow> addr" where
  "object_address cn s f ob =
     ucast cn * chunksize + ucast (overhead_pages_per_chunk s) * pagesize + of_nat f * folio_size s + of_nat ob * object_size s"

lemma and_not_mask: "p AND NOT (mask n) = p - take_bit n p" for p :: u64
proof -
  have "p - take_bit n p = p AND NOT (take_bit n p)"
    by (rule disjunctive_diff_eq_and_not, rule bit_word_eqI) (auto simp: bit_simps)
  also have "\<dots> = p AND NOT (mask n)" by (rule bit_word_eqI) (auto simp: bit_simps)
  finally show ?thesis by simp
qed

lemma chunk_split:
  assumes "cn < 2 ^ 27" "u < 2 ^ 21" "p = of_nat (cn * 2 ^ 21 + u)"
  shows "unat p = cn * 2 ^ 21 + u" "address_2_chunknumber p = of_nat cn" "unat (offset_in_chunk p) = u"
    "address_2_chunkaddress p = of_nat (cn * 2 ^ 21)"
proof -
  have "cn * 2 ^ 21 + u < 2 ^ 64" using assms(1,2) by simp
  then show p: "unat p = cn * 2 ^ 21 + u" unfolding assms(3) by (rule unat_small)
  have "(cn * 2 ^ 21 + u) mod 2 ^ 21 = u" "(cn * 2 ^ 21 + u) div 2 ^ 21 = cn" using assms(2) by simp_all
  note dm = this
  show "unat (offset_in_chunk p) = u" using dm(1) p by (simp add: offset_in_chunk_def chunksize_value unat_mod)
  have am: "unat (p div chunksize mod push_bit 27 1) = cn"
    using dm(2) p assms(1) by (simp add: chunksize_value unat_div unat_mod)
  then have "ucast (p div chunksize mod push_bit 27 1) = (of_nat cn :: u32)" by (metis of_nat_unat)
  then show "address_2_chunknumber p = of_nat cn" by (simp add: address_2_chunknumber_def)
  have m: "chunksize - 1 = mask 21" by (simp add: chunksize_value mask_eq_exp_minus_1)
  have "unat (take_bit 21 p) = take_bit 21 (unat p)" by (rule unsigned_take_bit_eq)
  then have "unat (take_bit 21 p) = u" using dm(1) by (simp add: take_bit_eq_mod p)
  then have "take_bit 21 p = of_nat u" by (metis of_nat_unat ucast_id)
  then have "p AND NOT (chunksize - 1) = p - of_nat u" by (simp only: m and_not_mask)
  then show "address_2_chunkaddress p = of_nat (cn * 2 ^ 21)" by (simp add: address_2_chunkaddress_def assms(3))
qed

lemma row:
  assumes "unat bin < 47"
  shows "row_ok (static_bin_info ! unat bin)"
proof -
  have "take 47 static_bin_info ! unat bin = static_bin_info ! unat bin" "unat bin < length (take 47 static_bin_info)"
    using assms by (simp_all add: length_info)
  then show ?thesis using rows_ok unfolding list_all_length by metis
qed

lemma object_offset:
  assumes row: "row_ok s" and f: "f < unat (folios_per_chunk s)" and ob: "ob < unat (objects_per_folio s)" and i: "i < unat (object_size s)"
  defines "w \<equiv> unat (overhead_pages_per_chunk s) * 4096" and "u \<equiv> f * unat (folio_size s) + ob * unat (object_size s) + i"
  shows "w + u < 2 ^ 21" "u div unat (folio_size s) = f" "(u - f * unat (folio_size s)) div unat (object_size s) = ob"
proof -
  have r: "unat (objects_per_folio s) * unat (object_size s) \<le> unat (folio_size s)"
    "w + unat (folios_per_chunk s) * unat (folio_size s) \<le> 2 ^ 21"
    using row by (simp_all add: row_ok_def w_def pagesize_def chunksize_value)
  have "Suc ob * unat (object_size s) \<le> unat (objects_per_folio s) * unat (object_size s)" using ob by (intro mult_le_mono1) simp
  then have in_folio: "ob * unat (object_size s) + i < unat (folio_size s)" using r(1) i by simp
  have "Suc f * unat (folio_size s) \<le> unat (folios_per_chunk s) * unat (folio_size s)" using f by (intro mult_le_mono1) simp
  then show "w + u < 2 ^ 21" using r(2) in_folio by (simp add: u_def)
  show "u div unat (folio_size s) = f" using in_folio by (intro div_nat_eqI) (simp_all add: u_def algebra_simps)
  show "(u - f * unat (folio_size s)) div unat (object_size s) = ob" using i by (intro div_nat_eqI) (simp_all add: u_def algebra_simps)
qed

lemma object_base_at:
  assumes bin: "bin_from_bin_and_size (infos cn) = Ok bin" "bin < first_huge_bin_number" and cn: "cn < 2 ^ 27"
    and s: "s = static_bin_info ! unat bin"
    and f: "f < unat (folios_per_chunk s)" and ob: "ob < unat (objects_per_folio s)" and i: "i < object_size s"
  shows "object_base infos (object_address cn s f ob + i) = Ok (object_address cn s f ob)"
    and "address_2_chunknumber (object_address cn s f ob + i) = cn"
proof -
  have b: "unat bin < 47" using bin(2) by (simp add: first_huge_bin_number_def word_less_nat_alt)
  have c: "unat cn < 2 ^ 27" using cn by (simp add: word_less_nat_alt)
  have row: "row_ok s" unfolding s by (rule row [OF b])
  have iu: "unat i < unat (object_size s)" using i by (simp add: word_less_nat_alt)
  define w where "w = unat (overhead_pages_per_chunk s) * 4096"
  define u where "u = f * unat (folio_size s) + ob * unat (object_size s) + unat i"
  note off = object_offset [OF row f ob iu, folded w_def u_def]
  let ?p = "object_address cn s f ob + i"
  have p: "?p = of_nat (unat cn * 2 ^ 21 + (w + u))"
    by (simp add: object_address_def w_def u_def chunksize_value pagesize_def)
  note cs = chunk_split [OF c off(1) p]
  show "address_2_chunknumber ?p = cn" using cs(2) by simp
  have infos: "infos cn \<noteq> 0" using bin(1) by (auto simp: bin_from_bin_and_size_def)
  have o: "offset_in_chunk ?p = of_nat (w + u)" using cs(3) by (metis of_nat_unat ucast_id)
  have wo: "ucast (overhead_pages_per_chunk s) * pagesize = of_nat w" by (simp add: w_def pagesize_def)
  have "unat (of_nat (w + u) :: u64) = w + u" "unat (of_nat w :: u64) = w" using off(1) by (intro unat_small; simp)+
  then have ge: "(of_nat (w + u) :: u64) \<ge> of_nat w" unfolding word_le_nat_alt by (simp only: le_add1)
  have le: "u < 2 ^ 21" using off(1) by simp
  have x32: "(ucast (of_nat v :: u64) :: u32) = of_nat v" "unat (of_nat v :: u32) = v" if "v \<le> u" for v
    using that le by (simp_all add: ucast_small unat_small)
  have "f * 1 \<le> f * unat (folio_size s)" "ob * 1 \<le> ob * unat (object_size s)"
    using row by (intro mult_le_mono; simp add: row_ok_def)+
  then have fu: "f \<le> u" "f * unat (folio_size s) \<le> u" "ob \<le> u" unfolding u_def by linarith+
  have "divide_offset_by_foliosize (of_nat u) bin = Ok (of_nat f)"
    using divide_exact(2) [of bin "of_nat u"] b le off(2) by (simp add: x32 s)
  moreover have "divide_offset_by_objsize (of_nat (u - f * unat (folio_size s))) bin = Ok (of_nat ob)"
    using divide_exact(1) [of bin "of_nat (u - f * unat (folio_size s))"] b le off(3) by (simp add: x32 s)
  moreover have "ucast (of_nat f :: u32) * folio_size s = of_nat (f * unat (folio_size s))"
    "ucast (of_nat ob :: u32) * object_size s = of_nat (ob * unat (object_size s))"
    using fu le by (simp_all add: ucast_small)
  moreover have "(of_nat u :: u64) - of_nat (f * unat (folio_size s)) = of_nat (u - f * unat (folio_size s))"
    using fu(2) by (simp only: of_nat_diff)
  moreover have "\<not> bin \<ge> first_huge_bin_number" using bin(2) by simp
  moreover have "bin_info bin k = k s" for k :: "static_bin_s \<Rightarrow> u64 res" using b by (simp add: bin_row s)
  ultimately show "object_base infos ?p = Ok (object_address cn s f ob)"
    unfolding object_base_def Let_def cs(2) o of_nat_unat ucast_id bin(1)
    using infos ge by (simp add: wo x32 object_address_def)
qed

lemma sint_small:
  assumes "unat (x :: u64) < 2 ^ 63"
  shows "sint x = int (unat x)"
proof -
  have "int (unat x) < 2 ^ 63" using assms by (simp del: of_nat_unat)
  then show ?thesis unfolding sint_uint uint_nat by (intro signed_take_bit_int_eq_self) (simp_all del: of_nat_unat)
qed

lemma object_address_nat:
  assumes "unat bin < 47" "cn < 2 ^ 27" "s = static_bin_info ! unat bin"
    "f < unat (folios_per_chunk s)" "ob < unat (objects_per_folio s)" "i < object_size s"
  shows "unat (object_address cn s f ob + i) = unat (object_address cn s f ob) + unat i"
proof -
  have row: "row_ok s" unfolding assms(3) by (rule row [OF assms(1)])
  have iu: "unat i < unat (object_size s)" using assms(6) by (simp add: word_less_nat_alt)
  have c: "unat cn < 2 ^ 27" using assms(2) by (simp add: word_less_nat_alt)
  let ?w = "unat (overhead_pages_per_chunk s) * 4096" and ?u = "f * unat (folio_size s) + ob * unat (object_size s)"
  have lt: "?w + (?u + unat i) < 2 ^ 21" by (rule object_offset(1) [OF row assms(4,5) iu])
  then have lt0: "?w + ?u < 2 ^ 21" by simp
  have "object_address cn s f ob + i = of_nat (unat cn * 2 ^ 21 + (?w + (?u + unat i)))"
    "object_address cn s f ob = of_nat (unat cn * 2 ^ 21 + (?w + ?u))"
    by (simp_all add: object_address_def chunksize_value pagesize_def)
  note p = chunk_split(1) [OF c lt this(1)] chunk_split(1) [OF c lt0 this(2)]
  show ?thesis unfolding p by simp
qed

text \<open>
  C32. Every address inside an object of a small or large bin leads back to that object: if the entry of chunk \<open>cn\<close>
  holds the bin, then \<open>object_base\<close> of byte \<open>i\<close> of object \<open>ob\<close> of folio \<open>f\<close> is the first byte of the object, and
  \<open>malloc_usable_size\<close> is the number of bytes from there to the end of the object.
\<close>

theorem object_base_exact:
  assumes bin: "bin_from_bin_and_size (infos cn) = Ok bin" "bin < first_huge_bin_number" and cn: "cn < 2 ^ 27"
    and s: "s = static_bin_info ! unat bin"
    and f: "f < unat (folios_per_chunk s)" and ob: "ob < unat (objects_per_folio s)" and i: "i < object_size s"
  shows "object_base infos (object_address cn s f ob + i) = Ok (object_address cn s f ob) \<and>
    malloc_usable_size infos (object_address cn s f ob + i) = Ok (object_size s - i)"
proof -
  have b: "unat bin < 47" using bin(2) by (simp add: first_huge_bin_number_def word_less_nat_alt)
  let ?a = "object_address cn s f ob"
  note at = object_base_at [where infos = infos and cn = cn, OF bin cn s f ob]
  have os: "0 < object_size s" using i by (meson le_less_trans word_zero_le)
  have "address_2_chunknumber ?a = cn" using at(2) [OF os] by simp
  moreover have "?a \<le> ?a + i" using object_address_nat [OF b cn s f ob i] by (simp add: word_le_nat_alt)
  moreover have "sint (object_size s) \<ge> sint i"
  proof -
    have "1 * unat (object_size s) \<le> unat (objects_per_folio s) * unat (object_size s)"
      "1 * unat (folio_size s) \<le> unat (folios_per_chunk s) * unat (folio_size s)"
      using f ob by (intro mult_le_mono1; simp)+
    moreover have "unat (objects_per_folio s) * unat (object_size s) \<le> unat (folio_size s)"
      "unat (folios_per_chunk s) * unat (folio_size s) \<le> 2097152"
      using row [OF b, folded s] by (simp_all add: row_ok_def chunksize_value)
    ultimately have "unat (object_size s) \<le> 2097152" by linarith
    then have "unat (object_size s) < 2 ^ 63" by simp
    moreover have "unat i < unat (object_size s)" using i by (simp add: word_less_nat_alt)
    ultimately show ?thesis by (simp add: sint_small del: of_nat_unat)
  qed
  moreover have "infos cn \<noteq> 0" using bin(1) by (auto simp: bin_from_bin_and_size_def)
  ultimately show ?thesis
    unfolding malloc_usable_size_def using at [OF i] b by (simp add: bin(1) bin_2_size_eq flip: s)
qed

lemma small_offsets:
  "map (\<lambda>b. of_nat (sum_list (take b dynamic_small_bin_info)) :: u32) [0..<40] = dynamic_small_bin_offs"
  by (simp add: dynamic_small_bin_info_def dynamic_small_bin_offs_def upt_rec)

lemma small_slots: "map (\<lambda>s. unat (objects_per_folio s) + 2) (take 40 static_bin_info) = dynamic_small_bin_info"
  by (simp add: table_eval dynamic_small_bin_info_def)


lemma small_bin_rows:
  assumes "unat bin < 40"
  shows "headers_ok (static_bin_info ! unat bin)"
    "dynamic_small_bin_info ! unat bin = unat (objects_per_folio (static_bin_info ! unat bin)) + 2"
    "dynamic_small_bin_offset bin = Ok (of_nat (sum_list (take (unat bin) dynamic_small_bin_info)))"
proof -
  have s: "take 40 static_bin_info ! unat bin = static_bin_info ! unat bin" "unat bin < length (take 40 static_bin_info)"
    using assms by (simp_all add: length_info)
  show "headers_ok (static_bin_info ! unat bin)" using headers_ok s unfolding list_all_length by metis
  show "dynamic_small_bin_info ! unat bin = unat (objects_per_folio (static_bin_info ! unat bin)) + 2"
    unfolding small_slots [symmetric] using s by (simp only: nth_map)
  have "length dynamic_small_bin_offs = 40" unfolding small_offsets [symmetric] by simp
  moreover have "dynamic_small_bin_offs ! unat bin = of_nat (sum_list (take (unat bin) dynamic_small_bin_info))"
    unfolding small_offsets [symmetric] using assms by (subst nth_map_upt) simp_all
  ultimately show "dynamic_small_bin_offset bin = Ok (of_nat (sum_list (take (unat bin) dynamic_small_bin_info)))"
    using assms by (simp add: dynamic_small_bin_offset_def)
qed

text \<open>
  C33. The generated table and the arrays of folio lists fit together. In every bin of small objects the objects of a
  folio fit into it, the headers of the folios fit into the overhead pages, and overhead and folios into a chunk; the
  bitmap of a folio has a bit for every object. The lists of a bin start where those of the bins before it end, there is
  one for every number of free objects and one for uncommitted folios, and together they fill the array \<open>b\<close>.
\<close>

theorem small_bin_layout:
  assumes "bin < first_large_bin_number" and "s = static_bin_info ! unat bin"
  shows "unat (objects_per_folio s) * unat (object_size s) \<le> unat (folio_size s) \<and>
    unat (folios_per_chunk s) * sizeof_per_folio \<le> unat (overhead_pages_per_chunk s) * unat pagesize \<and>
    unat (overhead_pages_per_chunk s) * unat pagesize + unat (folios_per_chunk s) * unat (folio_size s) \<le> unat chunksize \<and>
    unat (objects_per_folio s) \<le> 64 * unat folio_bitmap_n_words \<and>
    dynamic_small_bin_offset bin = Ok (of_nat (sum_list (take (unat bin) dynamic_small_bin_info))) \<and>
    dynamic_small_bin_info ! unat bin = unat (objects_per_folio s) + 2 \<and>
    sum_list dynamic_small_bin_info = dynamic_small_bin_info_b"
proof -
  have b: "unat bin < 40" using assms(1) by (simp add: first_large_bin_number_def word_less_nat_alt)
  have "row_ok s" using row [of bin] b by (simp add: assms(2))
  moreover have "headers_ok s" using small_bin_rows(1) [OF b] by (simp add: assms(2))
  moreover have "sum_list dynamic_small_bin_info = dynamic_small_bin_info_b"
    by (simp add: dynamic_small_bin_info_def dynamic_small_bin_info_b_def)
  ultimately show ?thesis using small_bin_rows(2,3) [OF b]
    by (simp add: row_ok_def headers_ok_def assms(2) max_objects_per_folio_def folio_bitmap_n_words_def)
qed

theorem small_bin_layout_witness: "dynamic_small_bin_offset 3 = Ok 3590 \<and> dynamic_small_bin_info ! 3 = 2050"
  using small_bin_layout [of 3] by (simp add: first_large_bin_number_def dynamic_small_bin_info_def)

theorem object_base_exact_witness:
  "object_base (\<lambda>_. 23) (object_address 5 (static_bin_info ! 22) 7 63 + 447) = Ok (object_address 5 (static_bin_info ! 22) 7 63) \<and>
   malloc_usable_size (\<lambda>_. 23) (object_address 5 (static_bin_info ! 22) 7 63 + 447) = Ok 1"
  using object_base_exact [of "\<lambda>_. 23" 5 22 "static_bin_info ! 22" 7 63 447]
  by (simp add: bin_from_bin_and_size_def first_huge_bin_number_def table_eval)

end
