(* ===== verification/Chunks.thy ===== *)
theory Chunks
  imports Sizeclass
begin

text \<open>
  Chunks of the SuperMalloc allocator: memory/makechunk.cpp, which asks the operating system for blocks of whole
  2 MiB chunks aligned to a chunk, and memory/huge_malloc.cpp, which hands out blocks of \<open>2 ^ k\<close> chunks aligned to
  their own size and keeps the rest, and what is freed, in the lists \<open>free_chunks[k]\<close>.

  The operating system is modelled by the state the program can see of it: the set of mapped pages, and a script of the
  addresses that \<open>mmap\<close> will answer; beside it, \<open>os_advice\<close> is the list of the calls of \<open>madvise\<close>, the latest first.
  An answer that Linux on x86-64 would not give (not aligned to a page, beyond the \<open>2 ^ 47\<close> bytes of user space, or
  overlapping pages that are mapped) and an exhausted script count as MAP_FAILED, so
  every script is a legal behaviour. \<open>munmap\<close> fails, with EINVAL, only for an address that is not aligned to a page.
  \<open>madvise\<close> changes neither the mapping nor the bookkeeping; it fails, with ENOMEM, when a page of the range is not
  mapped, and only \<open>huge_free\<close> looks at its result. The contents of chunks are not part of this
  state. The word of \<open>chunk_infos[cn]\<close> is a union of the bin of an allocated block and the link of a free one. A single
  thread runs, so \<open>atomically\<close> is a call and the compare-and-swap of \<open>put_cached_power_of_two_chunks\<close> succeeds at once.
\<close>

datatype advice = MADV_DONTNEED | MADV_HUGEPAGE | MADV_NOHUGEPAGE

record sm_mem =
  os_script :: "addr list"
  os_pages :: "nat set"
  os_advice :: "(addr \<times> u64 \<times> advice) list"
  total_mapped :: u64
  mismapped_so_unmapped :: u64
  infos :: chunk_infos
  free_chunks :: "chunknumber_t list"

section \<open>The operating system\<close>

definition pages_of :: "addr \<Rightarrow> u64 \<Rightarrow> nat set" where
  "pages_of p sz = {unat p div 4096..<(unat p + unat sz + 4095) div 4096}"

definition mmap_answer :: "addr \<Rightarrow> u64 \<Rightarrow> nat set \<Rightarrow> bool" where
  "mmap_answer p sz pages \<longleftrightarrow> p \<noteq> NULL \<and> unat p mod 4096 = 0 \<and> 0 < unat sz \<and> unat p + unat sz \<le> 2 ^ 47 \<and> pages_of p sz \<inter> pages = {}"

definition os_mmap :: "u64 \<Rightarrow> 'a sm_mem_scheme \<Rightarrow> addr option \<times> 'a sm_mem_scheme" where
  "os_mmap sz m =
     (case os_script m of
        [] \<Rightarrow> (None, m)
      | p # ps \<Rightarrow>
          if mmap_answer p sz (os_pages m) then (Some p, m\<lparr>os_script := ps, os_pages := os_pages m \<union> pages_of p sz\<rparr>)
          else (None, m\<lparr>os_script := ps\<rparr>))"

definition os_munmap :: "addr \<Rightarrow> u64 \<Rightarrow> 'a sm_mem_scheme \<Rightarrow> i32 \<times> 'a sm_mem_scheme" where
  "os_munmap p sz m = (if unat p mod 4096 = 0 then (0, m\<lparr>os_pages := os_pages m - pages_of p sz\<rparr>) else (-1, m))"

definition os_madvise :: "addr \<Rightarrow> u64 \<Rightarrow> advice \<Rightarrow> 'a sm_mem_scheme \<Rightarrow> i32 \<times> 'a sm_mem_scheme" where
  "os_madvise p sz adv m =
     (if unat p mod 4096 = 0 \<and> pages_of p sz \<subseteq> os_pages m then 0 else -1,
      m\<lparr>os_advice := (p, sz, adv) # os_advice m\<rparr>)"

section \<open>makechunk.cpp\<close>

definition mmap_size :: "u64 \<Rightarrow> 'a sm_mem_scheme \<Rightarrow> addr \<times> 'a sm_mem_scheme" where
  "mmap_size sz m =
     (case os_mmap sz m of
        (None, m1) \<Rightarrow> (NULL, m1)
      | (Some r, m1) \<Rightarrow> (r, m1\<lparr>total_mapped := total_mapped m1 + sz\<rparr>))"

definition unmap :: "addr \<Rightarrow> u64 \<Rightarrow> 'a sm_mem_scheme \<Rightarrow> 'a sm_mem_scheme res" where
  "unmap p sz m =
     (if sz > 0 then
        case os_munmap p sz m of (r, m1) \<Rightarrow>
          if r \<noteq> 0 then Fault AssertFail
          else Ok (m1\<lparr>mismapped_so_unmapped := mismapped_so_unmapped m1 + sz\<rparr>)
      else Ok m)"

definition chunk_create_slow :: "u64 \<Rightarrow> 'a sm_mem_scheme \<Rightarrow> (addr \<times> 'a sm_mem_scheme) res" where
  "chunk_create_slow n_chunks m0 =
     (let total_size = (1 + n_chunks) * chunksize in
      case mmap_size total_size m0 of (m, m1) \<Rightarrow>
      if m = NULL then Ok (m, m1)
      else
        let m_offset = offset_in_chunk m in
        if m_offset = 0 then
          call (unmap (m + n_chunks * chunksize) chunksize m1) (\<lambda>m2. Ok (m, m2))
        else
          let leading_useless = chunksize - m_offset in
          call (unmap m leading_useless m1) (\<lambda>m2.
          let final_m = m + leading_useless in
          call (unmap (final_m + n_chunks * chunksize) m_offset m2) (\<lambda>m3. Ok (final_m, m3))))"

definition mmap_chunk_aligned_block :: "u64 \<Rightarrow> 'a sm_mem_scheme \<Rightarrow> (addr \<times> 'a sm_mem_scheme) res" where
  "mmap_chunk_aligned_block n_chunks m =
     (case mmap_size (n_chunks * chunksize) m of (r, m1) \<Rightarrow>
      if r = 0 then Ok (NULL, m1)
      else if offset_in_chunk r \<noteq> 0 then
        call (unmap r (n_chunks * chunksize) m1) (\<lambda>m2. chunk_create_slow n_chunks m2)
      else Ok (r, m1))"

section \<open>huge_malloc.cpp\<close>

definition log_max_chunknumber :: nat where
  "log_max_chunknumber = 27"

text \<open>\<open>free_chunks[f]\<close>, an array of \<open>log_max_chunknumber\<close> entries.\<close>

definition free_chunks_at :: "u32 \<Rightarrow> 'a sm_mem_scheme \<Rightarrow> (chunknumber_t \<Rightarrow> 'b res) \<Rightarrow> 'b res" where
  "free_chunks_at f m k = (if unat f < length (free_chunks m) then k (free_chunks m ! unat f) else Fault BadDeref)"

definition do_get_from_free_chunks :: "u32 \<Rightarrow> 'a sm_mem_scheme \<Rightarrow> (addr \<times> 'a sm_mem_scheme) res" where
  "do_get_from_free_chunks f m =
     free_chunks_at f m (\<lambda>r.
       if r = 0 then Ok (NULL, m)
       else Ok (ucast r * chunksize, m\<lparr>free_chunks := (free_chunks m)[unat f := infos m r]\<rparr>))"

definition get_cached_power_of_two_chunks :: "u32 \<Rightarrow> 'a sm_mem_scheme \<Rightarrow> (addr \<times> 'a sm_mem_scheme) res" where
  "get_cached_power_of_two_chunks list_number m =
     free_chunks_at list_number m (\<lambda>r. if r = 0 then Ok (NULL, m) else do_get_from_free_chunks list_number m)"

definition put_cached_body ::
  "chunknumber_t \<Rightarrow> u32 \<Rightarrow> 'a sm_mem_scheme \<Rightarrow> ('a sm_mem_scheme, 'a sm_mem_scheme) ctl res" where
  "put_cached_body cn list_number m =
     free_chunks_at list_number m (\<lambda>hd0.
       let m1 = m\<lparr>infos := (infos m)(cn := hd0)\<rparr> in
       free_chunks_at list_number m1 (\<lambda>cur.
         if cur = hd0 then Ok (Done (m1\<lparr>free_chunks := (free_chunks m1)[unat list_number := cn]\<rparr>)) else Ok (Again m1)))"

definition put_cached_power_of_two_chunks :: "chunknumber_t \<Rightarrow> u32 \<Rightarrow> 'a sm_mem_scheme \<Rightarrow> 'a sm_mem_scheme res" where
  "put_cached_power_of_two_chunks cn list_number m = cloop (put_cached_body cn list_number) m"

text \<open>\<open>1 << bit\<close>, an \<open>int\<close>; \<open>while (c + (1 << bit) > end) bit--\<close>, where a negative shift is undefined.\<close>

fun shrink_bit :: "chunknumber_t \<Rightarrow> chunknumber_t \<Rightarrow> nat \<Rightarrow> nat res" where
  "shrink_bit c e 0 = (if c + 1 > e then Fault BadShift else Ok 0)"
| "shrink_bit c e (Suc b) = (if c + push_bit (Suc b) 1 > e then shrink_bit c e b else Ok (Suc b))"

definition builtin_ffs :: "u32 \<Rightarrow> nat" where
  "builtin_ffs x = (if x = 0 then 0 else Suc (length (takeWhile (\<lambda>i. \<not> bit x i) [0..<32])))"

text \<open>One round of putting the piece at \<open>c\<close> into its list.\<close>

definition put_piece :: "chunknumber_t \<Rightarrow> chunknumber_t \<Rightarrow> 'a sm_mem_scheme \<Rightarrow> (chunknumber_t \<times> 'a sm_mem_scheme) res" where
  "put_piece c e m =
     (if builtin_ffs c = 0 then Fault BadShift
      else call (shrink_bit c e (builtin_ffs c - 1)) (\<lambda>b.
           call (put_cached_power_of_two_chunks c (of_nat b) m) (\<lambda>m1. Ok (c + push_bit b 1, m1))))"

definition head_pieces_body ::
  "chunknumber_t \<Rightarrow> chunknumber_t \<Rightarrow> chunknumber_t \<times> 'a sm_mem_scheme \<Rightarrow>
     (chunknumber_t \<times> 'a sm_mem_scheme, addr \<times> chunknumber_t \<times> 'a sm_mem_scheme) ctl res" where
  "head_pieces_body n_chunks e = (\<lambda>(c, m).
     if c < e then
       if c AND (n_chunks - 1) = 0 then Ok (Done (ucast c * chunksize, c + n_chunks, m))
       else call (put_piece c e m) (\<lambda>(c1, m1). Ok (Again (c1, m1)))
     else Ok (Done (NULL, c, m)))"

definition tail_pieces_body ::
  "chunknumber_t \<Rightarrow> chunknumber_t \<times> 'a sm_mem_scheme \<Rightarrow> (chunknumber_t \<times> 'a sm_mem_scheme, 'a sm_mem_scheme) ctl res" where
  "tail_pieces_body e = (\<lambda>(c, m).
     if c < e then call (put_piece c e m) (\<lambda>(c1, m1). Ok (Again (c1, m1))) else Ok (Done m))"

definition get_power_of_two_n_chunks :: "chunknumber_t \<Rightarrow> 'a sm_mem_scheme \<Rightarrow> (addr \<times> 'a sm_mem_scheme) res" where
  "get_power_of_two_n_chunks n_chunks m =
     call (get_cached_power_of_two_chunks (lg_of_power_of_two (ucast n_chunks)) m) (\<lambda>(r, m1).
     if r \<noteq> NULL then Ok (r, m1)
     else
       call (mmap_chunk_aligned_block (ucast (2 * n_chunks)) m1) (\<lambda>(p, m2).
       if p = NULL then Ok (NULL, m2)
       else
         let c = address_2_chunknumber p; e = c + 2 * n_chunks in
         call (cloop (head_pieces_body n_chunks e) (c, m2)) (\<lambda>(result, c1, m3).
         call (cloop (tail_pieces_body e) (c1, m3)) (\<lambda>m4.
         c_assert (result \<noteq> NULL) (Ok (result, m4))))))"

text \<open>
  The advice that \<open>huge_malloc\<close> gives on a new block; the results of the calls are ignored.
\<close>

definition advise_huge :: "addr \<Rightarrow> chunknumber_t \<Rightarrow> u64 \<Rightarrow> 'a sm_mem_scheme \<Rightarrow> 'a sm_mem_scheme" where
  "advise_huge c n_chunks sz m =
     (let m1 = snd (os_madvise c (ucast n_chunks * chunksize) MADV_DONTNEED m);
          n_whole_chunks = sz div chunksize;
          n_bytes_at_end = sz - n_whole_chunks * chunksize in
      if n_bytes_at_end = 0 \<or> chunksize - n_bytes_at_end < chunksize div 8
      then snd (os_madvise c (ucast n_chunks * chunksize) MADV_HUGEPAGE m1)
      else
        let m2 = (if n_whole_chunks > 0 then snd (os_madvise c (n_whole_chunks * chunksize) MADV_HUGEPAGE m1) else m1) in
        snd (os_madvise (c + n_whole_chunks * chunksize) n_bytes_at_end MADV_NOHUGEPAGE m2))"

definition huge_malloc :: "u64 \<Rightarrow> 'a sm_mem_scheme \<Rightarrow> (addr \<times> 'a sm_mem_scheme) res" where
  "huge_malloc sz m =
     call (hyperceil sz) (\<lambda>hc.
     let n_chunks = ucast (max 1 (hc div chunksize)) :: u32 in
     call (get_power_of_two_n_chunks n_chunks m) (\<lambda>(c, m1).
     if c = NULL then Ok (NULL, m1)
     else
       let m2 = advise_huge c n_chunks sz m1; chunknum = address_2_chunknumber c in
       call (size_2_bin (ucast n_chunks * chunksize)) (\<lambda>bin.
       call (bin_and_size_to_bin_and_size bin sz) (\<lambda>b_and_s.
       c_assert (b_and_s \<noteq> 0)
         (Ok (c, m2\<lparr>infos := (infos m2)(chunknum := b_and_s)\<rparr>))))))"

definition huge_free :: "addr \<Rightarrow> 'a sm_mem_scheme \<Rightarrow> 'a sm_mem_scheme res" where
  "huge_free p m =
     (let p1 = p AND NOT 4095 in
      c_assert (p1 AND (chunksize - 1) = 0)
        (let cn = address_2_chunknumber p1 in
         c_assert (cn \<noteq> 0)
           (let bnt = infos m cn in
            c_assert (bnt \<noteq> 0)
              (call (bin_from_bin_and_size bnt) (\<lambda>bin.
               call (bin_2_size bin) (\<lambda>siz.
               let csiz = ucast (ceil siz chunksize) :: u32 in
               call (hyperceil (ucast csiz)) (\<lambda>hceil.
               let hlog = lg_of_power_of_two hceil in
               c_assert (unat hlog < log_max_chunknumber)
                 (case os_madvise p1 siz MADV_DONTNEED m of (r, m1) \<Rightarrow>
                  c_assert (r = 0)
                 (put_cached_power_of_two_chunks cn hlog m1)))))))))"

section \<open>Blocks of chunks from the operating system\<close>

definition same_book :: "'a sm_mem_scheme \<Rightarrow> 'a sm_mem_scheme \<Rightarrow> bool" where
  "same_book m m' \<longleftrightarrow> infos m' = infos m \<and> free_chunks m' = free_chunks m \<and> sm_mem.more m' = sm_mem.more m"

lemma pages_of_aligned:
  assumes "unat p = 4096 * a" "unat sz = 4096 * k"
  shows "pages_of p sz = {a..<a + k}"
proof -
  have "(4096 * a + 4096 * k + 4095) div 4096 = a + k" by simp
  then show ?thesis using assms by (simp add: pages_of_def)
qed

lemma mmap_size_cases:
  assumes "unat sz = 4096 * k"
  shows "\<exists>r m'. mmap_size sz m = (r, m') \<and> same_book m m' \<and>
    (r = NULL \<and> os_pages m' = os_pages m \<or>
     (\<exists>a. unat r = 4096 * a \<and> 0 < a \<and> 4096 * (a + k) \<le> 2 ^ 47 \<and> {a..<a + k} \<inter> os_pages m = {} \<and> os_pages m' = os_pages m \<union> {a..<a + k}))"
proof (cases "os_script m")
  case (Cons p ps)
  show ?thesis
  proof (cases "mmap_answer p sz (os_pages m)")
    case True
    then obtain a where a: "unat p = 4096 * a" by (auto simp: mmap_answer_def mod_0_imp_dvd dvd_def)
    have "p \<noteq> 0" using True by (simp add: mmap_answer_def)
    then have "0 < a" using a by (metis gr0I mult_0_right unat_eq_zero)
    then show ?thesis using True a assms Cons
      by (auto simp: mmap_size_def os_mmap_def same_book_def mmap_answer_def pages_of_aligned [OF a assms])
  qed (auto simp: mmap_size_def os_mmap_def same_book_def Cons)
qed (auto simp: mmap_size_def os_mmap_def same_book_def)

lemma unmap_aligned:
  assumes "unat p = 4096 * a" "unat sz = 4096 * k"
  shows "\<exists>m'. unmap p sz m = Ok m' \<and> same_book m m' \<and> os_pages m' = os_pages m - {a..<a + k}"
proof (cases "sz > 0")
  case True
  then show ?thesis using assms by (auto simp: unmap_def os_munmap_def same_book_def pages_of_aligned [OF assms])
next
  case False
  then have "k = 0" using assms(2) by (simp add: word_gt_0)
  then show ?thesis using False by (auto simp: unmap_def same_book_def)
qed

text \<open>\<open>r\<close> is a block of \<open>k\<close> pages, aligned to a chunk, that was not mapped before and is the only new mapping.\<close>

definition new_block :: "addr \<Rightarrow> nat \<Rightarrow> 'a sm_mem_scheme \<Rightarrow> 'a sm_mem_scheme \<Rightarrow> bool" where
  "new_block r k m m' \<longleftrightarrow> (\<exists>c. unat r = 2 ^ 21 * c \<and> 0 < c \<and> 2 ^ 21 * c + 4096 * k \<le> 2 ^ 47 \<and>
     {512 * c..<512 * c + k} \<inter> os_pages m = {} \<and> os_pages m' = os_pages m \<union> {512 * c..<512 * c + k})"

lemma word_chunks:
  assumes "unat n < 2 ^ 40"
  shows "unat (n * chunksize) = 4096 * (512 * unat n)" "unat ((1 + n) * chunksize) = 4096 * (512 * Suc (unat n))"
proof -
  have "n * chunksize = of_nat (4096 * (512 * unat n))" "(1 + n) * chunksize = of_nat (4096 * (512 * Suc (unat n)))"
    by (simp_all add: chunksize_value algebra_simps)
  moreover have "4096 * (512 * unat n) < 2 ^ 64" "4096 * (512 * Suc (unat n)) < 2 ^ 64" using assms by simp_all
  ultimately show "unat (n * chunksize) = 4096 * (512 * unat n)" "unat ((1 + n) * chunksize) = 4096 * (512 * Suc (unat n))"
    by (simp_all only: unat_small)
qed

lemma chunk_offset:
  assumes "unat r = 4096 * a"
  shows "unat (offset_in_chunk r) = 4096 * (a mod 512)"
proof -
  have "unat (offset_in_chunk r) = 4096 * a mod (4096 * 512)" using assms by (simp add: offset_in_chunk_def chunksize_value unat_mod)
  then show ?thesis by (simp only: mult_mod_right)
qed

lemma same_book_trans: "same_book m m1 \<Longrightarrow> same_book m1 m2 \<Longrightarrow> same_book m m2"
  by (simp add: same_book_def)

lemma same_book_refl: "same_book m m"
  by (simp add: same_book_def)

lemma unat_plus_pages:
  fixes p q :: u64
  assumes "unat p = 4096 * a" "unat q = 4096 * b" "4096 * (a + b) < 2 ^ 64"
  shows "unat (p + q) = 4096 * (a + b)"
proof -
  have "p + q = of_nat (4096 * (a + b))" using assms(1,2) by (metis distrib_left of_nat_add of_nat_unat ucast_id)
  then show ?thesis using unat_small(2) [OF assms(3)] by (simp only:)
qed

lemma trim_pages:
  fixes a b c e :: nat
  assumes "{a..<e} \<inter> U = {}" "a \<le> b" "b \<le> c" "c \<le> e"
  shows "U \<union> {a..<e} - {a..<b} - {c..<e} = U \<union> {b..<c}" "{b..<c} \<inter> U = {}"
proof -
  have "\<not> (a \<le> x \<and> x < e)" if "x \<in> U" for x using assms(1) that by (auto simp: disjoint_iff)
  then show "U \<union> {a..<e} - {a..<b} - {c..<e} = U \<union> {b..<c}" "{b..<c} \<inter> U = {}" using assms(2-) by fastforce+
qed

lemma chunk_create_slow_block:
  assumes n: "unat n < 2 ^ 40"
  shows "\<exists>r m'. chunk_create_slow n m = Ok (r, m') \<and> same_book m m' \<and>
    (r = NULL \<and> os_pages m' = os_pages m \<or> new_block r (512 * unat n) m m')"
proof -
  let ?k = "512 * Suc (unat n)"
  obtain p m1 where p: "mmap_size ((1 + n) * chunksize) m = (p, m1)" "same_book m m1" and
    cases: "p = NULL \<and> os_pages m1 = os_pages m \<or> (\<exists>a. unat p = 4096 * a \<and> 0 < a \<and> 4096 * (a + ?k) \<le> 2 ^ 47 \<and>
       {a..<a + ?k} \<inter> os_pages m = {} \<and> os_pages m1 = os_pages m \<union> {a..<a + ?k})"
    using mmap_size_cases [OF word_chunks(2) [OF n], of m] by blast
  show ?thesis
  proof (cases "p = NULL")
    case True
    then have "os_pages m1 = os_pages m" using cases by auto
    then show ?thesis using True p by (simp add: chunk_create_slow_def)
  next
    case False
    then obtain a where a: "unat p = 4096 * a" "0 < a" "4096 * (a + ?k) \<le> 2 ^ 47" "{a..<a + ?k} \<inter> os_pages m = {}"
      "os_pages m1 = os_pages m \<union> {a..<a + ?k}" using cases by auto
    note nb = word_chunks(1) [OF n]
    have off: "unat (offset_in_chunk p) = 4096 * (a mod 512)" by (rule chunk_offset [OF a(1)])
    show ?thesis
    proof (cases "offset_in_chunk p = 0")
      case True
      then have "a mod 512 = 0" using off by simp
      then obtain c where c: "a = 512 * c" by (auto simp: mod_eq_0_iff_dvd dvd_def)
      have "unat (p + n * chunksize) = 4096 * (a + 512 * unat n)" using a(3) by (intro unat_plus_pages [OF a(1) nb]) simp
      moreover have "unat chunksize = 4096 * 512" by (simp add: chunksize_value)
      ultimately obtain m2 where m2: "unmap (p + n * chunksize) chunksize m1 = Ok m2" "same_book m1 m2"
        "os_pages m2 = os_pages m1 - {a + 512 * unat n..<a + 512 * unat n + 512}" using unmap_aligned by blast
      have e: "a + 512 * unat n + 512 = a + ?k" by simp
      have "os_pages m2 = os_pages m \<union> {a..<a + 512 * unat n}" "{a..<a + 512 * unat n} \<inter> os_pages m = {}"
        using trim_pages [OF a(4), of a "a + 512 * unat n"] unfolding m2(3) a(5) e by simp_all
      then have "new_block p (512 * unat n) m m2" unfolding new_block_def using a(1,2,3) c by (intro exI [of _ c]) simp
      then show ?thesis using p m2 True False same_book_trans by (simp add: chunk_create_slow_def) blast
    next
      case off0: False
      define j where "j = a mod 512"
      define c where "c = Suc (a div 512)"
      have "unat (offset_in_chunk p) \<noteq> 0" using off0 by (metis unat_eq_zero)
      then have j: "j < 512" "0 < j" using off by (auto simp: j_def intro: gr0I)
      have "a = 512 * (a div 512) + j" by (simp add: j_def)
      then obtain q where q: "a div 512 = q" "a = 512 * q + j" by blast
      then have ac: "a + (512 - j) = 512 * c" using j(1) unfolding c_def q(1) by (simp only: q(2)) simp
      let ?l = "chunksize - offset_in_chunk p"
      have oj: "unat (offset_in_chunk p) = 4096 * j" "unat chunksize = 4096 * 512" using off by (simp_all add: j_def chunksize_value)
      then have "offset_in_chunk p \<le> chunksize" using j(1) by (simp add: word_le_nat_alt)
      then have l: "unat ?l = 4096 * (512 - j)" using oj by (simp add: unat_sub diff_mult_distrib2)
      obtain m2 where m2: "unmap p ?l m1 = Ok m2" "same_book m1 m2" "os_pages m2 = os_pages m1 - {a..<a + (512 - j)}"
        using unmap_aligned [OF a(1) l] by blast
      have f: "unat (p + ?l) = 4096 * (512 * c)" using unat_plus_pages [OF a(1) l] a(3) ac by simp
      have "unat (p + ?l + n * chunksize) = 4096 * (512 * c + 512 * unat n)"
        using a(3) ac by (intro unat_plus_pages [OF f nb]) simp
      then obtain m3 where m3: "unmap (p + ?l + n * chunksize) (offset_in_chunk p) m2 = Ok m3" "same_book m2 m3"
        "os_pages m3 = os_pages m2 - {512 * c + 512 * unat n..<512 * c + 512 * unat n + j}"
        using unmap_aligned [OF _ off [folded j_def]] by blast
      have e: "512 * c + 512 * unat n + j = a + ?k" "a + (512 - j) = 512 * c" using ac j by auto
      have ac0: "a \<le> 512 * c" "512 * c \<le> a + 512" using ac j by linarith+
      have "os_pages m3 = os_pages m \<union> {512 * c..<512 * c + 512 * unat n}" "{512 * c..<512 * c + 512 * unat n} \<inter> os_pages m = {}"
        using trim_pages [OF a(4), of "512 * c" "512 * c + 512 * unat n"] ac0 unfolding m3(3) m2(3) a(5) e by simp_all
      then have "new_block (p + ?l) (512 * unat n) m m3"
        unfolding new_block_def using f a(3) ac by (intro exI [of _ c]) (simp add: c_def)
      moreover have "p + ?l \<noteq> NULL" using f by (auto simp: c_def)
      moreover have "same_book m m3" using p(2) m2(2) m3(2) by (simp add: same_book_def)
      ultimately show ?thesis using p(1) m2(1) m3(1) off0 False by (simp add: chunk_create_slow_def Let_def)
    qed
  qed
qed

lemma aligned_block:
  assumes n: "unat n < 2 ^ 40"
  shows "\<exists>r m'. mmap_chunk_aligned_block n m = Ok (r, m') \<and> same_book m m' \<and>
    (r = NULL \<and> os_pages m' = os_pages m \<or> new_block r (512 * unat n) m m')"
proof -
  let ?k = "512 * unat n"
  note nb = word_chunks(1) [OF n]
  obtain p m1 where p: "mmap_size (n * chunksize) m = (p, m1)" "same_book m m1" and
    cases: "p = NULL \<and> os_pages m1 = os_pages m \<or> (\<exists>a. unat p = 4096 * a \<and> 0 < a \<and> 4096 * (a + ?k) \<le> 2 ^ 47 \<and>
       {a..<a + ?k} \<inter> os_pages m = {} \<and> os_pages m1 = os_pages m \<union> {a..<a + ?k})"
    using mmap_size_cases [OF nb, of m] by blast
  show ?thesis
  proof (cases "p = NULL")
    case True
    then have "os_pages m1 = os_pages m" using cases by auto
    then show ?thesis using True p by (simp add: mmap_chunk_aligned_block_def)
  next
    case False
    then obtain a where a: "unat p = 4096 * a" "0 < a" "4096 * (a + ?k) \<le> 2 ^ 47" "{a..<a + ?k} \<inter> os_pages m = {}"
      "os_pages m1 = os_pages m \<union> {a..<a + ?k}" using cases by auto
    have off: "unat (offset_in_chunk p) = 4096 * (a mod 512)" by (rule chunk_offset [OF a(1)])
    show ?thesis
    proof (cases "offset_in_chunk p = 0")
      case True
      then have "a mod 512 = 0" using off by simp
      then obtain c where c: "a = 512 * c" by (auto simp: mod_eq_0_iff_dvd dvd_def)
      then have "new_block p ?k m m1" unfolding new_block_def using a by (intro exI [of _ c]) simp
      then show ?thesis using p True False by (simp add: mmap_chunk_aligned_block_def)
    next
      case off0: False
      obtain m2 where m2: "unmap p (n * chunksize) m1 = Ok m2" "same_book m1 m2" "os_pages m2 = os_pages m1 - {a..<a + ?k}"
        using unmap_aligned [OF a(1) nb] by blast
      have pg: "os_pages m2 = os_pages m" using a(4) unfolding m2(3) a(5) by auto
      obtain r m' where r: "chunk_create_slow n m2 = Ok (r, m')" "same_book m2 m'"
        "r = NULL \<and> os_pages m' = os_pages m2 \<or> new_block r ?k m2 m'" using chunk_create_slow_block [OF n, of m2] by blast
      moreover have "same_book m m'" using p(2) m2(2) r(2) by (simp add: same_book_def)
      ultimately show ?thesis using p(1) m2(1) off0 False pg by (simp add: mmap_chunk_aligned_block_def new_block_def)
    qed
  qed
qed

text \<open>
  C36. \<open>mmap_chunk_aligned_block\<close> never fails an assertion and leaks nothing: it either returns NULL and leaves the
  mapping as it was, or returns a block of the requested number of chunks, aligned to a chunk and within user space, that
  was not mapped before, and maps exactly the pages of that block.
\<close>

theorem mmap_chunk_aligned_block_exact:
  assumes n: "n < 2 ^ 40"
  shows "\<exists>r m'. mmap_chunk_aligned_block n m = Ok (r, m') \<and> same_book m m' \<and>
    (r = NULL \<and> os_pages m' = os_pages m \<or> new_block r (512 * unat n) m m')"
  using aligned_block [of n m] n by (simp add: word_less_nat_alt)

section \<open>The lists of free blocks\<close>

text \<open>Following the links \<open>i\<close> from \<open>h\<close> visits exactly \<open>xs\<close> and ends at 0.\<close>

fun clist :: "('a :: zero \<Rightarrow> 'a) \<Rightarrow> 'a \<Rightarrow> 'a list \<Rightarrow> bool" where
  "clist i h [] \<longleftrightarrow> h = 0"
| "clist i h (x # xs) \<longleftrightarrow> h = x \<and> x \<noteq> 0 \<and> clist i (i x) xs"

lemma clist_frame: "clist i h xs \<Longrightarrow> (\<And>x. x \<in> set xs \<Longrightarrow> j x = i x) \<Longrightarrow> clist j h xs"
  by (induction xs arbitrary: h) auto

text \<open>Block \<open>(c, l)\<close>: the \<open>2 ^ l\<close> chunks from chunk number \<open>c\<close> on.\<close>

definition ivl :: "nat \<times> nat \<Rightarrow> nat set" where
  "ivl b = {fst b..<fst b + 2 ^ snd b}"

definition block_ok :: "nat \<times> nat \<Rightarrow> 'a sm_mem_scheme \<Rightarrow> bool" where
  "block_ok b m \<longleftrightarrow> snd b < 27 \<and> 0 < fst b \<and> fst b + 2 ^ snd b \<le> 2 ^ 26 \<and> 2 ^ snd b dvd fst b \<and>
     {512 * fst b..<512 * (fst b + 2 ^ snd b)} \<subseteq> os_pages m"

definition blocks_ok :: "(nat \<times> nat) set \<Rightarrow> 'a sm_mem_scheme \<Rightarrow> bool" where
  "blocks_ok S m \<longleftrightarrow> (\<forall>b\<in>S. block_ok b m) \<and> (\<forall>a\<in>S. \<forall>b\<in>S. a \<noteq> b \<longrightarrow> ivl a \<inter> ivl b = {})"

definition free_ok :: "(nat \<times> nat) set \<Rightarrow> 'a sm_mem_scheme \<Rightarrow> bool" where
  "free_ok F m \<longleftrightarrow> length (free_chunks m) = 27 \<and>
     (\<forall>l<27. \<exists>xs. clist (infos m) (free_chunks m ! l) xs \<and> distinct xs \<and> unat ` set xs = {c. (c, l) \<in> F})"

definition bins_ok :: "(nat \<times> nat) set \<Rightarrow> 'a sm_mem_scheme \<Rightarrow> bool" where
  "bins_ok A m \<longleftrightarrow> (\<forall>b\<in>A. bin_from_bin_and_size (infos m (of_nat (fst b))) = Ok (of_nat (47 + snd b)))"

definition heap_inv :: "(nat \<times> nat) set \<Rightarrow> (nat \<times> nat) set \<Rightarrow> 'a sm_mem_scheme \<Rightarrow> bool" where
  "heap_inv A F m \<longleftrightarrow> blocks_ok (A \<union> F) m \<and> A \<inter> F = {} \<and> free_ok F m \<and> bins_ok A m"

lemma ivl_start: "fst b \<in> ivl b"
  by (simp add: ivl_def)

lemma unat_chunk: "c < 2 ^ 26 \<Longrightarrow> unat (of_nat c :: u32) = c"
  by (rule unat_small) simp

lemma block_ok_less:
  assumes "block_ok b m"
  shows "fst b < 2 ^ 26"
proof -
  have "fst b + 2 ^ snd b \<le> 2 ^ 26" "(0 :: nat) < 2 ^ snd b" using assms by (simp_all add: block_ok_def)
  then show ?thesis by linarith
qed

lemma put_cached:
  assumes "unat l < length (free_chunks m)"
  shows "put_cached_power_of_two_chunks cn l m =
    Ok (m\<lparr>infos := (infos m)(cn := free_chunks m ! unat l), free_chunks := (free_chunks m)[unat l := cn]\<rparr>)"
  unfolding put_cached_power_of_two_chunks_def
  by (rule cloop_Done) (use assms in \<open>simp add: put_cached_body_def free_chunks_at_def\<close>)

lemma put_block:
  assumes inv: "heap_inv A F m" and b: "block_ok (c, l) m" and dis: "\<And>a. a \<in> A \<union> F \<Longrightarrow> ivl a \<inter> ivl (c, l) = {}"
  shows "\<exists>m'. put_cached_power_of_two_chunks (of_nat c) (of_nat l) m = Ok m' \<and> heap_inv A (insert (c, l) F) m' \<and> os_pages m' = os_pages m"
proof -
  let ?cn = "of_nat c :: u32"
  have l: "l < 27" "unat (of_nat l :: u32) = l" and c: "0 < c" "c < 2 ^ 26"
    using b block_ok_less [OF b] by (auto simp: block_ok_def unat_small)
  have cn: "unat ?cn = c" "?cn \<noteq> 0" using unat_chunk [OF c(2)] c(1) by auto
  have len: "length (free_chunks m) = 27" using inv by (simp add: heap_inv_def free_ok_def)
  let ?m = "m\<lparr>infos := (infos m)(?cn := free_chunks m ! l), free_chunks := (free_chunks m)[l := ?cn]\<rparr>"
  have run: "put_cached_power_of_two_chunks ?cn (of_nat l) m = Ok ?m" using put_cached [of "of_nat l" m ?cn] l len by simp
  have start: "fst a \<noteq> c" if "a \<in> A \<union> F" for a using dis [OF that] ivl_start [of a] ivl_start [of "(c, l)"] by auto
  have fresh: "(c, l) \<notin> A \<union> F" using start by fastforce
  have "\<exists>xs. clist (infos ?m) (free_chunks ?m ! j) xs \<and> distinct xs \<and> unat ` set xs = {x. (x, j) \<in> insert (c, l) F}" if j: "j < 27" for j
  proof -
    obtain xs where xs: "clist (infos m) (free_chunks m ! j) xs" "distinct xs" "unat ` set xs = {x. (x, j) \<in> F}"
      using inv j by (auto simp: heap_inv_def free_ok_def)
    have nin: "?cn \<notin> set xs"
    proof
      assume "?cn \<in> set xs"
      then have "unat ?cn \<in> unat ` set xs" by (rule imageI)
      then have "(c, j) \<in> F" using xs(3) cn(1) by auto
      then show False using start by fastforce
    qed
    then have cl: "clist (infos ?m) (free_chunks m ! j) xs" by (intro clist_frame [OF xs(1)]) auto
    show ?thesis
    proof (cases "j = l")
      case True
      have "unat ` set (?cn # xs) = {x. (x, j) \<in> insert (c, l) F}" using xs(3) cn(1) True by auto
      moreover have "clist (infos ?m) (free_chunks ?m ! j) (?cn # xs)" using cl cn(2) True len j by simp
      ultimately show ?thesis using xs(2) nin by (intro exI [of _ "?cn # xs"]) simp
    next
      case False
      then show ?thesis using cl xs(2,3) by (intro exI [of _ xs]) auto
    qed
  qed
  then have "free_ok (insert (c, l) F) ?m" using len by (simp add: free_ok_def)
  moreover have "bins_ok A ?m"
  proof -
    have "of_nat (fst a) \<noteq> ?cn" if "a \<in> A" for a
    proof -
      have "block_ok a m" using inv that by (auto simp: heap_inv_def blocks_ok_def)
      then have "fst a < 2 ^ 26" by (rule block_ok_less)
      then show ?thesis using start [of a] that unat_chunk [of "fst a"] cn(1) by auto
    qed
    then show ?thesis using inv by (simp add: heap_inv_def bins_ok_def)
  qed
  moreover have "blocks_ok (A \<union> insert (c, l) F) ?m"
    using inv b dis by (auto simp: heap_inv_def blocks_ok_def block_ok_def)
  ultimately show ?thesis using run inv fresh by (auto simp: heap_inv_def)
qed

lemma heap_inv_other: "heap_inv A F m \<Longrightarrow> same_book m m' \<Longrightarrow> os_pages m \<subseteq> os_pages m' \<Longrightarrow> heap_inv A F m'"
  by (auto simp: heap_inv_def blocks_ok_def block_ok_def free_ok_def bins_ok_def same_book_def)

text \<open>A block \<open>b\<close> that is neither allocated nor in a list, beside the others.\<close>

definition loose :: "nat \<times> nat \<Rightarrow> (nat \<times> nat) set \<Rightarrow> 'a sm_mem_scheme \<Rightarrow> bool" where
  "loose b S m \<longleftrightarrow> block_ok b m \<and> (\<forall>a\<in>S. ivl a \<inter> ivl b = {})"

lemma blocks_ok_mono:
  assumes "blocks_ok S m" "T \<subseteq> S" "os_pages m \<subseteq> os_pages m'"
  shows "blocks_ok T m'"
  unfolding blocks_ok_def
proof (intro conjI ballI impI)
  fix a b assume "a \<in> T" "b \<in> T" "a \<noteq> b"
  then have "a \<in> S" "b \<in> S" using assms(2) by auto
  then show "ivl a \<inter> ivl b = {}" using assms(1) \<open>a \<noteq> b\<close> unfolding blocks_ok_def by blast
next
  fix b assume "b \<in> T"
  then have "block_ok b m" using assms(1,2) by (auto simp: blocks_ok_def)
  then show "block_ok b m'" using assms(3) by (auto simp: block_ok_def)
qed

lemma blocks_ok_loose:
  assumes "blocks_ok S m" "b \<in> S" "b \<notin> T" "T \<subseteq> S" "os_pages m' = os_pages m"
  shows "loose b T m'"
proof -
  have "ivl a \<inter> ivl b = {}" if "a \<in> T" for a
  proof -
    have "a \<in> S" "a \<noteq> b" using that assms by auto
    then show ?thesis using assms(1,2) unfolding blocks_ok_def by blast
  qed
  then show ?thesis using assms(1,2,5) by (simp add: loose_def blocks_ok_def block_ok_def)
qed

lemma get_cached:
  assumes inv: "heap_inv A F m" and l: "l < 27"
  shows "\<exists>r m'. get_cached_power_of_two_chunks (of_nat l) m = Ok (r, m') \<and> os_pages m' = os_pages m \<and>
    (r = NULL \<and> m' = m \<or> (\<exists>c. unat r = c * 2 ^ 21 \<and> 0 < c \<and> (c, l) \<in> F \<and> heap_inv A (F - {(c, l)}) m' \<and> loose (c, l) (A \<union> (F - {(c, l)})) m'))"
proof -
  have len: "length (free_chunks m) = 27" using inv by (simp add: heap_inv_def free_ok_def)
  have ul: "unat (of_nat l :: u32) = l" using l by (simp add: unat_small)
  obtain xs where xs: "clist (infos m) (free_chunks m ! l) xs" "distinct xs" "unat ` set xs = {c. (c, l) \<in> F}"
    using inv l by (auto simp: heap_inv_def free_ok_def)
  show ?thesis
  proof (cases xs)
    case Nil
    then have "free_chunks m ! l = 0" using xs(1) by simp
    then show ?thesis by (simp add: get_cached_power_of_two_chunks_def free_chunks_at_def len l ul)
  next
    case (Cons r ys)
    then have r: "free_chunks m ! l = r" "r \<noteq> 0" "clist (infos m) (infos m r) ys" "distinct ys" "r \<notin> set ys" using xs by auto
    let ?c = "unat r" and ?m = "m\<lparr>free_chunks := (free_chunks m)[l := infos m r]\<rparr>"
    have run: "get_cached_power_of_two_chunks (of_nat l) m = Ok (ucast r * chunksize, ?m)"
      using r by (simp add: get_cached_power_of_two_chunks_def do_get_from_free_chunks_def free_chunks_at_def len l ul)
    have cF: "(?c, l) \<in> F" using xs(3) Cons by auto
    have c0: "0 < ?c" using r(2) by (simp add: unat_gt_0)
    have b: "block_ok (?c, l) m" using inv cF by (auto simp: heap_inv_def blocks_ok_def)
    have "ucast r * chunksize = (of_nat (?c * 2 ^ 21) :: u64)" by (simp add: chunksize_value)
    moreover have "?c * 2 ^ 21 < 2 ^ 64" using block_ok_less [OF b] by simp
    ultimately have a: "unat (ucast r * chunksize) = ?c * 2 ^ 21" by (metis unat_small(2))
    have "free_ok (F - {(?c, l)}) ?m"
    proof -
      have "?c \<notin> unat ` set ys" using r(5) by (metis imageE word_unat_eq_iff)
      then have "{c. (c, l) \<in> F} - {?c} = unat ` set ys" unfolding xs(3) [symmetric] Cons by simp
      moreover have "{c. (c, l) \<in> F - {(?c, l)}} = {c. (c, l) \<in> F} - {?c}" by auto
      ultimately have "unat ` set ys = {c. (c, l) \<in> F - {(?c, l)}}" by (simp only:)
      then have "\<exists>zs. clist (infos ?m) (free_chunks ?m ! j) zs \<and> distinct zs \<and> unat ` set zs = {c. (c, j) \<in> F - {(?c, l)}}" if "j < 27" for j
        using inv that r(3,4) len by (cases "j = l") (auto simp: heap_inv_def free_ok_def intro!: exI [of _ ys])
      then show ?thesis using len by (simp add: free_ok_def)
    qed
    moreover have "blocks_ok (A \<union> (F - {(?c, l)})) ?m" by (rule blocks_ok_mono [of "A \<union> F" m]) (use inv in \<open>auto simp: heap_inv_def\<close>)
    moreover have "bins_ok A ?m" "A \<inter> (F - {(?c, l)}) = {}" using inv by (auto simp: heap_inv_def bins_ok_def)
    moreover have "loose (?c, l) (A \<union> (F - {(?c, l)})) ?m"
      by (rule blocks_ok_loose [of "A \<union> F" m]) (use inv cF in \<open>auto simp: heap_inv_def\<close>)
    ultimately show ?thesis using run a c0 cF by (intro exI [of _ "ucast r * chunksize"] exI [of _ ?m]) (auto simp: heap_inv_def)
  qed
qed

section \<open>Splitting a block into pieces\<close>

lemma ffs_dvd:
  assumes "x \<noteq> 0"
  shows "2 ^ (builtin_ffs x - 1) dvd unat x" "0 < builtin_ffs x"
proof -
  define j where "j = length (takeWhile (\<lambda>i. \<not> bit x i) [0..<32])"
  have "\<not> bit x i" if "i < j" for i
  proof -
    have "takeWhile (\<lambda>i. \<not> bit x i) [0..<32] ! i = i" using that unfolding j_def
      by (metis add_0 length_takeWhile_le less_le_trans length_upt minus_nat.diff_0 nth_upt takeWhile_nth)
    then show ?thesis using that nth_mem [of i "takeWhile (\<lambda>i. \<not> bit x i) [0..<32]"] set_takeWhileD unfolding j_def by metis
  qed
  then have "take_bit j x = 0" by (intro bit_word_eqI) (auto simp: bit_simps)
  moreover have "unat (take_bit j x) = take_bit j (unat x)" by (rule unsigned_take_bit_eq)
  ultimately have "unat x mod 2 ^ j = 0" by (simp add: take_bit_eq_mod)
  then show "2 ^ (builtin_ffs x - 1) dvd unat x" "0 < builtin_ffs x" using assms by (simp_all add: builtin_ffs_def j_def mod_eq_0_iff_dvd)
qed

lemma shrink_bit_fits:
  assumes "c < e" "e \<le> 2 ^ 26" "b0 \<le> 26"
  shows "\<exists>b\<le>b0. shrink_bit (of_nat c) (of_nat e) b0 = Ok b \<and> c + 2 ^ b \<le> e"
  using assms(3)
proof (induction b0)
  have le: "(of_nat x > (of_nat e :: u32)) \<longleftrightarrow> x > e" if "x \<le> 2 ^ 28" for x
    using that assms(2) by (simp add: word_less_nat_alt unat_small)
  have p: "(2 :: nat) ^ b \<le> 2 ^ 26" if "b \<le> 26" for b using that by (intro power_increasing) auto
  {
    case 0
    have "of_nat c + 1 = (of_nat (c + 1) :: u32)" by simp
    then show ?case using le [of "c + 1"] assms(1,2) by (simp del: of_nat_add of_nat_Suc)
  next
    case (Suc b0)
    have "of_nat c + push_bit (Suc b0) 1 = (of_nat (c + 2 ^ Suc b0) :: u32)" by simp
    then show ?case using le [of "c + 2 ^ Suc b0"] Suc p [of "Suc b0"] assms(1,2)
      by (cases "c + 2 ^ Suc b0 > e") (auto simp del: of_nat_add power_Suc)
  }
qed

text \<open>The chunks from \<open>c\<close> up to \<open>e\<close> are mapped and in none of the blocks of \<open>S\<close>.\<close>

definition spare :: "nat \<Rightarrow> nat \<Rightarrow> (nat \<times> nat) set \<Rightarrow> 'a sm_mem_scheme \<Rightarrow> bool" where
  "spare c e S m \<longleftrightarrow> 0 < c \<and> c \<le> e \<and> e \<le> 2 ^ 26 \<and> {512 * c..<512 * e} \<subseteq> os_pages m \<and> (\<forall>a\<in>S. ivl a \<inter> {c..<e} = {})"

lemma spare_block:
  assumes "spare c e S m" "2 ^ b dvd c" "c + 2 ^ b \<le> e"
  shows "loose (c, b) S m" "spare (c + 2 ^ b) e (insert (c, b) S) m"
proof -
  have s: "0 < c" "e \<le> 2 ^ 26" "{512 * c..<512 * e} \<subseteq> os_pages m" "\<And>a. a \<in> S \<Longrightarrow> ivl a \<inter> {c..<e} = {}"
    using assms(1) by (auto simp: spare_def)
  have "(2 :: nat) ^ b < 2 ^ 27" using assms(3) s(1,2) by (simp add: less_le_trans)
  then have "b < 27" by (rule power_less_imp_less_exp [rotated]) simp
  moreover have "512 * (c + 2 ^ b) \<le> 512 * e" using assms(3) by (rule mult_le_mono2)
  then have "{512 * c..<512 * (c + 2 ^ b)} \<subseteq> os_pages m" using s(3) by (meson atLeastLessThan_subset_iff le_refl order_trans ivl_subset)
  ultimately have "block_ok (c, b) m" using s(1-3) assms(2,3) unfolding block_ok_def fst_conv snd_conv by (intro conjI) auto
  moreover have sub: "ivl (c, b) \<subseteq> {c..<e}" using assms(3) by (auto simp: ivl_def)
  ultimately show "loose (c, b) S m" using s(4) unfolding loose_def by blast
  have "ivl a \<inter> {c + 2 ^ b..<e} = {}" if "a \<in> insert (c, b) S" for a
  proof (cases "a = (c, b)")
    case False
    then have "ivl a \<inter> {c..<e} = {}" using that s(4) by auto
    then show ?thesis by (auto simp: disjoint_iff)
  qed (auto simp: ivl_def)
  moreover have "{512 * (c + 2 ^ b)..<512 * e} \<subseteq> {512 * c..<512 * e}" by auto
  ultimately show "spare (c + 2 ^ b) e (insert (c, b) S) m" using s(1-3) assms(3) unfolding spare_def by (meson add_pos_nonneg order_trans zero_le)
qed

lemma put_piece_step:
  assumes inv: "heap_inv A F m" and sp: "spare c e (A \<union> F \<union> X) m" and lt: "c < e"
  shows "\<exists>b m'. put_piece (of_nat c) (of_nat e) m = Ok (of_nat (c + 2 ^ b), m') \<and> 2 ^ b dvd c \<and> c + 2 ^ b \<le> e \<and>
    heap_inv A (insert (c, b) F) m' \<and> os_pages m' = os_pages m \<and> spare (c + 2 ^ b) e (insert (c, b) (A \<union> F \<union> X)) m' \<and> loose (c, b) (A \<union> F \<union> X) m"
proof -
  have c: "0 < c" "e \<le> 2 ^ 26" "c < 2 ^ 26" using sp lt by (auto simp: spare_def)
  have u: "unat (of_nat c :: u32) = c" by (rule unat_chunk [OF c(3)])
  then have nz: "(of_nat c :: u32) \<noteq> 0" using c(1) by auto
  define b0 where "b0 = builtin_ffs (of_nat c :: u32) - 1"
  have d: "2 ^ b0 dvd c" "0 < builtin_ffs (of_nat c :: u32)" using ffs_dvd [OF nz] by (simp_all add: u b0_def)
  then have "(2 :: nat) ^ b0 < 2 ^ 26" using c(1,3) by (meson dvd_imp_le le_less_trans)
  then have "b0 < 26" by (rule power_less_imp_less_exp [rotated]) simp
  then obtain b where b: "b \<le> b0" "shrink_bit (of_nat c) (of_nat e) b0 = Ok b" "c + 2 ^ b \<le> e"
    using shrink_bit_fits [OF lt c(2), of b0] by auto
  have bd: "2 ^ b dvd c" using b(1) d(1) by (meson dvd_trans le_imp_power_dvd)
  note sb = spare_block [OF sp bd b(3)]
  obtain m' where m': "put_cached_power_of_two_chunks (of_nat c) (of_nat b) m = Ok m'" "heap_inv A (insert (c, b) F) m'" "os_pages m' = os_pages m"
    using put_block [OF inv, of c b] sb(1) by (auto simp: loose_def)
  have "put_piece (of_nat c) (of_nat e) m = Ok (of_nat (c + 2 ^ b), m')"
    using d(2) b(2) m'(1) unfolding put_piece_def b0_def [symmetric] by simp
  moreover have "spare (c + 2 ^ b) e (insert (c, b) (A \<union> F \<union> X)) m'" using sb(2) m'(3) by (simp add: spare_def)
  ultimately show ?thesis using bd b(3) m' sb(1) by blast
qed

lemma and_aligned:
  assumes "k \<le> 26" "c < 2 ^ 26"
  shows "(of_nat c AND (of_nat (2 ^ k) - 1) :: u32) = 0 \<longleftrightarrow> 2 ^ k dvd c"
proof -
  have "(of_nat (2 ^ k) - 1 :: u32) = mask k" by (simp add: mask_eq_exp_minus_1)
  then have "(of_nat c AND (of_nat (2 ^ k) - 1) :: u32) = take_bit k (of_nat c)" by (simp only: take_bit_eq_mask)
  moreover have "unat (take_bit k (of_nat c :: u32)) = c mod 2 ^ k"
  proof -
    have "unat (take_bit k (of_nat c :: u32)) = take_bit k (unat (of_nat c :: u32))" by (rule unsigned_take_bit_eq)
    then show ?thesis by (simp only: unat_chunk [OF assms(2)]) (rule take_bit_eq_mod)
  qed
  ultimately show ?thesis by (metis mod_eq_0_iff_dvd unat_eq_zero)
qed

lemma less_chunk: "x \<le> 2 ^ 28 \<Longrightarrow> y \<le> 2 ^ 28 \<Longrightarrow> (of_nat x :: u32) < of_nat y \<longleftrightarrow> x < y"
  by (simp add: word_less_nat_alt unat_small)

lemma head_pieces:
  fixes m :: "'a sm_mem_scheme"
  assumes "heap_inv A F m" "spare c e (A \<union> F) m" and k: "k \<le> 26" and t: "c \<le> t" "2 ^ k dvd t" "t + 2 ^ k \<le> e"
  shows "\<exists>r c' F' m'. cloop (head_pieces_body (of_nat (2 ^ k)) (of_nat e)) (of_nat c, m) = Ok (r, of_nat (c' + 2 ^ k), m') \<and>
    unat r = c' * 2 ^ 21 \<and> heap_inv A F' m' \<and> loose (c', k) (A \<union> F') m' \<and> spare (c' + 2 ^ k) e (insert (c', k) (A \<union> F')) m'"
proof -
  let ?I = "\<lambda>s :: u32 \<times> 'a sm_mem_scheme. \<exists>c F m. s = (of_nat c, m) \<and> heap_inv A F m \<and> spare c e (A \<union> F) m \<and> c \<le> t"
  let ?Q = "\<lambda>(r, c1, m'). \<exists>c' F'. c1 = of_nat (c' + 2 ^ k) \<and> unat (r :: u64) = c' * 2 ^ 21 \<and> heap_inv A F' m' \<and>
    loose (c', k) (A \<union> F') m' \<and> spare (c' + 2 ^ k) e (insert (c', k) (A \<union> F')) m'"
  have "\<exists>x. cloop (head_pieces_body (of_nat (2 ^ k)) (of_nat e)) (of_nat c, m) = Ok x \<and> ?Q x"
  proof (rule cloop_total [where I = ?I and mu = "\<lambda>s. e - unat (fst s)"])
    show "?I (of_nat c, m)" using assms by blast
    fix s :: "u32 \<times> 'a sm_mem_scheme" assume "?I s"
    then obtain c F m where s: "s = (of_nat c, m)" "heap_inv A F m" "spare c e (A \<union> F) m" "c \<le> t" by blast
    have e: "0 < c" "e \<le> 2 ^ 26" using s(3) by (auto simp: spare_def)
    have "(0 :: nat) < 2 ^ k" by simp
    then have lt: "c < e" "c < 2 ^ 26" using s(4) t(3) e(2) by linarith+
    have go: "(of_nat c :: u32) < of_nat e" using lt e by (simp add: less_chunk)
    show "(\<exists>t. head_pieces_body (of_nat (2 ^ k)) (of_nat e) s = Ok (Again t) \<and> ?I t \<and> e - unat (fst t) < e - unat (fst s)) \<or>
      (\<exists>r. head_pieces_body (of_nat (2 ^ k)) (of_nat e) s = Ok (Done r) \<and> ?Q r)"
    proof (cases "2 ^ k dvd c")
      case True
      have "c + 2 ^ k \<le> e" using s(4) t(3) by linarith
      note sb = spare_block [OF s(3) True this]
      have "ucast (of_nat c :: u32) * chunksize = (of_nat (c * 2 ^ 21) :: u64)" using lt(2) by (simp add: chunksize_value ucast_small)
      moreover have "c * 2 ^ 21 < 2 ^ 64" using lt(2) by simp
      ultimately have "unat (ucast (of_nat c :: u32) * chunksize) = c * 2 ^ 21" by (metis unat_small(2))
      moreover have "head_pieces_body (of_nat (2 ^ k)) (of_nat e) s = Ok (Done (ucast (of_nat c :: u32) * chunksize, of_nat (c + 2 ^ k), m))"
        using True and_aligned [OF k lt(2)] go by (simp add: head_pieces_body_def s(1))
      ultimately show ?thesis using s(2) sb by blast
    next
      case False
      obtain b m' where b: "put_piece (of_nat c) (of_nat e) m = Ok (of_nat (c + 2 ^ b), m')" "2 ^ b dvd c" "c + 2 ^ b \<le> e"
        "heap_inv A (insert (c, b) F) m'" "spare (c + 2 ^ b) e (insert (c, b) (A \<union> F)) m'"
        using put_piece_step [OF s(2), of c e "{}"] s(3) lt(1) by auto
      have "b < k" using False b(2) by (meson dvd_trans le_imp_power_dvd not_le)
      then have "2 ^ b dvd t - c" using t(2) b(2) by (meson dvd_diff_nat dvd_trans le_imp_power_dvd less_imp_le)
      moreover have "c < t" using s(4) False t(2) by (metis le_neq_implies_less)
      ultimately have "c + 2 ^ b \<le> t" by (metis dvd_imp_le le_diff_conv2 less_imp_le zero_less_diff add.commute)
      moreover have "head_pieces_body (of_nat (2 ^ k)) (of_nat e) s = Ok (Again (of_nat (c + 2 ^ b), m'))"
        using False and_aligned [OF k lt(2)] go b(1) by (simp add: head_pieces_body_def s(1))
      moreover have "e - unat (of_nat (c + 2 ^ b) :: u32) < e - unat (of_nat c :: u32)"
      proof -
        have "c + 2 ^ b < 2 ^ 32" using b(3) e(2) by simp
        then have "unat (of_nat (c + 2 ^ b) :: u32) = c + 2 ^ b" by (rule unat_small)
        moreover have "e - (c + 2 ^ b) < e - c" using lt(1) by (intro diff_less_mono2) simp_all
        ultimately show ?thesis by (simp only: unat_chunk [OF lt(2)])
      qed
      moreover have "?I (of_nat (c + 2 ^ b), m')"
        using b(4,5) \<open>c + 2 ^ b \<le> t\<close> by (intro exI [of _ "c + 2 ^ b"] exI [of _ "insert (c, b) F"] exI [of _ m']) simp
      ultimately show ?thesis by (intro disjI1 exI [of _ "(of_nat (c + 2 ^ b), m')"] conjI) (simp_all only: s(1) fst_conv)
    qed
  qed
  then show ?thesis by auto
qed


lemma tail_pieces:
  fixes m :: "'a sm_mem_scheme"
  assumes "heap_inv A F m" "loose x (A \<union> F) m" "spare c e (insert x (A \<union> F)) m"
  shows "\<exists>F' m'. cloop (tail_pieces_body (of_nat e)) (of_nat c, m) = Ok m' \<and> heap_inv A F' m' \<and> loose x (A \<union> F') m'"
proof -
  let ?I = "\<lambda>s :: u32 \<times> 'a sm_mem_scheme. \<exists>c F m. s = (of_nat c, m) \<and> heap_inv A F m \<and> loose x (A \<union> F) m \<and> spare c e (insert x (A \<union> F)) m"
  let ?Q = "\<lambda>m'. \<exists>F'. heap_inv A F' m' \<and> loose x (A \<union> F') m'"
  have "\<exists>m'. cloop (tail_pieces_body (of_nat e)) (of_nat c, m) = Ok m' \<and> ?Q m'"
  proof (rule cloop_total [where I = ?I and mu = "\<lambda>s. e - unat (fst s)"])
    show "?I (of_nat c, m)" using assms by blast
    fix s :: "u32 \<times> 'a sm_mem_scheme" assume "?I s"
    then obtain c F m where s: "s = (of_nat c, m)" "heap_inv A F m" "loose x (A \<union> F) m" "spare c e (insert x (A \<union> F)) m" by blast
    have e: "0 < c" "c \<le> e" "e \<le> 2 ^ 26" using s(4) by (auto simp: spare_def)
    have go: "(of_nat c :: u32) < of_nat e \<longleftrightarrow> c < e" using e by (simp add: less_chunk)
    show "(\<exists>t. tail_pieces_body (of_nat e) s = Ok (Again t) \<and> ?I t \<and> e - unat (fst t) < e - unat (fst s)) \<or>
      (\<exists>r. tail_pieces_body (of_nat e) s = Ok (Done r) \<and> ?Q r)"
    proof (cases "c < e")
      case False
      then show ?thesis using go s(2,3) by (auto simp: tail_pieces_body_def s(1))
    next
      case True
      have lt: "c < 2 ^ 26" using True e(3) by linarith
      have "spare c e (A \<union> F \<union> {x}) m" using s(4) by simp
      then obtain b m' where b: "put_piece (of_nat c) (of_nat e) m = Ok (of_nat (c + 2 ^ b), m')" "c + 2 ^ b \<le> e"
        "heap_inv A (insert (c, b) F) m'" "os_pages m' = os_pages m" "spare (c + 2 ^ b) e (insert (c, b) (A \<union> F \<union> {x})) m'"
        "loose (c, b) (A \<union> F \<union> {x}) m"
        using put_piece_step [OF s(2), of c e "{x}"] True by blast
      have "tail_pieces_body (of_nat e) s = Ok (Again (of_nat (c + 2 ^ b), m'))"
        using True go b(1) by (simp add: tail_pieces_body_def s(1))
      moreover have "loose x (A \<union> insert (c, b) F) m'"
        using s(3) b(4,6) by (auto simp: loose_def block_ok_def)
      moreover have "spare (c + 2 ^ b) e (insert x (A \<union> insert (c, b) F)) m'" using b(5) by (simp add: insert_commute)
      moreover have "e - unat (of_nat (c + 2 ^ b) :: u32) < e - unat (of_nat c :: u32)"
      proof -
        have "c + 2 ^ b < 2 ^ 32" using b(2) e(3) by simp
        then have "unat (of_nat (c + 2 ^ b) :: u32) = c + 2 ^ b" by (rule unat_small)
        moreover have "e - (c + 2 ^ b) < e - c" using True by (intro diff_less_mono2) simp_all
        ultimately show ?thesis by (simp only: unat_chunk [OF lt])
      qed
      moreover have "?I (of_nat (c + 2 ^ b), m')"
        using b(3) calculation(2,3) by (intro exI [of _ "c + 2 ^ b"] exI [of _ "insert (c, b) F"] exI [of _ m']) simp
      ultimately show ?thesis by (intro disjI1 exI [of _ "(of_nat (c + 2 ^ b), m')"] conjI) (simp_all only: s(1) fst_conv)
    qed
  qed
  then show ?thesis by blast
qed

lemma new_block_spare:
  assumes nb: "new_block p (512 * n) m m2" and inv: "heap_inv A F m"
  shows "\<exists>c. p = of_nat (c * 2 ^ 21 + 0) \<and> unat p = c * 2 ^ 21 \<and> 0 < c \<and> c + n \<le> 2 ^ 26 \<and> spare c (c + n) (A \<union> F) m2"
proof -
  obtain c where c: "unat p = 2 ^ 21 * c" "0 < c" "2 ^ 21 * c + 4096 * (512 * n) \<le> 2 ^ 47"
    "{512 * c..<512 * c + 512 * n} \<inter> os_pages m = {}" "os_pages m2 = os_pages m \<union> {512 * c..<512 * c + 512 * n}"
    using nb by (auto simp: new_block_def)
  have le: "c + n \<le> 2 ^ 26" using c(3) by simp
  have "ivl a \<inter> {c..<c + n} = {}" if "a \<in> A \<union> F" for a
  proof -
    have pg: "{512 * fst a..<512 * (fst a + 2 ^ snd a)} \<subseteq> os_pages m"
      using inv that unfolding heap_inv_def blocks_ok_def block_ok_def by blast
    have False if "x \<in> ivl a" "x \<in> {c..<c + n}" for x
    proof -
      have "512 * x \<in> {512 * fst a..<512 * (fst a + 2 ^ snd a)}" "512 * x \<in> {512 * c..<512 * c + 512 * n}"
        using that by (auto simp: ivl_def)
      then show False using pg c(4) by blast
    qed
    then show ?thesis by blast
  qed
  moreover have "{512 * c..<512 * (c + n)} \<subseteq> os_pages m2" using c(5) by auto
  ultimately have "spare c (c + n) (A \<union> F) m2" using c(2) le by (simp add: spare_def)
  moreover have "p = of_nat (c * 2 ^ 21 + 0)" using c(1) by (metis add.right_neutral mult.commute of_nat_unat ucast_id)
  ultimately show ?thesis using c(1,2) le by (intro exI [of _ c]) (simp add: mult.commute)
qed

lemma pow32: "k \<le> 27 \<Longrightarrow> (2 :: nat) ^ k < 2 ^ 32"
  by (rule power_strict_increasing) auto

lemma get_power_of_two:
  fixes m :: "'a sm_mem_scheme"
  assumes inv: "heap_inv A F m" and k: "k \<le> 26"
  shows "\<exists>r F' m'. get_power_of_two_n_chunks (of_nat (2 ^ k)) m = Ok (r, m') \<and> heap_inv A F' m' \<and>
    (r = NULL \<or> (\<exists>c. unat r = c * 2 ^ 21 \<and> loose (c, k) (A \<union> F') m'))"
proof -
  let ?n = "of_nat (2 ^ k) :: u32"
  have "ucast ?n = (of_nat (2 ^ k) :: u64)" using k by (intro ucast_small pow32) simp
  then have lg: "lg_of_power_of_two (ucast ?n) = of_nat k" using k by (simp add: lg_power)
  obtain r m1 where r: "get_cached_power_of_two_chunks (of_nat k) m = Ok (r, m1)"
    "r = NULL \<and> m1 = m \<or> (\<exists>c. unat r = c * 2 ^ 21 \<and> 0 < c \<and> (c, k) \<in> F \<and> heap_inv A (F - {(c, k)}) m1 \<and> loose (c, k) (A \<union> (F - {(c, k)})) m1)"
    using get_cached [OF inv, of k] k by auto
  show ?thesis
  proof (cases "r = NULL")
    case False
    then show ?thesis using r unfolding get_power_of_two_n_chunks_def lg by auto
  next
    case True
    then have m1: "m1 = m" using r(2) by auto
    have "2 * ?n = of_nat (2 ^ Suc k)" by simp
    then have "ucast (2 * ?n) = (of_nat (2 ^ Suc k) :: u64)" using ucast_small(1) [OF pow32 [of "Suc k"]] k by (simp only:)
    moreover have "unat (of_nat (2 ^ Suc k) :: u64) = 2 ^ Suc k" using pow32 [of "Suc k"] k by (intro unat_small) simp
    ultimately have n2: "unat (ucast (2 * ?n) :: u64) = 2 ^ Suc k" by (simp only:)
    then have "unat (ucast (2 * ?n) :: u64) < 2 ^ 40" using pow32 [of "Suc k"] k by simp
    then obtain p m2 where p: "mmap_chunk_aligned_block (ucast (2 * ?n)) m = Ok (p, m2)" "same_book m m2"
      "p = NULL \<and> os_pages m2 = os_pages m \<or> new_block p (512 * 2 ^ Suc k) m m2"
      using aligned_block [of "ucast (2 * ?n)" m] n2 by auto
    have sub: "os_pages m \<subseteq> os_pages m2" using p(3) by (auto simp: new_block_def)
    have inv2: "heap_inv A F m2" by (rule heap_inv_other [OF inv p(2) sub])
    show ?thesis
    proof (cases "p = NULL")
      case pn: True
      then show ?thesis using r(1) True m1 p(1) inv2 unfolding get_power_of_two_n_chunks_def lg by auto
    next
      case pn: False
      then obtain c where c: "p = of_nat (c * 2 ^ 21 + 0)" "0 < c" "c + 2 ^ Suc k \<le> 2 ^ 26" "spare c (c + 2 ^ Suc k) (A \<union> F) m2"
        using p(3) new_block_spare [OF _ inv] by blast
      have "address_2_chunknumber p = of_nat c" by (rule chunk_split(2) [OF _ _ c(1)]) (use c(3) in simp_all)
      moreover have e: "of_nat c + 2 * ?n = of_nat (c + 2 ^ Suc k)" by simp
      define t where "t = 2 ^ k * ((c + 2 ^ k - 1) div 2 ^ k)"
      have t: "c \<le> t" "2 ^ k dvd t" "t + 2 ^ k \<le> c + 2 ^ Suc k"
      proof -
        have "c + 2 ^ k - 1 = t + (c + 2 ^ k - 1) mod 2 ^ k" by (simp add: t_def)
        moreover have "(c + 2 ^ k - 1) mod 2 ^ k < 2 ^ k" by simp
        moreover have "(2 :: nat) ^ Suc k = 2 ^ k + 2 ^ k" by simp
        ultimately show "c \<le> t" "t + 2 ^ k \<le> c + 2 ^ Suc k" using c(2) by linarith+
      qed (simp add: t_def)
      obtain r' c' F' m' where h: "cloop (head_pieces_body ?n (of_nat (c + 2 ^ Suc k))) (of_nat c, m2) = Ok (r', of_nat (c' + 2 ^ k), m')"
        "unat r' = c' * 2 ^ 21" "heap_inv A F' m'" "loose (c', k) (A \<union> F') m'" "spare (c' + 2 ^ k) (c + 2 ^ Suc k) (insert (c', k) (A \<union> F')) m'"
        using head_pieces [OF inv2 c(4) k t] by blast
      obtain F2 m3 where tl: "cloop (tail_pieces_body (of_nat (c + 2 ^ Suc k))) (of_nat (c' + 2 ^ k), m') = Ok m3" "heap_inv A F2 m3"
        "loose (c', k) (A \<union> F2) m3" using tail_pieces [OF h(3,4,5)] by blast
      have "r' \<noteq> NULL" using h(2) tl(3) by (auto simp: loose_def block_ok_def)
      then have "get_power_of_two_n_chunks ?n m = Ok (r', m3)"
        using r(1) True m1 p(1) pn calculation h(1) tl(1) unfolding get_power_of_two_n_chunks_def lg Let_def by (simp only: e call_simps) simp
      then show ?thesis using tl(2,3) h(2) by blast
    qed
  qed
qed

section \<open>Huge objects\<close>

lemma huge_class:
  assumes "sz \<le> 2 ^ 47"
  shows "\<exists>h k. hyperceil sz = Ok h \<and> max 1 (h div chunksize) = 2 ^ k \<and> k \<le> 26 \<and> unat sz \<le> 2 ^ (21 + k) \<and>
    (k = 0 \<or> 2 ^ (20 + k) < unat sz) \<and> unat h dvd 2 ^ (21 + k)"
proof (cases "unat sz \<le> 1")
  case True
  then have "sz \<le> 1" by (simp add: word_le_nat_alt)
  moreover have "max 1 (1 div chunksize) = 2 ^ 0" by (simp add: chunksize_value)
  ultimately show ?thesis using True by (intro exI [of _ 1] exI [of _ 0]) (simp add: hyperceil_def)
next
  case False
  then obtain j where "2 ^ j \<le> unat sz - 1" "unat sz - 1 < 2 ^ Suc j" using log_ex [of "unat sz - 1"] by auto
  then have j: "2 ^ j < unat sz" "unat sz \<le> 2 ^ Suc j" using False by linarith+
  have "unat sz \<le> 2 ^ 47" using assms power_unat [of 47] by (simp add: word_le_nat_alt)
  then have "(2 :: nat) ^ j < 2 ^ 47" using j(1) by linarith
  then have j47: "j < 47" using power_less_imp_less_exp [of "2 :: nat" j 47] by simp
  have h: "hyperceil sz = Ok (2 ^ Suc j)" using j j47 by (intro hyperceil_eq) auto
  have u: "unat (2 ^ Suc j :: u64) = 2 ^ Suc j" using j47 by (intro power_unat) simp
  have dv: "unat (2 ^ Suc j div chunksize :: u64) = 2 ^ Suc j div 2 ^ 21"
    using u by (simp only: unat_div chunksize_value) simp
  show ?thesis
  proof (cases "j < 20")
    case True
    then have "(2 :: nat) ^ Suc j < 2 ^ 21" by (intro power_strict_increasing) auto
    then have "unat (2 ^ Suc j div chunksize :: u64) = 0" using dv by simp
    then have "2 ^ Suc j div chunksize = (0 :: u64)" by (simp only: unat_eq_zero)
    then have "max 1 (2 ^ Suc j div chunksize) = (2 :: u64) ^ 0" by (simp only:) simp
    moreover have "(2 :: nat) ^ Suc j dvd 2 ^ (21 + 0)" using True by (intro le_imp_power_dvd) simp
    moreover have "unat sz \<le> 2 ^ (21 + 0)" using j(2) \<open>2 ^ Suc j < 2 ^ 21\<close> by simp
    ultimately show ?thesis using h u by (intro exI [of _ "2 ^ Suc j"] exI [of _ 0]) (simp only:, simp)
  next
    case False
    then obtain k where k: "j = 20 + k" by (metis le_add_diff_inverse not_less)
    have e: "(2 :: nat) ^ Suc j = 2 ^ k * 2 ^ 21" by (simp add: k power_add)
    have "unat (2 ^ Suc j div chunksize :: u64) = 2 ^ k" unfolding dv e by simp
    moreover have "unat (2 ^ k :: u64) = 2 ^ k" using j47 k by (intro power_unat) simp
    ultimately have d: "2 ^ Suc j div chunksize = (2 ^ k :: u64)" by (intro word_unat_eq_iff [THEN iffD2]) simp
    have "(1 :: u64) \<le> 2 ^ k" using \<open>unat (2 ^ k :: u64) = 2 ^ k\<close> by (simp add: word_le_nat_alt)
    then have "max 1 (2 ^ Suc j div chunksize) = (2 ^ k :: u64)" unfolding d by (simp add: max_def)
    moreover have "k \<le> 26" "unat sz \<le> 2 ^ (21 + k)" "2 ^ (20 + k) < unat sz" "unat (2 ^ Suc j :: u64) dvd 2 ^ (21 + k)"
      using j j47 u by (simp_all add: k)
    ultimately show ?thesis using h by blast
  qed
qed

lemma huge_bin_number:
  assumes "k \<le> 26"
  shows "size_2_bin (2 ^ (21 + k)) = Ok (of_nat (47 + k))"
proof -
  let ?s = "2 ^ (21 + k) :: u64"
  have "(2 :: nat) ^ (21 + k) \<le> 2 ^ 47" using assms by (intro power_increasing) auto
  then have "?s \<le> 2 ^ 47" using assms power_unat [of "21 + k"] power_unat [of 47] by (simp add: word_le_nat_alt)
  then obtain b where b: "size_2_bin ?s = Ok b" "first_fit ?s (unat b)" using size_2_bin_fits [of ?s] by (auto simp: fits_def)
  have z: "bin_size (47 + k) = ?s" using assms huge_sizes [of "47 + k"] bin_sizeE [of "47 + k"] by simp
  have "\<not> unat b < 47 + k"
  proof
    assume "unat b < 47 + k"
    then have "bin_size (unat b) < ?s" 
      using sorted_wrt_nth_less [OF sizes_sorted, of "unat b" "47 + k"] assms z bin_sizeE [of "unat b"] bin_sizeE [of "47 + k"]
      by (simp only: length_map length_info)
    then show False using b(2) unfolding first_fit_def by (meson not_le)
  qed
  moreover have "\<not> 47 + k < unat b" using b(2) z by (auto simp: first_fit_def)
  ultimately have "unat b = 47 + k" by linarith
  then show ?thesis using b(1) by (metis of_nat_unat ucast_id)
qed

lemma take_block:
  assumes inv: "heap_inv A F m" and lo: "loose (c, k) (A \<union> F) m" and w: "bin_from_bin_and_size w = Ok (of_nat (47 + k))"
  shows "heap_inv (insert (c, k) A) F (m\<lparr>infos := (infos m)(of_nat c := w)\<rparr>)" "(c, k) \<notin> A"
proof -
  let ?m = "m\<lparr>infos := (infos m)(of_nat c := w)\<rparr>"
  have b: "block_ok (c, k) m" and dis: "\<And>a. a \<in> A \<union> F \<Longrightarrow> ivl a \<inter> ivl (c, k) = {}" using lo by (auto simp: loose_def)
  have c: "c < 2 ^ 26" using block_ok_less [OF b] by simp
  have start: "fst a \<noteq> c" if "a \<in> A \<union> F" for a using dis [OF that] ivl_start [of a] ivl_start [of "(c, k)"] by auto
  then show nA: "(c, k) \<notin> A" by fastforce
  have "\<exists>xs. clist (infos ?m) (free_chunks ?m ! j) xs \<and> distinct xs \<and> unat ` set xs = {x. (x, j) \<in> F}" if j: "j < 27" for j
  proof -
    obtain xs where xs: "clist (infos m) (free_chunks m ! j) xs" "distinct xs" "unat ` set xs = {x. (x, j) \<in> F}"
      using inv j by (auto simp: heap_inv_def free_ok_def)
    have "x \<noteq> of_nat c" if "x \<in> set xs" for x
    proof -
      have "(unat x, j) \<in> F" using xs(3) that by auto
      then show ?thesis using start [of "(unat x, j)"] unat_chunk [OF c] by auto
    qed
    then have "clist (infos ?m) (free_chunks ?m ! j) xs" using xs(1) by (auto intro: clist_frame)
    then show ?thesis using xs by blast
  qed
  then have "free_ok F ?m" using inv by (simp add: heap_inv_def free_ok_def)
  moreover have "bins_ok (insert (c, k) A) ?m"
  proof -
    have "of_nat (fst a) \<noteq> (of_nat c :: u32)" if "a \<in> A" for a
    proof -
      have "block_ok a m" using inv that by (auto simp: heap_inv_def blocks_ok_def)
      then show ?thesis using start [of a] that unat_chunk [of "fst a"] unat_chunk [OF c] block_ok_less [of a m] by auto
    qed
    then show ?thesis using inv w by (simp add: heap_inv_def bins_ok_def)
  qed
  moreover have "blocks_ok (insert (c, k) A \<union> F) ?m" using inv b dis by (auto simp: heap_inv_def blocks_ok_def block_ok_def)
  moreover have "(c, k) \<notin> F" using start by fastforce
  ultimately show "heap_inv (insert (c, k) A) F ?m" using inv by (auto simp: heap_inv_def)
qed

lemma advise_huge_only: "\<exists>as. advise_huge c n sz m = m\<lparr>os_advice := as @ (c, ucast n * chunksize, MADV_DONTNEED) # os_advice m\<rparr>"
proof -
  have "\<exists>as. advise_huge c n sz m = m\<lparr>os_advice := as\<rparr> \<and> (\<exists>bs. as = bs @ (c, ucast n * chunksize, MADV_DONTNEED) # os_advice m)"
    by (simp add: advise_huge_def os_madvise_def Let_def) (metis append_Cons append_Nil)
  then show ?thesis by blast
qed

lemma heap_inv_advice [simp]: "heap_inv A F (m\<lparr>os_advice := as\<rparr>) = heap_inv A F m" "loose b B (m\<lparr>os_advice := as\<rparr>) = loose b B m"
  by (simp_all add: heap_inv_def blocks_ok_def block_ok_def free_ok_def bins_ok_def loose_def)

lemma huge_malloc_run:
  assumes h: "hyperceil sz = Ok h" "max 1 (h div chunksize) = 2 ^ k" "k \<le> 26"
    and r: "get_power_of_two_n_chunks (of_nat (2 ^ k)) m = Ok (r, m1)" "unat r = c * 2 ^ 21" "block_ok (c, k) m1"
  shows "\<exists>w as. huge_malloc sz m =
      Ok (r, m1\<lparr>os_advice := as @ (r, 2 ^ (21 + k), MADV_DONTNEED) # os_advice m1, infos := (infos m1)(of_nat c := w)\<rparr>) \<and>
    bin_from_bin_and_size w = Ok (of_nat (47 + k))"
proof -
  have n: "ucast (max 1 (h div chunksize)) = (of_nat (2 ^ k) :: u32)"
    using ucast_small(2) [OF pow32, of k] h(3) by (simp add: h(2))
  have n': "ucast (of_nat (2 ^ k) :: u32) * chunksize = (2 ^ (21 + k) :: u64)"
    using ucast_small(1) [OF pow32, of k] h(3) by (simp add: chunksize_value power_add)
  have rc: "r = of_nat (c * 2 ^ 21 + 0)" using r(2) by (metis add.right_neutral of_nat_unat ucast_id)
  have cn: "address_2_chunknumber r = of_nat c"
    by (rule chunk_split(2) [OF _ _ rc]) (use block_ok_less [OF r(3)] in simp_all)
  have "r \<noteq> NULL" using r(2,3) by (auto simp: block_ok_def)
  have "unat (of_nat (47 + k) :: u32) = 47 + k" using h(3) by (intro unat_small) simp
  then have "of_nat (47 + k) < (127 :: u32)" using h(3) unfolding word_less_nat_alt by simp
  then obtain w where w: "bin_and_size_to_bin_and_size (of_nat (47 + k)) sz = Ok w" "w \<noteq> 0" "bin_from_bin_and_size w = Ok (of_nat (47 + k))"
    using bin_code by blast
  obtain as where "advise_huge r (of_nat (2 ^ k)) sz m1 = m1\<lparr>os_advice := as @ (r, 2 ^ (21 + k), MADV_DONTNEED) # os_advice m1\<rparr>"
    using advise_huge_only [of r "of_nat (2 ^ k)" sz m1] unfolding n' by blast
  then have "huge_malloc sz m = Ok (r, m1\<lparr>os_advice := as @ (r, 2 ^ (21 + k), MADV_DONTNEED) # os_advice m1, infos := (infos m1)(of_nat c := w)\<rparr>)"
    using r(1) \<open>r \<noteq> NULL\<close> w(1,2) h(1,3) unfolding huge_malloc_def
    by (simp only: n n' cn huge_bin_number call_simps Let_def) (simp add: cn)
  then show ?thesis using w(3) by blast
qed

lemma huge_malloc_null:
  assumes "hyperceil sz = Ok h" "max 1 (h div chunksize) = 2 ^ k" "k \<le> 26" "get_power_of_two_n_chunks (of_nat (2 ^ k)) m = Ok (NULL, m1)"
  shows "huge_malloc sz m = Ok (NULL, m1)"
proof -
  have "ucast (max 1 (h div chunksize)) = (of_nat (2 ^ k) :: u32)"
    using ucast_small(2) [OF pow32, of k] assms(3) by (simp add: assms(2))
  then show ?thesis using assms(1,4) by (simp add: huge_malloc_def)
qed

lemma huge_malloc_block:
  assumes inv: "heap_inv A F m" and sz: "sz \<le> 2 ^ 47"
  shows "\<exists>r F' m'. huge_malloc sz m = Ok (r, m') \<and>
    (r = NULL \<and> heap_inv A F' m' \<or>
     (\<exists>c k h. r = of_nat (c * 2 ^ 21) \<and> 0 < c \<and> unat sz \<le> 2 ^ (21 + k) \<and> hyperceil sz = Ok h \<and> unat h dvd 2 ^ (21 + k) \<and>
        (c, k) \<notin> A \<and> heap_inv (insert (c, k) A) F' m'))"
proof -
  obtain h k where h: "hyperceil sz = Ok h" "max 1 (h div chunksize) = 2 ^ k" "k \<le> 26" "unat sz \<le> 2 ^ (21 + k)" "unat h dvd 2 ^ (21 + k)"
    using huge_class [OF sz] by blast
  obtain r F' m1 where r: "get_power_of_two_n_chunks (of_nat (2 ^ k)) m = Ok (r, m1)" "heap_inv A F' m1"
    "r = NULL \<or> (\<exists>c. unat r = c * 2 ^ 21 \<and> loose (c, k) (A \<union> F') m1)"
    using get_power_of_two [OF inv h(3)] by blast
  show ?thesis
  proof (cases "r = NULL")
    case True
    then show ?thesis using huge_malloc_null [OF h(1-3)] r(1,2) by blast
  next
    case False
    then obtain c where c: "unat r = c * 2 ^ 21" "loose (c, k) (A \<union> F') m1" using r(3) by blast
    then have b: "block_ok (c, k) m1" by (simp add: loose_def)
    obtain w as where w: "huge_malloc sz m = Ok (r, m1\<lparr>os_advice := as, infos := (infos m1)(of_nat c := w)\<rparr>)" "bin_from_bin_and_size w = Ok (of_nat (47 + k))"
      using huge_malloc_run [OF h(1-3) r(1) c(1) b] by blast
    have "r = of_nat (c * 2 ^ 21)" using c(1) by (metis of_nat_unat ucast_id)
    moreover have "0 < c" using b by (simp add: block_ok_def)
    moreover have "heap_inv (insert (c, k) A) F' (m1\<lparr>os_advice := as, infos := (infos m1)(of_nat c := w)\<rparr>)" "(c, k) \<notin> A"
      using take_block [of A F' "m1\<lparr>os_advice := as\<rparr>" c k w] r(2) c(2) w(2) by simp_all
    ultimately show ?thesis using w(1) h(1,4,5) by metis
  qed
qed

lemma drop_block:
  assumes inv: "heap_inv A F m" and b: "b \<in> A"
  shows "heap_inv (A - {b}) F m" "loose b ((A - {b}) \<union> F) m"
proof -
  have "blocks_ok (A - {b} \<union> F) m" using inv blocks_ok_mono [of "A \<union> F" m "A - {b} \<union> F" m] by (auto simp: heap_inv_def)
  then show "heap_inv (A - {b}) F m" using inv by (auto simp: heap_inv_def bins_ok_def)
  show "loose b ((A - {b}) \<union> F) m" using inv b by (intro blocks_ok_loose [of "A \<union> F"]) (auto simp: heap_inv_def)
qed

lemma huge_base:
  assumes "c < 2 ^ 26" "d < 4096"
  shows "of_nat (c * 2 ^ 21 + d) AND NOT 4095 = (of_nat (c * 2 ^ 21) :: u64)" "of_nat (c * 2 ^ 21) AND (chunksize - 1) = (0 :: u64)"
proof -
  let ?p = "of_nat (c * 2 ^ 21 + d) :: u64" and ?q = "of_nat (c * 2 ^ 21) :: u64"
  have tb: "unat (take_bit n w) = unat w mod 2 ^ n" for n and w :: u64
    by (simp add: unsigned_take_bit_eq flip: take_bit_eq_mod)
  have u: "unat ?p = c * 2 ^ 21 + d" "unat ?q = c * 2 ^ 21" 
    using assms unat_small(2) [of "c * 2 ^ 21 + d"] unat_small(2) [of "c * 2 ^ 21"] by simp_all
  have "(c * 2 ^ 21 + d) mod 2 ^ 12 = d" 
    using assms(2) mod_mult_self3 [of "c * 512" "2 ^ 12" d] by (simp add: mult.commute)
  then have "unat (take_bit 12 ?p) = d" using u(1) by (simp only: tb)
  then have "take_bit 12 ?p = of_nat d" by (metis of_nat_unat ucast_id)
  moreover have "?p AND NOT (mask 12) = ?p - take_bit 12 ?p" by (rule and_not_mask)
  moreover have "(mask 12 :: u64) = 4095" by (simp add: mask_eq_exp_minus_1)
  ultimately show "?p AND NOT 4095 = ?q" by simp
  have "unat (take_bit 21 ?q) = 0" using u(2) by (simp only: tb) simp
  then have "take_bit 21 ?q = 0" by (simp only: unat_eq_zero)
  moreover have "(chunksize - 1 :: u64) = mask 21" by (simp add: chunksize_value mask_eq_exp_minus_1)
  ultimately show "?q AND (chunksize - 1) = 0" by (simp only: flip: take_bit_eq_mask)
qed

lemma huge_block_log:
  assumes "k \<le> 26"
  shows "hyperceil (ucast (ucast (ceil (2 ^ (21 + k)) chunksize) :: u32)) = Ok (2 ^ k)"
proof -
  have "(2 :: nat) ^ k \<le> 2 ^ 26" using assms by (intro power_increasing) auto
  have "(2 ^ (21 + k) + chunksize - 1 :: u64) = of_nat (2 ^ k * 2 ^ 21 + (2 ^ 21 - 1))" by (simp add: chunksize_value power_add)
  moreover have "unat (of_nat (2 ^ k * 2 ^ 21 + (2 ^ 21 - 1)) :: u64) = 2 ^ k * 2 ^ 21 + (2 ^ 21 - 1)"
    using \<open>2 ^ k \<le> 2 ^ 26\<close> by (intro unat_small) simp
  ultimately have "unat (ceil (2 ^ (21 + k)) chunksize) = (2 ^ k * 2 ^ 21 + (2 ^ 21 - 1)) div 2 ^ 21"
    unfolding ceil_def by (simp only: unat_div chunksize_value) simp
  also have "\<dots> = 2 ^ k" by simp
  finally have "ceil (2 ^ (21 + k)) chunksize = of_nat (2 ^ k)" by (metis of_nat_unat ucast_id)
  then have c: "ucast (ucast (ceil (2 ^ (21 + k)) chunksize) :: u32) = (of_nat (2 ^ k) :: u64)"
    using ucast_small [OF pow32, of k] assms by (simp only:)
  have u: "unat (of_nat (2 ^ k) :: u64) = 2 ^ k" using \<open>2 ^ k \<le> 2 ^ 26\<close> by (intro unat_small) simp
  show ?thesis
  proof (cases k)
    case 0
    then show ?thesis unfolding c by (simp add: hyperceil_def)
  next
    case (Suc j)
    have "(2 :: nat) ^ j < 2 ^ k" using Suc by (intro power_strict_increasing) auto
    then show ?thesis unfolding c using u Suc assms hyperceil_eq [of j "of_nat (2 ^ k)"] by simp
  qed
qed

lemma huge_free_run:
  assumes inv: "heap_inv A F m" and b: "(c, k) \<in> A" and p: "p = of_nat (c * 2 ^ 21 + d)" "d < 4096"
  shows "huge_free p m = put_cached_power_of_two_chunks (of_nat c) (of_nat k)
    (m\<lparr>os_advice := (of_nat (c * 2 ^ 21), 2 ^ (21 + k), MADV_DONTNEED) # os_advice m\<rparr>)"
proof -
  let ?q = "of_nat (c * 2 ^ 21) :: u64"
  have bo: "block_ok (c, k) m" using inv b by (auto simp: heap_inv_def blocks_ok_def)
  then have c: "0 < c" "c < 2 ^ 26" "k \<le> 26" "{512 * c..<512 * (c + 2 ^ k)} \<subseteq> os_pages m"
    using block_ok_less [OF bo] by (auto simp: block_ok_def)
  have base: "p AND NOT 4095 = ?q" "?q AND (chunksize - 1) = 0" using huge_base [OF c(2) p(2)] p(1) by (simp_all only:)
  have uq: "unat ?q = 4096 * (512 * c)" using unat_small(2) [of "c * 2 ^ 21"] c(2) by simp
  have cn: "address_2_chunknumber ?q = of_nat c" using chunk_split(2) [of c 0 ?q] c(2) by simp
  have cn0: "of_nat c \<noteq> (0 :: u32)" using unat_chunk [OF c(2)] c(1) by auto
  have bin: "bin_from_bin_and_size (infos m (of_nat c)) = Ok (of_nat (47 + k))" using inv b by (auto simp: heap_inv_def bins_ok_def)
  then have nz: "infos m (of_nat c) \<noteq> 0" by (auto simp: bin_from_bin_and_size_def)
  have "unat (of_nat (47 + k) :: u32) = 47 + k" using c(3) by (intro unat_small) simp
  then have siz: "bin_2_size (of_nat (47 + k)) = Ok (2 ^ (21 + k))"
    using bin_2_size_eq [of "of_nat (47 + k)"] huge_sizes [of "47 + k"] bin_sizeE [of "47 + k"] c(3) by simp
  have "unat (2 ^ (21 + k) :: u64) = 4096 * (512 * 2 ^ k)" using power_unat [of "21 + k"] c(3) by (simp add: power_add)
  then have adv: "os_madvise ?q (2 ^ (21 + k)) MADV_DONTNEED m = (0, m\<lparr>os_advice := (?q, 2 ^ (21 + k), MADV_DONTNEED) # os_advice m\<rparr>)"
    using pages_of_aligned [OF uq] uq c(4) by (simp add: os_madvise_def distrib_left)
  have lg: "lg_of_power_of_two (2 ^ k) = of_nat k" using c(3) by (intro lg_power) simp
  have "unat (of_nat k :: u32) = k" using c(3) by (intro unat_small) simp
  then have hl: "unat (of_nat k :: u32) < log_max_chunknumber" using c(3) by (simp add: log_max_chunknumber_def)
  show ?thesis
    unfolding huge_free_def using cn0 nz hl
    by (simp only: base cn bin siz huge_block_log [OF c(3)] lg adv prod.case Let_def call_simps c_assert_simps simp_thms if_True)
qed

lemma huge_free_block:
  assumes inv: "heap_inv A F m" and b: "(c, k) \<in> A" and p: "p = of_nat (c * 2 ^ 21 + d)" "d < 4096"
  shows "\<exists>m'. huge_free p m = Ok m' \<and> heap_inv (A - {(c, k)}) (insert (c, k) F) m'"
proof -
  let ?m = "m\<lparr>os_advice := (of_nat (c * 2 ^ 21), 2 ^ (21 + k), MADV_DONTNEED) # os_advice m\<rparr>"
  have inv': "heap_inv A F ?m" using inv by simp
  then have bo: "block_ok (c, k) ?m" using b by (auto simp: heap_inv_def blocks_ok_def)
  show ?thesis using put_block [OF drop_block(1) [OF inv' b] bo] drop_block(2) [OF inv' b] huge_free_run [OF assms] by (auto simp: loose_def)
qed

section \<open>Any sequence of allocations and frees\<close>

text \<open>
  A client keeps the blocks it owns, each with the size it asked for, and frees the \<open>i\<close>-th of them with \<open>Huge_free i\<close>.
\<close>

datatype huge_op = Huge_malloc u64 | Huge_free nat

fun huge_step :: "huge_op \<Rightarrow> (addr \<times> u64) list \<times> 'a sm_mem_scheme \<Rightarrow> ((addr \<times> u64) list \<times> 'a sm_mem_scheme) res" where
  "huge_step (Huge_malloc sz) (live, m) = call (huge_malloc sz m) (\<lambda>(r, m1). Ok (if r = NULL then live else live @ [(r, sz)], m1))"
| "huge_step (Huge_free i) (live, m) =
     (if i < length live then call (huge_free (fst (live ! i)) m) (\<lambda>m1. Ok (take i live @ drop (Suc i) live, m1)) else Ok (live, m))"

fun huge_run :: "huge_op list \<Rightarrow> (addr \<times> u64) list \<times> 'a sm_mem_scheme \<Rightarrow> ((addr \<times> u64) list \<times> 'a sm_mem_scheme) res" where
  "huge_run [] s = Ok s"
| "huge_run (x # xs) s = call (huge_step x s) (huge_run xs)"

definition huge_request_ok :: "huge_op \<Rightarrow> bool" where
  "huge_request_ok x = (case x of Huge_malloc sz \<Rightarrow> sz \<le> 2 ^ 47 | Huge_free i \<Rightarrow> True)"

text \<open>The allocator before its first call: nothing is on the free lists.\<close>

definition huge_start :: "addr list \<Rightarrow> nat set \<Rightarrow> chunk_infos \<Rightarrow> sm_mem" where
  "huge_start script pages i = \<lparr>os_script = script, os_pages = pages, os_advice = [], total_mapped = 0, mismapped_so_unmapped = 0,
     infos = i, free_chunks = replicate log_max_chunknumber 0\<rparr>"

definition holds :: "addr \<times> u64 \<Rightarrow> nat \<times> nat \<Rightarrow> bool" where
  "holds x b \<longleftrightarrow> fst x = of_nat (fst b * 2 ^ 21) \<and> unat (snd x) \<le> 2 ^ (21 + snd b) \<and>
     (\<exists>h. hyperceil (snd x) = Ok h \<and> unat h dvd 2 ^ (21 + snd b))"

definition huge_inv :: "(addr \<times> u64) list \<times> 'a sm_mem_scheme \<Rightarrow> bool" where
  "huge_inv s \<longleftrightarrow> (\<exists>bs F. heap_inv (set bs) F (snd s) \<and> distinct bs \<and> list_all2 holds (fst s) bs)"

lemma huge_start_inv: "huge_inv ([], huge_start script pages i)"
  unfolding huge_inv_def
  by (intro exI [of _ "[]"] exI [of _ "{}"])
     (auto simp: huge_start_def heap_inv_def blocks_ok_def bins_ok_def free_ok_def log_max_chunknumber_def intro!: exI [of _ "[]"])

lemma remove_nth:
  assumes "i < length xs" "distinct xs"
  shows "set (take i xs @ drop (Suc i) xs) = set xs - {xs ! i}" "distinct (take i xs @ drop (Suc i) xs)"
proof -
  have "xs = take i xs @ xs ! i # drop (Suc i) xs" using assms(1) by (rule id_take_nth_drop)
  then have "set xs = set (take i xs @ xs ! i # drop (Suc i) xs)" "distinct (take i xs @ xs ! i # drop (Suc i) xs)"
    using assms(2) by simp_all
  then show "set (take i xs @ drop (Suc i) xs) = set xs - {xs ! i}" "distinct (take i xs @ drop (Suc i) xs)" by auto
qed

lemma huge_step_inv:
  assumes inv: "huge_inv s" and x: "huge_request_ok x"
  shows "\<exists>s'. huge_step x s = Ok s' \<and> huge_inv s'"
proof -
  obtain live m where s: "s = (live, m)" by force
  obtain bs F where bs: "heap_inv (set bs) F m" "distinct bs" "list_all2 holds live bs" using inv s by (auto simp: huge_inv_def)
  show ?thesis
  proof (cases x)
    case (Huge_malloc sz)
    then have sz: "sz \<le> 2 ^ 47" using x by (simp add: huge_request_ok_def)
    from huge_malloc_block [OF bs(1) sz] obtain r F' m' where r: "huge_malloc sz m = Ok (r, m')"
      "r = NULL \<and> heap_inv (set bs) F' m' \<or>
       (\<exists>c k h. r = of_nat (c * 2 ^ 21) \<and> 0 < c \<and> unat sz \<le> 2 ^ (21 + k) \<and> hyperceil sz = Ok h \<and> unat h dvd 2 ^ (21 + k) \<and>
          (c, k) \<notin> set bs \<and> heap_inv (insert (c, k) (set bs)) F' m')"
      by (elim exE conjE) (rule that)
    from r(2) have "huge_inv (if r = NULL then live else live @ [(r, sz)], m')"
    proof (elim disjE exE conjE)
      fix c k h assume a: "r = of_nat (c * 2 ^ 21)" "0 < c" "unat sz \<le> 2 ^ (21 + k)" "hyperceil sz = Ok h"
        "unat h dvd 2 ^ (21 + k)" "(c, k) \<notin> set bs" "heap_inv (insert (c, k) (set bs)) F' m'"
      have "c < 2 ^ 26" using a(7) block_ok_less [of "(c, k)" m'] by (auto simp: heap_inv_def blocks_ok_def)
      then have "unat r = c * 2 ^ 21" unfolding a(1) by (intro unat_small) simp
      then have "r \<noteq> NULL" using a(2) by auto
      moreover have "holds (r, sz) (c, k)" using a by (simp add: holds_def)
      ultimately show ?thesis using a(6,7) bs(2,3) unfolding huge_inv_def
        by (intro exI [of _ "bs @ [(c, k)]"] exI [of _ F']) (simp add: list_all2_appendI)
    qed (use bs in \<open>auto simp: huge_inv_def\<close>)
    then show ?thesis using r(1) Huge_malloc s by simp
  next
    case (Huge_free i)
    show ?thesis
    proof (cases "i < length live")
      case True
      then have i: "i < length bs" "holds (live ! i) (bs ! i)" using bs(3) by (auto simp: list_all2_conv_all_nth)
      obtain c k where ck: "bs ! i = (c, k)" by force
      obtain m' where m': "huge_free (fst (live ! i)) m = Ok m'" "heap_inv (set bs - {(c, k)}) (insert (c, k) F) m'"
        using huge_free_block [OF bs(1), of c k "fst (live ! i)" 0] nth_mem [OF i(1)] i(2) ck by (auto simp: holds_def)
      have "list_all2 holds (take i live @ drop (Suc i) live) (take i bs @ drop (Suc i) bs)"
        using bs(3) by (intro list_all2_appendI) auto
      then have "huge_inv (take i live @ drop (Suc i) live, m')"
        using m'(2) remove_nth [OF i(1) bs(2)] ck unfolding huge_inv_def by (metis fst_conv snd_conv)
      then show ?thesis using m'(1) Huge_free True s by simp
    qed (use Huge_free s inv in auto)
  qed
qed

lemma huge_run_inv: "huge_inv s \<Longrightarrow> list_all huge_request_ok xs \<Longrightarrow> \<exists>s'. huge_run xs s = Ok s' \<and> huge_inv s'"
proof (induction xs arbitrary: s)
  case (Cons x xs)
  then obtain s1 where "huge_step x s = Ok s1" "huge_inv s1" using huge_step_inv [of s x] by auto
  then show ?case using Cons by simp
qed simp

definition extent :: "addr \<times> u64 \<Rightarrow> nat set" where
  "extent x = {unat (fst x)..<unat (fst x) + unat (snd x)}"

lemma holds_facts:
  assumes "holds x b" "block_ok b m"
  shows "unat (fst x) = fst b * 2 ^ 21" "fst x \<noteq> NULL" "pages_of (fst x) (snd x) \<subseteq> os_pages m"
    "\<exists>h. hyperceil (snd x) = Ok h \<and> unat h dvd unat (fst x)" "y \<in> extent x \<Longrightarrow> y div 2 ^ 21 \<in> ivl b"
proof -
  obtain c k where b: "b = (c, k)" by force
  obtain h where h: "fst x = of_nat (c * 2 ^ 21)" "unat (snd x) \<le> 2 ^ (21 + k)" "hyperceil (snd x) = Ok h" "unat h dvd 2 ^ (21 + k)"
    using assms(1) by (auto simp: holds_def b)
  have c: "c < 2 ^ 26" "0 < c" "2 ^ k dvd c" "{512 * c..<512 * (c + 2 ^ k)} \<subseteq> os_pages m"
    using assms(2) block_ok_less [OF assms(2)] by (auto simp: block_ok_def b)
  have u: "unat (fst x) = c * 2 ^ 21" using c(1) unfolding h(1) by (intro unat_small) simp
  then show "unat (fst x) = fst b * 2 ^ 21" by (simp add: b)
  show "fst x \<noteq> NULL" using u c(2) by auto
  have e: "c * 2 ^ 21 + 2 ^ (21 + k) = (c + 2 ^ k) * (2 :: nat) ^ 21" by (simp add: power_add distrib_right)
  then have "(c * 2 ^ 21 + unat (snd x) + 4095) div 4096 \<le> ((c + 2 ^ k) * 2 ^ 21 + 4095) div 4096" using h(2) by (intro div_le_mono) linarith
  also have "\<dots> = 512 * (c + 2 ^ k)" by simp
  finally show "pages_of (fst x) (snd x) \<subseteq> os_pages m" using c(4) by (auto simp: pages_of_def u)
  have "2 ^ k * 2 ^ 21 dvd c * (2 :: nat) ^ 21" using c(3) by (intro mult_dvd_mono) auto
  then have "unat h dvd c * 2 ^ 21" using h(4) by (simp add: power_add mult.commute dvd_trans)
  then show "\<exists>h. hyperceil (snd x) = Ok h \<and> unat h dvd unat (fst x)" using h(3) u by auto
  assume "y \<in> extent x"
  then have "c * 2 ^ 21 \<le> y" "y < (c + 2 ^ k) * 2 ^ 21" using u h(2) e by (auto simp: extent_def)
  then show "y div 2 ^ 21 \<in> ivl b" by (simp add: ivl_def b less_eq_div_iff_mult_less_eq div_less_iff_less_mult)
qed

lemma huge_inv_blocks:
  assumes "huge_inv (live, m)"
  shows "x \<in> set live \<Longrightarrow> fst x \<noteq> NULL \<and> pages_of (fst x) (snd x) \<subseteq> os_pages m \<and> (\<exists>h. hyperceil (snd x) = Ok h \<and> unat h dvd unat (fst x))"
    "sorted_wrt (\<lambda>x y. extent x \<inter> extent y = {}) live"
proof -
  obtain bs F where bs: "blocks_ok (set bs \<union> F) m" "distinct bs" "list_all2 holds live bs"
    using assms by (auto simp: huge_inv_def heap_inv_def)
  have ok: "block_ok b m" if "b \<in> set bs" for b using bs(1) that by (simp add: blocks_ok_def)
  have nth: "holds (live ! i) (bs ! i)" "block_ok (bs ! i) m" if "i < length live" for i
    using bs(3) ok that by (auto simp: list_all2_conv_all_nth)
  show "fst x \<noteq> NULL \<and> pages_of (fst x) (snd x) \<subseteq> os_pages m \<and> (\<exists>h. hyperceil (snd x) = Ok h \<and> unat h dvd unat (fst x))" if "x \<in> set live"
    using that holds_facts [OF nth] by (auto simp: in_set_conv_nth)
  have "extent (live ! i) \<inter> extent (live ! j) = {}" if ij: "i < j" "j < length live" for i j
  proof -
    have l: "length live = length bs" using bs(3) by (rule list_all2_lengthD)
    then have "bs ! i \<noteq> bs ! j" "bs ! i \<in> set bs" "bs ! j \<in> set bs" using bs(2) ij by (auto simp: nth_eq_iff_index_eq)
    then have dis: "ivl (bs ! i) \<inter> ivl (bs ! j) = {}" using bs(1) unfolding blocks_ok_def by blast
    have "i < length live" using ij by linarith
    then show ?thesis using dis holds_facts(5) [OF nth [of i]] holds_facts(5) [OF nth [OF ij(2)]] by blast
  qed
  then show "sorted_wrt (\<lambda>x y. extent x \<inter> extent y = {}) live" by (simp add: sorted_wrt_iff_nth_less)
qed

text \<open>
  C35. Whatever the operating system answers, every sequence of \<open>huge_malloc\<close> (up to \<open>2 ^ 47\<close> bytes) and \<open>huge_free\<close>
  runs without a failed assertion or an endless loop, and at its end the blocks the client owns are mapped, aligned to
  \<open>hyperceil\<close> of their size as the comment in the code promises, and pairwise disjoint.
\<close>

theorem huge_sequences:
  assumes "list_all huge_request_ok xs"
  shows "\<exists>live m. huge_run xs ([], huge_start script pages i) = Ok (live, m) \<and>
    (\<forall>(p, sz)\<in>set live. p \<noteq> NULL \<and> pages_of p sz \<subseteq> os_pages m \<and> (\<exists>h. hyperceil sz = Ok h \<and> unat h dvd unat p)) \<and>
    sorted_wrt (\<lambda>x y. extent x \<inter> extent y = {}) live"
proof -
  obtain live m where "huge_run xs ([], huge_start script pages i) = Ok (live, m)" "huge_inv (live, m)"
    using huge_run_inv [OF huge_start_inv assms] by (metis surj_pair)
  then show ?thesis using huge_inv_blocks [of live m] by fastforce
qed

theorem huge_sequences_witness:
  "\<exists>live m. huge_run [Huge_malloc 3000000, Huge_malloc 5, Huge_free 0, Huge_malloc 5] ([], huge_start [0x7f0000000000, 0x200000] {} (\<lambda>_. 0)) = Ok (live, m) \<and>
    sorted_wrt (\<lambda>x y. extent x \<inter> extent y = {}) live"
proof -
  have "list_all huge_request_ok [Huge_malloc 3000000, Huge_malloc 5, Huge_free 0, Huge_malloc 5]"
    by (simp add: huge_request_ok_def)
  from huge_sequences [OF this, of "[0x7f0000000000, 0x200000]" "{}" "\<lambda>_. 0"] show ?thesis by blast
qed

text \<open>
  C37. The block that \<open>huge_free\<close> gives back is the one that the next \<open>huge_malloc\<close> of its class returns, without
  mapping or unmapping memory: no answer of \<open>mmap\<close> is used up, the mapped pages stay the same, and the free lists are
  as they were before the two calls. The only system calls are \<open>madvise\<close>: the contents of the whole block are given
  up once by \<open>huge_free\<close> and again by \<open>huge_malloc\<close>, which also gives advice on huge pages.
\<close>

theorem huge_reuse:
  assumes inv: "heap_inv A F m" and b: "(c, k) \<in> A" and h: "hyperceil sz = Ok h" "max 1 (h div chunksize) = 2 ^ k"
  shows "\<exists>m1 m2 as. huge_free (of_nat (c * 2 ^ 21)) m = Ok m1 \<and> huge_malloc sz m1 = Ok (of_nat (c * 2 ^ 21), m2) \<and>
    free_chunks m2 = free_chunks m \<and> os_pages m2 = os_pages m \<and> os_script m2 = os_script m \<and>
    os_advice m1 = (of_nat (c * 2 ^ 21), 2 ^ (21 + k), MADV_DONTNEED) # os_advice m \<and>
    os_advice m2 = as @ (of_nat (c * 2 ^ 21), 2 ^ (21 + k), MADV_DONTNEED) # os_advice m1"
proof -
  have bo: "block_ok (c, k) m" using inv b by (auto simp: heap_inv_def blocks_ok_def)
  then have c: "c < 2 ^ 26" "0 < c" "k \<le> 26" using block_ok_less [OF bo] by (auto simp: block_ok_def)
  have len: "k < length (free_chunks m)" using inv c(3) by (simp add: heap_inv_def free_ok_def)
  have uk: "unat (of_nat k :: u32) = k" using c(3) by (intro unat_small) simp
  have cn: "of_nat c \<noteq> (0 :: u32)" using unat_chunk [OF c(1)] c(2) by auto
  let ?d = "(of_nat (c * 2 ^ 21), 2 ^ (21 + k), MADV_DONTNEED)" and ?m0 = "m\<lparr>os_advice := (of_nat (c * 2 ^ 21), 2 ^ (21 + k), MADV_DONTNEED) # os_advice m\<rparr>"
  let ?m1 = "?m0\<lparr>infos := (infos m)(of_nat c := free_chunks m ! k), free_chunks := (free_chunks m)[k := of_nat c]\<rparr>"
  let ?m2 = "?m1\<lparr>free_chunks := free_chunks m\<rparr>"
  have m1: "huge_free (of_nat (c * 2 ^ 21)) m = Ok ?m1"
    using huge_free_run [OF inv b, of _ 0] put_cached [of "of_nat k" ?m0 "of_nat c"] len uk by simp
  have "ucast (of_nat (2 ^ k) :: u32) = (2 ^ k :: u64)" using ucast_small(1) [OF pow32, of k] c(3) by simp
  then have lg: "lg_of_power_of_two (ucast (of_nat (2 ^ k) :: u32)) = of_nat k" using lg_power [of k] c(3) by simp
  have "ucast (of_nat c :: u32) = (of_nat c :: u64)" using c(1) by (intro ucast_small) simp
  then have "get_cached_power_of_two_chunks (of_nat k) ?m1 = Ok (of_nat (c * 2 ^ 21), ?m2)"
    using cn len uk by (simp add: get_cached_power_of_two_chunks_def do_get_from_free_chunks_def free_chunks_at_def chunksize_value)
  moreover have u: "unat (of_nat (c * 2 ^ 21) :: u64) = c * 2 ^ 21" using c(1) by (intro unat_small) simp
  then have "of_nat (c * 2 ^ 21) \<noteq> (NULL :: u64)" using c(2) by (metis mult_is_0 not_gr0 power_not_zero unat_0 zero_neq_numeral)
  ultimately have "get_power_of_two_n_chunks (of_nat (2 ^ k)) ?m1 = Ok (of_nat (c * 2 ^ 21), ?m2)"
    unfolding get_power_of_two_n_chunks_def lg by simp
  then obtain w as where "huge_malloc sz ?m1 =
      Ok (of_nat (c * 2 ^ 21), ?m2\<lparr>os_advice := as @ ?d # os_advice ?m2, infos := (infos ?m2)(of_nat c := w)\<rparr>)"
    using huge_malloc_run [OF h c(3), of ?m1 "of_nat (c * 2 ^ 21)" ?m2 c] u bo by (auto simp: block_ok_def)
  then show ?thesis using m1 by auto
qed

text \<open>
  C38. \<open>MALLOC\<close> passes on every request below \<open>2 ^ 48\<close> bytes, but for more than \<open>2 ^ 47\<close> of them \<open>huge_malloc\<close> looks for
  a block of \<open>2 ^ 27\<close> chunks and reads \<open>free_chunks[27]\<close>, past the end of the array of 27 lists.
\<close>

theorem huge_malloc_out_of_bounds:
  assumes "2 ^ 47 < sz" "sz \<le> 2 ^ 48" "length (free_chunks m) = log_max_chunknumber"
  shows "huge_malloc sz m = Fault BadDeref"
proof -
  have "hyperceil sz = Ok (2 ^ Suc 47)"
    using assms(1,2) power_unat [of 47] power_unat [of 48] by (intro hyperceil_eq) (simp_all add: word_less_nat_alt word_le_nat_alt)
  moreover have "ucast (max 1 (2 ^ Suc 47 div chunksize :: u64)) = (of_nat (2 ^ 27) :: u32)" by (simp add: chunksize_value)
  moreover have "lg_of_power_of_two (ucast (of_nat (2 ^ 27) :: u32)) = 27" using lg_power [of 27] by simp
  ultimately show ?thesis using assms(3)
    by (simp add: huge_malloc_def get_power_of_two_n_chunks_def get_cached_power_of_two_chunks_def free_chunks_at_def log_max_chunknumber_def)
qed

theorem mmap_chunk_aligned_block_exact_witness:
  "\<exists>r m'. mmap_chunk_aligned_block 3 (huge_start [0x7f0000001000] {7} (\<lambda>_. 0)) = Ok (r, m') \<and>
    (r = NULL \<and> os_pages m' = {7} \<or> new_block r 1536 (huge_start [0x7f0000001000] {7} (\<lambda>_. 0)) m')"
  using mmap_chunk_aligned_block_exact [of 3 "huge_start [0x7f0000001000] {7} (\<lambda>_. 0)"] by (auto simp: huge_start_def)

theorem huge_reuse_witness:
  "\<exists>m1 m2 as. huge_free 0x200000 (huge_start [] {512..<1024} ((\<lambda>_. 0)(1 := 48))) = Ok m1 \<and> huge_malloc 5 m1 = Ok (0x200000, m2) \<and>
    os_pages m2 = {512..<1024} \<and> os_advice m2 = as @ [(0x200000, 0x200000, MADV_DONTNEED), (0x200000, 0x200000, MADV_DONTNEED)]"
proof -
  let ?m = "huge_start [] {512..<1024} ((\<lambda>_. 0)(1 := 48))"
  have "free_ok {} ?m" by (auto simp: free_ok_def huge_start_def log_max_chunknumber_def intro!: exI [of _ "[]"])
  then have "heap_inv {(1, 0)} {} ?m"
    by (simp add: heap_inv_def blocks_ok_def block_ok_def bins_ok_def bin_from_bin_and_size_def huge_start_def)
  moreover have "hyperceil 5 = Ok 8" using hyperceil_eq [of 2 5] by simp
  moreover have "max 1 (8 div chunksize) = 2 ^ 0" by (simp add: chunksize_value)
  ultimately have "\<exists>m1 m2 as. huge_free (of_nat (1 * 2 ^ 21)) ?m = Ok m1 \<and> huge_malloc 5 m1 = Ok (of_nat (1 * 2 ^ 21), m2) \<and>
    free_chunks m2 = free_chunks ?m \<and> os_pages m2 = os_pages ?m \<and> os_script m2 = os_script ?m \<and>
    os_advice m1 = (of_nat (1 * 2 ^ 21), 2 ^ (21 + 0), MADV_DONTNEED) # os_advice ?m \<and>
    os_advice m2 = as @ (of_nat (1 * 2 ^ 21), 2 ^ (21 + 0), MADV_DONTNEED) # os_advice m1"
    by (intro huge_reuse [of "{(1, 0)}" "{}" ?m 1 0 5 8]) simp_all
  then show ?thesis by (simp add: huge_start_def) fastforce
qed

theorem huge_malloc_out_of_bounds_witness: "huge_malloc 0x900000000000 (huge_start [] {} (\<lambda>_. 0)) = Fault BadDeref"
  by (rule huge_malloc_out_of_bounds) (simp_all add: huge_start_def)

end
