(* ===== verification/Footprint.thy ===== *)
theory Footprint
  imports Chunks
begin

text \<open>
  memory/footprint.cpp: the number of bytes in use, kept as one counter per processor so that threads seldom write to the
  same cache line. A thread asks \<open>sched_getcpu\<close> for its processor once in 128 calls and caches the answer in \<open>prid\<close>.
  The answers of \<open>sched_getcpu\<close> are a script, 0 after its end; it answers -1 when it fails. The counters are 64-bit words and
  wrap around. \<open>prid.count\<close> is an \<open>int\<close>; its overflow, undefined in C, is taken to wrap around.
\<close>

record fp_mem = sm_mem +
  os_cpus :: "i32 list"
  partitioned_footprint :: "u64 list"
  prid_cpuid :: i32
  prid_count :: i32

definition processor_number_limit :: int where "processor_number_limit = 128"
definition prid_cache_time :: int where "prid_cache_time = 128"

text \<open>The remainder of C, with the sign of the dividend, for a positive divisor.\<close>

definition c_rem :: "int \<Rightarrow> int \<Rightarrow> int" where
  "c_rem a b = (if 0 \<le> a then a mod b else - ((- a) mod b))"

definition sched_getcpu :: "'a fp_mem_scheme \<Rightarrow> i32 \<times> 'a fp_mem_scheme" where
  "sched_getcpu m = (case os_cpus m of [] \<Rightarrow> (0, m) | c # cs \<Rightarrow> (c, m\<lparr>os_cpus := cs\<rparr>))"

definition check_cpuid :: "'a fp_mem_scheme \<Rightarrow> 'a fp_mem_scheme" where
  "check_cpuid m =
     (let m1 = m\<lparr>prid_count := prid_count m + 1\<rparr> in
      if c_rem (sint (prid_count m)) prid_cache_time = 0 then
        case sched_getcpu m1 of (cpu, m2) \<Rightarrow> m2\<lparr>prid_cpuid := of_int (c_rem (sint cpu) processor_number_limit)\<rparr>
      else m1)"

definition add_to_footprint :: "u64 \<Rightarrow> 'a fp_mem_scheme \<Rightarrow> 'a fp_mem_scheme res" where
  "add_to_footprint delta m =
     (let m1 = check_cpuid m; i = sint (prid_cpuid m1) in
      if 0 \<le> i \<and> nat i < length (partitioned_footprint m1) then
        Ok (m1\<lparr>partitioned_footprint := (partitioned_footprint m1)[nat i := partitioned_footprint m1 ! nat i + delta]\<rparr>)
      else Fault BadDeref)"

definition get_footprint :: "'a fp_mem_scheme \<Rightarrow> u64" where
  "get_footprint m = foldl (\<lambda>s i. s + partitioned_footprint m ! i) 0 [0..<nat processor_number_limit]"

section \<open>The counters add up\<close>

definition fp_inv :: "'a fp_mem_scheme \<Rightarrow> bool" where
  "fp_inv m \<longleftrightarrow> length (partitioned_footprint m) = 128 \<and> (\<forall>c\<in>set (os_cpus m). 0 \<le> sint c) \<and>
     0 \<le> sint (prid_cpuid m) \<and> sint (prid_cpuid m) < 128"

definition same_chunks :: "'a fp_mem_scheme \<Rightarrow> 'a fp_mem_scheme \<Rightarrow> bool" where
  "same_chunks m m' \<longleftrightarrow> fp_mem.more m' = fp_mem.more m \<and> infos m' = infos m \<and> free_chunks m' = free_chunks m \<and>
     os_pages m' = os_pages m \<and> os_script m' = os_script m \<and> total_mapped m' = total_mapped m \<and>
     mismapped_so_unmapped m' = mismapped_so_unmapped m"

lemma get_footprint_sum:
  assumes "length (partitioned_footprint m) = 128"
  shows "get_footprint m = sum_list (partitioned_footprint m)"
proof -
  have "foldl (\<lambda>s i. s + xs ! i) (0 :: u64) [0..<n] = sum_list (take n xs)" if "n \<le> length xs" for n xs
    using that by (induction n) (auto simp: take_Suc_conv_app_nth)
  from this [of 128 "partitioned_footprint m"] assms show ?thesis by (simp add: get_footprint_def processor_number_limit_def del: upt_Suc)
qed

lemma sum_list_add_at: "i < length xs \<Longrightarrow> sum_list (xs[i := xs ! i + d]) = sum_list xs + (d :: u64)"
  by (induction xs arbitrary: i) (auto split: nat.split)

lemma check_cpuid_ok:
  assumes "fp_inv m"
  shows "fp_inv (check_cpuid m) \<and> same_chunks m (check_cpuid m) \<and> partitioned_footprint (check_cpuid m) = partitioned_footprint m"
proof -
  have cpu: "0 \<le> sint (of_int (c_rem (sint c) 128) :: i32) \<and> sint (of_int (c_rem (sint c) 128) :: i32) < 128" if "0 \<le> sint c" for c :: i32
  proof -
    have "0 \<le> c_rem (sint c) 128" "c_rem (sint c) 128 < 128" using that by (simp_all add: c_rem_def)
    then show ?thesis by (simp add: signed_of_int signed_take_bit_int_eq_self)
  qed
  show ?thesis
  proof (cases "c_rem (sint (prid_count m)) prid_cache_time = 0")
    case True
    show ?thesis using assms cpu True
      by (cases "os_cpus m") (auto simp: check_cpuid_def sched_getcpu_def fp_inv_def same_chunks_def processor_number_limit_def c_rem_def)
  next
    case False
    then show ?thesis using assms by (auto simp: check_cpuid_def fp_inv_def same_chunks_def)
  qed
qed

lemma add_to_footprint_ok:
  assumes "fp_inv m"
  shows "\<exists>m'. add_to_footprint d m = Ok m' \<and> fp_inv m' \<and> same_chunks m m' \<and> get_footprint m' = get_footprint m + d"
proof -
  let ?m = "check_cpuid m" and ?i = "nat (sint (prid_cpuid (check_cpuid m)))"
  have c: "fp_inv ?m" "same_chunks m ?m" "partitioned_footprint ?m = partitioned_footprint m" using check_cpuid_ok [OF assms] by auto
  then have i: "0 \<le> sint (prid_cpuid ?m)" "?i < length (partitioned_footprint ?m)" by (auto simp: fp_inv_def)
  let ?m' = "?m\<lparr>partitioned_footprint := (partitioned_footprint ?m)[?i := partitioned_footprint ?m ! ?i + d]\<rparr>"
  have "add_to_footprint d m = Ok ?m'" using i by (simp add: add_to_footprint_def Let_def)
  moreover have "fp_inv ?m'" "same_chunks m ?m'" using c by (auto simp: fp_inv_def same_chunks_def)
  moreover have "get_footprint ?m' = get_footprint m + d"
    using assms c(3) i(2) by (simp add: get_footprint_sum fp_inv_def sum_list_add_at)
  ultimately show ?thesis by blast
qed

end
