(* ===== verification/Large.thy ===== *)
theory Large
  imports Footprint
begin

text \<open>
  memory/large_malloc.cpp: objects between a page and a chunk. A chunk of large objects begins with a page of cells, one
  per object. The cell of a free object holds the link to the next free cell of its size class (\<open>next\<close>), the cell of an
  allocated one the number of bytes it uses (\<open>footprint\<close>, the low half of the same word). A cell can be read and written
  only while its page is mapped. As in \<open>Chunks\<close> a single thread runs; \<open>predo_large_malloc_pop\<close> only prefetches, the
  messages under \<open>if (0)\<close> and the log are left out, and \<open>madvise\<close>, whose result is ignored here, has no effect on the cells,
  which are in another page than the object.
\<close>

record large_mem = fp_mem +
  free_large_objects :: "addr list"
  cells :: "addr \<Rightarrow> u64"

definition n_large_classes :: binnumber_t where
  "n_large_classes = first_huge_bin_number - first_large_bin_number"

definition sizeof_cell :: u64 where "sizeof_cell = 8"

definition load_cell :: "addr \<Rightarrow> 'a large_mem_scheme \<Rightarrow> (u64 \<Rightarrow> 'b res) \<Rightarrow> 'b res" where
  "load_cell a m k = (if unat a div 4096 \<in> os_pages m then k (cells m a) else Fault BadDeref)"

definition store_cell :: "addr \<Rightarrow> u64 \<Rightarrow> 'a large_mem_scheme \<Rightarrow> ('a large_mem_scheme \<Rightarrow> 'b res) \<Rightarrow> 'b res" where
  "store_cell a w m k = (if unat a div 4096 \<in> os_pages m then k (m\<lparr>cells := (cells m)(a := w)\<rparr>) else Fault BadDeref)"

text \<open>The union: \<open>next\<close> is the whole word, \<open>footprint\<close> its low 32 bits.\<close>

definition cell_footprint :: "u64 \<Rightarrow> u32" where
  "cell_footprint w = ucast w"

definition with_footprint :: "u32 \<Rightarrow> u64 \<Rightarrow> u64" where
  "with_footprint footprint w = push_bit 32 (drop_bit 32 w) OR ucast footprint"

definition free_head_at :: "binnumber_t \<Rightarrow> 'a large_mem_scheme \<Rightarrow> (addr \<Rightarrow> 'b res) \<Rightarrow> 'b res" where
  "free_head_at i m k = (if unat i < length (free_large_objects m) then k (free_large_objects m ! unat i) else Fault BadDeref)"

definition do_large_malloc_pop :: "binnumber_t \<Rightarrow> 'a large_mem_scheme \<Rightarrow> (addr \<times> 'a large_mem_scheme) res" where
  "do_large_malloc_pop i m =
     free_head_at i m (\<lambda>h.
     if h = NULL then Ok (NULL, m)
     else load_cell h m (\<lambda>nxt. Ok (h, m\<lparr>free_large_objects := (free_large_objects m)[unat i := nxt]\<rparr>)))"

text \<open>\<open>&entry[i]\<close>\<close>

definition entry_at :: "addr \<Rightarrow> nat \<Rightarrow> addr" where
  "entry_at entry i = entry + sizeof_cell * of_nat i"

function link_entries :: "addr \<Rightarrow> nat \<Rightarrow> nat \<Rightarrow> 'a large_mem_scheme \<Rightarrow> 'a large_mem_scheme res" where
  "link_entries entry objects_per_chunk i m =
     (if i + 1 < objects_per_chunk then
        store_cell (entry_at entry i) (entry_at entry (i + 1)) m (link_entries entry objects_per_chunk (i + 1))
      else Ok m)"
  by pat_completeness auto
termination
  by (relation "measure (\<lambda>(_, n, i, _). n - i)") auto

declare link_entries.simps [simp del]

definition push_entries_body ::
  "binnumber_t \<Rightarrow> addr \<Rightarrow> nat \<Rightarrow> 'a large_mem_scheme \<Rightarrow> ('a large_mem_scheme, 'a large_mem_scheme) ctl res" where
  "push_entries_body i entry objects_per_chunk m =
     free_head_at i m (\<lambda>old_first.
     store_cell (entry_at entry (objects_per_chunk - 1)) old_first m (\<lambda>m1.
     free_head_at i m1 (\<lambda>cur.
       if cur = old_first then Ok (Done (m1\<lparr>free_large_objects := (free_large_objects m1)[unat i := entry_at entry 0]\<rparr>))
       else Ok (Again m1))))"

text \<open>The branch of \<open>large_malloc\<close> that gets a chunk and puts its cells on the list.\<close>

definition new_large_chunk :: "u32 \<Rightarrow> binnumber_t \<Rightarrow> u64 \<Rightarrow> 'a large_mem_scheme \<Rightarrow> 'a large_mem_scheme res" where
  "new_large_chunk footprint b usable_size m =
     call (mmap_chunk_aligned_block 1 m) (\<lambda>(chunk, m1).
     c_assert (chunk \<noteq> NULL)
       (let objects_per_chunk = (chunksize - offset_of_first_object_in_large_chunk) div usable_size;
            size_of_header = objects_per_chunk * sizeof_cell in
        c_assert (size_of_header \<le> offset_of_first_object_in_large_chunk)
          (call (link_entries chunk (unat objects_per_chunk) 0 m1) (\<lambda>m2.
           call (bin_and_size_to_bin_and_size b (ucast footprint)) (\<lambda>b_and_s.
           c_assert (b_and_s \<noteq> 0)
             (cloop (push_entries_body (b - first_large_bin_number) chunk (unat objects_per_chunk))
                (m2\<lparr>infos := (infos m2)(address_2_chunknumber chunk := b_and_s)\<rparr>)))))))"

definition large_malloc_body ::
  "u32 \<Rightarrow> binnumber_t \<Rightarrow> u64 \<Rightarrow> 'a large_mem_scheme \<Rightarrow> ('a large_mem_scheme, addr \<times> 'a large_mem_scheme) ctl res" where
  "large_malloc_body footprint b usable_size m =
     free_head_at (b - first_large_bin_number) m (\<lambda>h0.
     if h0 \<noteq> NULL then
       call (do_large_malloc_pop (b - first_large_bin_number) m) (\<lambda>(h, m1).
       if h = NULL then Ok (Again m1)
       else
         load_cell h m1 (\<lambda>w.
         store_cell h (with_footprint footprint w) m1 (\<lambda>m2.
         call (add_to_footprint (ucast footprint) m2) (\<lambda>m3.
         let chunk = address_2_chunkaddress h;
             offset = (h - chunk) div sizeof_cell;
             address = chunk + offset_of_first_object_in_large_chunk + offset * usable_size in
         c_assert (address_2_chunknumber address = address_2_chunknumber chunk)
           (call (bin_from_bin_and_size (infos m3 (address_2_chunknumber address))) (\<lambda>b1.
            c_assert (b1 = b) (Ok (Done (address, m3)))))))))
     else call (new_large_chunk footprint b usable_size m) (\<lambda>m1. Ok (Again m1)))"

definition large_malloc :: "u64 \<Rightarrow> 'a large_mem_scheme \<Rightarrow> (addr \<times> 'a large_mem_scheme) res" where
  "large_malloc sz m =
     (let footprint = ucast (pagesize * ceil sz pagesize) :: u32 in
      call (size_2_bin sz) (\<lambda>b.
      call (bin_2_size b) (\<lambda>usable_size.
      c_assert (b \<ge> first_large_bin_number)
        (c_assert (b < first_huge_bin_number)
          (cloop (large_malloc_body footprint b usable_size) m)))))"

definition large_footprint :: "addr \<Rightarrow> 'a large_mem_scheme \<Rightarrow> u64 res" where
  "large_footprint p m =
     (let b_and_s = infos m (address_2_chunknumber p) in
      c_assert (b_and_s \<noteq> 0)
        (call (bin_from_bin_and_size b_and_s) (\<lambda>bin.
         c_assert (first_large_bin_number \<le> bin)
           (c_assert (bin < first_huge_bin_number)
             (call (bin_2_size bin) (\<lambda>usable_size.
              let offset = offset_in_chunk p;
                  objnum = (offset - offset_of_first_object_in_large_chunk) div usable_size in
              load_cell (entry_at (address_2_chunkaddress p) (unat objnum)) m (\<lambda>w. Ok (ucast (cell_footprint w)))))))))"

definition push_free_body ::
  "binnumber_t \<Rightarrow> addr \<Rightarrow> 'a large_mem_scheme \<Rightarrow> ('a large_mem_scheme, 'a large_mem_scheme) ctl res" where
  "push_free_body i ei m =
     free_head_at i m (\<lambda>first.
     store_cell ei first m (\<lambda>m1.
     free_head_at i m1 (\<lambda>cur.
       if cur = first then Ok (Done (m1\<lparr>free_large_objects := (free_large_objects m1)[unat i := ei]\<rparr>)) else Ok (Again m1))))"

definition large_free :: "addr \<Rightarrow> 'a large_mem_scheme \<Rightarrow> 'a large_mem_scheme res" where
  "large_free p m =
     (let b_and_s = infos m (address_2_chunknumber p) in
      c_assert (b_and_s \<noteq> 0)
        (call (bin_from_bin_and_size b_and_s) (\<lambda>bin.
         c_assert (first_large_bin_number \<le> bin \<and> bin < first_huge_bin_number)
           (call (bin_2_size bin) (\<lambda>usable_size.
            let m0 = snd (os_madvise p usable_size MADV_DONTNEED m); offset = offset_in_chunk p in
            call (divide_offset_by_objsize (ucast (offset - offset_of_first_object_in_large_chunk)) bin) (\<lambda>objnum.
            let ei = entry_at (address_2_chunkaddress p) (unat objnum) in
            load_cell ei m0 (\<lambda>w.
            call (add_to_footprint (- ucast (cell_footprint w)) m0) (\<lambda>m1.
            cloop (push_free_body (bin - first_large_bin_number) ei) m1)))))))) "

section \<open>Cells and objects\<close>

abbreviation usz :: "nat \<Rightarrow> nat" where "usz b \<equiv> unat (bin_size b)"

definition opc :: "nat \<Rightarrow> nat" where "opc b = (2 ^ 21 - 4096) div usz b"

definition cell :: "nat \<Rightarrow> nat \<Rightarrow> addr" where "cell c i = of_nat (c * 2 ^ 21 + 8 * i)"

definition obj :: "nat \<Rightarrow> nat \<Rightarrow> nat \<Rightarrow> addr" where "obj c b i = of_nat (c * 2 ^ 21 + (4096 + i * usz b))"

lemma large_row:
  assumes "40 \<le> b" "b < 47"
  shows "0 < opc b" "opc b < 128" "4096 dvd usz b" "16384 \<le> usz b"
proof -
  have b: "b = 40 \<or> b = 41 \<or> b = 42 \<or> b = 43 \<or> b = 44 \<or> b = 45 \<or> b = 46" using assms by arith
  have "usz b = [16384, 32768, 65536, 131072, 258048, 520192, 1044480] ! (b - 40)"
    using b bin_sizeE [of b] by (auto simp: static_sizes nth_append)
  then show "0 < opc b" "opc b < 128" "4096 dvd usz b" "16384 \<le> usz b" using b by (auto simp: opc_def)
qed

lemma obj_bound:
  assumes "40 \<le> b" "b < 47" "i < opc b"
  shows "4096 + (i + 1) * usz b \<le> 2 ^ 21"
proof -
  have "(i + 1) * usz b \<le> opc b * usz b" using assms(3) by (intro mult_le_mono1) simp
  also have "\<dots> \<le> 2 ^ 21 - 4096" unfolding opc_def by (rule div_times_less_eq_dividend)
  finally show ?thesis by simp
qed

lemma cell_facts:
  assumes "c < 2 ^ 26" "i < 512"
  shows "unat (cell c i) = c * 2 ^ 21 + 8 * i" "unat (cell c i) div 4096 = 512 * c"
    "address_2_chunkaddress (cell c i) = of_nat (c * 2 ^ 21)" "(cell c i - of_nat (c * 2 ^ 21)) div sizeof_cell = of_nat i"
    "entry_at (of_nat (c * 2 ^ 21)) i = cell c i"
proof -
  have i: "8 * i < 2 ^ 21" "c < 2 ^ 27" using assms by simp_all
  show u: "unat (cell c i) = c * 2 ^ 21 + 8 * i" "address_2_chunkaddress (cell c i) = of_nat (c * 2 ^ 21)"
    using chunk_split(1,4) [OF i(2) i(1) refl] by (simp_all add: cell_def)
  have "(c * 2 ^ 21 + 8 * i) div 4096 = 512 * c + (8 * i) div 4096" by simp
  then show "unat (cell c i) div 4096 = 512 * c" using u(1) assms(2) by simp
  have "cell c i - of_nat (c * 2 ^ 21) = of_nat (8 * i)" by (simp add: cell_def)
  moreover have "unat (of_nat (8 * i) :: u64) = 8 * i" using assms(2) by (intro unat_small) simp
  ultimately have "unat ((cell c i - of_nat (c * 2 ^ 21)) div sizeof_cell) = i" by (simp only: unat_div sizeof_cell_def) simp
  then show "(cell c i - of_nat (c * 2 ^ 21)) div sizeof_cell = of_nat i" by (metis of_nat_unat ucast_id)
  show "entry_at (of_nat (c * 2 ^ 21)) i = cell c i" by (simp add: entry_at_def sizeof_cell_def cell_def)
qed

lemma cell_inj:
  assumes "c < 2 ^ 26" "i < 512" "c' < 2 ^ 26" "i' < 512" "cell c i = cell c' i'"
  shows "c = c' \<and> i = i'"
proof -
  have "unat (cell c i) div 4096 = unat (cell c' i') div 4096" "unat (cell c i) = unat (cell c' i')" using assms(5) by simp_all
  then show ?thesis using cell_facts [OF assms(1,2)] cell_facts [OF assms(3,4)] by simp
qed

lemma obj_facts:
  assumes "c < 2 ^ 26" "40 \<le> b" "b < 47" "i < opc b"
  shows "unat (obj c b i) = c * 2 ^ 21 + (4096 + i * usz b)" "address_2_chunknumber (obj c b i) = of_nat c"
    "unat (offset_in_chunk (obj c b i)) = 4096 + i * usz b" "address_2_chunkaddress (obj c b i) = of_nat (c * 2 ^ 21)"
    "unat (offset_in_chunk (obj c b i) - offset_of_first_object_in_large_chunk) = i * usz b"
    "of_nat (c * 2 ^ 21) + offset_of_first_object_in_large_chunk + of_nat i * bin_size b = obj c b i"
proof -
  have lt: "4096 + i * usz b < 2 ^ 21" "c < 2 ^ 27" using obj_bound [OF assms(2-4)] large_row(4) [OF assms(2,3)] assms(1) by simp_all
  show f: "unat (obj c b i) = c * 2 ^ 21 + (4096 + i * usz b)" "address_2_chunknumber (obj c b i) = of_nat c"
    "unat (offset_in_chunk (obj c b i)) = 4096 + i * usz b" "address_2_chunkaddress (obj c b i) = of_nat (c * 2 ^ 21)"
    using chunk_split [OF lt(2) lt(1) refl] by (simp_all add: obj_def)
  then have "unat offset_of_first_object_in_large_chunk \<le> unat (offset_in_chunk (obj c b i))"
    by (simp add: offset_of_first_object_in_large_chunk_def)
  then show "unat (offset_in_chunk (obj c b i) - offset_of_first_object_in_large_chunk) = i * usz b"
    using f(3) by (simp add: unat_sub word_le_nat_alt offset_of_first_object_in_large_chunk_def)
  show "of_nat (c * 2 ^ 21) + offset_of_first_object_in_large_chunk + of_nat i * bin_size b = obj c b i"
    by (simp add: obj_def offset_of_first_object_in_large_chunk_def)
qed

lemma cell_footprint_with [simp]: "cell_footprint (with_footprint f w) = f"
  unfolding cell_footprint_def with_footprint_def by (rule bit_word_eqI) (auto simp: bit_simps)

section \<open>The lists of free cells\<close>

text \<open>Object \<open>(c, b, i)\<close> is the \<open>i\<close>-th object of chunk \<open>c\<close>, of size class \<open>b\<close>. \<open>L\<close> is the set of chunks of large objects.\<close>

definition objs :: "(nat \<times> nat) set \<Rightarrow> (nat \<times> nat \<times> nat) set" where
  "objs L = {(c, b, i). (c, b) \<in> L \<and> i < opc b}"

fun cell_of :: "nat \<times> nat \<times> nat \<Rightarrow> addr" where
  "cell_of (c, b, i) = cell c i"

fun bin_of :: "nat \<times> nat \<times> nat \<Rightarrow> nat" where
  "bin_of (c, b, i) = b"

definition chunks_ok :: "(nat \<times> nat) set \<Rightarrow> 'a large_mem_scheme \<Rightarrow> bool" where
  "chunks_ok L m \<longleftrightarrow> (\<forall>c b. (c, b) \<in> L \<longrightarrow> 40 \<le> b \<and> b < 47 \<and> 0 < c \<and> c < 2 ^ 26 \<and> {512 * c..<512 * c + 512} \<subseteq> os_pages m \<and>
     bin_from_bin_and_size (infos m (of_nat c)) = Ok (of_nat b)) \<and> (\<forall>c b b'. (c, b) \<in> L \<longrightarrow> (c, b') \<in> L \<longrightarrow> b = b')"

definition free_cells :: "(nat \<times> nat) set \<Rightarrow> (nat \<times> nat \<times> nat) set \<Rightarrow> nat \<Rightarrow> addr set" where
  "free_cells L U b = cell_of ` {x \<in> objs L - U. bin_of x = b}"

definition lists_ok :: "(nat \<times> nat) set \<Rightarrow> (nat \<times> nat \<times> nat) set \<Rightarrow> 'a large_mem_scheme \<Rightarrow> bool" where
  "lists_ok L U m \<longleftrightarrow> length (free_large_objects m) = 7 \<and>
     (\<forall>b. 40 \<le> b \<longrightarrow> b < 47 \<longrightarrow> (\<exists>xs. clist (cells m) (free_large_objects m ! (b - 40)) xs \<and> distinct xs \<and> set xs = free_cells L U b))"

definition large_ok :: "(nat \<times> nat) set \<Rightarrow> (nat \<times> nat \<times> nat) set \<Rightarrow> 'a large_mem_scheme \<Rightarrow> bool" where
  "large_ok L U m \<longleftrightarrow> chunks_ok L m \<and> U \<subseteq> objs L \<and> lists_ok L U m"

lemma objs_facts:
  assumes "chunks_ok L m" "(c, b, i) \<in> objs L"
  shows "40 \<le> b" "b < 47" "0 < c" "c < 2 ^ 26" "i < opc b" "i < 512" "cell c i \<noteq> NULL" "unat (cell c i) div 4096 \<in> os_pages m"
    "bin_from_bin_and_size (infos m (of_nat c)) = Ok (of_nat b)"
proof -
  show f: "40 \<le> b" "b < 47" "0 < c" "c < 2 ^ 26" "i < opc b" "bin_from_bin_and_size (infos m (of_nat c)) = Ok (of_nat b)"
    using assms unfolding chunks_ok_def objs_def by blast+
  show i: "i < 512" using large_row(2) [OF f(1,2)] f(5) by linarith
  have u: "unat (cell c i) = c * 2 ^ 21 + 8 * i" "unat (cell c i) div 4096 = 512 * c" using cell_facts [OF f(4) i] by simp_all
  show "cell c i \<noteq> NULL" using u(1) f(3) by auto
  have "{512 * c..<512 * c + 512} \<subseteq> os_pages m" using assms unfolding chunks_ok_def objs_def by blast
  then show "unat (cell c i) div 4096 \<in> os_pages m" using u(2) by auto
qed

lemma cell_of_inj:
  assumes "chunks_ok L m" "x \<in> objs L" "y \<in> objs L" "cell_of x = cell_of y"
  shows "x = y"
proof -
  obtain c b i c' b' i' where xy: "x = (c, b, i)" "y = (c', b', i')" by (metis prod_cases3)
  have "c = c' \<and> i = i'"
    using cell_inj objs_facts(4,6) [OF assms(1), of c b i] objs_facts(4,6) [OF assms(1), of c' b' i'] assms(2-4) xy by auto
  moreover have "(c, b) \<in> L" "(c', b') \<in> L" using assms(2,3) xy by (auto simp: objs_def)
  ultimately show ?thesis using assms(1) xy unfolding chunks_ok_def by blast
qed

lemma lists_update:
  assumes "lists_ok L U m" "40 \<le> b" "b < 47" "free_large_objects m' = (free_large_objects m)[b - 40 := h]"
    and ys: "clist (cells m') h ys" "distinct ys" "set ys = free_cells L' U' b"
    and fr: "\<And>x. x \<in> objs L - U \<Longrightarrow> bin_of x \<noteq> b \<Longrightarrow> cells m' (cell_of x) = cells m (cell_of x)"
    and same: "\<And>x. bin_of x \<noteq> b \<Longrightarrow> x \<in> objs L' - U' \<longleftrightarrow> x \<in> objs L - U"
  shows "lists_ok L' U' m'"
  unfolding lists_ok_def
proof (intro conjI allI impI)
  have len: "length (free_large_objects m) = 7" using assms(1) by (simp add: lists_ok_def)
  then show "length (free_large_objects m') = 7" using assms(4) by simp
  fix j :: nat assume j: "40 \<le> j" "j < 47"
  show "\<exists>xs. clist (cells m') (free_large_objects m' ! (j - 40)) xs \<and> distinct xs \<and> set xs = free_cells L' U' j"
  proof (cases "j = b")
    case True
    then show ?thesis using ys len assms(2-4) by (intro exI [of _ ys]) simp
  next
    case False
    have e: "free_cells L' U' j = free_cells L U j" using same False unfolding free_cells_def by (intro image_cong) auto
    obtain xs where xs: "clist (cells m) (free_large_objects m ! (j - 40)) xs" "distinct xs" "set xs = free_cells L U j"
      using assms(1) j by (auto simp: lists_ok_def)
    have "cells m' a = cells m a" if "a \<in> set xs" for a using that xs(3) fr False by (auto simp: free_cells_def)
    then have "clist (cells m') (free_large_objects m ! (j - 40)) xs" using clist_frame [OF xs(1)] by blast
    moreover have "free_large_objects m' ! (j - 40) = free_large_objects m ! (j - 40)"
      using False j assms(2-4) by simp
    ultimately show ?thesis using xs(2,3) e by auto
  qed
qed

lemma large_pop:
  assumes ok: "large_ok L U m" and b: "40 \<le> b" "b < 47" and h: "free_large_objects m ! (b - 40) = h" "h \<noteq> NULL"
    and m': "cells m' = (cells m)(h := w)" "free_large_objects m' = (free_large_objects m)[b - 40 := cells m h]"
      "os_pages m' = os_pages m" "infos m' = infos m"
  shows "\<exists>c i. h = cell c i \<and> (c, b, i) \<in> objs L \<and> (c, b, i) \<notin> U \<and> large_ok L (insert (c, b, i) U) m' \<and>
    (\<forall>x\<in>U. cells m' (cell_of x) = cells m (cell_of x))"
proof -
  have ck: "chunks_ok L m" and U: "U \<subseteq> objs L" and ls: "lists_ok L U m" using ok by (auto simp: large_ok_def)
  obtain xs where xs: "clist (cells m) h xs" "distinct xs" "set xs = free_cells L U b" using ls b h(1) unfolding lists_ok_def by blast
  then obtain ys where ys: "xs = h # ys" "clist (cells m) (cells m h) ys" using h(2) by (cases xs) auto
  then have "h \<in> free_cells L U b" using xs(3) by auto
  then obtain c i where x: "h = cell c i" "(c, b, i) \<in> objs L - U" by (auto simp: free_cells_def)
  let ?x = "(c, b, i)"
  have other: "cell_of y \<noteq> h" if "y \<in> objs L" "y \<noteq> ?x" for y using cell_of_inj [OF ck that(1), of ?x] that(2) x by auto
  have "lists_ok L (insert ?x U) m'"
  proof (rule lists_update [OF ls b m'(2)])
    show "distinct ys" using xs(2) ys(1) by simp
    show "clist (cells m') (cells m h) ys" using ys xs(2) m'(1) by (intro clist_frame [OF ys(2)]) auto
    have "free_cells L (insert ?x U) b = free_cells L U b - {h}"
      using x other unfolding free_cells_def by auto
    then show "set ys = free_cells L (insert ?x U) b" using xs(2,3) ys(1) by auto
    show "cells m' (cell_of y) = cells m (cell_of y)" if "y \<in> objs L - U" "bin_of y \<noteq> b" for y
    proof -
      have "y \<noteq> ?x" using that(2) by auto
      then show ?thesis using other [of y] that(1) m'(1) by simp
    qed
    show "y \<in> objs L - insert ?x U \<longleftrightarrow> y \<in> objs L - U" if "bin_of y \<noteq> b" for y using that by auto
  qed
  moreover have "chunks_ok L m'" using ck m'(3,4) by (simp add: chunks_ok_def)
  moreover have "cells m' (cell_of y) = cells m (cell_of y)" if "y \<in> U" for y using other [of y] that U x(2) m'(1) by auto
  ultimately show ?thesis using x U by (auto simp: large_ok_def)
qed

lemma large_push:
  assumes ok: "large_ok L U m" and x: "(c, b, i) \<in> U"
    and m': "cells m' = (cells m)(cell c i := free_large_objects m ! (b - 40))"
      "free_large_objects m' = (free_large_objects m)[b - 40 := cell c i]" "os_pages m' = os_pages m" "infos m' = infos m"
  shows "large_ok L (U - {(c, b, i)}) m' \<and> (\<forall>y\<in>U - {(c, b, i)}. cells m' (cell_of y) = cells m (cell_of y))"
proof -
  let ?x = "(c, b, i)"
  have ck: "chunks_ok L m" and U: "U \<subseteq> objs L" and ls: "lists_ok L U m" using ok by (auto simp: large_ok_def)
  have xo: "?x \<in> objs L" using x U by auto
  note b = objs_facts(1,2) [OF ck xo]
  obtain xs where xs: "clist (cells m) (free_large_objects m ! (b - 40)) xs" "distinct xs" "set xs = free_cells L U b"
    using ls b unfolding lists_ok_def by blast
  have other: "cell_of y \<noteq> cell c i" if "y \<in> objs L" "y \<noteq> ?x" for y using cell_of_inj [OF ck that(1) xo] that(2) by auto
  have nin: "cell c i \<notin> set xs"
  proof
    assume "cell c i \<in> set xs"
    then obtain y where "y \<in> objs L - U" "cell_of y = cell c i" using xs(3) unfolding free_cells_def by force
    then show False using other [of y] x by auto
  qed
  have "lists_ok L (U - {?x}) m'"
  proof (rule lists_update [OF ls b m'(2)])
    show "distinct (cell c i # xs)" using xs(2) nin by simp
    have "clist (cells m') (free_large_objects m ! (b - 40)) xs" using nin m'(1) by (intro clist_frame [OF xs(1)]) auto
    then show "clist (cells m') (cell c i) (cell c i # xs)" using m'(1) objs_facts(7) [OF ck xo] by simp
    have "{y \<in> objs L - (U - {?x}). bin_of y = b} = insert ?x {y \<in> objs L - U. bin_of y = b}" using xo by auto
    then have "free_cells L (U - {?x}) b = insert (cell c i) (free_cells L U b)" by (simp add: free_cells_def)
    then show "set (cell c i # xs) = free_cells L (U - {?x}) b" using xs(3) by simp
    show "cells m' (cell_of y) = cells m (cell_of y)" if "y \<in> objs L - U" "bin_of y \<noteq> b" for y
    proof -
      have "y \<noteq> ?x" using that(2) by auto
      then show ?thesis using other [of y] that(1) m'(1) by simp
    qed
    show "y \<in> objs L - (U - {?x}) \<longleftrightarrow> y \<in> objs L - U" if "bin_of y \<noteq> b" for y using that by auto
  qed
  moreover have "chunks_ok L m'" using ck m'(3,4) by (simp add: chunks_ok_def)
  moreover have "cells m' (cell_of y) = cells m (cell_of y)" if "y \<in> U - {?x}" for y using other [of y] that U m'(1) by auto
  ultimately show ?thesis using U by (auto simp: large_ok_def)
qed

lemma link_entries_ok:
  assumes "c < 2 ^ 26" "n \<le> 512" "512 * c \<in> os_pages m"
  shows "\<exists>f. link_entries (of_nat (c * 2 ^ 21)) n i m = Ok (m\<lparr>cells := f\<rparr>) \<and>
    (\<forall>j. i \<le> j \<longrightarrow> j + 1 < n \<longrightarrow> f (cell c j) = cell c (j + 1)) \<and> (\<forall>a. (\<forall>j<n. a \<noteq> cell c j) \<longrightarrow> f a = cells m a) \<and>
    (\<forall>j<i. f (cell c j) = cells m (cell c j))"
  using assms(3)
proof (induction "n - i" arbitrary: i m)
  case 0
  then show ?case by (subst link_entries.simps) (auto intro!: exI [of _ "cells m"])
next
  case (Suc d)
  show ?case
  proof (cases "i + 1 < n")
    case True
    have i: "i < 512" "i + 1 < 512" using True assms(2) by simp_all
    let ?m = "m\<lparr>cells := (cells m)(cell c i := cell c (i + 1))\<rparr>"
    have "link_entries (of_nat (c * 2 ^ 21)) n i m = link_entries (of_nat (c * 2 ^ 21)) n (i + 1) ?m"
      using True Suc(3) cell_facts(2,5) [OF assms(1) i(1)] cell_facts(5) [OF assms(1) i(2)]
      by (subst link_entries.simps) (simp add: store_cell_def del: of_nat_mult)
    moreover have "d = n - (i + 1)" using Suc(2) by simp
    then obtain f where f: "link_entries (of_nat (c * 2 ^ 21)) n (i + 1) ?m = Ok (?m\<lparr>cells := f\<rparr>)"
      "\<forall>j. i + 1 \<le> j \<longrightarrow> j + 1 < n \<longrightarrow> f (cell c j) = cell c (j + 1)" "\<forall>a. (\<forall>j<n. a \<noteq> cell c j) \<longrightarrow> f a = cells ?m a"
      "\<forall>j<i + 1. f (cell c j) = cells ?m (cell c j)"
      using Suc(1) [of "i + 1" ?m] Suc(3) by auto
    moreover have "f (cell c j) = cell c (j + 1)" if "i \<le> j" "j + 1 < n" for j
      using f(2,4) that by (cases "j = i") auto
    moreover have "f (cell c j) = cells m (cell c j)" if "j < i" for j
    proof -
      have "cell c j \<noteq> cell c i" using cell_inj [OF assms(1) _ assms(1) i(1), of j] that i by auto
      then show ?thesis using f(4) that by simp
    qed
    moreover have "f a = cells m a" if "\<forall>j<n. a \<noteq> cell c j" for a using f(3) that True by auto
    ultimately show ?thesis by (intro exI [of _ f]) simp
  next
    case False
    then show ?thesis by (subst link_entries.simps) (auto intro!: exI [of _ "cells m"])
  qed
qed

lemma clist_entries:
  assumes "\<And>j. i \<le> j \<Longrightarrow> j + 1 < n \<Longrightarrow> f (cell c j) = cell c (j + 1)" "f (cell c (n - 1)) = h" "clist f h xs" "i < n"
    "\<And>j. j < n \<Longrightarrow> cell c j \<noteq> NULL"
  shows "clist f (cell c i) (map (cell c) [i..<n] @ xs)"
  using assms(1,4)
proof (induction "n - i" arbitrary: i)
  case (Suc d)
  show ?case
  proof (cases "i + 1 < n")
    case True
    have "clist f (cell c (i + 1)) (map (cell c) [i + 1..<n] @ xs)" using Suc True by (intro Suc(1)) auto
    then show ?thesis using True Suc(3) [of i] assms(5) [of i] by (simp add: upt_conv_Cons)
  next
    case False
    then have "i = n - 1" "[i..<n] = [i]" using Suc(4) by (auto simp: upt_conv_Cons)
    then show ?thesis using assms(2,3) assms(5) [of i] Suc(4) by simp
  qed
qed simp

lemma large_grow:
  assumes ok: "large_ok L U m" and b: "40 \<le> b" "b < 47" and c: "0 < c" "c < 2 ^ 26" "{512 * c..<512 * c + 512} \<inter> os_pages m = {}"
    and m': "os_pages m' = os_pages m \<union> {512 * c..<512 * c + 512}" "infos m' = (infos m)(of_nat c := w)"
      "bin_from_bin_and_size w = Ok (of_nat b)" "free_large_objects m' = (free_large_objects m)[b - 40 := cell c 0]"
    and f: "\<And>j. j + 1 < opc b \<Longrightarrow> cells m' (cell c j) = cell c (j + 1)" "cells m' (cell c (opc b - 1)) = free_large_objects m ! (b - 40)"
      "\<And>a. (\<And>j. j < opc b \<Longrightarrow> a \<noteq> cell c j) \<Longrightarrow> cells m' a = cells m a"
  shows "large_ok (insert (c, b) L) U m' \<and> (\<forall>x\<in>U. cells m' (cell_of x) = cells m (cell_of x))"
proof -
  have ck: "chunks_ok L m" and U: "U \<subseteq> objs L" and ls: "lists_ok L U m" using ok by (auto simp: large_ok_def)
  have nL: "c' \<noteq> c" if "(c', b') \<in> L" for c' b'
  proof
    assume "c' = c"
    then have "{512 * c..<512 * c + 512} \<subseteq> os_pages m" using ck that unfolding chunks_ok_def by blast
    moreover have "512 * c \<in> {512 * c..<512 * c + 512}" by simp
    ultimately show False using c(3) by blast
  qed
  have n: "0 < opc b" "opc b \<le> 512" using large_row(1,2) [OF b] by simp_all
  have new: "cell_of x \<noteq> cell c j" if x: "x \<in> objs L" and j: "j < opc b" for x j
  proof -
    obtain c' b' i where xe: "x = (c', b', i)" by (metis prod_cases3)
    then have "(c', b') \<in> L" using x by (simp add: objs_def)
    then show ?thesis using cell_inj [of c' i c j] objs_facts(4,6) [OF ck, of c' b' i] x xe nL c(2) j n(2) by auto
  qed
  have fr: "cells m' (cell_of x) = cells m (cell_of x)" if "x \<in> objs L" for x using f(3) new [OF that] by blast
  have chunks: "chunks_ok (insert (c, b) L) m'"
  proof -
    have o: "40 \<le> b' \<and> b' < 47 \<and> 0 < c' \<and> c' < 2 ^ 26 \<and> {512 * c'..<512 * c' + 512} \<subseteq> os_pages m' \<and>
      bin_from_bin_and_size (infos m' (of_nat c')) = Ok (of_nat b')" if "(c', b') \<in> L" for c' b'
    proof -
      have 1: "40 \<le> b' \<and> b' < 47 \<and> 0 < c' \<and> c' < 2 ^ 26 \<and> {512 * c'..<512 * c' + 512} \<subseteq> os_pages m \<and>
        bin_from_bin_and_size (infos m (of_nat c')) = Ok (of_nat b')" using ck that unfolding chunks_ok_def by blast
      then have "of_nat c' \<noteq> (of_nat c :: u32)" using nL [OF that] unat_chunk [of c'] unat_chunk [OF c(2)] by auto
      then show ?thesis using 1 m'(1,2) by auto
    qed
    have "b' = b''" if "(c', b') \<in> insert (c, b) L" "(c', b'') \<in> insert (c, b) L" for c' b' b''
      using that nL ck unfolding chunks_ok_def by blast
    moreover have "{512 * c..<512 * c + 512} \<subseteq> os_pages m'" using m'(1) by blast
    moreover have "bin_from_bin_and_size (infos m' (of_nat c)) = Ok (of_nat b)" using m'(2,3) by simp
    ultimately show ?thesis using o b c(1,2) unfolding chunks_ok_def by blast
  qed
  obtain xs where xs: "clist (cells m) (free_large_objects m ! (b - 40)) xs" "distinct xs" "set xs = free_cells L U b"
    using ls b unfolding lists_ok_def by blast
  have "lists_ok (insert (c, b) L) U m'"
  proof (rule lists_update [OF ls b m'(4)])
    have "clist (cells m') (free_large_objects m ! (b - 40)) xs"
      using xs(3) fr by (intro clist_frame [OF xs(1)]) (auto simp: free_cells_def)
    moreover have "cell c j \<noteq> NULL" if "j < opc b" for j
      using objs_facts(7) [OF chunks, of c b j] that by (simp add: objs_def)
    ultimately show "clist (cells m') (cell c 0) (map (cell c) [0..<opc b] @ xs)" using f n by (intro clist_entries) auto
    have "inj_on (cell c) {0..<opc b}" using cell_inj [of c _ c] c(2) n(2) by (intro inj_onI) simp
    moreover have "cell c ` {0..<opc b} \<inter> set xs = {}"
    proof (intro equals0I, elim IntE imageE)
      fix a j assume "a \<in> set xs" "a = cell c j" "j \<in> {0..<opc b}"
      moreover from this obtain y where "y \<in> objs L" "a = cell_of y" using xs(3) unfolding free_cells_def by blast
      ultimately show False using new [of y j] by simp
    qed
    ultimately show "distinct (map (cell c) [0..<opc b] @ xs)" using xs(2) by (simp add: distinct_map)
    have "{x \<in> objs (insert (c, b) L) - U. bin_of x = b} = (\<lambda>j. (c, b, j)) ` {0..<opc b} \<union> {x \<in> objs L - U. bin_of x = b}"
      using U nL by (auto simp: objs_def)
    then show "set (map (cell c) [0..<opc b] @ xs) = free_cells (insert (c, b) L) U b"
      using xs(3) by (simp add: free_cells_def image_Un image_image)
    show "cells m' (cell_of x) = cells m (cell_of x)" if "x \<in> objs L - U" "bin_of x \<noteq> b" for x using fr that by blast
    show "x \<in> objs (insert (c, b) L) - U \<longleftrightarrow> x \<in> objs L - U" if "bin_of x \<noteq> b" for x using that by (auto simp: objs_def)
  qed
  moreover have "U \<subseteq> objs (insert (c, b) L)" using U by (auto simp: objs_def)
  ultimately show ?thesis using chunks fr U by (auto simp: large_ok_def)
qed

section \<open>The operations\<close>

lemma same_book_large:
  assumes "same_book m m'"
  shows "cells m' = cells m" "free_large_objects m' = free_large_objects m" "infos m' = infos m"
    "fp_inv m' = fp_inv m" "get_footprint m' = get_footprint m"
  using assms by (cases m; cases m'; simp add: same_book_def fp_inv_def get_footprint_def)+

lemma same_chunks_large:
  assumes "same_chunks m m'"
  shows "cells m' = cells m" "free_large_objects m' = free_large_objects m" "infos m' = infos m" "os_pages m' = os_pages m"
  using assms by (cases m; cases m'; simp add: same_chunks_def)+

lemma bin_word:
  assumes "40 \<le> b" "b < 47"
  shows "unat (of_nat b :: u32) = b" "unat (of_nat b - first_large_bin_number) = b - 40" "of_nat b < (127 :: u32)"
    "first_large_bin_number \<le> of_nat b" "of_nat b < first_huge_bin_number" "bin_2_size (of_nat b) = Ok (bin_size b)"
proof -
  show u: "unat (of_nat b :: u32) = b" using assms by (intro unat_small) simp
  have "of_nat b - first_large_bin_number = (of_nat (b - 40) :: u32)" using assms by (simp add: first_large_bin_number_def of_nat_diff)
  moreover have "unat (of_nat (b - 40) :: u32) = b - 40" using assms by (intro unat_small) simp
  ultimately show "unat (of_nat b - first_large_bin_number) = b - 40" by (simp only:)
  show "of_nat b < (127 :: u32)" "first_large_bin_number \<le> of_nat b" "of_nat b < first_huge_bin_number"
    using assms u by (simp_all add: word_less_nat_alt word_le_nat_alt first_large_bin_number_def first_huge_bin_number_def)
  show "bin_2_size (of_nat b) = Ok (bin_size b)" using bin_2_size_eq [of "of_nat b"] u assms by simp
qed

lemma opc_word:
  assumes "40 \<le> b" "b < 47"
  shows "unat ((chunksize - offset_of_first_object_in_large_chunk) div bin_size b) = opc b"
    "(chunksize - offset_of_first_object_in_large_chunk) div bin_size b * sizeof_cell \<le> offset_of_first_object_in_large_chunk"
proof -
  have e: "chunksize - offset_of_first_object_in_large_chunk = (2093056 :: u64)" by (simp add: chunksize_value offset_of_first_object_in_large_chunk_def)
  show u: "unat ((chunksize - offset_of_first_object_in_large_chunk) div bin_size b) = opc b"
    unfolding e opc_def by (simp only: unat_div) simp
  let ?q = "(chunksize - offset_of_first_object_in_large_chunk) div bin_size b"
  have "?q * sizeof_cell = of_nat (opc b * 8)" using u by (metis of_nat_mult of_nat_numeral of_nat_unat sizeof_cell_def ucast_id)
  moreover have "unat (of_nat (opc b * 8) :: u64) = opc b * 8" using large_row(2) [OF assms] by (intro unat_small) simp
  ultimately have "unat (?q * sizeof_cell) = opc b * 8" by (simp only:)
  then show "?q * sizeof_cell \<le> offset_of_first_object_in_large_chunk"
    using large_row(2) [OF assms] unfolding word_le_nat_alt offset_of_first_object_in_large_chunk_def by simp
qed

lemma free_head_ok:
  assumes "lists_ok L U m" "40 \<le> b" "b < 47"
  shows "free_head_at (of_nat b - first_large_bin_number) m k = k (free_large_objects m ! (b - 40))"
proof -
  have "b - 40 < 7" using assms(2,3) by arith
  then show ?thesis using assms(1) bin_word(2) [OF assms(2,3)] by (simp add: free_head_at_def lists_ok_def)
qed

lemma new_large_chunk_ok:
  assumes ok: "large_ok L U m" and b: "40 \<le> b" "b < 47"
    and mm: "mmap_chunk_aligned_block 1 m = Ok (r, m1)" "r \<noteq> NULL"
  shows "\<exists>L' m'. new_large_chunk fp (of_nat b) (bin_size b) m = Ok m' \<and> large_ok L' U m' \<and> free_large_objects m' ! (b - 40) \<noteq> NULL \<and>
    (\<forall>x\<in>U. cells m' (cell_of x) = cells m (cell_of x)) \<and> fp_inv m' = fp_inv m \<and> get_footprint m' = get_footprint m"
proof -
  have ls: "lists_ok L U m" using ok by (simp add: large_ok_def)
  have sb: "same_book m m1" and nb: "new_block r 512 m m1" using aligned_block [of 1 m] mm by auto
  note same = same_book_large [OF sb]
  obtain c where c: "unat r = 2 ^ 21 * c" "0 < c" "2 ^ 21 * c + 4096 * 512 \<le> 2 ^ 47" "{512 * c..<512 * c + 512} \<inter> os_pages m = {}"
    "os_pages m1 = os_pages m \<union> {512 * c..<512 * c + 512}" using nb by (auto simp: new_block_def)
  then have c26: "c < 2 ^ 26" by simp
  have r: "r = of_nat (c * 2 ^ 21)" using c(1) by (metis mult.commute of_nat_unat ucast_id)
  have cn: "address_2_chunknumber r = of_nat c" using chunk_split(2) [of c 0 r] c26 r by simp
  have n: "0 < opc b" "opc b < 128" using large_row [OF b] by simp_all
  have pg: "512 * c \<in> os_pages m1" using c(5) by simp
  obtain f where f: "link_entries r (opc b) 0 m1 = Ok (m1\<lparr>cells := f\<rparr>)" "\<forall>j. j + 1 < opc b \<longrightarrow> f (cell c j) = cell c (j + 1)"
    "\<forall>a. (\<forall>j<opc b. a \<noteq> cell c j) \<longrightarrow> f a = cells m a"
    using link_entries_ok [OF c26 _ pg, of "opc b" 0] n(2) r same(1) by auto
  obtain w where w: "bin_and_size_to_bin_and_size (of_nat b) (ucast fp) = Ok w" "w \<noteq> 0" "bin_from_bin_and_size w = Ok (of_nat b)"
    using bin_code [OF bin_word(3) [OF b]] by blast
  let ?m2 = "m1\<lparr>cells := f, infos := (infos m1)(of_nat c := w)\<rparr>" and ?hd = "free_large_objects m ! (b - 40)"
  let ?m' = "?m2\<lparr>cells := f(cell c (opc b - 1) := ?hd), free_large_objects := (free_large_objects m)[b - 40 := cell c 0]\<rparr>"
  have n1: "opc b - 1 < 512" using n by simp
  have len: "length (free_large_objects m) = 7" using ls by (simp add: lists_ok_def)
  have "cloop (push_entries_body (of_nat b - first_large_bin_number) r (opc b)) ?m2 = Ok ?m'"
    using len b bin_word(2) [OF b] same(2) pg cell_facts(2,5) [OF c26 n1] cell_facts(5) [OF c26, of 0] r
    by (intro cloop_Done) (simp add: push_entries_body_def free_head_at_def store_cell_def del: of_nat_mult)
  then have run: "new_large_chunk fp (of_nat b) (bin_size b) m = Ok ?m'"
    unfolding new_large_chunk_def using mm f(1) w(1,2) opc_word [OF b] cn by (simp add: Let_def)
  have "large_ok (insert (c, b) L) U ?m' \<and> (\<forall>x\<in>U. cells ?m' (cell_of x) = cells m (cell_of x))"
  proof (rule large_grow [OF ok b c(2) c26 c(4) _ _ w(3)])
    show "cells ?m' (cell c j) = cell c (j + 1)" if "j + 1 < opc b" for j
    proof -
      have "cell c j \<noteq> cell c (opc b - 1)" using cell_inj [of c j c "opc b - 1"] that n c26 by auto
      then show ?thesis using f(2) that by simp
    qed
    show "cells ?m' a = cells m a" if "\<And>j. j < opc b \<Longrightarrow> a \<noteq> cell c j" for a using f(3) that n(1) by simp
  qed (use c(5) same in simp_all)
  moreover have "free_large_objects ?m' ! (b - 40) \<noteq> NULL"
    using len b cell_facts(1) [OF c26, of 0] c(2) by (auto simp: cell_def)
  ultimately show ?thesis using run same(4,5) by (intro exI [of _ "insert (c, b) L"] exI [of _ ?m']) (simp add: fp_inv_def get_footprint_def)
qed

lemma large_pop_run:
  assumes ok: "large_ok L U m" and fi: "fp_inv m" and b: "40 \<le> b" "b < 47" and h: "free_large_objects m ! (b - 40) \<noteq> NULL"
  shows "\<exists>c i m'. large_malloc_body fp (of_nat b) (bin_size b) m = Ok (Done (obj c b i, m')) \<and> (c, b, i) \<in> objs L \<and> (c, b, i) \<notin> U \<and>
    large_ok L (insert (c, b, i) U) m' \<and> fp_inv m' \<and> get_footprint m' = get_footprint m + ucast fp \<and>
    cell_footprint (cells m' (cell c i)) = fp \<and> (\<forall>x\<in>U. cells m' (cell_of x) = cells m (cell_of x))"
proof -
  let ?h = "free_large_objects m ! (b - 40)"
  have ck: "chunks_ok L m" and ls: "lists_ok L U m" using ok by (auto simp: large_ok_def)
  let ?m1 = "m\<lparr>free_large_objects := (free_large_objects m)[b - 40 := cells m ?h]\<rparr>"
  let ?m2 = "?m1\<lparr>cells := (cells m)(?h := with_footprint fp (cells m ?h))\<rparr>"
  obtain m3 where m3: "add_to_footprint (ucast fp) ?m2 = Ok m3" "fp_inv m3" "same_chunks ?m2 m3" "get_footprint m3 = get_footprint ?m2 + ucast fp"
    using add_to_footprint_ok [of ?m2 "ucast fp"] fi by (auto simp: fp_inv_def)
  note same = same_chunks_large [OF m3(3)]
  have m3': "cells m3 = (cells m)(?h := with_footprint fp (cells m ?h))"
    "free_large_objects m3 = (free_large_objects m)[b - 40 := cells m ?h]" "os_pages m3 = os_pages m" "infos m3 = infos m"
    using same by simp_all
  obtain c i where p: "?h = cell c i" "(c, b, i) \<in> objs L" "(c, b, i) \<notin> U" "large_ok L (insert (c, b, i) U) m3"
    "\<forall>x\<in>U. cells m3 (cell_of x) = cells m (cell_of x)"
    using large_pop [OF ok b refl h m3'] by blast
  note f = objs_facts [OF ck p(2)]
  note o = obj_facts [OF f(4) b f(5)]
  define ch where "ch = (of_nat (c * 2 ^ 21) :: addr)"
  have ad: "address_2_chunknumber ch = of_nat c" "address_2_chunkaddress (cell c i) = ch" "(cell c i - ch) div sizeof_cell = of_nat i"
    "ch + offset_of_first_object_in_large_chunk + of_nat i * bin_size b = obj c b i"
    using chunk_split(2) [of c 0 ch] f(4) cell_facts(3,4) [OF f(4,6)] o(6) by (simp_all add: ch_def)
  have pop: "do_large_malloc_pop (of_nat b - first_large_bin_number) m = Ok (?h, ?m1)"
    using h p(1) f(8) bin_word(2) [OF b] by (simp add: do_large_malloc_pop_def load_cell_def free_head_ok [OF ls b])
  have "infos m3 (of_nat c) = infos m (of_nat c)" using same(3) by simp
  then have "large_malloc_body fp (of_nat b) (bin_size b) m = Ok (Done (obj c b i, m3))"
    using h pop m3(1) f(8,9) p(1) unfolding large_malloc_body_def
    by (simp add: free_head_ok [OF ls b] load_cell_def store_cell_def Let_def ad o(2))
  moreover have "cell_footprint (cells m3 (cell c i)) = fp" using same(1) p(1) by simp
  moreover have "get_footprint m3 = get_footprint m + ucast fp" using m3(4) by (simp add: get_footprint_def)
  ultimately show ?thesis using p m3(2) by blast
qed

definition bytes_used :: "u64 \<Rightarrow> u32" where
  "bytes_used sz = ucast (pagesize * ceil sz pagesize)"

lemma large_malloc_start:
  assumes "size_2_bin sz = Ok (of_nat b)" "40 \<le> b" "b < 47"
  shows "large_malloc sz m = cloop (large_malloc_body (bytes_used sz) (of_nat b) (bin_size b)) m"
  using assms bin_word [OF assms(2,3)] by (simp add: large_malloc_def bytes_used_def Let_def)

lemma large_malloc_ok:
  assumes ok: "large_ok L U m" and fi: "fp_inv m" and b: "size_2_bin sz = Ok (of_nat b)" "40 \<le> b" "b < 47"
    and mem: "free_large_objects m ! (b - 40) \<noteq> NULL \<or> (\<exists>r m1. mmap_chunk_aligned_block 1 m = Ok (r, m1) \<and> r \<noteq> NULL)"
  shows "\<exists>L' c i m'. large_malloc sz m = Ok (obj c b i, m') \<and> (c, b, i) \<notin> U \<and> large_ok L' (insert (c, b, i) U) m' \<and> fp_inv m' \<and>
    get_footprint m' = get_footprint m + ucast (bytes_used sz) \<and> cell_footprint (cells m' (cell c i)) = bytes_used sz \<and>
    (\<forall>x\<in>U. cells m' (cell_of x) = cells m (cell_of x))"
proof (cases "free_large_objects m ! (b - 40) = NULL")
  case False
  then obtain c i m' where "large_malloc_body (bytes_used sz) (of_nat b) (bin_size b) m = Ok (Done (obj c b i, m'))" and
    p: "(c, b, i) \<notin> U" "large_ok L (insert (c, b, i) U) m'" "fp_inv m'" "get_footprint m' = get_footprint m + ucast (bytes_used sz)"
    "cell_footprint (cells m' (cell c i)) = bytes_used sz" "\<forall>x\<in>U. cells m' (cell_of x) = cells m (cell_of x)"
    using large_pop_run [OF ok fi b(2,3)] by blast
  then have "large_malloc sz m = Ok (obj c b i, m')" unfolding large_malloc_start [OF b] by (intro cloop_Done)
  then show ?thesis using p by blast
next
  case True
  then obtain r m1 where r: "mmap_chunk_aligned_block 1 m = Ok (r, m1)" "r \<noteq> NULL" using mem by blast
  obtain L' m2 where g: "new_large_chunk (bytes_used sz) (of_nat b) (bin_size b) m = Ok m2" "large_ok L' U m2" "free_large_objects m2 ! (b - 40) \<noteq> NULL"
    "\<forall>x\<in>U. cells m2 (cell_of x) = cells m (cell_of x)" "fp_inv m2 = fp_inv m" "get_footprint m2 = get_footprint m"
    using new_large_chunk_ok [OF ok b(2,3) r] by blast
  have ls: "lists_ok L U m" using ok by (simp add: large_ok_def)
  have again: "large_malloc_body (bytes_used sz) (of_nat b) (bin_size b) m = Ok (Again m2)"
    unfolding large_malloc_body_def using True g(1) by (simp add: free_head_ok [OF ls b(2,3)])
  have "fp_inv m2" using g(5) fi by simp
  then obtain c i m' where pr: "large_malloc_body (bytes_used sz) (of_nat b) (bin_size b) m2 = Ok (Done (obj c b i, m'))" and
    p: "(c, b, i) \<notin> U" "large_ok L' (insert (c, b, i) U) m'" "fp_inv m'" "get_footprint m' = get_footprint m2 + ucast (bytes_used sz)"
    "cell_footprint (cells m' (cell c i)) = bytes_used sz" "\<forall>x\<in>U. cells m' (cell_of x) = cells m2 (cell_of x)"
    using large_pop_run [OF g(2) _ b(2,3) g(3)] by blast
  have "large_malloc sz m = Ok (obj c b i, m')"
    unfolding large_malloc_start [OF b]  using again pr by (subst cloop_unfold) simp
  then show ?thesis using p g(4,6) by (intro exI conjI) auto
qed

lemma large_malloc_abort:
  assumes ok: "large_ok L U m" and b: "size_2_bin sz = Ok (of_nat b)" "40 \<le> b" "b < 47"
    and no: "free_large_objects m ! (b - 40) = NULL" "mmap_chunk_aligned_block 1 m = Ok (NULL, m1)"
  shows "large_malloc sz m = Fault AssertFail"
proof -
  have ls: "lists_ok L U m" using ok by (simp add: large_ok_def)
  have "large_malloc_body (bytes_used sz) (of_nat b) (bin_size b) m = Fault AssertFail"
    unfolding large_malloc_body_def new_large_chunk_def using no by (simp add: free_head_ok [OF ls b(2,3)])
  then show ?thesis unfolding large_malloc_start [OF b] by (subst cloop_unfold) simp
qed

lemma large_footprint_ok:
  assumes ok: "large_ok L U m" and x: "(c, b, i) \<in> U"
  shows "large_footprint (obj c b i) m = Ok (ucast (cell_footprint (cells m (cell c i))))"
proof -
  have ck: "chunks_ok L m" and xo: "(c, b, i) \<in> objs L" using ok x by (auto simp: large_ok_def)
  note f = objs_facts [OF ck xo]
  note o = obj_facts [OF f(4,1,2,5)]
  have "unat ((offset_in_chunk (obj c b i) - offset_of_first_object_in_large_chunk) div bin_size b) = i"
    using o(5) large_row(4) [OF f(1,2)] by (simp only: unat_div) simp
  moreover have "entry_at (address_2_chunkaddress (obj c b i)) i = cell c i" using cell_facts(5) [OF f(4,6)] o(4) by simp
  moreover have "infos m (of_nat c) \<noteq> 0" using f(9) by (auto simp: bin_from_bin_and_size_def)
  ultimately show ?thesis
    using bin_word(4-6) [OF f(1,2)] f(8,9) o(2) by (simp add: large_footprint_def load_cell_def Let_def)
qed

lemma large_free_ok:
  assumes ok: "large_ok L U m" and fi: "fp_inv m" and x: "(c, b, i) \<in> U"
  shows "\<exists>m'. large_free (obj c b i) m = Ok m' \<and> large_ok L (U - {(c, b, i)}) m' \<and> fp_inv m' \<and>
    get_footprint m' = get_footprint m - ucast (cell_footprint (cells m (cell c i))) \<and>
    (\<forall>y\<in>U - {(c, b, i)}. cells m' (cell_of y) = cells m (cell_of y))"
proof -
  have ck: "chunks_ok L m" and xo: "(c, b, i) \<in> objs L" and ls: "lists_ok L U m" using ok x by (auto simp: large_ok_def)
  note f = objs_facts [OF ck xo]
  note o = obj_facts [OF f(4,1,2,5)]
  let ?d = "ucast (cell_footprint (cells m (cell c i))) :: u64" and ?hd = "free_large_objects m ! (b - 40)"
  let ?off = "offset_in_chunk (obj c b i) - offset_of_first_object_in_large_chunk"
  let ?m0 = "snd (os_madvise (obj c b i) (bin_size b) MADV_DONTNEED m)"
  have m0: "fp_inv ?m0" "get_footprint ?m0 = get_footprint m" "cells ?m0 = cells m" "free_large_objects ?m0 = free_large_objects m"
    "infos ?m0 = infos m" "os_pages ?m0 = os_pages m"
    using fi by (simp_all add: os_madvise_def fp_inv_def get_footprint_def)
  obtain m1 where m1: "add_to_footprint (- ?d) ?m0 = Ok m1" "fp_inv m1" "same_chunks ?m0 m1" "get_footprint m1 = get_footprint m + - ?d"
    using add_to_footprint_ok [OF m0(1), of "- ?d"] m0(2) by metis
  note same = same_chunks_large [OF m1(3), unfolded m0]
  let ?m' = "m1\<lparr>cells := (cells m)(cell c i := ?hd), free_large_objects := (free_large_objects m)[b - 40 := cell c i]\<rparr>"
  have lt: "i * usz b < 2 ^ 21" using obj_bound [OF f(1,2,5)] large_row(4) [OF f(1,2)] by simp
  have "unat (ucast ?off :: u32) = i * usz b"
    using unat_down [of ?off] o(5) lt by simp
  moreover have "unat (of_nat i :: u32) = i" using f(6) by (intro unat_small) simp
  ultimately have dv: "divide_offset_by_objsize (ucast ?off) (of_nat b) = Ok (of_nat i)" "unat (of_nat i :: u32) = i"
    using divide_exact(1) [of "of_nat b" "ucast ?off"] bin_word(1) [OF f(1,2)] f(2) lt large_row(4) [OF f(1,2)]
    by simp_all
  have e: "entry_at (address_2_chunkaddress (obj c b i)) i = cell c i" using cell_facts(5) [OF f(4,6)] o(4) by simp
  have nz: "infos m (of_nat c) \<noteq> 0" using f(9) by (auto simp: bin_from_bin_and_size_def)
  have len: "length (free_large_objects m) = 7" "b - 40 < 7" using ls f(1,2) by (auto simp: lists_ok_def)
  have "cloop (push_free_body (of_nat b - first_large_bin_number) (cell c i)) m1 = Ok ?m'"
    by (rule cloop_Done) (use same len f(8) bin_word(2) [OF f(1,2)] in \<open>simp add: push_free_body_def free_head_at_def store_cell_def\<close>)
  then have "large_free (obj c b i) m = Ok ?m'"
    using bin_word(4-6) [OF f(1,2)] f(8,9) o(2) nz m1(1) by (simp add: large_free_def load_cell_def Let_def dv e m0)
  moreover have "large_ok L (U - {(c, b, i)}) ?m' \<and> (\<forall>y\<in>U - {(c, b, i)}. cells ?m' (cell_of y) = cells m (cell_of y))"
    by (rule large_push [OF ok x]) (use same in simp_all)
  ultimately show ?thesis using m1(2,4) by (intro exI [of _ ?m']) (simp add: fp_inv_def get_footprint_def)
qed

section \<open>Any sequence of allocations and frees of large objects\<close>

datatype large_op = Large_malloc u64 | Large_free nat

fun large_step :: "large_op \<Rightarrow> (addr \<times> u64) list \<times> 'a large_mem_scheme \<Rightarrow> ((addr \<times> u64) list \<times> 'a large_mem_scheme) res" where
  "large_step (Large_malloc sz) (live, m) = call (large_malloc sz m) (\<lambda>(r, m1). Ok (live @ [(r, sz)], m1))"
| "large_step (Large_free i) (live, m) =
     (if i < length live then call (large_free (fst (live ! i)) m) (\<lambda>m1. Ok (take i live @ drop (Suc i) live, m1)) else Ok (live, m))"

fun large_run :: "large_op list \<Rightarrow> (addr \<times> u64) list \<times> 'a large_mem_scheme \<Rightarrow> ((addr \<times> u64) list \<times> 'a large_mem_scheme) res" where
  "large_run [] s = Ok s"
| "large_run (x # xs) s = call (large_step x s) (large_run xs)"

definition large_request_ok :: "large_op \<Rightarrow> bool" where
  "large_request_ok x = (case x of Large_malloc sz \<Rightarrow> largest_small < sz \<and> sz \<le> largest_large | Large_free i \<Rightarrow> True)"

text \<open>The allocator before its first call; the contents of memory, \<open>mem\<close>, may be anything.\<close>

definition large_start :: "addr list \<Rightarrow> nat set \<Rightarrow> chunk_infos \<Rightarrow> i32 list \<Rightarrow> (addr \<Rightarrow> u64) \<Rightarrow> large_mem" where
  "large_start script pages i cpus mem = \<lparr>os_script = script, os_pages = pages, os_advice = [], total_mapped = 0, mismapped_so_unmapped = 0,
     infos = i, free_chunks = replicate log_max_chunknumber 0, os_cpus = cpus, partitioned_footprint = replicate 128 0,
     prid_cpuid = 0, prid_count = 0, free_large_objects = replicate (unat n_large_classes) NULL, cells = mem\<rparr>"

fun owns :: "'a large_mem_scheme \<Rightarrow> addr \<times> u64 \<Rightarrow> nat \<times> nat \<times> nat \<Rightarrow> bool" where
  "owns m (p, sz) (c, b, i) \<longleftrightarrow> p = obj c b i \<and> unat sz \<le> usz b \<and> cell_footprint (cells m (cell c i)) = bytes_used sz"

definition large_inv :: "(addr \<times> u64) list \<times> 'a large_mem_scheme \<Rightarrow> bool" where
  "large_inv s \<longleftrightarrow> (\<exists>L os. large_ok L (set os) (snd s) \<and> distinct os \<and> list_all2 (owns (snd s)) (fst s) os) \<and> fp_inv (snd s) \<and>
     get_footprint (snd s) = sum_list (map (\<lambda>x. ucast (bytes_used (snd x))) (fst s))"

lemma owns_frame: "cells m' (cell_of x) = cells m (cell_of x) \<Longrightarrow> owns m' y x = owns m y x"
  by (cases x; cases y) simp

lemma owns_all_frame:
  assumes "list_all2 (owns m) live os" "\<forall>x\<in>set os. cells m' (cell_of x) = cells m (cell_of x)"
  shows "list_all2 (owns m') live os"
  using assms(1)
proof (rule list.rel_mono_strong)
  fix x y assume "y \<in> set os" "owns m x y"
  then show "owns m' x y" using assms(2) owns_frame [of m' y m x] by simp
qed

lemma large_start_inv:
  assumes "\<forall>c\<in>set cpus. 0 \<le> sint c"
  shows "large_inv ([], large_start script pages i cpus mem)"
proof -
  let ?m = "large_start script pages i cpus mem"
  have n: "unat n_large_classes = 7" by (simp add: n_large_classes_def first_huge_bin_number_def first_large_bin_number_def)
  have "clist (cells ?m) (free_large_objects ?m ! (b - 40)) []" if "b < 47" for b
    using that by (simp add: large_start_def n)
  moreover have "free_cells {} {} b = {}" for b by (simp add: free_cells_def objs_def)
  moreover have "length (free_large_objects ?m) = 7" by (simp add: large_start_def n)
  ultimately have "lists_ok {} {} ?m" unfolding lists_ok_def by (metis distinct.simps(1) empty_set)
  then have "large_ok {} (set []) ?m" by (simp add: large_ok_def chunks_ok_def)
  moreover have "fp_inv ?m" using assms by (simp add: fp_inv_def large_start_def)
  moreover have "get_footprint ?m = sum_list (partitioned_footprint ?m)" by (rule get_footprint_sum) (simp add: large_start_def)
  then have "get_footprint ?m = 0" by (simp add: large_start_def sum_list_replicate)
  ultimately show ?thesis unfolding large_inv_def by (intro conjI exI [of _ "{}"] exI [of _ "[]"]) simp_all
qed

lemma large_bin:
  assumes "largest_small < sz" "sz \<le> largest_large"
  shows "\<exists>b. size_2_bin sz = Ok (of_nat b) \<and> 40 \<le> b \<and> b < 47 \<and> unat sz \<le> usz b"
proof -
  have "sz \<le> 2 ^ 47" using assms(2) by (simp add: largest_large_def word_le_nat_alt)
  then obtain w where w: "size_2_bin sz = Ok w" "first_fit sz (unat w)" using size_2_bin_fits [of sz] by (auto simp: fits_def)
  have s: "bin_size 39 = largest_small" "bin_size 46 = largest_large"
    using bin_sizeE [of 39] bin_sizeE [of 46] by (simp_all add: static_sizes nth_append largest_small_def largest_large_def)
  have "\<not> 46 < unat w" using w(2) s(2) assms(2) unfolding first_fit_def by (metis not_le)
  moreover have "\<not> unat w < 40"
  proof
    assume "unat w < 40"
    then have "unat w = 39 \<or> bin_size (unat w) < bin_size 39"
      using sorted_wrt_nth_less [OF sizes_sorted, of "unat w" 39] bin_sizeE [of "unat w"] bin_sizeE [of 39]
      by (simp only: length_map length_info) linarith
    then have "bin_size (unat w) \<le> bin_size 39" by (metis less_imp_le order_refl)
    then show False using w(2) s(1) assms(1) unfolding first_fit_def by (metis leD order.trans)
  qed
  moreover have "unat sz \<le> usz (unat w)" using w(2) unfolding first_fit_def word_le_nat_alt by blast
  moreover have "size_2_bin sz = Ok (of_nat (unat w))" using w(1) by (simp only: of_nat_unat ucast_id)
  ultimately have "40 \<le> unat w" "unat w < 47" by linarith+
  then show ?thesis using \<open>unat sz \<le> usz (unat w)\<close> \<open>size_2_bin sz = Ok (of_nat (unat w))\<close> by blast
qed

text \<open>
  A request that cannot be met: its size class has no free object, and the operating system gives no chunk.
\<close>

definition out_of_chunks :: "u64 \<Rightarrow> 'a large_mem_scheme \<Rightarrow> bool" where
  "out_of_chunks sz m \<longleftrightarrow> (\<exists>b m1. size_2_bin sz = Ok b \<and> free_large_objects m ! unat (b - first_large_bin_number) = NULL \<and>
     mmap_chunk_aligned_block 1 m = Ok (NULL, m1))"

lemma large_malloc_step:
  assumes inv: "large_inv (live, m)" and sz: "largest_small < sz" "sz \<le> largest_large"
  shows "large_malloc sz m = Fault AssertFail \<and> out_of_chunks sz m \<or> (\<exists>r m'. large_malloc sz m = Ok (r, m') \<and> large_inv (live @ [(r, sz)], m'))"
proof -
  obtain L os where os: "large_ok L (set os) m" "distinct os" "list_all2 (owns m) live os" and fi: "fp_inv m"
    and g: "get_footprint m = sum_list (map (\<lambda>x. ucast (bytes_used (snd x))) live)" using inv by (auto simp: large_inv_def)
  obtain b where b: "size_2_bin sz = Ok (of_nat b)" "40 \<le> b" "b < 47" "unat sz \<le> usz b" using large_bin [OF sz] by blast
  obtain r m1 where r: "mmap_chunk_aligned_block 1 m = Ok (r, m1)" using aligned_block [of 1 m] by auto
  show ?thesis
  proof (cases "free_large_objects m ! (b - 40) = NULL \<and> r = NULL")
    case True
    then have "out_of_chunks sz m" using b(1) r bin_word(2) [OF b(2,3)] by (auto simp: out_of_chunks_def)
    then show ?thesis using True large_malloc_abort [OF os(1) b(1-3)] r by blast
  next
    case False
    then have "free_large_objects m ! (b - 40) \<noteq> NULL \<or> (\<exists>r m1. mmap_chunk_aligned_block 1 m = Ok (r, m1) \<and> r \<noteq> NULL)" using r by blast
    then obtain L' c i m' where p: "large_malloc sz m = Ok (obj c b i, m')" "(c, b, i) \<notin> set os" "large_ok L' (insert (c, b, i) (set os)) m'"
      "fp_inv m'" "get_footprint m' = get_footprint m + ucast (bytes_used sz)" "cell_footprint (cells m' (cell c i)) = bytes_used sz"
      "\<forall>x\<in>set os. cells m' (cell_of x) = cells m (cell_of x)"
      using large_malloc_ok [OF os(1) fi b(1-3)] by blast
    have "list_all2 (owns m') (live @ [(obj c b i, sz)]) (os @ [(c, b, i)])"
      using owns_all_frame [OF os(3) p(7)] p(6) b(4) by (intro list_all2_appendI) simp_all
    then have "large_inv (live @ [(obj c b i, sz)], m')" unfolding large_inv_def
      using p(2-5) os(2) g by (intro conjI exI [of _ L'] exI [of _ "os @ [(c, b, i)]"]) simp_all
    then show ?thesis using p(1) by blast
  qed
qed

lemma large_free_step:
  assumes inv: "large_inv (live, m)" and i: "i < length live"
  shows "\<exists>m'. large_free (fst (live ! i)) m = Ok m' \<and> large_inv (take i live @ drop (Suc i) live, m')"
proof -
  let ?f = "\<lambda>x. ucast (bytes_used (snd x)) :: u64"
  obtain L os where os: "large_ok L (set os) m" "distinct os" "list_all2 (owns m) live os" and fi: "fp_inv m"
    and g: "get_footprint m = sum_list (map ?f live)" using inv by (auto simp: large_inv_def)
  have io: "i < length os" "owns m (live ! i) (os ! i)" using os(3) i by (auto simp: list_all2_conv_all_nth)
  obtain c b k p sz where e: "os ! i = (c, b, k)" "live ! i = (p, sz)" by (metis prod_cases3 surj_pair)
  then have o: "(c, b, k) \<in> set os" "p = obj c b k" "cell_footprint (cells m (cell c k)) = bytes_used sz"
    using io nth_mem [OF io(1)] by auto
  obtain m' where m': "large_free (obj c b k) m = Ok m'" "large_ok L (set os - {(c, b, k)}) m'" "fp_inv m'"
    "get_footprint m' = get_footprint m - ucast (cell_footprint (cells m (cell c k)))"
    "\<forall>y\<in>set os - {(c, b, k)}. cells m' (cell_of y) = cells m (cell_of y)"
    using large_free_ok [OF os(1) fi o(1)] by blast
  note rem = remove_nth [OF io(1) os(2), unfolded e]
  have "list_all2 (owns m) (take i live @ drop (Suc i) live) (take i os @ drop (Suc i) os)"
    using os(3) by (intro list_all2_appendI) auto
  then have "list_all2 (owns m') (take i live @ drop (Suc i) live) (take i os @ drop (Suc i) os)"
    by (rule owns_all_frame) (unfold rem(1), rule m'(5))
  moreover have "sum_list (map ?f live) = ?f (live ! i) + sum_list (map ?f (take i live @ drop (Suc i) live))"
    using arg_cong [OF id_take_nth_drop [OF i], of "\<lambda>l. sum_list (map ?f l)"] by (simp add: add.left_commute)
  then have "get_footprint m' = sum_list (map ?f (take i live @ drop (Suc i) live))" using m'(4) g e(2) o(3) by simp
  ultimately have "large_inv (take i live @ drop (Suc i) live, m')" unfolding large_inv_def
    using m'(2,3) rem by (intro conjI exI [of _ L] exI [of _ "take i os @ drop (Suc i) os"]) (simp_all only: fst_conv snd_conv)
  then show ?thesis using m'(1) e(2) o(2) by auto
qed

lemma large_run_inv:
  "large_inv s \<Longrightarrow> list_all large_request_ok xs \<Longrightarrow>
   (\<exists>s'. large_run xs s = Ok s' \<and> large_inv s') \<or>
   (\<exists>ys sz zs live m. xs = ys @ Large_malloc sz # zs \<and> large_run ys s = Ok (live, m) \<and> out_of_chunks sz m \<and>
      large_run xs s = Fault AssertFail)"
proof (induction xs arbitrary: s)
  case (Cons x xs)
  obtain live m where s: "s = (live, m)" by force
  have "(\<exists>sz. x = Large_malloc sz \<and> out_of_chunks sz m \<and> large_step x s = Fault AssertFail) \<or> (\<exists>s1. large_step x s = Ok s1 \<and> large_inv s1)"
  proof (cases x)
    case (Large_malloc sz)
    then have "largest_small < sz" "sz \<le> largest_large" using Cons(3) by (simp_all add: large_request_ok_def)
    then show ?thesis using large_malloc_step [of live m sz] Cons(2) s Large_malloc by auto
  next
    case (Large_free i)
    then show ?thesis using large_free_step [of live m i] Cons(2) s by (cases "i < length live") auto
  qed
  then show ?case
  proof (elim disjE exE conjE)
    fix s1 assume s1: "large_step x s = Ok s1" "large_inv s1"
    have "list_all large_request_ok xs" using Cons(3) by simp
    from Cons(1) [OF s1(2) this] show ?thesis
    proof (elim disjE exE conjE)
      fix ys sz zs live1 m1
      assume "xs = ys @ Large_malloc sz # zs" "large_run ys s1 = Ok (live1, m1)" "out_of_chunks sz m1" "large_run xs s1 = Fault AssertFail"
      then show ?thesis using s1(1) by (intro disjI2 exI [of _ "x # ys"] exI [of _ sz] exI [of _ zs]) simp
    qed (use s1(1) in simp)
  next
    fix sz assume "x = Large_malloc sz" "out_of_chunks sz m" "large_step x s = Fault AssertFail"
    then show ?thesis using s by (intro disjI2 exI [of _ "[]"] exI [of _ sz] exI [of _ xs] exI [of _ live] exI [of _ m]) simp
  qed
qed simp

lemma object_extent:
  assumes ck: "chunks_ok L m" and x: "(c, b, i) \<in> objs L" and o: "owns m (p, sz) (c, b, i)"
  shows "pages_of p sz \<subseteq> os_pages m" "4096 dvd unat p"
    "z \<in> extent (p, sz) \<Longrightarrow> z div 2 ^ 21 = c \<and> (z - (c * 2 ^ 21 + 4096)) div usz b = i"
proof -
  note f = objs_facts [OF ck x]
  have u: "unat p = c * 2 ^ 21 + (4096 + i * usz b)" "unat sz \<le> usz b" using obj_facts(1) [OF f(4,1,2,5)] o by simp_all
  have bd: "4096 + (i * usz b + usz b) \<le> 2 ^ 21" using obj_bound [OF f(1,2,5)] by (simp add: add.commute)
  have "unat p + unat sz + 4095 \<le> (512 * c + 512) * 4096 + 4095" using u bd by simp
  then have "(unat p + unat sz + 4095) div 4096 \<le> ((512 * c + 512) * 4096 + 4095) div 4096" by (rule div_le_mono)
  moreover have "512 * c \<le> unat p div 4096" using u(1) by simp
  ultimately have "pages_of p sz \<subseteq> {512 * c..<512 * c + 512}" by (auto simp: pages_of_def)
  moreover have "{512 * c..<512 * c + 512} \<subseteq> os_pages m" using ck x unfolding chunks_ok_def objs_def by blast
  ultimately show "pages_of p sz \<subseteq> os_pages m" by blast
  have "(4096 :: nat) dvd c * 2 ^ 21" by (rule dvd_mult) simp
  then show "4096 dvd unat p" using large_row(3) [OF f(1,2)] unfolding u(1) by (intro dvd_add) auto
  assume "z \<in> extent (p, sz)"
  then obtain d where d: "z = c * 2 ^ 21 + 4096 + i * usz b + d" "d < usz b" using u
    by (metis (no_types, lifting) add.assoc atLeastLessThan_iff extent_def fst_conv le_add_diff_inverse less_diff_conv2 nat_add_left_cancel_less order_less_le_trans snd_conv)
  have "4096 + i * usz b + d < 2 ^ 21" using bd d(2) by linarith
  then have "z div 2 ^ 21 = c" unfolding d(1) by simp
  moreover have "(i * usz b + d) div usz b = i" using d(2) by simp
  ultimately show "z div 2 ^ 21 = c \<and> (z - (c * 2 ^ 21 + 4096)) div usz b = i" unfolding d(1) by simp
qed

lemma large_objects:
  assumes "large_inv (live, m)"
  shows "(p, sz) \<in> set live \<Longrightarrow> pages_of p sz \<subseteq> os_pages m \<and> 4096 dvd unat p \<and> large_footprint p m = Ok (ucast (bytes_used sz))"
    "sorted_wrt (\<lambda>x y. extent x \<inter> extent y = {}) live"
proof -
  obtain L os where os: "large_ok L (set os) m" "distinct os" "list_all2 (owns m) live os" using assms by (auto simp: large_inv_def)
  have ck: "chunks_ok L m" and sub: "set os \<subseteq> objs L" using os(1) by (auto simp: large_ok_def)
  have nth: "owns m (live ! i) (os ! i)" "os ! i \<in> set os" if "i < length live" for i
    using os(3) that by (auto simp: list_all2_conv_all_nth)
  show "pages_of p sz \<subseteq> os_pages m \<and> 4096 dvd unat p \<and> large_footprint p m = Ok (ucast (bytes_used sz))" if in_live: "(p, sz) \<in> set live"
  proof -
    obtain j where j: "j < length live" "live ! j = (p, sz)" using in_live by (metis in_set_conv_nth)
    obtain c b i where x: "os ! j = (c, b, i)" by (metis prod_cases3)
    have o: "owns m (p, sz) (c, b, i)" "(c, b, i) \<in> set os" using nth [OF j(1)] j(2) x by simp_all
    then show ?thesis using object_extent(1,2) [OF ck _ o(1)] sub large_footprint_ok [OF os(1) o(2)] by auto
  qed
  have "extent (live ! i) \<inter> extent (live ! j) = {}" if ij: "i < j" "j < length live" for i j
  proof -
    have len: "length live = length os" "i < length live" using os(3) ij list_all2_lengthD by (blast, linarith)
    obtain p sz p' sz' c b k c' b' k' where e: "live ! i = (p, sz)" "live ! j = (p', sz')" "os ! i = (c, b, k)" "os ! j = (c', b', k')"
      by (metis prod_cases3 surj_pair)
    have x: "(c, b, k) \<in> objs L" "owns m (p, sz) (c, b, k)" "(c', b', k') \<in> objs L" "owns m (p', sz') (c', b', k')"
      using nth [OF len(2)] nth [OF ij(2)] sub unfolding e by auto
    have ne: "(c, b, k) \<noteq> (c', b', k')" using nth_eq_iff_index_eq [OF os(2), of i j] ij len e(3,4) by auto
    have False if z: "z \<in> extent (p, sz)" "z \<in> extent (p', sz')" for z
    proof -
      have c: "c = c'" using object_extent(3) [OF ck x(1,2) z(1)] object_extent(3) [OF ck x(3,4) z(2)] by simp
      then have "b = b'" using ck x(1,3) unfolding chunks_ok_def objs_def by blast
      then have "k = k'" using c object_extent(3) [OF ck x(1,2) z(1)] object_extent(3) [OF ck x(3,4) z(2)] by simp
      then show False using c \<open>b = b'\<close> ne by simp
    qed
    then show ?thesis unfolding e by blast
  qed
  then show "sorted_wrt (\<lambda>x y. extent x \<inter> extent y = {}) live" by (simp add: sorted_wrt_iff_nth_less)
qed

text \<open>
  C39. Every sequence of \<open>large_malloc\<close> and \<open>large_free\<close>, whatever the operating system answers, runs to its end unless
  some \<open>large_malloc\<close> finds no free object in its size class and gets no chunk from the operating system, where it stops at
  the assertion that a chunk was mapped. At the end the objects the client owns are mapped, aligned to a page and
  pairwise disjoint, \<open>large_footprint\<close> returns for each of them its size rounded up to pages, and the counters of
  footprint.cpp add up to the sum of these, on whichever processors the thread ran.
\<close>

theorem large_sequences:
  assumes "list_all large_request_ok xs" "\<forall>c\<in>set cpus. 0 \<le> sint c"
  shows "(\<exists>live m. large_run xs ([], large_start script pages i cpus mem) = Ok (live, m) \<and>
      (\<forall>(p, sz)\<in>set live. pages_of p sz \<subseteq> os_pages m \<and> 4096 dvd unat p \<and> large_footprint p m = Ok (ucast (bytes_used sz))) \<and>
      sorted_wrt (\<lambda>x y. extent x \<inter> extent y = {}) live \<and>
      get_footprint m = sum_list (map (\<lambda>x. ucast (bytes_used (snd x))) live)) \<or>
    (\<exists>ys sz zs live m. xs = ys @ Large_malloc sz # zs \<and> large_run ys ([], large_start script pages i cpus mem) = Ok (live, m) \<and>
      out_of_chunks sz m \<and> large_run xs ([], large_start script pages i cpus mem) = Fault AssertFail)"
  using large_run_inv [OF large_start_inv assms(1), OF assms(2), of script pages i mem]
proof (elim disjE)
  assume "\<exists>s. large_run xs ([], large_start script pages i cpus mem) = Ok s \<and> large_inv s"
  then obtain live m where s: "large_run xs ([], large_start script pages i cpus mem) = Ok (live, m)" "large_inv (live, m)"
    by (metis surj_pair)
  then have "get_footprint m = sum_list (map (\<lambda>x. ucast (bytes_used (snd x))) live)" by (simp add: large_inv_def)
  then show ?thesis using large_objects [OF s(2)] s(1) by fast
qed blast

theorem large_sequences_witness:
  "(\<exists>p m. large_run [Large_malloc 20000] ([], large_start [0x200000] {} (\<lambda>_. 0) [3] (\<lambda>_. 0)) = Ok ([(p, 20000)], m) \<and>
      large_footprint p m = Ok 20480 \<and> get_footprint m = 20480) \<and>
   (\<exists>m. large_run [Large_malloc 20000, Large_free 0] ([], large_start [0x200000] {} (\<lambda>_. 0) [3] (\<lambda>_. 0)) = Ok ([], m) \<and>
      get_footprint m = 0)"
proof
  let ?s = "large_start [0x200000] {} (\<lambda>_. 0) [3] (\<lambda>_. 0)"
  have some: "\<not> out_of_chunks sz ?s" for sz
    by (auto simp: out_of_chunks_def mmap_chunk_aligned_block_def mmap_size_def os_mmap_def mmap_answer_def large_start_def
        chunksize_value offset_in_chunk_def)
  have bytes: "ucast (bytes_used 20000) = (20480 :: u64)" by (simp add: bytes_used_def pagesize_def ceil_def)
  have cpu: "\<forall>c\<in>set [3 :: i32]. 0 \<le> sint c" by simp
  have one: "[Large_malloc 20000] = ys @ Large_malloc sz # zs \<Longrightarrow> ys = []" for ys sz zs by (cases ys) simp_all
  have rng: "list_all large_request_ok [Large_malloc 20000]" "list_all large_request_ok [Large_malloc 20000, Large_free 0]"
    by (simp_all add: large_request_ok_def largest_small_def largest_large_def)
  show "\<exists>p m. large_run [Large_malloc 20000] ([], ?s) = Ok ([(p, 20000)], m) \<and> large_footprint p m = Ok 20480 \<and> get_footprint m = 20480"
    using large_sequences [OF rng(1) cpu, of "[0x200000]" "{}" "\<lambda>_. 0" "\<lambda>_. 0"]
  proof (elim disjE exE conjE)
    fix live m assume r: "large_run [Large_malloc 20000] ([], ?s) = Ok (live, m)"
      "\<forall>(p, sz)\<in>set live. pages_of p sz \<subseteq> os_pages m \<and> 4096 dvd unat p \<and> large_footprint p m = Ok (ucast (bytes_used sz))"
      "get_footprint m = sum_list (map (\<lambda>x. ucast (bytes_used (snd x))) live)"
    then obtain p where "live = [(p, 20000)]" by (auto simp: call_eq_Ok)
    then show ?thesis using r bytes by simp
  qed (use one some in fastforce)
  have two: "[Large_malloc 20000, Large_free 0] = ys @ Large_malloc sz # zs \<Longrightarrow> ys = []" for ys sz zs
    by (cases ys; cases "tl ys") auto
  show "\<exists>m. large_run [Large_malloc 20000, Large_free 0] ([], ?s) = Ok ([], m) \<and> get_footprint m = 0"
    using large_sequences [OF rng(2) cpu, of "[0x200000]" "{}" "\<lambda>_. 0" "\<lambda>_. 0"]
  proof (elim disjE exE conjE)
    fix live m assume r: "large_run [Large_malloc 20000, Large_free 0] ([], ?s) = Ok (live, m)"
      "get_footprint m = sum_list (map (\<lambda>x. ucast (bytes_used (snd x))) live)"
    then have "live = []" by (auto simp: call_eq_Ok)
    then show ?thesis using r by simp
  qed (use two some in fastforce)
qed

text \<open>
  C40. \<open>large_malloc\<close> returns an object whenever its size class has a free one or the operating system gives a chunk.
  Otherwise it aborts the program, where the other allocation functions return NULL.
\<close>

theorem large_malloc_returns:
  assumes inv: "large_inv (live, m)" and sz: "largest_small < sz" "sz \<le> largest_large"
    and b: "size_2_bin sz = Ok b" and r: "mmap_chunk_aligned_block 1 m = Ok (r, m1)"
  shows "if free_large_objects m ! unat (b - first_large_bin_number) = NULL \<and> r = NULL then large_malloc sz m = Fault AssertFail
    else \<exists>p m'. large_malloc sz m = Ok (p, m') \<and> large_footprint p m' = Ok (ucast (bytes_used sz))"
proof -
  obtain L os where os: "large_ok L (set os) m" and fi: "fp_inv m" using inv by (auto simp: large_inv_def)
  obtain n where n: "b = of_nat n" "40 \<le> n" "n < 47" using large_bin [OF sz] b by auto
  have b': "size_2_bin sz = Ok (of_nat n)" using b n(1) by simp
  have u: "unat (b - first_large_bin_number) = n - 40" using bin_word(2) [OF n(2,3)] n(1) by simp
  show ?thesis
  proof (cases "free_large_objects m ! (n - 40) = NULL \<and> r = NULL")
    case True
    then show ?thesis using large_malloc_abort [OF os b' n(2,3)] r u by auto
  next
    case False
    then have "free_large_objects m ! (n - 40) \<noteq> NULL \<or> (\<exists>r m1. mmap_chunk_aligned_block 1 m = Ok (r, m1) \<and> r \<noteq> NULL)" using r by blast
    then obtain L' c i m' where p: "large_malloc sz m = Ok (obj c n i, m')" "large_ok L' (insert (c, n, i) (set os)) m'"
      "cell_footprint (cells m' (cell c i)) = bytes_used sz"
      using large_malloc_ok [OF os fi b' n(2,3)] by blast
    then show ?thesis using False u large_footprint_ok [OF p(2), of c n i] by auto
  qed
qed

theorem large_malloc_returns_witness:
  "\<exists>p m'. large_malloc 20000 (large_start [0x200000] {} (\<lambda>_. 0) [3] (\<lambda>_. 0)) = Ok (p, m') \<and> large_footprint p m' = Ok 20480"
proof -
  let ?m = "large_start [0x200000] {} (\<lambda>_. 0) [3] (\<lambda>_. 0)"
  have inv: "large_inv ([], ?m)" by (rule large_start_inv) simp
  have rng: "largest_small < 20000" "20000 \<le> largest_large" by (simp_all add: largest_small_def largest_large_def)
  obtain b where b: "size_2_bin 20000 = Ok b" using large_bin [OF rng] by blast
  obtain m1 where m1: "mmap_chunk_aligned_block 1 ?m = Ok (0x200000, m1)"
    by (simp add: mmap_chunk_aligned_block_def mmap_size_def os_mmap_def mmap_answer_def large_start_def chunksize_value offset_in_chunk_def)
  have "\<exists>p m'. large_malloc 20000 ?m = Ok (p, m') \<and> large_footprint p m' = Ok (ucast (bytes_used 20000))"
    using large_malloc_returns [OF inv rng b m1] by simp
  moreover have "ucast (bytes_used 20000) = (20480 :: u64)" by (simp add: bytes_used_def pagesize_def ceil_def)
  ultimately show ?thesis by simp
qed

end
