(* ===== verification/Spec2Isabelle.thy ===== *)
theory Spec2Isabelle
  imports Freelist_Conc Stack Stack_Conc Queue Ringbuffer Slist Hashfunc Bloom Memtrie Hashmap Large
begin

text \<open>
  A verification of the C and C++ code of lockfreec: the lock-free containers of basic/, the
  trie, the hash map and the hash functions of advance/, and the chunk, huge-object and
  large-object layers of the SuperMalloc allocator in memory/. Paths are relative to src/.

  \<^bold>\<open>The program.\<close> basic/lf_basic.c wraps \<open>malloc\<close> and has the atomic primitives. On it stands the
  freelist, a list of elements whose head is a pointer with a counter, swapped by a double-word
  compare-and-swap. The stack and the queue draw their elements from a freelist, the ring buffer is
  made of a freelist and a queue, the singly linked list allocates its elements itself. The trie and
  the hash map of advance/ have pools of nodes of their own. The allocator of memory/ is independent
  of these: it gets blocks of 2 MiB chunks from the operating system (makechunk.cpp), hands out
  powers of two of them (huge_malloc.cpp), cuts single chunks into large objects (large_malloc.cpp)
  and counts the bytes in use (footprint.cpp); which size belongs to which class is a generated
  table (generated_constants.cpp).

  \<^bold>\<open>The shape of the model.\<close> A C function is a HOL function of the same name from its arguments and
  the memory to a \<open>res\<close>: \<open>Ok\<close> of the results and the new memory, or \<open>Fault\<close> with what goes wrong
  (\<open>AssertFail\<close>, \<open>BadDeref\<close>, \<open>BadFree\<close>, \<open>DivByZero\<close>, \<open>BadShift\<close>, \<open>Diverge\<close>). Structs are records, the
  heap has one partial map from addresses to records per struct, \<open>int\<close> and \<open>uint64_t\<close> are words that
  wrap, pointers are 64-bit words. A loop is \<open>cloop body\<close>, whose body answers \<open>Again\<close> or \<open>Done\<close>; a
  loop that never ends has the value \<open>Fault Diverge\<close>, so no fuel or bound is chosen anywhere, and a
  theorem that says \<open>= Ok\<close> says that the code returns. What the environment decides is an argument or
  a part of the state that theorems quantify over: the addresses \<open>malloc\<close> and \<open>mmap\<close> answer (lists
  of proposals, of which illegal ones count as failures), the contents of fresh memory (\<open>m_junk\<close>),
  the answers of \<open>sched_getcpu\<close>, and the client's callbacks.

  \<^bold>\<open>The theories.\<close>
  \<^item> \<open>Prelude\<close>: words, faults, the combinators (\<open>call\<close>, \<open>deref\<close>, \<open>c_assert\<close>, \<open>cloop\<close>) with their rules
    for total correctness, partial correctness and divergence, and lists linked in a heap (\<open>chain\<close>,
    \<open>seg\<close>).
  \<^item> \<open>CMem\<close>: basic/lf_basic.c. The blocks of \<open>aligned_malloc\<close> are aligned and lie within what
    \<open>malloc\<close> returned; allocation and release keep the state of the allocator consistent (\<open>heap_ok\<close>).
  \<^item> \<open>Validate\<close>: the validation loops that basic/ repeats per container (\<open>*_internal_validate\<close>). The
    search for a cycle ends on every list and finds exactly the cycles.
  \<^item> \<open>Pool\<close>, \<open>Container\<close>, \<open>Backed\<close>, \<open>Trace\<close>: the interfaces, as locales. \<open>lifo_pool\<close> is what the users of a
    freelist and of the node list of the trie rely on, \<open>bounded_container\<close> what the stack and the
    queue promise, \<open>backed_freelist\<close> what they give the freelist as initialiser and destructor,
    \<open>forward_simulation\<close> gives trace inclusion. Each is interpreted on the model's own functions.
  \<^item> \<open>Freelist\<close>: basic/lf_freelist.c run by one thread: sequences of operations, the life cycle,
    validation, failed allocations.
  \<^item> \<open>Tagged_List\<close>, \<open>Freelist_Conc\<close>, \<open>Stack_Conc\<close>: push and pop of the freelist and of the stack's list,
    one memory access at a time, any number of threads in any order, sequentially consistent memory.
    A forward simulation to an atomic list gives linearizability as long as fewer than \<open>2 ^ 64\<close> counters
    are drawn (after that the counter repeats), a measure gives lock-freedom with the bound of 12 steps
    per thread. \<open>freelist_pop_solo\<close> ties the machine to the sequential model.
  \<^item> \<open>Stack\<close>, \<open>Queue\<close>, \<open>Ringbuffer\<close>, \<open>Slist\<close>: the other files of basic/, every function, run by one thread.
    Refinement of sequences of operations to lists, what is freed, validation verdicts, errors.
  \<^item> \<open>Hashfunc\<close>, \<open>Bloom\<close>: advance/hashfunc/. The mixing steps are bijections, so keys of one length that
    differ in one block do not collide (the locale \<open>block_hash\<close>); the Bloom filter has no false
    negatives. Keys are shorter than \<open>2 ^ 31\<close> bytes where the source passes the length as an \<open>int\<close>;
    \<open>hashfunc\<close> in \<open>Bloom\<close> has the conversion for the others.
  \<^item> \<open>Memtrie\<close>: advance/lf_memtrie.c. Insertion and search refine a prefix-closed set of words with a
    number of spare nodes. The head of the node list is not initialised by the source: the invariant
    carries the word found there, and only running out of nodes needs it to be NULL.
  \<^item> \<open>Hashmap\<close>: advance/lf_hashmap.c. Addition and search refine a finite map. The sentinels of the two
    pools have links that the source does not initialise: they are never followed while the pools
    have entries. Also the defects of \<open>hash_free\<close>, \<open>hash_lookup\<close> and of an empty pool.
  \<^item> \<open>Sizeclass\<close>: memory/malloc_internal.h, generated_constants.h and .cpp and the address functions of
    malloc.cpp. The table is well formed, \<open>size_2_bin\<close> is first fit, division by multiplication is
    exact, \<open>object_base\<close> is exact.
  \<^item> \<open>Chunks\<close>: makechunk.cpp and huge_malloc.cpp. Exactly the pages of the block are mapped; in every
    sequence of allocations and frees the blocks are mapped, aligned and disjoint, for sizes up to
    \<open>2 ^ 47\<close>, and above that the array of lists is overrun.
  \<^item> \<open>Footprint\<close>, \<open>Large\<close>: footprint.cpp and large_malloc.cpp. The same for large objects, with the counters
    of the bytes in use; a run stops only where the operating system refuses a chunk.

  \<^bold>\<open>Bounds.\<close> \<open>2 ^ 64\<close> draws of a counter, \<open>2 ^ 30\<close> buckets of a hash map (an \<open>int\<close> holds their number), keys
  below \<open>2 ^ 31\<close> bytes, and huge requests up to \<open>2 ^ 47\<close> bytes are limits of the code itself, shown
  sharp where the code goes wrong beyond them. The sizes of the two pools of a hash map are
  parameters (\<open>hash_new_sized\<close>); the source has 30000000 for both.

  \<^bold>\<open>Not modelled.\<close> Interleavings other than those of the freelist and the stack; weaker memory orders
  than sequential consistency. Undefined behaviour is a fault where the model can see it (NULL, freed
  or foreign memory, division, shifts) and otherwise has the result of the usual hardware. Of memory/
  the entry points of malloc.cpp, the small objects, the caches, locks, hardware transactions and
  statistics are left out; \<open>bassert\<close> is an assertion and a critical section a call. The floating-point
  computation of the size of a Bloom filter is a parameter. advance/lf_binarytree.c is unfinished
  (its insertion is a stub). bench/, btree/, hash/, moody/, mwcas/, persist/ and sandbox/ are other
  programs, mostly third-party C++; cases/, tests/ and compare/ are test drivers.
\<close>

end
